(* ===== verification/Prelude.thy ===== *)
theory Prelude
  imports Complex_Main "HOL-Library.Word" "HOL-Library.AList"
begin

text \<open>
  What the components share: results that may be an error, JavaScript maps as association lists
  in insertion order, the interface such a store promises, and the invariant rule for a
  component that is driven by a list of operations.
\<close>

unbundle bit_operations_syntax

named_theorems js_map_simps \<open>equations of the insertion-ordered map operations\<close>

named_theorems result_elims \<open>inversion of results that are errors or values\<close>

section \<open>Results\<close>

text \<open>
  A JavaScript function that can throw returns \<open>Inl e\<close> for the thrown error and
  \<open>Inr v\<close> for the value it returns.
\<close>

type_synonym ('e, 'a) result = "'e + 'a"

primrec res_bind :: "('e, 'a) result \<Rightarrow> ('a \<Rightarrow> ('e, 'b) result) \<Rightarrow> ('e, 'b) result" where
  "res_bind (Inl e) f = Inl e"
| "res_bind (Inr v) f = f v"

lemma res_bind_Inr_iff: "res_bind r f = Inr y \<longleftrightarrow> (\<exists>v. r = Inr v \<and> f v = Inr y)"
  by (cases r) auto

lemma res_bind_Inl_iff: "res_bind r f = Inl e \<longleftrightarrow> r = Inl e \<or> (\<exists>v. r = Inr v \<and> f v = Inl e)"
  by (cases r) auto

lemma res_bindE [result_elims]:
  assumes "res_bind r f = Inr y"
  obtains v where "r = Inr v" and "f v = Inr y"
  using assms by (cases r) auto

text \<open>A \<open>for ... of\<close> loop whose body can throw: the first error ends it.\<close>

fun res_fold :: "('s \<Rightarrow> 'a \<Rightarrow> ('e, 's) result) \<Rightarrow> 's \<Rightarrow> 'a list \<Rightarrow> ('e, 's) result" where
  "res_fold f s [] = Inr s"
| "res_fold f s (x # xs) = res_bind (f s x) (\<lambda>s'. res_fold f s' xs)"

lemma res_fold_invariant:
  assumes "res_fold f s xs = Inr t" and "P s"
    and "\<And>s x s'. P s \<Longrightarrow> x \<in> set xs \<Longrightarrow> f s x = Inr s' \<Longrightarrow> P s'"
  shows "P t"
  using assms
proof (induction xs arbitrary: s)
  case Nil
  then show ?case by simp
next
  case (Cons x xs)
  from Cons.prems(1) obtain s' where s': "f s x = Inr s'" and rest: "res_fold f s' xs = Inr t"
    by (cases "f s x") auto
  have "P s'" by (rule Cons.prems(3) [OF Cons.prems(2) _ s']) simp
  with rest show ?case by (rule Cons.IH) (rule Cons.prems(3); simp)
qed

lemma res_fold_append:
  "res_fold f s (xs @ ys) = res_bind (res_fold f s xs) (\<lambda>t. res_fold f t ys)"
proof (induction xs arbitrary: s)
  case Nil
  then show ?case by simp
next
  case (Cons x xs)
  then show ?case by (cases "f s x") simp_all
qed

lemma res_fold_error: "res_fold f s xs = Inl e \<Longrightarrow> \<exists>s' x. x \<in> set xs \<and> f s' x = Inl e"
  by (induction xs arbitrary: s) (force simp: res_bind_Inl_iff)+

lemma res_fold_all:
  assumes "res_fold f s xs = Inr t" and "P s"
    and "\<And>s x s'. P s \<Longrightarrow> x \<in> set xs \<Longrightarrow> f s x = Inr s' \<Longrightarrow> P s' \<and> Q x"
  shows "P t \<and> (\<forall>x \<in> set xs. Q x)"
  using assms
proof (induction xs arbitrary: s)
  case (Cons x xs)
  from Cons.prems(1) obtain s' where s': "f s x = Inr s'" "res_fold f s' xs = Inr t" by (auto simp: res_bind_Inr_iff)
  have one: "P s' \<and> Q x" by (rule Cons.prems(3) [OF Cons.prems(2) _ s'(1)]) simp
  have "P t \<and> (\<forall>x \<in> set xs. Q x)" by (rule Cons.IH [OF s'(2)]) (use one Cons.prems(3) in auto)
  then show ?case using one by simp
qed simp

lemma res_fold_concat:
  "res_fold (\<lambda>s x. if P x then res_fold f s (h x) else Inr s) s xs = res_fold f s (concat (map h (filter P xs)))"
  by (induction xs arbitrary: s) (auto simp: res_fold_append)

section \<open>JavaScript maps\<close>

text \<open>
  A \<open>Map\<close> (and an object used as a dictionary) iterates in insertion order; \<open>set\<close> on a key
  that is present keeps its position. That is an association list without duplicate keys
  under \<^const>\<open>AList.update\<close> and \<^const>\<open>AList.delete\<close>.
\<close>

type_synonym ('k, 'v) js_map = "('k \<times> 'v) list"

abbreviation map_has :: "('k, 'v) js_map \<Rightarrow> 'k \<Rightarrow> bool" where
  "map_has m k \<equiv> map_of m k \<noteq> None"

abbreviation map_keys :: "('k, 'v) js_map \<Rightarrow> 'k list" where
  "map_keys m \<equiv> map fst m"

abbreviation map_ok :: "('k, 'v) js_map \<Rightarrow> bool" where
  "map_ok m \<equiv> distinct (map fst m)"

text \<open>The interface of a keyed store, as its clients use it.\<close>

locale keyed_store =
  fixes lookup :: "'m \<Rightarrow> 'k \<Rightarrow> 'v option"
    and put :: "'k \<Rightarrow> 'v \<Rightarrow> 'm \<Rightarrow> 'm"
    and del :: "'k \<Rightarrow> 'm \<Rightarrow> 'm"
    and ok :: "'m \<Rightarrow> bool"
  assumes lookup_put: "lookup (put k v m) k' = (if k' = k then Some v else lookup m k')"
    and lookup_del: "lookup (del k m) k' = (if k' = k then None else lookup m k')"
    and ok_put: "ok m \<Longrightarrow> ok (put k v m)"
    and ok_del: "ok m \<Longrightarrow> ok (del k m)"
begin

lemma lookup_put_same: "lookup (put k v m) k = Some v"
  by (simp add: lookup_put)

lemma lookup_put_other: "k' \<noteq> k \<Longrightarrow> lookup (put k v m) k' = lookup m k'"
  by (simp add: lookup_put)

lemma lookup_del_same: "lookup (del k m) k = None"
  by (simp add: lookup_del)

lemma lookup_del_put: "lookup (del k (put k v m)) k' = lookup (del k m) k'"
  by (simp add: lookup_put lookup_del)

lemma lookup_fold_put:
  "lookup (fold (\<lambda>(k, v). put k v) kvs m) x =
    (case map_of (rev kvs) x of None \<Rightarrow> lookup m x | Some v \<Rightarrow> Some v)"
  by (induction kvs arbitrary: m) (auto simp: lookup_put map_add_def split: option.splits)

lemma ok_fold_put: "ok m \<Longrightarrow> ok (fold (\<lambda>(k, v). put k v) kvs m)"
  by (induction kvs arbitrary: m) (auto intro: ok_put)

end

interpretation js_map: keyed_store map_of AList.update AList.delete
  "\<lambda>m :: ('k, 'v) js_map. map_ok m"
  by unfold_locales (auto simp: update_conv' delete_conv' distinct_update distinct_delete)

lemmas js_map_lookups [js_map_simps] = js_map.lookup_put js_map.lookup_del

lemma map_keys_update_fresh [js_map_simps]:
  "map_of m k = None \<Longrightarrow> AList.update k v m = m @ [(k, v)]"
  by (induction m) (auto split: if_splits)

lemma map_of_None_iff: "map_of m k = None \<longleftrightarrow> k \<notin> set (map_keys m)"
  by (simp add: map_of_eq_None_iff)

lemma set_keys_update: "set (map_keys (AList.update k v m)) = insert k (set (map_keys m))"
  by (metis dom_update image_set insert_is_Un)

lemma mem_delete: "p \<in> set (AList.delete k m) \<Longrightarrow> p \<in> set m"
  by (auto simp: AList.delete_eq)

text \<open>
  Reading a map through a function whose value is summed: what a store of reservations is
  worth after one of them leaves.
\<close>

lemma sum_list_delete:
  fixes f :: "'v \<Rightarrow> nat"
  assumes "map_ok m" and "map_of m k = Some v"
  shows "sum_list (map (f \<circ> snd) m) = f v + sum_list (map (f \<circ> snd) (AList.delete k m))"
  using assms
proof (induction m)
  case Nil
  then show ?case by simp
next
  case (Cons p m)
  show ?case
  proof (cases "fst p = k")
    case True
    with Cons.prems have "k \<notin> fst ` set m" and "snd p = v" by auto
    with True show ?thesis by simp
  next
    case False
    with Cons show ?thesis by simp
  qed
qed

lemma sum_list_append_entry:
  "sum_list (map (f \<circ> snd) (m @ [(k, v)])) = sum_list (map (f \<circ> snd) m) + (f v :: nat)"
  by simp

section \<open>Components driven by operations\<close>

text \<open>
  A component is a state and a total operation \<open>exec\<close> (a thrown error leaves the state the code
  leaves). What every operation keeps holds after any sequence of them.
\<close>

locale driven =
  fixes exec :: "'s \<Rightarrow> 'o \<Rightarrow> 's"
    and inv :: "'s \<Rightarrow> bool"
  assumes exec_inv: "inv s \<Longrightarrow> inv (exec s x)"
begin

lemma run_inv: "inv s \<Longrightarrow> inv (foldl exec s xs)"
  by (induction xs arbitrary: s) (auto intro: exec_inv)

lemma run_inv_prefix: "inv s \<Longrightarrow> xs = ys @ zs \<Longrightarrow> inv (foldl exec s ys)"
  by (rule run_inv)

end

end
