(* ===== verification/JsSort.thy ===== *)
theory JsSort
  imports Prelude "HOL-Library.Multiset"
begin

text \<open>
  \<open>Array.prototype.sort\<close> with a comparator that returns a number: the array is sorted stably.
  For a comparator that is a total preorder the stable result is unique, so the insertion sort
  below is that result whatever algorithm the engine uses.
\<close>

fun insert_by :: "('a \<Rightarrow> 'a \<Rightarrow> int) \<Rightarrow> 'a \<Rightarrow> 'a list \<Rightarrow> 'a list" where
  "insert_by cmp x [] = [x]"
| "insert_by cmp x (y # ys) = (if cmp x y \<le> 0 then x # y # ys else y # insert_by cmp x ys)"

fun sort_by :: "('a \<Rightarrow> 'a \<Rightarrow> int) \<Rightarrow> 'a list \<Rightarrow> 'a list" where
  "sort_by cmp [] = []"
| "sort_by cmp (x # xs) = insert_by cmp x (sort_by cmp xs)"

lemma mset_insert_by [simp]: "mset (insert_by cmp x ys) = add_mset x (mset ys)"
  by (induction ys) auto

lemma mset_sort_by [simp]: "mset (sort_by cmp xs) = mset xs"
  by (induction xs) auto

lemma set_sort_by [simp]: "set (sort_by cmp xs) = set xs"
  by (metis mset_sort_by set_mset_mset)

lemma length_sort_by [simp]: "length (sort_by cmp xs) = length xs"
  by (metis mset_sort_by size_mset)

lemma distinct_sort_by [simp]: "distinct (sort_by cmp xs) \<longleftrightarrow> distinct xs"
  by (metis mset_sort_by mset_eq_imp_distinct_iff)

text \<open>
  JavaScript chains comparators with \<open>||\<close>: the first that is not zero decides.
\<close>

definition cmp_or :: "int \<Rightarrow> int \<Rightarrow> int" where
  "cmp_or c d = (if c \<noteq> 0 then c else d)"

definition cmp_int :: "int \<Rightarrow> int \<Rightarrow> int" where
  "cmp_int a b = a - b"

text \<open>The laws of a comparator, and what sorting by a lawful one gives.\<close>

locale comparator_laws =
  fixes cmp :: "'a \<Rightarrow> 'a \<Rightarrow> int"
  assumes cmp_flip: "cmp y x \<le> 0 \<longleftrightarrow> 0 \<le> cmp x y"
    and cmp_trans: "cmp x y \<le> 0 \<Longrightarrow> cmp y z \<le> 0 \<Longrightarrow> cmp x z \<le> 0"
begin

lemma cmp_refl: "cmp x x = 0"
  using cmp_flip [of x x] by linarith

lemma cmp_total: "cmp x y \<le> 0 \<or> cmp y x \<le> 0"
  using cmp_flip [of x y] by linarith

lemma sorted_insert_by:
  "sorted_wrt (\<lambda>a b. cmp a b \<le> 0) ys \<Longrightarrow> sorted_wrt (\<lambda>a b. cmp a b \<le> 0) (insert_by cmp x ys)"
proof (induction ys)
  case Nil
  then show ?case by simp
next
  case (Cons y ys)
  show ?case
  proof (cases "cmp x y \<le> 0")
    case True
    with Cons.prems show ?thesis by (auto intro: cmp_trans)
  next
    case False
    then have "cmp y x \<le> 0" using cmp_total by blast
    moreover have "set (insert_by cmp x ys) = insert x (set ys)"
      by (metis mset_insert_by set_mset_add_mset_insert set_mset_mset)
    ultimately show ?thesis using False Cons by auto
  qed
qed

lemma sorted_sort_by: "sorted_wrt (\<lambda>a b. cmp a b \<le> 0) (sort_by cmp xs)"
  by (induction xs) (auto intro: sorted_insert_by)

lemma insert_by_le: "\<forall>y \<in> set ys. cmp x y \<le> 0 \<Longrightarrow> insert_by cmp x ys = x # ys"
  by (cases ys) auto

lemma sort_by_sorted: "sorted_wrt (\<lambda>a b. cmp a b \<le> 0) xs \<Longrightarrow> sort_by cmp xs = xs"
  by (induction xs) (auto simp: insert_by_le)

text \<open>Stability: elements the comparator does not separate keep their order.\<close>

lemma filter_insert_by:
  assumes "sorted_wrt (\<lambda>a b. cmp a b \<le> 0) ys"
  shows "filter (\<lambda>z. cmp z k = 0) (insert_by cmp x ys) = filter (\<lambda>z. cmp z k = 0) (x # ys)"
  using assms
proof (induction ys)
  case Nil
  then show ?case by simp
next
  case (Cons y ys)
  show ?case
  proof (cases "cmp x y \<le> 0")
    case True
    then show ?thesis by simp
  next
    case False
    have "\<not> (cmp x k = 0 \<and> cmp y k = 0)"
    proof
      assume "cmp x k = 0 \<and> cmp y k = 0"
      then have "cmp x k \<le> 0" and "cmp k y \<le> 0" using cmp_flip [of k y] by auto
      then have "cmp x y \<le> 0" by (rule cmp_trans)
      with False show False by simp
    qed
    with False Cons show ?thesis by auto
  qed
qed

lemma sort_by_stable:
  "filter (\<lambda>z. cmp z k = 0) (sort_by cmp xs) = filter (\<lambda>z. cmp z k = 0) xs"
  by (induction xs) (auto simp: filter_insert_by sorted_sort_by)

text \<open>
  When equal rank means equal element, the result depends only on which elements there are,
  not on the order they arrived in.
\<close>

lemma sorted_perm_unique:
  assumes "\<And>x y. x \<in> set xs \<Longrightarrow> y \<in> set xs \<Longrightarrow> cmp x y = 0 \<Longrightarrow> x = y"
    and "mset xs = mset ys"
    and "sorted_wrt (\<lambda>a b. cmp a b \<le> 0) xs" and "sorted_wrt (\<lambda>a b. cmp a b \<le> 0) ys"
  shows "xs = ys"
  using assms
proof (induction xs arbitrary: ys)
  case Nil
  then show ?case by simp
next
  case (Cons x xs)
  then obtain y zs where ys: "ys = y # zs" by (cases ys) auto
  have sets: "set (x # xs) = set ys" using Cons.prems(2) by (metis set_mset_mset)
  have "cmp x y \<le> 0"
    using Cons.prems(3) sets ys cmp_refl by (metis list.set_intros(1) order_refl set_ConsD sorted_wrt.simps(2))
  moreover have "cmp y x \<le> 0"
    using Cons.prems(4) sets ys cmp_refl by (metis list.set_intros(1) order_refl set_ConsD sorted_wrt.simps(2))
  ultimately have "cmp x y = 0" using cmp_flip [of y x] by linarith
  then have xy: "x = y" using Cons.prems(1) sets ys by (metis list.set_intros(1))
  have "xs = zs"
    by (rule Cons.IH) (use Cons.prems ys xy in auto)
  with xy ys show ?case by simp
qed

lemma sort_by_unique:
  assumes "\<And>x y. x \<in> set xs \<Longrightarrow> y \<in> set xs \<Longrightarrow> cmp x y = 0 \<Longrightarrow> x = y"
    and "mset xs = mset ys"
  shows "sort_by cmp xs = sort_by cmp ys"
  by (rule sorted_perm_unique) (use assms in \<open>auto intro: sorted_sort_by\<close>)

end

text \<open>Building lawful comparators from lawful parts.\<close>

lemma comparator_laws_flip0: "comparator_laws c \<Longrightarrow> c x y = 0 \<longleftrightarrow> c y x = 0"
  unfolding comparator_laws_def by (metis dual_order.antisym order_refl)

lemma comparator_laws_strict:
  assumes "comparator_laws c" and "c x y \<le> 0" and "c y z \<le> 0" and "c x z = 0"
  shows "c x y = 0 \<and> c y z = 0"
proof -
  have flip: "\<And>x y. c y x \<le> 0 \<longleftrightarrow> 0 \<le> c x y"
    and trans: "\<And>x y z. c x y \<le> 0 \<Longrightarrow> c y z \<le> 0 \<Longrightarrow> c x z \<le> 0"
    using assms(1) unfolding comparator_laws_def by blast+
  have zx: "c z x \<le> 0" using flip assms(4) by simp
  have "c y x \<le> 0" and "c z y \<le> 0"
    using trans [OF assms(3) zx] trans [OF zx assms(2)] by auto
  then show ?thesis using flip assms(2,3) by (meson antisym)
qed

lemma comparator_laws_or:
  assumes c: "comparator_laws c" and d: "comparator_laws d"
  shows "comparator_laws (\<lambda>x y. cmp_or (c x y) (d x y))"
proof
  fix x y z
  have flip: "c y x \<le> 0 \<longleftrightarrow> 0 \<le> c x y" "d y x \<le> 0 \<longleftrightarrow> 0 \<le> d x y" "c x y = 0 \<longleftrightarrow> c y x = 0"
    using c d comparator_laws_flip0 [OF c] unfolding comparator_laws_def by blast+
  show "cmp_or (c y x) (d y x) \<le> 0 \<longleftrightarrow> 0 \<le> cmp_or (c x y) (d x y)"
    using flip by (auto simp: cmp_or_def)
  assume xy: "cmp_or (c x y) (d x y) \<le> 0" and yz: "cmp_or (c y z) (d y z) \<le> 0"
  have cxy: "c x y \<le> 0" and cyz: "c y z \<le> 0"
    using xy yz by (auto simp: cmp_or_def split: if_splits)
  have cxz: "c x z \<le> 0" using c cxy cyz unfolding comparator_laws_def by blast
  show "cmp_or (c x z) (d x z) \<le> 0"
  proof (cases "c x z = 0")
    case True
    from comparator_laws_strict [OF c cxy cyz True] xy yz have "d x y \<le> 0" "d y z \<le> 0"
      by (auto simp: cmp_or_def)
    then have "d x z \<le> 0" using d unfolding comparator_laws_def by blast
    with True show ?thesis by (simp add: cmp_or_def)
  next
    case False
    with cxz show ?thesis by (simp add: cmp_or_def)
  qed
qed

lemma comparator_laws_int: "comparator_laws (\<lambda>x y. cmp_int (f x) (f y))"
  by unfold_locales (auto simp: cmp_int_def)

lemma comparator_laws_pull: "comparator_laws c \<Longrightarrow> comparator_laws (\<lambda>x y. c (f x) (f y))"
  unfolding comparator_laws_def by blast

interpretation int_order: comparator_laws cmp_int
  by (rule comparator_laws_int [of id, simplified])

end
