(* ===== verification/JsText.thy ===== *)
theory JsText
  imports JsSort "HOL-Library.Log_Nat"
begin

text \<open>
  JavaScript text and integer-valued numbers. A string is its list of UTF-16 code units. A
  number that holds a non-negative integer is a \<open>nat\<close>: exact below \<open>2 ^ 53\<close> and rounded to a
  53-bit significand, ties to even, above.
\<close>

type_synonym js_string = "16 word list"

section \<open>Integer-valued numbers\<close>

definition round53 :: "nat \<Rightarrow> nat" where
  "round53 n =
    (if n < 2 ^ 53 then n
     else let e = floorlog 2 n - 53; q = n div 2 ^ e; r = n mod 2 ^ e; h = 2 ^ (e - 1)
       in (if h < r \<or> (r = h \<and> odd q) then Suc q else q) * 2 ^ e)"

lemma round53_exact [simp]: "n < 2 ^ 53 \<Longrightarrow> round53 n = n"
  by (simp add: round53_def)

text \<open>Rounding moves a number by at most one part in \<open>2 ^ 53\<close>.\<close>

lemma floorlog_pow_le: "0 < n \<Longrightarrow> 2 ^ (floorlog 2 n - 1) \<le> n"
  using floorlog_bounds [of n 2] by simp

lemma round53_upper: "(round53 n - n) * 2 ^ 53 \<le> n"
proof (cases "n < 2 ^ 53")
  case True
  then show ?thesis by simp
next
  case False
  define e where "e = floorlog 2 n - 53"
  have fl: "54 \<le> floorlog 2 n"
  proof (rule ccontr)
    assume "\<not> 54 \<le> floorlog 2 n"
    then have "(2 :: nat) ^ floorlog 2 n \<le> 2 ^ 53" by (intro power_increasing) auto
    moreover have "n < 2 ^ floorlog 2 n" using floorlog_bounds [of n 2] False by auto
    ultimately show False using False by linarith
  qed
  then have e: "0 < e" and fe: "floorlog 2 n - 1 = 52 + e" by (auto simp: e_def)
  have ndm: "n div 2 ^ e * 2 ^ e + n mod 2 ^ e = n" by (rule div_mult_mod_eq)
  have half: "2 * 2 ^ (e - 1) = (2 :: nat) ^ e" using e by (cases e) auto
  have "round53 n \<le> n + 2 ^ (e - 1)"
  proof (cases "2 ^ (e - 1) < n mod 2 ^ e \<or> (n mod 2 ^ e = 2 ^ (e - 1) \<and> odd (n div 2 ^ e))")
    case True
    then have r: "round53 n = Suc (n div 2 ^ e) * 2 ^ e" and h: "2 ^ (e - 1) \<le> n mod 2 ^ e"
      using False by (auto simp: round53_def Let_def e_def)
    have "round53 n = n div 2 ^ e * 2 ^ e + 2 ^ e" using r by simp
    then show ?thesis using ndm half h by linarith
  next
    case c: False
    then have "round53 n = n div 2 ^ e * 2 ^ e"
      using False by (auto simp: round53_def Let_def e_def)
    then show ?thesis using ndm by linarith
  qed
  then have "round53 n - n \<le> 2 ^ (e - 1)" by linarith
  then have "(round53 n - n) * 2 ^ 53 \<le> 2 ^ (e - 1) * 2 ^ 53" by (rule mult_le_mono1)
  also have "\<dots> = 2 ^ ((e - 1) + 53)" by (simp only: power_add)
  also have "(e - 1) + 53 = 52 + e" using e by arith
  also have "2 ^ (52 + e) \<le> n" using floorlog_pow_le [of n] False unfolding fe by auto
  finally show ?thesis .
qed

text \<open>Scaling a 32-bit fraction never reaches the scale.\<close>

lemma round53_scaled_below:
  assumes "u < 2 ^ 32" and "0 < m"
  shows "round53 (u * m) div 2 ^ 32 < m"
proof -
  have um: "u * m + m \<le> 2 ^ 32 * m"
    using assms(1) by (metis Suc_leI add.commute mult_Suc mult_le_mono1)
  have up: "(round53 (u * m) - u * m) * 2 ^ 53 \<le> u * m" by (rule round53_upper)
  have "2 ^ 32 * m \<le> 2 ^ 53 * m" by (intro mult_le_mono1 power_increasing) auto
  then have "(round53 (u * m) - u * m) * 2 ^ 53 < 2 ^ 53 * m"
    using up um assms(2) by linarith
  then have "round53 (u * m) - u * m < m" by simp
  then have "round53 (u * m) < 2 ^ 32 * m" using um by linarith
  then show ?thesis by (simp add: less_mult_imp_div_less mult.commute)
qed

section \<open>UTF-8\<close>

text \<open>
  \<open>TextEncoder.encode\<close>: surrogate pairs are joined to one code point, a lone surrogate becomes
  U+FFFD. Bytes are numbers below 256.
\<close>

definition is_high :: "nat \<Rightarrow> bool" where
  "is_high u \<longleftrightarrow> 0xD800 \<le> u \<and> u < 0xDC00"

definition is_low :: "nat \<Rightarrow> bool" where
  "is_low u \<longleftrightarrow> 0xDC00 \<le> u \<and> u < 0xE000"

fun code_points :: "nat list \<Rightarrow> nat list" where
  "code_points [] = []"
| "code_points [u] = [if is_high u \<or> is_low u then 0xFFFD else u]"
| "code_points (u # v # us) =
    (if is_high u \<and> is_low v then (0x10000 + (u - 0xD800) * 0x400 + (v - 0xDC00)) # code_points us
     else (if is_high u \<or> is_low u then 0xFFFD else u) # code_points (v # us))"

definition utf8_char :: "nat \<Rightarrow> nat list" where
  "utf8_char p =
    (if p < 0x80 then [p]
     else if p < 0x800 then [0xC0 + p div 0x40, 0x80 + p mod 0x40]
     else if p < 0x10000 then [0xE0 + p div 0x1000, 0x80 + p div 0x40 mod 0x40, 0x80 + p mod 0x40]
     else [0xF0 + p div 0x40000, 0x80 + p div 0x1000 mod 0x40, 0x80 + p div 0x40 mod 0x40,
       0x80 + p mod 0x40])"

definition utf8_encode :: "js_string \<Rightarrow> nat list" where
  "utf8_encode s = concat (map utf8_char (code_points (map unat s)))"

text \<open>
  \<open>app/math/compareUtf8.js\<close> (and the same loop in \<open>PluginSelection.js\<close> and
  \<open>HostPacketOrdering.js\<close>): the first differing byte decides, then the length.
\<close>

fun compareUtf8Bytes :: "nat list \<Rightarrow> nat list \<Rightarrow> int" where
  "compareUtf8Bytes (x # xs) (y # ys) =
    (if x \<noteq> y then int x - int y else compareUtf8Bytes xs ys)"
| "compareUtf8Bytes xs ys = int (length xs) - int (length ys)"

definition compareUtf8 :: "js_string \<Rightarrow> js_string \<Rightarrow> int" where
  "compareUtf8 l r = compareUtf8Bytes (utf8_encode l) (utf8_encode r)"

lemma compareUtf8Bytes_flip: "compareUtf8Bytes ys xs = - compareUtf8Bytes xs ys"
  by (induction xs ys rule: compareUtf8Bytes.induct) auto

lemma compareUtf8Bytes_eq0: "compareUtf8Bytes xs ys = 0 \<longleftrightarrow> xs = ys"
  by (induction xs ys rule: compareUtf8Bytes.induct) auto

lemma compareUtf8Bytes_trans:
  "compareUtf8Bytes xs ys \<le> 0 \<Longrightarrow> compareUtf8Bytes ys zs \<le> 0 \<Longrightarrow> compareUtf8Bytes xs zs \<le> 0"
proof (induction xs arbitrary: ys zs)
  case Nil
  then show ?case by (cases zs) auto
next
  case (Cons x xs)
  then obtain y ys' where ys: "ys = y # ys'" by (cases ys) auto
  with Cons.prems obtain z zs' where "zs = z # zs'" by (cases zs) auto
  with Cons ys show ?case by (auto split: if_splits)
qed

lemma compareUtf8Bytes_laws: "comparator_laws compareUtf8Bytes"
proof
  show "compareUtf8Bytes y x \<le> 0 \<longleftrightarrow> 0 \<le> compareUtf8Bytes x y" for x y
    by (subst compareUtf8Bytes_flip) simp
qed (rule compareUtf8Bytes_trans)

interpretation utf8_order: comparator_laws compareUtf8
  unfolding compareUtf8_def by (rule comparator_laws_pull [OF compareUtf8Bytes_laws])

text \<open>For ASCII text the encoding is the text, so equal rank is equal text.\<close>

definition ascii :: "js_string \<Rightarrow> bool" where
  "ascii s \<longleftrightarrow> (\<forall>u \<in> set s. unat u < 128)"

lemma code_points_ascii: "\<forall>u \<in> set us. u < 128 \<Longrightarrow> code_points us = us"
  by (induction us rule: code_points.induct) (auto simp: is_high_def is_low_def)

lemma utf8_encode_ascii: "ascii s \<Longrightarrow> utf8_encode s = map unat s"
proof -
  assume a: "ascii s"
  then have "code_points (map unat s) = map unat s"
    by (intro code_points_ascii) (auto simp: ascii_def)
  moreover have "concat (map utf8_char (map unat s)) = map unat s"
    using a by (induction s) (auto simp: utf8_char_def ascii_def)
  ultimately show ?thesis by (simp add: utf8_encode_def)
qed

lemma compareUtf8_ascii_eq: "ascii a \<Longrightarrow> ascii b \<Longrightarrow> compareUtf8 a b = 0 \<Longrightarrow> a = b"
  by (auto simp: compareUtf8_def compareUtf8Bytes_eq0 utf8_encode_ascii
    dest!: map_injective [OF _ injI [OF word_unat_eq_iff [THEN iffD2]]])

end
