(* ===== verification/SeededRandom.thy ===== *)
theory SeededRandom
  imports JsText
begin

text \<open>
  The deterministic random streams: \<open>app/util/SeededRNG.js\<close> and \<open>app/plugin/PluginRandom.js\<close>.
  Bitwise operators work on \<open>32 word\<close>; the state field is a JavaScript number that only ever
  grows by \<open>0x6d2b79f5\<close>, so it is a \<open>nat\<close> rounded by \<^const>\<open>round53\<close>. A draw is represented by
  its 32-bit numerator: the code returns it divided by \<open>2 ^ 32\<close>.
\<close>

section \<open>Seeds and the output function\<close>

definition hash_step :: "32 word \<Rightarrow> 16 word \<Rightarrow> 32 word" where
  "hash_step hash c =
    (let mixed = (hash XOR ucast c) * 3432918353
     in push_bit 13 mixed OR drop_bit 19 mixed)"

definition hashSeed :: "js_string \<Rightarrow> nat" where
  "hashSeed text = unat (foldl hash_step 1779033703 text)"

definition mulberry :: "32 word \<Rightarrow> 32 word" where
  "mulberry t =
    (let t1 = (t XOR drop_bit 15 t) * (t OR 1);
         t2 = t1 XOR (t1 + (t1 XOR drop_bit 7 t1) * (t1 OR 61))
     in t2 XOR drop_bit 14 t2)"

definition rng_increment :: nat where
  "rng_increment = 0x6d2b79f5"

lemma hashSeed_bound: "hashSeed text < 2 ^ 32"
  using unsigned_less [of "foldl hash_step 1779033703 text"] by (simp add: hashSeed_def)

section \<open>SeededRNG\<close>

record seeded_rng =
  rng_state :: nat

definition new_SeededRNG :: "js_string \<Rightarrow> seeded_rng" where
  "new_SeededRNG seed = \<lparr>rng_state = hashSeed seed\<rparr>"

definition rng_next :: "seeded_rng \<Rightarrow> 32 word \<times> seeded_rng" where
  "rng_next g =
    (let s = round53 (rng_state g + rng_increment)
     in (mulberry (of_nat s), g\<lparr>rng_state := s\<rparr>))"

text \<open>The number \<open>next()\<close> returns.\<close>

definition unit_value :: "32 word \<Rightarrow> rat" where
  "unit_value w = of_nat (unat w) / 4294967296"

text \<open>
  \<open>Math.floor(this.next() * max)\<close> for an integer \<open>max\<close>: the product is rounded before the floor.
\<close>

definition scale_floor :: "32 word \<Rightarrow> int \<Rightarrow> int" where
  "scale_floor w m =
    (let p = round53 (unat w * nat \<bar>m\<bar>)
     in if 0 \<le> m then int (p div 2 ^ 32) else - int ((p + (2 ^ 32 - 1)) div 2 ^ 32))"

definition rng_int :: "int \<Rightarrow> seeded_rng \<Rightarrow> int \<times> seeded_rng" where
  "rng_int m g = (let (w, g') = rng_next g in (scale_floor w m, g'))"

definition rng_intRange :: "int \<Rightarrow> int \<Rightarrow> seeded_rng \<Rightarrow> int \<times> seeded_rng" where
  "rng_intRange lo hi g = (let (k, g') = rng_int (hi - lo + 1) g in (lo + k, g'))"

text \<open>\<open>pick\<close> returns \<open>undefined\<close> (\<^const>\<open>None\<close>) for an empty list or an index out of range.\<close>

definition js_index :: "'a list \<Rightarrow> int \<Rightarrow> 'a option" where
  "js_index xs i = (if 0 \<le> i \<and> i < int (length xs) then Some (xs ! nat i) else None)"

definition rng_pick :: "'a list \<Rightarrow> seeded_rng \<Rightarrow> 'a option \<times> seeded_rng" where
  "rng_pick xs g =
    (if xs = [] then (None, g)
     else let (i, g') = rng_int (int (length xs)) g in (js_index xs i, g'))"

lemma unit_value_bounds: "0 \<le> unit_value w \<and> unit_value w < 1"
proof -
  have "unat w < 2 ^ 32" using unsigned_less [of w] by simp
  then have "(of_nat (unat w) :: rat) < of_nat (2 ^ 32)" by (simp only: of_nat_less_iff)
  then show ?thesis unfolding unit_value_def by (simp del: of_nat_unat)
qed

lemma scale_floor_range:
  assumes "0 < m"
  shows "0 \<le> scale_floor w m \<and> scale_floor w m < m"
proof -
  have "unat w < 2 ^ 32" using unsigned_less [of w] by simp
  then have "round53 (unat w * nat m) div 2 ^ 32 < nat m"
    by (rule round53_scaled_below) (use assms in simp)
  then show ?thesis using assms by (simp add: scale_floor_def Let_def nat_less_iff [symmetric] zless_nat_conj)
qed

lemma rng_int_range: "0 < m \<Longrightarrow> rng_int m g = (k, g') \<Longrightarrow> 0 \<le> k \<and> k < m"
  using scale_floor_range by (auto simp: rng_int_def split: prod.splits)

text \<open>
  \<open>intRange(min, max)\<close> returns an integer within its inclusive bounds, for every state of the
  generator and with the rounding of the product taken into account.
\<close>

theorem intRange_in_bounds:
  assumes "lo \<le> hi"
  shows "lo \<le> fst (rng_intRange lo hi g) \<and> fst (rng_intRange lo hi g) \<le> hi"
proof -
  obtain k g' where k: "rng_int (hi - lo + 1) g = (k, g')" by (cases "rng_int (hi - lo + 1) g")
  have "0 \<le> k \<and> k < hi - lo + 1" by (rule rng_int_range [OF _ k]) (use assms in simp)
  then show ?thesis by (simp add: rng_intRange_def k)
qed

theorem intRange_in_bounds_witness:
  "(3 :: int) \<le> 9 \<and> 3 \<le> fst (rng_intRange 3 9 (new_SeededRNG [52, 50]))
    \<and> fst (rng_intRange 3 9 (new_SeededRNG [52, 50])) \<le> 9"
  using intRange_in_bounds [of 3 9 "new_SeededRNG [52, 50]"] by simp

lemma rng_pick_member: "xs \<noteq> [] \<Longrightarrow> \<exists>x \<in> set xs. fst (rng_pick xs g) = Some x"
proof -
  assume ne: "xs \<noteq> []"
  obtain k g' where k: "rng_int (int (length xs)) g = (k, g')" by (cases "rng_int (int (length xs)) g")
  have "0 \<le> k \<and> k < int (length xs)" by (rule rng_int_range [OF _ k]) (use ne in simp)
  then show ?thesis using ne k by (auto simp: rng_pick_def js_index_def)
qed

section \<open>PluginRandom: one stream per key\<close>

record random_stream =
  initialState :: nat
  stream_state :: nat

definition new_RandomStream :: "js_string \<Rightarrow> random_stream" where
  "new_RandomStream seed = \<lparr>initialState = hashSeed seed, stream_state = hashSeed seed\<rparr>"

definition stream_next :: "random_stream \<Rightarrow> 32 word \<times> random_stream" where
  "stream_next st =
    (let s = round53 (stream_state st + rng_increment)
     in (mulberry (of_nat s), st\<lparr>stream_state := s\<rparr>))"

record plugin_random =
  resetSeed :: js_string
  streams :: "(js_string, random_stream) js_map"

definition new_PluginRandom :: "js_string \<Rightarrow> plugin_random" where
  "new_PluginRandom seed = \<lparr>resetSeed = seed, streams = []\<rparr>"

definition pr_stream :: "js_string \<Rightarrow> plugin_random \<Rightarrow> random_stream \<times> plugin_random" where
  "pr_stream key r =
    (case map_of (streams r) key of
       Some st \<Rightarrow> (st, r)
     | None \<Rightarrow> let st = new_RandomStream (resetSeed r @ [0] @ key)
         in (st, r\<lparr>streams := AList.update key st (streams r)\<rparr>))"

definition pr_next :: "js_string \<Rightarrow> plugin_random \<Rightarrow> 32 word \<times> plugin_random" where
  "pr_next key r =
    (let (st, r1) = pr_stream key r; (w, st') = stream_next st
     in (w, r1\<lparr>streams := AList.update key st' (streams r1)\<rparr>))"

definition pr_snapshot :: "plugin_random \<Rightarrow> (js_string, nat) js_map" where
  "pr_snapshot r = map (\<lambda>(key, st). (key, stream_state st mod 2 ^ 32))
    (sort_by (\<lambda>(l, _) (r, _). compareUtf8 l r) (streams r))"

definition pr_restore_one :: "js_string \<times> nat \<Rightarrow> plugin_random \<Rightarrow> plugin_random" where
  "pr_restore_one entry r =
    (let (st, r1) = pr_stream (fst entry) r
     in r1\<lparr>streams := AList.update (fst entry) (st\<lparr>stream_state := snd entry mod 2 ^ 32\<rparr>) (streams r1)\<rparr>)"

definition pr_restore :: "(js_string, nat) js_map \<Rightarrow> plugin_random \<Rightarrow> plugin_random" where
  "pr_restore snap r =
    fold pr_restore_one snap
      (r\<lparr>streams := filter (\<lambda>(key, _). key \<in> set (map_keys snap)) (streams r)\<rparr>)"

definition pr_reset :: "js_string \<Rightarrow> plugin_random \<Rightarrow> plugin_random" where
  "pr_reset seed r = r\<lparr>resetSeed := seed, streams := []\<rparr>"

text \<open>What a key sequence draws.\<close>

fun pr_draws :: "js_string list \<Rightarrow> plugin_random \<Rightarrow> 32 word list" where
  "pr_draws [] r = []"
| "pr_draws (k # ks) r = (let (w, r') = pr_next k r in w # pr_draws ks r')"


text \<open>
  Two generators agree when they share the reset seed and hold, key by key, states that are
  congruent modulo \<open>2 ^ 32\<close>: the output function reads nothing else. They stay in step as long
  as no state reaches \<open>2 ^ 53\<close>, where the increment starts to be rounded.
\<close>

definition pr_state :: "plugin_random \<Rightarrow> js_string \<Rightarrow> nat option" where
  "pr_state r k = map_option (\<lambda>st. stream_state st mod 2 ^ 32) (map_of (streams r) k)"

definition pr_agree :: "plugin_random \<Rightarrow> plugin_random \<Rightarrow> bool" where
  "pr_agree r r' \<longleftrightarrow> resetSeed r = resetSeed r' \<and> pr_state r = pr_state r'"

definition pr_headroom :: "nat \<Rightarrow> plugin_random \<Rightarrow> bool" where
  "pr_headroom n r \<longleftrightarrow>
    (\<forall>k st. map_of (streams r) k = Some st \<longrightarrow> stream_state st + n * rng_increment < 2 ^ 53)"

lemma pr_headroom_weaken:
  "pr_headroom (Suc n) r \<Longrightarrow> map_of (streams r) k = Some st \<Longrightarrow>
    stream_state st + n * rng_increment < 2 ^ 53"
proof -
  assume "pr_headroom (Suc n) r" and "map_of (streams r) k = Some st"
  then have "stream_state st + Suc n * rng_increment < 2 ^ 53" by (simp add: pr_headroom_def)
  then show "stream_state st + n * rng_increment < 2 ^ 53" by simp
qed

lemma pr_stream_state:
  "pr_stream k r = (st, r1) \<Longrightarrow>
    resetSeed r1 = resetSeed r \<and> map_of (streams r1) = (map_of (streams r))(k \<mapsto> st)
    \<and> (map_of (streams r) k = Some st
      \<or> map_of (streams r) k = None \<and> st = new_RandomStream (resetSeed r @ [0] @ k))"
  by (auto simp: pr_stream_def Let_def update_conv' split: option.splits)

lemma pr_next_state:
  assumes "pr_next k r = (w, r')"
  obtains st where "map_of (streams r) k = Some st
      \<or> map_of (streams r) k = None \<and> st = new_RandomStream (resetSeed r @ [0] @ k)"
    and "w = mulberry (of_nat (round53 (stream_state st + rng_increment)))"
    and "map_of (streams r') = (map_of (streams r))(k \<mapsto>
      st\<lparr>stream_state := round53 (stream_state st + rng_increment)\<rparr>)"
    and "resetSeed r' = resetSeed r"
  using assms pr_stream_state [of k r]
  by (auto simp: pr_next_def stream_next_def Let_def update_conv' split: prod.splits)

lemma pr_agree_next:
  assumes agree: "pr_agree r r'" and room: "pr_headroom (Suc n) r" "pr_headroom (Suc n) r'"
    and fresh: "2 ^ 32 + Suc n * rng_increment \<le> 2 ^ 53"
    and nx: "pr_next k r = (w, r1)" "pr_next k r' = (w', r1')"
  shows "w = w' \<and> pr_agree r1 r1' \<and> pr_headroom n r1 \<and> pr_headroom n r1'"
proof -
  obtain st where st: "map_of (streams r) k = Some st
      \<or> map_of (streams r) k = None \<and> st = new_RandomStream (resetSeed r @ [0] @ k)"
    and w: "w = mulberry (of_nat (round53 (stream_state st + rng_increment)))"
    and m: "map_of (streams r1) = (map_of (streams r))(k \<mapsto>
      st\<lparr>stream_state := round53 (stream_state st + rng_increment)\<rparr>)"
    and s: "resetSeed r1 = resetSeed r"
    by (rule pr_next_state [OF nx(1)])
  obtain st' where st': "map_of (streams r') k = Some st'
      \<or> map_of (streams r') k = None \<and> st' = new_RandomStream (resetSeed r' @ [0] @ k)"
    and w': "w' = mulberry (of_nat (round53 (stream_state st' + rng_increment)))"
    and m': "map_of (streams r1') = (map_of (streams r'))(k \<mapsto>
      st'\<lparr>stream_state := round53 (stream_state st' + rng_increment)\<rparr>)"
    and s': "resetSeed r1' = resetSeed r'"
    by (rule pr_next_state [OF nx(2)])
  have new: "stream_state (new_RandomStream x) < 2 ^ 32" for x
    using hashSeed_bound [of x] by (simp add: new_RandomStream_def)
  have small: "stream_state st + Suc n * rng_increment < 2 ^ 53"
    using st room(1) fresh new [of "resetSeed r @ [0] @ k"] by (auto simp: pr_headroom_def)
  have small': "stream_state st' + Suc n * rng_increment < 2 ^ 53"
    using st' room(2) fresh new [of "resetSeed r' @ [0] @ k"] by (auto simp: pr_headroom_def)
  have keys: "pr_state r k = pr_state r' k" using agree by (simp add: pr_agree_def)
  then have cong: "stream_state st mod 2 ^ 32 = stream_state st' mod 2 ^ 32"
    using st st' agree by (auto simp: pr_state_def pr_agree_def)
  have ex: "round53 (stream_state st + rng_increment) = stream_state st + rng_increment"
    "round53 (stream_state st' + rng_increment) = stream_state st' + rng_increment"
    using small small' by auto
  have cong2: "(stream_state st + rng_increment) mod 2 ^ 32
      = (stream_state st' + rng_increment) mod 2 ^ 32"
    using cong by (rule mod_add_cong) simp
  then have "(of_nat (stream_state st + rng_increment) :: 32 word)
      = of_nat (stream_state st' + rng_increment)"
    by (simp only: word_of_nat_eq_iff take_bit_eq_mod len_bit0 len_num1) simp
  then have "w = w'" by (simp only: w w' ex)
  moreover have "pr_agree r1 r1'"
    using agree cong2 by (auto simp: pr_agree_def pr_state_def fun_eq_iff m m' s s' ex)
  moreover have "pr_headroom n r1" "pr_headroom n r1'"
    using small small' pr_headroom_weaken [OF room(1)] pr_headroom_weaken [OF room(2)]
    unfolding pr_headroom_def m m' ex by (auto split: if_splits)
  ultimately show ?thesis by simp
qed

lemma pr_agree_draws:
  assumes "pr_agree r r'" and "pr_headroom (length ks) r" and "pr_headroom (length ks) r'"
    and "2 ^ 32 + length ks * rng_increment \<le> 2 ^ 53"
  shows "pr_draws ks r = pr_draws ks r'"
  using assms
proof (induction ks arbitrary: r r')
  case Nil
  then show ?case by simp
next
  case (Cons k ks)
  obtain w r1 w' r1' where n: "pr_next k r = (w, r1)" "pr_next k r' = (w', r1')"
    by (meson surj_pair)
  have "w = w' \<and> pr_agree r1 r1' \<and> pr_headroom (length ks) r1 \<and> pr_headroom (length ks) r1'"
    by (rule pr_agree_next [OF Cons.prems(1) _ _ _ n]) (use Cons.prems in simp_all)
  moreover have "2 ^ 32 + length ks * rng_increment \<le> 2 ^ 53" using Cons.prems(4) by simp
  ultimately show ?case using Cons.IH n by simp
qed


lemma map_fst_map_val: "map fst (map (\<lambda>(k, v). (k, f v)) xs) = map fst xs"
  by (induction xs) auto

lemma map_ok_mset: "map_ok xs \<Longrightarrow> mset ys = mset xs \<Longrightarrow> map_ok ys"
  by (metis mset_map mset_eq_imp_distinct_iff)

lemma map_of_mset_eq:
  assumes "map_ok xs" and "mset ys = mset xs"
  shows "map_of ys = map_of xs"
proof -
  have "map_ok ys" using assms by (rule map_ok_mset)
  moreover have "set ys = set xs" using assms(2) by (metis set_mset_mset)
  ultimately show ?thesis using assms(1) map_of_inject_set by blast
qed

lemma pr_snapshot_lookup:
  assumes "map_ok (streams r)"
  shows "map_of (pr_snapshot r) = pr_state r" and "map_ok (pr_snapshot r)"
proof -
  let ?xs = "sort_by (\<lambda>(l, _) (r, _). compareUtf8 l r) (streams r)"
  have mo: "map_of ?xs = map_of (streams r)" by (rule map_of_mset_eq [OF assms]) simp
  show "map_of (pr_snapshot r) = pr_state r"
  proof
    fix k
    have "map_of (pr_snapshot r) = map_option (\<lambda>st. stream_state st mod 2 ^ 32) \<circ> map_of ?xs"
      unfolding pr_snapshot_def by (rule map_of_map)
    then show "map_of (pr_snapshot r) k = pr_state r k"
      by (simp only: mo pr_state_def comp_apply)
  qed
  have "map_ok ?xs" by (rule map_ok_mset [OF assms]) simp
  then show "map_ok (pr_snapshot r)" unfolding pr_snapshot_def by (simp only: map_fst_map_val)
qed

definition pr_small_on :: "js_string set \<Rightarrow> plugin_random \<Rightarrow> bool" where
  "pr_small_on K r \<longleftrightarrow>
    (\<forall>k st. k \<in> K \<longrightarrow> map_of (streams r) k = Some st \<longrightarrow> stream_state st < 2 ^ 32)"

lemma pr_restore_one_effect:
  "resetSeed (pr_restore_one (k, s) r) = resetSeed r"
  "pr_state (pr_restore_one (k, s) r) = (pr_state r)(k \<mapsto> s mod 2 ^ 32)"
  "pr_small_on K r \<Longrightarrow> pr_small_on (insert k K) (pr_restore_one (k, s) r)"
proof -
  obtain st r1 where p: "pr_stream k r = (st, r1)" by (cases "pr_stream k r")
  note e = pr_stream_state [OF p]
  show "resetSeed (pr_restore_one (k, s) r) = resetSeed r"
    using e by (simp add: pr_restore_one_def p)
  show "pr_state (pr_restore_one (k, s) r) = (pr_state r)(k \<mapsto> s mod 2 ^ 32)"
    using e by (auto simp: pr_restore_one_def p pr_state_def fun_eq_iff update_conv')
  show "pr_small_on K r \<Longrightarrow> pr_small_on (insert k K) (pr_restore_one (k, s) r)"
    using e by (auto simp: pr_restore_one_def p pr_small_on_def update_conv' split: if_splits)
qed

lemma pr_restore_fold_effect:
  assumes "pr_small_on K r"
  shows "resetSeed (fold pr_restore_one snap r) = resetSeed r
    \<and> pr_state (fold pr_restore_one snap r) =
      (\<lambda>x. case map_of (rev snap) x of None \<Rightarrow> pr_state r x | Some s \<Rightarrow> Some (s mod 2 ^ 32))
    \<and> pr_small_on (K \<union> set (map_keys snap)) (fold pr_restore_one snap r)"
  using assms
proof (induction snap arbitrary: r K)
  case Nil
  then show ?case by simp
next
  case (Cons e snap)
  obtain k s where e: "e = (k, s)" by (cases e)
  have "pr_small_on (insert k K) (pr_restore_one (k, s) r)"
    using Cons.prems by (rule pr_restore_one_effect)
  from Cons.IH [OF this] show ?case
    by (auto simp: e pr_restore_one_effect fun_eq_iff map_add_def split: option.splits)
qed

lemma pr_restore_effect:
  assumes "map_ok snap" and "\<forall>s \<in> snd ` set snap. s < 2 ^ 32"
  shows "resetSeed (pr_restore snap r) = resetSeed r"
    and "pr_state (pr_restore snap r) = map_of snap"
    and "pr_small_on UNIV (pr_restore snap r)"
proof -
  let ?r0 = "r\<lparr>streams := filter (\<lambda>(key, _). key \<in> set (map_keys snap)) (streams r)\<rparr>"
  have keep: "pr_state ?r0 x = None" if "map_of snap x = None" for x
    using that by (force simp: pr_state_def map_of_eq_None_iff)
  have f: "resetSeed (pr_restore snap r) = resetSeed ?r0
    \<and> pr_state (pr_restore snap r) =
      (\<lambda>x. case map_of (rev snap) x of None \<Rightarrow> pr_state ?r0 x | Some s \<Rightarrow> Some (s mod 2 ^ 32))
    \<and> pr_small_on ({} \<union> set (map_keys snap)) (pr_restore snap r)"
    unfolding pr_restore_def by (rule pr_restore_fold_effect) (simp add: pr_small_on_def)
  have rv: "map_of (rev snap) = map_of snap"
    by (rule map_of_mset_eq [OF assms(1)]) simp
  show "resetSeed (pr_restore snap r) = resetSeed r" using f by simp
  show st: "pr_state (pr_restore snap r) = map_of snap"
  proof
    fix x
    show "pr_state (pr_restore snap r) x = map_of snap x"
    proof (cases "map_of snap x")
      case None
      then show ?thesis using f keep rv by simp
    next
      case (Some s)
      then have "s < 2 ^ 32" using assms(2) by (metis image_eqI map_of_SomeD snd_conv)
      then show ?thesis using f rv Some by simp
    qed
  qed
  show "pr_small_on UNIV (pr_restore snap r)"
    unfolding pr_small_on_def
  proof (intro allI impI)
    fix k st
    assume l: "map_of (streams (pr_restore snap r)) k = Some st"
    then have "map_of snap k \<noteq> None" using st by (metis option.map_disc_iff option.simps(3) pr_state_def)
    then have "k \<in> set (map_keys snap)" by (simp add: map_of_eq_None_iff)
    then show "stream_state st < 2 ^ 32" using f l by (simp add: pr_small_on_def)
  qed
qed

lemma pr_snapshot_small: "\<forall>s \<in> snd ` set (pr_snapshot r). s < 2 ^ 32"
  by (auto simp: pr_snapshot_def)

text \<open>A generator after a sequence of draws, and what holds of it.\<close>

fun pr_after :: "js_string list \<Rightarrow> plugin_random \<Rightarrow> plugin_random" where
  "pr_after [] r = r"
| "pr_after (k # ks) r = pr_after ks (snd (pr_next k r))"

lemma pr_after_ok: "map_ok (streams r) \<Longrightarrow> map_ok (streams (pr_after ks r))"
proof (induction ks arbitrary: r)
  case (Cons k ks)
  have "map_ok (streams (snd (pr_next k r)))"
    using Cons.prems by (auto simp: pr_next_def pr_stream_def Let_def distinct_update split: prod.split option.splits)
  then show ?case by (simp add: Cons.IH)
qed simp

lemma pr_after_seed: "resetSeed (pr_after ks r) = resetSeed r"
proof (induction ks arbitrary: r)
  case (Cons k ks)
  have "resetSeed (snd (pr_next k r)) = resetSeed r"
    by (auto simp: pr_next_def pr_stream_def Let_def split: prod.split option.splits)
  then show ?case by (simp add: Cons.IH)
qed simp

lemma pr_after_headroom:
  "pr_headroom (length ks + n) r \<Longrightarrow> 2 ^ 32 + (length ks + n) * rng_increment \<le> 2 ^ 53 \<Longrightarrow> pr_headroom n (pr_after ks r)"
proof (induction ks arbitrary: r)
  case (Cons k ks)
  obtain w r1 where n: "pr_next k r = (w, r1)" by fastforce
  have agree: "pr_agree r r" by (simp add: pr_agree_def)
  have "pr_headroom (length ks + n) r1"
    using pr_agree_next [OF agree _ _ _ n n, of "length ks + n"] Cons.prems by simp
  then show ?case using Cons.IH [of r1] Cons.prems(2) by (simp add: n)
qed simp

lemma pr_draws_append: "pr_draws (ks @ ls) r = pr_draws ks r @ pr_draws ls (pr_after ks r)"
  by (induction ks arbitrary: r) (auto split: prod.split)

text \<open>
  C17. Restoring a snapshot gives back the randomness: a generator with the same reset seed,
  whatever it had drawn before, draws after \<open>restore(snapshot())\<close> exactly what the original
  draws, for every key sequence, up to the point where a state would reach \<open>2 ^ 53\<close>.
\<close>

theorem snapshot_restores_draws:
  assumes "map_ok (streams r)" and "resetSeed r0 = resetSeed r"
    and "pr_headroom (length ks) r" and "2 ^ 32 + length ks * rng_increment \<le> 2 ^ 53"
  shows "pr_draws ks (pr_restore (pr_snapshot r) r0) = pr_draws ks r"
proof (rule pr_agree_draws)
  note eff = pr_restore_effect [OF pr_snapshot_lookup(2) [OF assms(1)] pr_snapshot_small, of r0]
  show "pr_agree (pr_restore (pr_snapshot r) r0) r"
    using eff(1,2) pr_snapshot_lookup(1) [OF assms(1)] assms(2) by (simp add: pr_agree_def)
  show "pr_headroom (length ks) (pr_restore (pr_snapshot r) r0)"
    unfolding pr_headroom_def
  proof (intro allI impI)
    fix k st
    assume "map_of (streams (pr_restore (pr_snapshot r) r0)) k = Some st"
    then have "stream_state st < 2 ^ 32" using eff(3) by (simp add: pr_small_on_def)
    then show "stream_state st + length ks * rng_increment < 2 ^ 53" using assms(4) by linarith
  qed
qed (use assms in simp_all)

text \<open>
  Three draws from two streams, restored onto a generator that had drawn from another stream and further from one of
  them: the draws go on where the snapshot was taken.
\<close>

definition drawn :: plugin_random where
  "drawn = pr_after [[1], [2], [1]] (new_PluginRandom [7])"

definition elsewhere :: plugin_random where
  "elsewhere = pr_after [[3], [2], [2]] (new_PluginRandom [7])"

lemma drawn_streams: "map fst (streams drawn) = [[1], [2]]" "map fst (streams elsewhere) = [[3], [2]]"
  by (simp_all add: drawn_def elsewhere_def pr_next_def pr_stream_def Let_def new_PluginRandom_def stream_next_def)

theorem snapshot_restores_draws_witness:
  "map fst (streams drawn) = [[1], [2]] \<and> map fst (streams elsewhere) = [[3], [2]]
    \<and> pr_draws [[1], [2]] (pr_restore (pr_snapshot drawn) elsewhere) = pr_draws [[1], [2]] drawn
    \<and> pr_draws [[1], [2], [1], [1], [2]] (new_PluginRandom [7])
      = pr_draws [[1], [2], [1]] (new_PluginRandom [7]) @ pr_draws [[1], [2]] (pr_restore (pr_snapshot drawn) elsewhere)"
proof -
  have fresh: "map_ok (streams (new_PluginRandom [7]))"
    by (simp add: new_PluginRandom_def)
  have same: "resetSeed elsewhere = resetSeed drawn" unfolding drawn_def elsewhere_def pr_after_seed ..
  have start: "pr_headroom (length [[1], [2], [1 :: 16 word]] + 2) (new_PluginRandom [7])"
    by (simp only: pr_headroom_def new_PluginRandom_def plugin_random.simps map_of.simps) simp
  have "pr_headroom 2 (pr_after [[1], [2], [1]] (new_PluginRandom [7]))"
    by (rule pr_after_headroom [OF start]) (simp add: rng_increment_def)
  then have room: "pr_headroom (length [[1], [2 :: 16 word]]) drawn" unfolding drawn_def by (simp only: list.size add_Suc add_0 One_nat_def numeral_2_eq_2)
  have eq: "pr_draws [[1], [2]] (pr_restore (pr_snapshot drawn) elsewhere) = pr_draws [[1], [2]] drawn"
    by (rule snapshot_restores_draws [OF _ same room])
      (simp_all add: drawn_def pr_after_ok [OF fresh] rng_increment_def del: pr_after.simps)
  moreover have "pr_draws ([[1], [2], [1]] @ [[1], [2]]) (new_PluginRandom [7])
      = pr_draws [[1], [2], [1]] (new_PluginRandom [7]) @ pr_draws [[1], [2]] drawn"
    unfolding pr_draws_append drawn_def ..
  ultimately show ?thesis using drawn_streams by (simp del: pr_draws.simps pr_after.simps)
qed

text \<open>
  Beyond that point the guarantee fails: a live stream whose state has passed \<open>2 ^ 53\<close> adds a
  rounded increment, the restored one an exact increment, and their next draws differ.
\<close>

theorem snapshot_diverges_past_2_53:
  "\<exists>r k. map_ok (streams r)
    \<and> pr_draws [k] (pr_restore (pr_snapshot r) r) \<noteq> pr_draws [k] r"
proof -
  let ?r = "\<lparr>resetSeed = [], streams = [([], \<lparr>initialState = 0, stream_state = 9007199254740990\<rparr>)]\<rparr>"
  have rounded: "round53 9007201086306803 = 9007201086306804"
    by (simp add: round53_def compute_floorlog Let_def)
  have differ: "mulberry (word_of_nat 9007201086306804) \<noteq> mulberry (word_of_nat 6126533107)"
    by (simp add: mulberry_def Let_def)
  have live: "pr_draws [[]] ?r = [mulberry (word_of_nat 9007201086306804)]"
    by (simp add: pr_next_def pr_stream_def stream_next_def rng_increment_def rounded)
  have "pr_draws [[]] (pr_restore (pr_snapshot ?r) ?r) = [mulberry (word_of_nat 6126533107)]"
    by (simp add: pr_snapshot_def pr_restore_def pr_restore_one_def pr_next_def pr_stream_def
      stream_next_def rng_increment_def)
  then have "pr_draws [[]] (pr_restore (pr_snapshot ?r) ?r) \<noteq> pr_draws [[]] ?r"
    using differ live by auto
  moreover have "map_ok (streams ?r)" by simp
  ultimately show ?thesis by blast
qed

end
