(* ===== verification/Ledgers.thy ===== *)
theory Ledgers
  imports Prelude
begin

text \<open>
  Byte budgets and permits of the visual layer and the bake pipeline:
  \<open>VisualMemoryLedger.js\<close>, \<open>BakeMemoryLedger.js\<close>, \<open>VisualWorkQueue.js\<close> under
  \<open>app/3d/environment/\<close> and \<open>server/storage/visual-assets/semaphore.js\<close>. Byte counts are naturals:
  every sum the code compares stays below \<open>2 ^ 53\<close> as long as the ceilings do.
\<close>

section \<open>What a ledger promises\<close>

text \<open>
  A ledger is driven by operations, never exceeds its ceiling, and is empty when nothing is
  reserved.
\<close>

locale byte_ledger = driven exec inv for exec :: "'s \<Rightarrow> 'o \<Rightarrow> 's" and inv :: "'s \<Rightarrow> bool" +
  fixes used_bytes :: "'s \<Rightarrow> nat"
    and ceiling :: "'s \<Rightarrow> nat"
    and live :: "'s \<Rightarrow> nat"
  assumes inv_bounded: "inv s \<Longrightarrow> used_bytes s \<le> ceiling s"
    and inv_empty: "inv s \<Longrightarrow> live s = 0 \<Longrightarrow> used_bytes s = 0"
    and exec_ceiling: "inv s \<Longrightarrow> ceiling (exec s x) = ceiling s"
begin

lemma run_ceiling: "inv s \<Longrightarrow> ceiling (foldl exec s xs) = ceiling s"
  by (induction xs arbitrary: s) (auto simp: exec_ceiling exec_inv)

lemma run_bounded: "inv s \<Longrightarrow> used_bytes (foldl exec s xs) \<le> ceiling s"
  using inv_bounded [OF run_inv] run_ceiling by metis

lemma run_no_leak: "inv s \<Longrightarrow> live (foldl exec s xs) = 0 \<Longrightarrow> used_bytes (foldl exec s xs) = 0"
  by (rule inv_empty [OF run_inv])

end

section \<open>VisualMemoryLedger\<close>

datatype mem_kind = EncodedCpu | DecodedCpu | Gpu | Transient

text \<open>\<open>assertKind\<close>: a kind that is not one of the four throws.\<close>

definition VISUAL_MEMORY_KINDS :: "(string \<times> mem_kind) list" where
  "VISUAL_MEMORY_KINDS =
    [(''encodedCpu'', EncodedCpu), (''decodedCpu'', DecodedCpu), (''gpu'', Gpu), (''transient'', Transient)]"

datatype ledger_error =
    UnknownKind string
  | InvalidBytes
  | OverBudget string nat nat nat \<comment> \<open>kind, requested, used, ceiling\<close>
  | PipelineHeld
  | TooManyProjections nat

definition assertKind :: "string \<Rightarrow> (ledger_error, mem_kind) result" where
  "assertKind kind =
    (case map_of VISUAL_MEMORY_KINDS kind of None \<Rightarrow> Inl (UnknownKind kind) | Some k \<Rightarrow> Inr k)"

text \<open>\<open>assertBytes\<close>: \<^const>\<open>None\<close> is an argument that is not an integer.\<close>

definition assertBytes :: "int option \<Rightarrow> (ledger_error, nat) result" where
  "assertBytes bytes =
    (case bytes of
       Some b \<Rightarrow> if 0 \<le> b \<and> b \<le> 2 ^ 53 - 1 then Inr (nat b) else Inl InvalidBytes
     | None \<Rightarrow> Inl InvalidBytes)"

definition positiveCeiling :: "int option \<Rightarrow> nat \<Rightarrow> nat" where
  "positiveCeiling value fallback =
    (case value of Some v \<Rightarrow> if 0 \<le> v then nat v else fallback | None \<Rightarrow> fallback)"

record reservation =
  res_kind :: mem_kind
  res_bytes :: nat
  res_label :: string

record visual_ledger =
  ceilings :: "mem_kind \<Rightarrow> nat"
  unifiedCeiling :: "nat option"
  used :: "mem_kind \<Rightarrow> nat"
  reservations :: "(nat, reservation) js_map"
  nextId :: nat

definition new_VisualMemoryLedger ::
  "(mem_kind \<Rightarrow> int option) \<Rightarrow> (mem_kind \<Rightarrow> nat) \<Rightarrow> nat option \<Rightarrow> visual_ledger" where
  "new_VisualMemoryLedger resolved profile unified =
    \<lparr>ceilings = (\<lambda>k. positiveCeiling (resolved k) (profile k)), unifiedCeiling = unified,
     used = (\<lambda>_. 0), reservations = [], nextId = 1\<rparr>"

definition unifiedUsed :: "visual_ledger \<Rightarrow> nat" where
  "unifiedUsed l = used l EncodedCpu + used l DecodedCpu + used l Gpu + used l Transient"

definition vml_canReserve :: "string \<Rightarrow> int option \<Rightarrow> visual_ledger \<Rightarrow> (ledger_error, bool) result" where
  "vml_canReserve kind bytes l =
    res_bind (assertKind kind) (\<lambda>k. res_bind (assertBytes bytes) (\<lambda>requested.
      Inr (if used l k + requested > ceilings l k then False
           else case unifiedCeiling l of
               Some c \<Rightarrow> \<not> unifiedUsed l + requested > c
             | None \<Rightarrow> True)))"

definition vml_reserve ::
  "string \<Rightarrow> int option \<Rightarrow> string \<Rightarrow> visual_ledger \<Rightarrow> (ledger_error, nat \<times> visual_ledger) result" where
  "vml_reserve kind bytes label l =
    res_bind (assertKind kind) (\<lambda>k. res_bind (assertBytes bytes) (\<lambda>requested.
      if used l k + requested > ceilings l k
      then Inl (OverBudget kind requested (used l k) (ceilings l k))
      else case unifiedCeiling l of
          Some c \<Rightarrow>
            if unifiedUsed l + requested > c
            then Inl (OverBudget ''unified'' requested (unifiedUsed l) c)
            else Inr (nextId l, l\<lparr>used := (used l)(k := used l k + requested), nextId := nextId l + 1,
              reservations := AList.update (nextId l)
                \<lparr>res_kind = k, res_bytes = requested, res_label = label\<rparr> (reservations l)\<rparr>)
        | None \<Rightarrow>
            Inr (nextId l, l\<lparr>used := (used l)(k := used l k + requested), nextId := nextId l + 1,
              reservations := AList.update (nextId l)
                \<lparr>res_kind = k, res_bytes = requested, res_label = label\<rparr> (reservations l)\<rparr>)))"

text \<open>
  \<open>used[kind] -= bytes\<close> followed by the clamp at zero is subtraction on naturals.
\<close>

definition vml_release :: "nat option \<Rightarrow> visual_ledger \<Rightarrow> nat \<times> visual_ledger" where
  "vml_release rid l =
    (case rid of None \<Rightarrow> (0, l)
     | Some i \<Rightarrow> (case map_of (reservations l) i of
         None \<Rightarrow> (0, l)
       | Some entry \<Rightarrow> (res_bytes entry,
           l\<lparr>used := (used l)(res_kind entry := used l (res_kind entry) - res_bytes entry),
             reservations := AList.delete i (reservations l)\<rparr>)))"

definition vml_releaseAll :: "visual_ledger \<Rightarrow> visual_ledger" where
  "vml_releaseAll l = fold (\<lambda>i s. snd (vml_release (Some i) s)) (map_keys (reservations l)) l"

definition vml_liveReservationCount :: "visual_ledger \<Rightarrow> nat" where
  "vml_liveReservationCount l = length (reservations l)"

text \<open>\<open>pressure()\<close> divides each count by its ceiling, or gives zero for a zero ceiling.\<close>

definition pressure_ratio :: "nat \<Rightarrow> nat \<Rightarrow> rat" where
  "pressure_ratio u c = (if 0 < c then of_nat u / of_nat c else 0)"

definition vml_pressure :: "visual_ledger \<Rightarrow> (mem_kind \<Rightarrow> rat) \<times> rat" where
  "vml_pressure l =
    (\<lambda>k. pressure_ratio (used l k) (ceilings l k),
     case unifiedCeiling l of None \<Rightarrow> 0
     | Some c \<Rightarrow> if c = 0 then 0 else pressure_ratio (unifiedUsed l) c)"

text \<open>
  The invariant: what is used of a kind is what its live reservations hold, within the kind's
  ceiling, and the sum within the unified one; ids are never reused.
\<close>

definition kind_total :: "mem_kind \<Rightarrow> (nat, reservation) js_map \<Rightarrow> nat" where
  "kind_total k rs = sum_list (map ((\<lambda>r. if res_kind r = k then res_bytes r else 0) \<circ> snd) rs)"

definition vml_inv :: "visual_ledger \<Rightarrow> bool" where
  "vml_inv l \<longleftrightarrow> map_ok (reservations l)
    \<and> (\<forall>i \<in> set (map_keys (reservations l)). i < nextId l)
    \<and> (\<forall>k. used l k = kind_total k (reservations l) \<and> used l k \<le> ceilings l k)
    \<and> (\<forall>c. unifiedCeiling l = Some c \<longrightarrow> unifiedUsed l \<le> c)"

datatype ledger_op = Reserve string "int option" string | Release "nat option" | ReleaseAll

definition vml_exec :: "visual_ledger \<Rightarrow> ledger_op \<Rightarrow> visual_ledger" where
  "vml_exec l op =
    (case op of
       Reserve kind bytes label \<Rightarrow>
         (case vml_reserve kind bytes label l of Inl _ \<Rightarrow> l | Inr (_, l') \<Rightarrow> l')
     | Release rid \<Rightarrow> snd (vml_release rid l)
     | ReleaseAll \<Rightarrow> vml_releaseAll l)"

lemma vml_new_inv: "vml_inv (new_VisualMemoryLedger resolved profile unified)"
  by (simp add: vml_inv_def new_VisualMemoryLedger_def kind_total_def unifiedUsed_def)

lemma vml_reserve_cases:
  assumes "vml_reserve kind bytes label l = Inr (i, l')"
  obtains k b where "assertKind kind = Inr k" and "assertBytes bytes = Inr b"
    and "used l k + b \<le> ceilings l k"
    and "\<And>c. unifiedCeiling l = Some c \<Longrightarrow> unifiedUsed l + b \<le> c"
    and "i = nextId l"
    and "l' = l\<lparr>used := (used l)(k := used l k + b), nextId := nextId l + 1,
      reservations := AList.update i \<lparr>res_kind = k, res_bytes = b, res_label = label\<rparr> (reservations l)\<rparr>"
  using assms unfolding vml_reserve_def
  by (auto elim!: result_elims split: if_splits option.splits)

lemma kind_total_append:
  "kind_total k (rs @ [(i, r)]) = kind_total k rs + (if res_kind r = k then res_bytes r else 0)"
  by (simp add: kind_total_def)

lemma kind_total_delete:
  "map_ok rs \<Longrightarrow> map_of rs i = Some r \<Longrightarrow>
    kind_total k rs = (if res_kind r = k then res_bytes r else 0) + kind_total k (AList.delete i rs)"
  unfolding kind_total_def by (rule sum_list_delete)

lemma unifiedUsed_upd:
  "unifiedUsed (l\<lparr>used := (used l)(k := used l k + b), nextId := n, reservations := rs\<rparr>) = unifiedUsed l + b"
  by (cases k) (simp_all add: unifiedUsed_def)

lemma vml_invI:
  assumes "map_ok (reservations l)" and "\<And>i. i \<in> set (map_keys (reservations l)) \<Longrightarrow> i < nextId l"
    and "\<And>k. used l k = kind_total k (reservations l)" and "\<And>k. used l k \<le> ceilings l k"
    and "\<And>c. unifiedCeiling l = Some c \<Longrightarrow> unifiedUsed l \<le> c"
  shows "vml_inv l"
  using assms unfolding vml_inv_def by blast

lemma vml_invD:
  assumes "vml_inv l"
  shows "map_ok (reservations l)" and "i \<in> set (map_keys (reservations l)) \<Longrightarrow> i < nextId l"
    and "used l k = kind_total k (reservations l)" and "used l k \<le> ceilings l k"
    and "unifiedCeiling l = Some c \<Longrightarrow> unifiedUsed l \<le> c"
  using assms unfolding vml_inv_def by blast+

lemma vml_reserve_inv:
  assumes inv: "vml_inv l" and "vml_reserve kind bytes label l = Inr (i, l')"
  shows "vml_inv l'"
  using assms(2)
proof (rule vml_reserve_cases)
  fix k b
  let ?r = "\<lparr>res_kind = k, res_bytes = b, res_label = label\<rparr>"
  assume fits: "used l k + b \<le> ceilings l k"
    and unif: "\<And>c. unifiedCeiling l = Some c \<Longrightarrow> unifiedUsed l + b \<le> c"
    and i: "i = nextId l"
    and l': "l' = l\<lparr>used := (used l)(k := used l k + b), nextId := nextId l + 1,
      reservations := AList.update i ?r (reservations l)\<rparr>"
  have fresh: "map_of (reservations l) i = None"
    using vml_invD(2) [OF inv, of i] i by (auto simp: map_of_eq_None_iff)
  have rs: "reservations l' = reservations l @ [(i, ?r)]"
    by (simp add: l' map_keys_update_fresh [OF fresh])
  show ?thesis
  proof (rule vml_invI)
    show "map_ok (reservations l')"
      using vml_invD(1) [OF inv] fresh by (auto simp: rs map_of_eq_None_iff)
    show "n < nextId l'" if "n \<in> set (map_keys (reservations l'))" for n
    proof -
      have "n \<in> set (map_keys (reservations l)) \<or> n = nextId l"
        using that i by (auto simp: rs)
      then have "n < nextId l + 1" using vml_invD(2) [OF inv, of n] by (elim disjE) simp_all
      then show ?thesis by (simp add: l')
    qed
    show "used l' x = kind_total x (reservations l')" for x
      using vml_invD(3) [OF inv, of x] by (simp add: rs kind_total_append) (simp add: l')
    show "used l' x \<le> ceilings l' x" for x
      using vml_invD(4) [OF inv, of x] fits by (simp add: l')
    show "unifiedUsed l' \<le> c" if "unifiedCeiling l' = Some c" for c
      using that unif by (simp add: l' unifiedUsed_upd)
  qed
qed

lemma vml_release_inv: "vml_inv l \<Longrightarrow> vml_inv (snd (vml_release rid l))"
proof -
  assume inv: "vml_inv l"
  show ?thesis
  proof (cases "\<exists>i r. rid = Some i \<and> map_of (reservations l) i = Some r")
    case False
    then show ?thesis using inv by (auto simp: vml_release_def split: option.splits)
  next
    case True
    then obtain i r where ir: "rid = Some i" "map_of (reservations l) i = Some r" by blast
    let ?l = "l\<lparr>used := (used l)(res_kind r := used l (res_kind r) - res_bytes r),
      reservations := AList.delete i (reservations l)\<rparr>"
    have out: "snd (vml_release rid l) = ?l" by (simp add: vml_release_def ir)
    have le: "used ?l x \<le> used l x" for x by simp
    show ?thesis
      unfolding out
    proof (rule vml_invI)
      show "map_ok (reservations ?l)" using vml_invD(1) [OF inv] by (simp add: distinct_delete)
      show "n < nextId ?l" if "n \<in> set (map_keys (reservations ?l))" for n
        using that vml_invD(2) [OF inv, of n] dom_delete_subset [of i "reservations l"] by auto
      show "used ?l x = kind_total x (reservations ?l)" for x
        using vml_invD(3) [OF inv, of x] kind_total_delete [OF vml_invD(1) [OF inv] ir(2), of x] by auto
      show "used ?l x \<le> ceilings ?l x" for x
        using vml_invD(4) [OF inv, of x] le [of x] by (metis (no_types, lifting) le_trans
          visual_ledger.ext_inject visual_ledger.surjective visual_ledger.update_convs(3,4))
      show "unifiedUsed ?l \<le> c" if "unifiedCeiling ?l = Some c" for c
      proof -
        have "unifiedUsed ?l \<le> unifiedUsed l"
          unfolding unifiedUsed_def using le by (meson add_mono)
        also have "\<dots> \<le> c" using that by (intro vml_invD(5) [OF inv]) simp
        finally show ?thesis .
      qed
    qed
  qed
qed

lemma vml_releaseAll_inv: "vml_inv l \<Longrightarrow> vml_inv (vml_releaseAll l)"
proof -
  have "vml_inv s \<Longrightarrow> vml_inv (fold (\<lambda>i s. snd (vml_release (Some i) s)) ids s)" for ids s
    by (induction ids arbitrary: s) (auto intro: vml_release_inv)
  then show "vml_inv l \<Longrightarrow> vml_inv (vml_releaseAll l)" by (simp add: vml_releaseAll_def)
qed

lemma vml_exec_inv: "vml_inv l \<Longrightarrow> vml_inv (vml_exec l op)"
  by (cases op) (auto simp: vml_exec_def vml_release_inv vml_releaseAll_inv
    split: sum.splits intro: vml_reserve_inv)

lemma vml_release_frame:
  "ceilings (snd (vml_release i l)) = ceilings l"
  "unifiedCeiling (snd (vml_release i l)) = unifiedCeiling l"
  by (auto simp: vml_release_def split: option.splits)

lemma vml_exec_ceilings: "ceilings (vml_exec l op) = ceilings l"
proof -
  have "ceilings (fold (\<lambda>i s. snd (vml_release (Some i) s)) ids s) = ceilings s" for ids s
    by (induction ids arbitrary: s) (auto simp: vml_release_frame)
  then show ?thesis
    by (cases op) (auto simp: vml_exec_def vml_release_frame vml_releaseAll_def
      split: sum.splits elim: vml_reserve_cases)
qed

lemma vml_inv_kind_empty: "vml_inv l \<Longrightarrow> reservations l = [] \<Longrightarrow> used l k = 0"
  by (simp add: vml_inv_def kind_total_def)

text \<open>One interpretation per kind: each kind is a ledger of its own.\<close>

interpretation visual_kind: byte_ledger vml_exec vml_inv "\<lambda>l. used l k" "\<lambda>l. ceilings l k"
  vml_liveReservationCount for k
  by unfold_locales (auto simp: vml_exec_inv vml_exec_ceilings vml_liveReservationCount_def
    vml_inv_kind_empty vml_invD(4))

text \<open>The bytes of every live reservation, whatever its kind.\<close>

definition live_bytes :: "visual_ledger \<Rightarrow> nat" where
  "live_bytes l = sum_list (map (res_bytes \<circ> snd) (reservations l))"

lemma live_bytes_kinds:
  "live_bytes l = kind_total EncodedCpu (reservations l) + kind_total DecodedCpu (reservations l)
    + kind_total Gpu (reservations l) + kind_total Transient (reservations l)"
proof -
  have "sum_list (map (res_bytes \<circ> snd) rs) = kind_total EncodedCpu rs + kind_total DecodedCpu rs
    + kind_total Gpu rs + kind_total Transient rs" for rs :: "(nat, reservation) js_map"
  proof (induction rs)
    case (Cons r rs)
    then show ?case by (cases "res_kind (snd r)") (simp_all add: kind_total_def)
  qed (simp add: kind_total_def)
  then show ?thesis by (simp add: live_bytes_def)
qed

lemma vml_inv_live: "vml_inv l \<Longrightarrow> live_bytes l = unifiedUsed l"
  by (simp add: live_bytes_kinds unifiedUsed_def vml_invD(3))

lemma vml_exec_unified: "unifiedCeiling (vml_exec l op) = unifiedCeiling l"
proof -
  have "unifiedCeiling (fold (\<lambda>i s. snd (vml_release (Some i) s)) ids s) = unifiedCeiling s" for ids s
    by (induction ids arbitrary: s) (auto simp: vml_release_frame)
  then show ?thesis
    by (cases op) (auto simp: vml_exec_def vml_release_frame vml_releaseAll_def
      split: sum.splits elim: vml_reserve_cases)
qed

lemma vml_run_unified: "unifiedCeiling (foldl vml_exec l ops) = unifiedCeiling l"
  by (induction ops arbitrary: l) (auto simp: vml_exec_unified)

lemma vml_run_ceilings: "ceilings (foldl vml_exec l ops) = ceilings l"
  by (induction ops arbitrary: l) (auto simp: vml_exec_ceilings)

text \<open>When a request is granted, in terms of the bytes that are live.\<close>

lemma vml_reserve_granted:
  assumes "vml_inv l"
  shows "(\<exists>i l'. vml_reserve kind bytes label l = Inr (i, l'))
    \<longleftrightarrow> (\<exists>k b. assertKind kind = Inr k \<and> assertBytes bytes = Inr b
          \<and> kind_total k (reservations l) + b \<le> ceilings l k
          \<and> (case unifiedCeiling l of None \<Rightarrow> True | Some c \<Rightarrow> live_bytes l + b \<le> c))"
  using vml_inv_live [OF assms] vml_invD(3) [OF assms]
  by (auto simp: vml_reserve_def res_bind_def split: sum.splits option.splits)

text \<open>
  C21. Whatever sequence of reservations, releases and failures a visual memory ledger sees, the
  bytes its live reservations hold are what its counters say: no kind's live bytes exceed the
  kind's ceiling, all live bytes together never exceed the unified ceiling, and the next request
  is granted exactly when its kind is known, its size is an integer and it fits both ceilings
  beside the live bytes.
\<close>

theorem visual_ledger_within_ceilings:
  "let l = foldl vml_exec (new_VisualMemoryLedger resolved profile unified) ops in
    used l k = kind_total k (reservations l)
    \<and> kind_total k (reservations l) \<le> positiveCeiling (resolved k) (profile k)
    \<and> unifiedUsed l = live_bytes l
    \<and> (case unified of None \<Rightarrow> True | Some c \<Rightarrow> live_bytes l \<le> c)
    \<and> ((\<exists>i l'. vml_reserve kind bytes label l = Inr (i, l'))
        \<longleftrightarrow> (\<exists>k b. assertKind kind = Inr k \<and> assertBytes bytes = Inr b
              \<and> kind_total k (reservations l) + b \<le> positiveCeiling (resolved k) (profile k)
              \<and> (case unified of None \<Rightarrow> True | Some c \<Rightarrow> live_bytes l + b \<le> c)))"
proof -
  let ?l = "foldl vml_exec (new_VisualMemoryLedger resolved profile unified) ops"
  have inv: "vml_inv ?l" by (rule visual_kind.run_inv [OF vml_new_inv])
  have unif: "unifiedCeiling ?l = unified" and ceil: "ceilings ?l k = positiveCeiling (resolved k) (profile k)" for k
    by (simp_all add: vml_run_unified vml_run_ceilings new_VisualMemoryLedger_def)
  show ?thesis
    unfolding Let_def vml_reserve_granted [OF inv] unif ceil
    using vml_invD(3,4) [OF inv, of k] vml_invD(5) [OF inv] vml_inv_live [OF inv] unif ceil
    by (auto split: option.splits)
qed

section \<open>BakeMemoryLedger\<close>

datatype bake_kind = RenderTarget | PassBuffer | Readback | Lidar | ModelStaging | TelemetryPreview
  | ProjectedOverlay | EncodedAsset | Chart | Contribution | Proposal | Fusion | Encoder

definition BAKE_MEMORY_KINDS :: "(string \<times> bake_kind) list" where
  "BAKE_MEMORY_KINDS =
    [(''renderTarget'', RenderTarget), (''passBuffer'', PassBuffer), (''readback'', Readback),
     (''lidar'', Lidar), (''modelStaging'', ModelStaging), (''telemetryPreview'', TelemetryPreview),
     (''projectedOverlay'', ProjectedOverlay), (''encodedAsset'', EncodedAsset), (''chart'', Chart),
     (''contribution'', Contribution), (''proposal'', Proposal), (''fusion'', Fusion),
     (''encoder'', Encoder)]"

definition kindToLedger :: "bake_kind \<Rightarrow> mem_kind" where
  "kindToLedger kind =
    (if kind = ProjectedOverlay then Gpu
     else if kind = TelemetryPreview then Transient
     else if kind = ModelStaging then Transient
     else Transient)"

record bake_reservation =
  bres_kind :: bake_kind
  bres_bytes :: nat
  bres_label :: string
  bres_ledgerKind :: mem_kind

record bake_ledger =
  ceilingBytes :: nat
  maxProjections :: nat
  usedBytes :: nat
  projections :: nat
  bake_reservations :: "(nat, bake_reservation) js_map"
  bake_nextId :: nat
  pipelineHeld :: bool

definition new_BakeMemoryLedger :: "nat \<Rightarrow> nat \<Rightarrow> bake_ledger" where
  "new_BakeMemoryLedger ceil maxProj =
    \<lparr>ceilingBytes = ceil, maxProjections = maxProj, usedBytes = 0, projections = 0,
     bake_reservations = [], bake_nextId = 1, pipelineHeld = False\<rparr>"

definition bml_canReserve :: "int option \<Rightarrow> bake_ledger \<Rightarrow> (ledger_error, bool) result" where
  "bml_canReserve bytes l =
    res_bind (assertBytes bytes) (\<lambda>requested. Inr (usedBytes l + requested \<le> ceilingBytes l))"

definition bml_reserve ::
  "string \<Rightarrow> int option \<Rightarrow> string \<Rightarrow> bake_ledger \<Rightarrow> (ledger_error, nat \<times> bake_ledger) result" where
  "bml_reserve kind bytes label l =
    (case map_of BAKE_MEMORY_KINDS kind of
       None \<Rightarrow> Inl (UnknownKind kind)
     | Some k \<Rightarrow> res_bind (assertBytes bytes) (\<lambda>requested.
         if usedBytes l + requested > ceilingBytes l
         then Inl (OverBudget kind requested (usedBytes l) (ceilingBytes l))
         else Inr (bake_nextId l, l\<lparr>usedBytes := usedBytes l + requested, bake_nextId := bake_nextId l + 1,
           bake_reservations := AList.update (bake_nextId l)
             \<lparr>bres_kind = k, bres_bytes = requested, bres_label = label,
              bres_ledgerKind = kindToLedger k\<rparr> (bake_reservations l)\<rparr>)))"

definition bml_release :: "nat option \<Rightarrow> bake_ledger \<Rightarrow> nat \<times> bake_ledger" where
  "bml_release rid l =
    (case rid of None \<Rightarrow> (0, l)
     | Some i \<Rightarrow> (case map_of (bake_reservations l) i of
         None \<Rightarrow> (0, l)
       | Some entry \<Rightarrow> (bres_bytes entry,
           l\<lparr>usedBytes := usedBytes l - bres_bytes entry,
             bake_reservations := AList.delete i (bake_reservations l)\<rparr>)))"

definition bml_releaseAll :: "bake_ledger \<Rightarrow> bake_ledger" where
  "bml_releaseAll l =
    (fold (\<lambda>i s. snd (bml_release (Some i) s)) (map_keys (bake_reservations l)) l)
      \<lparr>projections := 0, pipelineHeld := False\<rparr>"

text \<open>
  \<open>withPipelineReservation\<close> awaits its work between taking and giving back the reservation, so
  it is two steps; other operations may run in between.
\<close>

definition bml_pipelineBegin :: "int option \<Rightarrow> bake_ledger \<Rightarrow> (ledger_error, nat \<times> bake_ledger) result" where
  "bml_pipelineBegin bytes l =
    (if pipelineHeld l then Inl PipelineHeld
     else res_bind (bml_reserve ''passBuffer'' bytes ''pipeline'' l)
       (\<lambda>(i, l'). Inr (i, l'\<lparr>pipelineHeld := True\<rparr>)))"

definition bml_pipelineEnd :: "nat \<Rightarrow> bake_ledger \<Rightarrow> bake_ledger" where
  "bml_pipelineEnd i l = snd (bml_release (Some i) (l\<lparr>pipelineHeld := False\<rparr>))"

definition bml_assertProjectionBudget ::
  "nat \<Rightarrow> int option \<Rightarrow> bool \<Rightarrow> bake_ledger \<Rightarrow> (ledger_error, bool) result" where
  "bml_assertProjectionBudget count bytes required l =
    (if projections l + count > maxProjections l
     then (if required then Inl (TooManyProjections (maxProjections l)) else Inr False)
     else res_bind (bml_canReserve bytes l) (\<lambda>ok.
       if \<not> ok
       then (if required
         then Inl (OverBudget ''projectedOverlay'' (nat (the bytes)) (usedBytes l) (ceilingBytes l))
         else Inr False)
       else Inr True))"

definition bml_addProjection :: "int option \<Rightarrow> bake_ledger \<Rightarrow> (ledger_error, nat \<times> bake_ledger) result" where
  "bml_addProjection bytes l =
    res_bind (bml_reserve ''projectedOverlay'' bytes ''projection'' l)
      (\<lambda>(i, l'). Inr (i, l'\<lparr>projections := projections l' + 1\<rparr>))"

definition bml_removeProjection :: "nat option \<Rightarrow> bake_ledger \<Rightarrow> bake_ledger" where
  "bml_removeProjection rid l =
    (let l' = snd (bml_release rid l) in l'\<lparr>projections := projections l' - 1\<rparr>)"

definition bml_liveReservationCount :: "bake_ledger \<Rightarrow> nat" where
  "bml_liveReservationCount l = length (bake_reservations l)"

definition estimatePassSetBytes :: "int \<Rightarrow> int \<Rightarrow> int \<Rightarrow> bool \<Rightarrow> int \<Rightarrow> int \<Rightarrow> int" where
  "estimatePassSetBytes width height passCount includeLidar lidarWidth lidarHeight =
    (let frame = max 0 width * max 0 height * 4;
         lidar = (if includeLidar then max 0 lidarWidth * max 0 lidarHeight * 16 else 0)
     in frame * (passCount + 2) + lidar)"

definition bake_total :: "(nat, bake_reservation) js_map \<Rightarrow> nat" where
  "bake_total rs = sum_list (map (bres_bytes \<circ> snd) rs)"

definition bml_inv :: "bake_ledger \<Rightarrow> bool" where
  "bml_inv l \<longleftrightarrow> map_ok (bake_reservations l)
    \<and> (\<forall>i \<in> set (map_keys (bake_reservations l)). i < bake_nextId l)
    \<and> usedBytes l = bake_total (bake_reservations l) \<and> usedBytes l \<le> ceilingBytes l"

datatype bake_op = BReserve string "int option" string | BRelease "nat option" | BReleaseAll
  | PipelineBegin "int option" | PipelineEnd nat
  | AddProjection "int option" | RemoveProjection "nat option"

definition keep :: "'s \<Rightarrow> ('e, 'a \<times> 's) result \<Rightarrow> 's" where
  "keep l r = (case r of Inl _ \<Rightarrow> l | Inr (_, l') \<Rightarrow> l')"

definition bml_exec :: "bake_ledger \<Rightarrow> bake_op \<Rightarrow> bake_ledger" where
  "bml_exec l op =
    (case op of
       BReserve kind bytes label \<Rightarrow> keep l (bml_reserve kind bytes label l)
     | BRelease rid \<Rightarrow> snd (bml_release rid l)
     | BReleaseAll \<Rightarrow> bml_releaseAll l
     | PipelineBegin bytes \<Rightarrow> keep l (bml_pipelineBegin bytes l)
     | PipelineEnd i \<Rightarrow> bml_pipelineEnd i l
     | AddProjection bytes \<Rightarrow> keep l (bml_addProjection bytes l)
     | RemoveProjection rid \<Rightarrow> bml_removeProjection rid l)"

lemma bml_inv_irrelevant [simp]:
  "bml_inv (l\<lparr>projections := p\<rparr>) = bml_inv l" "bml_inv (l\<lparr>pipelineHeld := h\<rparr>) = bml_inv l"
  by (simp_all add: bml_inv_def)

lemma bml_reserve_inv:
  assumes inv: "bml_inv l" and res: "bml_reserve kind bytes label l = Inr (i, l')"
  shows "bml_inv l' \<and> ceilingBytes l' = ceilingBytes l"
proof -
  from res obtain k b where "map_of BAKE_MEMORY_KINDS kind = Some k" "assertBytes bytes = Inr b"
    and fits: "usedBytes l + b \<le> ceilingBytes l"
    and l': "l' = l\<lparr>usedBytes := usedBytes l + b, bake_nextId := bake_nextId l + 1,
      bake_reservations := AList.update (bake_nextId l)
        \<lparr>bres_kind = k, bres_bytes = b, bres_label = label, bres_ledgerKind = kindToLedger k\<rparr>
        (bake_reservations l)\<rparr>"
    unfolding bml_reserve_def by (auto elim!: result_elims split: option.splits if_splits)
  have fresh: "map_of (bake_reservations l) (bake_nextId l) = None"
    using inv by (auto simp: bml_inv_def map_of_eq_None_iff)
  show ?thesis
    using inv fits fresh
    by (auto simp: l' bml_inv_def map_keys_update_fresh [OF fresh] bake_total_def map_of_eq_None_iff
      less_Suc_eq)
qed

lemma bml_release_inv:
  assumes "bml_inv l"
  shows "bml_inv (snd (bml_release rid l)) \<and> ceilingBytes (snd (bml_release rid l)) = ceilingBytes l"
proof (cases "\<exists>i r. rid = Some i \<and> map_of (bake_reservations l) i = Some r")
  case False
  then show ?thesis using assms by (auto simp: bml_release_def split: option.splits)
next
  case True
  then obtain i r where ir: "rid = Some i" "map_of (bake_reservations l) i = Some r" by blast
  have "bake_total (bake_reservations l)
      = bres_bytes r + bake_total (AList.delete i (bake_reservations l))"
    unfolding bake_total_def by (rule sum_list_delete) (use assms ir in \<open>simp_all add: bml_inv_def\<close>)
  then show ?thesis
    using assms ir by (auto simp: bml_release_def bml_inv_def distinct_delete dest: mem_delete)
qed

lemma bml_exec_step: "bml_inv l \<Longrightarrow> bml_inv (bml_exec l op) \<and> ceilingBytes (bml_exec l op) = ceilingBytes l"
proof -
  assume inv: "bml_inv l"
  have rel: "bml_inv (fold (\<lambda>i s. snd (bml_release (Some i) s)) ids s)
      \<and> ceilingBytes (fold (\<lambda>i s. snd (bml_release (Some i) s)) ids s) = ceilingBytes s"
    if "bml_inv s" for ids s
    using that by (induction ids arbitrary: s) (auto simp: bml_release_inv)
  show ?thesis
  proof (cases op)
    case (PipelineBegin b)
    then show ?thesis using inv
      by (auto simp: bml_exec_def keep_def bml_pipelineBegin_def bml_reserve_inv
        elim!: result_elims split: sum.splits)
  next
    case (PipelineEnd i)
    then show ?thesis using inv bml_release_inv [of "l\<lparr>pipelineHeld := False\<rparr>" "Some i"]
      by (simp add: bml_exec_def bml_pipelineEnd_def)
  next
    case (AddProjection b)
    then show ?thesis using inv
      by (auto simp: bml_exec_def keep_def bml_addProjection_def bml_reserve_inv
        elim!: result_elims split: sum.splits)
  qed (use inv rel [OF inv] in \<open>auto simp: bml_exec_def keep_def bml_release_inv bml_releaseAll_def
    bml_removeProjection_def Let_def bml_reserve_inv split: sum.splits\<close>)
qed

interpretation bake: byte_ledger bml_exec bml_inv usedBytes ceilingBytes bml_liveReservationCount
proof
  show "usedBytes s \<le> ceilingBytes s" if "bml_inv s" for s
    using that by (simp add: bml_inv_def)
  show "usedBytes s = 0" if "bml_inv s" and "bml_liveReservationCount s = 0" for s
    using that by (simp add: bml_inv_def bake_total_def bml_liveReservationCount_def)
qed (simp_all add: bml_exec_step)

text \<open>
  C22. Whatever sequence of reservations, projections and pipeline runs a bake ledger sees, in
  whatever order they end, the bytes it counts are the bytes its live reservations hold, and stay
  within the ceiling: nothing leaks and nothing is counted twice.
\<close>

theorem bake_ledger_exact:
  "let l = foldl bml_exec (new_BakeMemoryLedger ceil maxProj) ops
   in usedBytes l \<le> ceil \<and> usedBytes l = sum_list (map (bres_bytes \<circ> snd) (bake_reservations l))"
proof -
  have inv: "bml_inv (new_BakeMemoryLedger ceil maxProj)"
    by (simp add: bml_inv_def new_BakeMemoryLedger_def bake_total_def)
  show ?thesis
    using bake.run_inv [OF inv, of ops] bake.run_bounded [OF inv, of ops]
    by (simp add: bml_inv_def bake_total_def new_BakeMemoryLedger_def)
qed

end
