(* ===== verification/Permits.thy ===== *)
theory Permits
  imports Prelude
begin

text \<open>
  Bounded concurrency: the semaphore of the asset server
  (\<open>server/storage/visual-assets/semaphore.js\<close>) and the two slots of
  \<open>app/3d/environment/visual/VisualWorkQueue.js\<close>. A waiter is a token that stands for the
  suspended caller; an operation returns which tokens it lets run.
\<close>

section \<open>What a pool of permits promises\<close>

locale permit_pool =
  fixes limit :: "'p \<Rightarrow> nat" and active :: "'p \<Rightarrow> nat" and waiting :: "'p \<Rightarrow> 'w list"
    and acquire :: "'w \<Rightarrow> 'p \<Rightarrow> bool \<times> 'p"
    and release :: "'p \<Rightarrow> 'w option \<times> 'p"
  assumes acquire_free: "active p < limit p \<Longrightarrow> \<exists>p'. acquire w p = (True, p')
      \<and> active p' = Suc (active p) \<and> waiting p' = waiting p \<and> limit p' = limit p"
    and acquire_full: "\<not> active p < limit p \<Longrightarrow> \<exists>p'. acquire w p = (False, p')
      \<and> active p' = active p \<and> waiting p' = waiting p @ [w] \<and> limit p' = limit p"
    and release_idle: "waiting p = [] \<Longrightarrow> \<exists>p'. release p = (None, p')
      \<and> active p' = active p - 1 \<and> waiting p' = [] \<and> limit p' = limit p"
    and release_wake: "waiting p = w # ws \<Longrightarrow> 0 < active p \<Longrightarrow> \<exists>p'. release p = (Some w, p')
      \<and> active p' = active p \<and> waiting p' = ws \<and> limit p' = limit p"

text \<open>A pool with its holders: acquiring waits or runs, a holder that leaves may wake a waiter.\<close>

datatype 'w pool_op = Acquire 'w | Leave 'w

fun pool_exec :: "('w \<Rightarrow> 'p \<Rightarrow> bool \<times> 'p) \<Rightarrow> ('p \<Rightarrow> 'w option \<times> 'p) \<Rightarrow>
    'p \<times> 'w list \<Rightarrow> 'w pool_op \<Rightarrow> 'p \<times> 'w list" where
  "pool_exec acq rel (p, hs) (Acquire w) =
    (case acq w p of (granted, p') \<Rightarrow> (p', if granted then w # hs else hs))"
| "pool_exec acq rel (p, hs) (Leave w) =
    (if w \<in> set hs
     then (case rel p of (woken, p') \<Rightarrow> (p', (case woken of None \<Rightarrow> [] | Some v \<Rightarrow> [v]) @ remove1 w hs))
     else (p, hs))"

context permit_pool
begin

definition pool_inv :: "nat \<Rightarrow> 'p \<times> 'w list \<Rightarrow> bool" where
  "pool_inv n s \<longleftrightarrow> limit (fst s) = n \<and> length (snd s) = active (fst s) \<and> active (fst s) \<le> n
    \<and> (waiting (fst s) \<noteq> [] \<longrightarrow> active (fst s) = n)"

lemma pool_exec_inv: "pool_inv n s \<Longrightarrow> pool_inv n (pool_exec acquire release s x)"
proof (cases s)
  case (Pair p hs)
  assume inv: "pool_inv n s"
  show ?thesis
  proof (cases x)
    case (Acquire w)
    show ?thesis
    proof (cases "active p < limit p")
      case True
      with acquire_free obtain p' where "acquire w p = (True, p')" "active p' = Suc (active p)"
        "waiting p' = waiting p" "limit p' = limit p" by blast
      with inv True show ?thesis by (auto simp: Pair Acquire pool_inv_def)
    next
      case False
      with acquire_full obtain p' where "acquire w p = (False, p')" "active p' = active p"
        "waiting p' = waiting p @ [w]" "limit p' = limit p" by blast
      with inv False show ?thesis by (auto simp: Pair Acquire pool_inv_def)
    qed
  next
    case (Leave w)
    show ?thesis
    proof (cases "w \<in> set hs")
      case True
      then have "0 < length hs" by (cases hs) auto
      moreover have "length hs = active p" using inv by (simp add: Pair pool_inv_def)
      ultimately have pos: "0 < active p" by simp
      have len: "length (remove1 w hs) = length hs - 1" using True by (simp add: length_remove1)
      show ?thesis
      proof (cases "waiting p")
        case Nil
        with release_idle obtain p' where "release p = (None, p')" "active p' = active p - 1"
          "waiting p' = []" "limit p' = limit p" by blast
        with inv True len show ?thesis by (auto simp: Pair Leave pool_inv_def)
      next
        case (Cons v vs)
        with release_wake pos obtain p' where "release p = (Some v, p')" "active p' = active p"
          "waiting p' = vs" "limit p' = limit p" by blast
        with inv True len pos Cons show ?thesis by (auto simp: Pair Leave pool_inv_def)
      qed
    next
      case False
      with inv show ?thesis by (simp add: Pair Leave)
    qed
  qed
qed

sublocale driven "pool_exec acquire release" "pool_inv n" for n
  by unfold_locales (rule pool_exec_inv)

lemma holders_bounded:
  "pool_inv n s \<Longrightarrow> length (snd (foldl (pool_exec acquire release) s xs)) \<le> n"
  using run_inv [of n s xs] by (simp add: pool_inv_def)

lemma no_idle_permit:
  "pool_inv n s \<Longrightarrow> waiting (fst (foldl (pool_exec acquire release) s xs)) \<noteq> [] \<Longrightarrow>
    length (snd (foldl (pool_exec acquire release) s xs)) = n"
  using run_inv [of n s xs] by (simp add: pool_inv_def)

end

section \<open>Semaphore\<close>

record 'w semaphore =
  sem_max :: nat
  sem_active :: nat
  sem_waiters :: "'w list"

definition new_Semaphore :: "int \<Rightarrow> 'w semaphore" where
  "new_Semaphore n = \<lparr>sem_max = nat (max 0 n), sem_active = 0, sem_waiters = []\<rparr>"

definition sem_acquire :: "'w \<Rightarrow> 'w semaphore \<Rightarrow> bool \<times> 'w semaphore" where
  "sem_acquire w s =
    (if sem_active s < sem_max s then (True, s\<lparr>sem_active := sem_active s + 1\<rparr>)
     else (False, s\<lparr>sem_waiters := sem_waiters s @ [w]\<rparr>))"

definition sem_release :: "'w semaphore \<Rightarrow> 'w option \<times> 'w semaphore" where
  "sem_release s =
    (case sem_waiters s of
       next # rest \<Rightarrow> (Some next, s\<lparr>sem_waiters := rest\<rparr>)
     | [] \<Rightarrow> (None, s\<lparr>sem_active := sem_active s - 1\<rparr>))"

interpretation semaphore: permit_pool sem_max sem_active sem_waiters sem_acquire sem_release
  by unfold_locales (auto simp: sem_acquire_def sem_release_def)

text \<open>
  C23. A semaphore for \<open>max\<close> permits never lets more than \<open>max\<close> callers run at once, and never
  leaves a caller waiting while a permit is free, for every sequence of \<open>acquire\<close> and \<open>release\<close>:
  the permit passes to the queued waiter directly.
\<close>

theorem semaphore_bound_and_progress:
  "length (snd (foldl (pool_exec sem_acquire sem_release) (new_Semaphore n, []) ops)) \<le> nat (max 0 n)
    \<and> (sem_waiters (fst (foldl (pool_exec sem_acquire sem_release) (new_Semaphore n, []) ops)) = []
      \<or> length (snd (foldl (pool_exec sem_acquire sem_release) (new_Semaphore n, []) ops)) = nat (max 0 n))"
proof -
  have inv: "semaphore.pool_inv (nat (max 0 n)) (new_Semaphore n, [])"
    by (simp add: semaphore.pool_inv_def new_Semaphore_def)
  from semaphore.holders_bounded [OF inv] semaphore.no_idle_permit [OF inv] show ?thesis by blast
qed

section \<open>VisualWorkQueue\<close>

datatype work_kind = Fetch | Decode

record 'w work_queue =
  maxConcurrentFetches :: nat
  maxConcurrentDecodes :: nat
  fetchActive :: nat
  decodeActive :: nat
  fetchWaiters :: "'w list"
  decodeWaiters :: "'w list"
  pending :: nat
  peakPending :: nat
  dead :: bool
  dead_reason :: "string option"

definition new_VisualWorkQueue :: "nat \<Rightarrow> nat \<Rightarrow> 'w work_queue" where
  "new_VisualWorkQueue f d =
    \<lparr>maxConcurrentFetches = max 1 f, maxConcurrentDecodes = max 1 d, fetchActive = 0,
     decodeActive = 0, fetchWaiters = [], decodeWaiters = [], pending = 0, peakPending = 0,
     dead = False, dead_reason = None\<rparr>"

definition wq_limit :: "work_kind \<Rightarrow> 'w work_queue \<Rightarrow> nat" where
  "wq_limit kind q = (if kind = Decode then maxConcurrentDecodes q else maxConcurrentFetches q)"

definition wq_active :: "work_kind \<Rightarrow> 'w work_queue \<Rightarrow> nat" where
  "wq_active kind q = (if kind = Decode then decodeActive q else fetchActive q)"

definition wq_waiters :: "work_kind \<Rightarrow> 'w work_queue \<Rightarrow> 'w list" where
  "wq_waiters kind q = (if kind = Decode then decodeWaiters q else fetchWaiters q)"

definition set_active :: "work_kind \<Rightarrow> nat \<Rightarrow> 'w work_queue \<Rightarrow> 'w work_queue" where
  "set_active kind n q = (if kind = Decode then q\<lparr>decodeActive := n\<rparr> else q\<lparr>fetchActive := n\<rparr>)"

definition set_waiters :: "work_kind \<Rightarrow> 'w list \<Rightarrow> 'w work_queue \<Rightarrow> 'w work_queue" where
  "set_waiters kind ws q = (if kind = Decode then q\<lparr>decodeWaiters := ws\<rparr> else q\<lparr>fetchWaiters := ws\<rparr>)"

definition wq_assertLive :: "'w work_queue \<Rightarrow> (string, unit) result" where
  "wq_assertLive q =
    (if dead q
     then Inl (case dead_reason q of
         Some r \<Rightarrow> if r = '''' then ''Visual work queue is unavailable.'' else r
       | None \<Rightarrow> ''Visual work queue is unavailable.'')
     else Inr ())"

definition wq_acquire :: "work_kind \<Rightarrow> 'w \<Rightarrow> 'w work_queue \<Rightarrow> bool \<times> 'w work_queue" where
  "wq_acquire kind w q =
    (if wq_active kind q < wq_limit kind q then (True, set_active kind (wq_active kind q + 1) q)
     else (False, set_waiters kind (wq_waiters kind q @ [w]) q))"

definition wq_release :: "work_kind \<Rightarrow> 'w work_queue \<Rightarrow> 'w option \<times> 'w work_queue" where
  "wq_release kind q =
    (let q1 = set_active kind (wq_active kind q - 1) q
     in case wq_waiters kind q1 of
         next # rest \<Rightarrow> (Some next, set_active kind (wq_active kind q1 + 1) (set_waiters kind rest q1))
       | [] \<Rightarrow> (None, q1))"

text \<open>
  \<open>_run\<close> is cut at its awaits: \<open>start\<close> up to the permit, \<open>resume\<close> when the permit is held (the queue
  may have died meanwhile: then the permit goes back and the caller gets the error), \<open>finish\<close>
  after the work, \<open>rejected\<close> for a waiter whose promise was rejected.
\<close>

definition wq_start :: "work_kind \<Rightarrow> 'w \<Rightarrow> 'w work_queue \<Rightarrow> (string, bool \<times> 'w work_queue) result" where
  "wq_start kind w q =
    res_bind (wq_assertLive q) (\<lambda>_.
      let p = pending q + 1
      in Inr (wq_acquire kind w (q\<lparr>pending := p, peakPending := max (peakPending q) p\<rparr>)))"

definition wq_finish :: "work_kind \<Rightarrow> 'w work_queue \<Rightarrow> 'w option \<times> 'w work_queue" where
  "wq_finish kind q =
    (let (woken, q1) = wq_release kind q in (woken, q1\<lparr>pending := pending q1 - 1\<rparr>))"

definition wq_resume :: "work_kind \<Rightarrow> 'w work_queue \<Rightarrow> (string, unit) result \<times> 'w option \<times> 'w work_queue" where
  "wq_resume kind q =
    (case wq_assertLive q of
       Inl e \<Rightarrow> (Inl e, wq_finish kind q)
     | Inr _ \<Rightarrow> (Inr (), None, q))"

definition wq_rejected :: "'w work_queue \<Rightarrow> 'w work_queue" where
  "wq_rejected q = q\<lparr>pending := pending q - 1\<rparr>"

definition wq_rejectAll :: "string \<Rightarrow> 'w work_queue \<Rightarrow> 'w list \<times> 'w work_queue" where
  "wq_rejectAll r q =
    (fetchWaiters q @ decodeWaiters q,
     q\<lparr>dead := True, dead_reason := Some r, fetchWaiters := [], decodeWaiters := [], pending := 0\<rparr>)"

definition wq_reset :: "'w work_queue \<Rightarrow> 'w list \<times> 'w work_queue" where
  "wq_reset q =
    (let (rejected, q1) = wq_rejectAll ''Visual work queue was reset.'' q
     in (rejected, q1\<lparr>dead := False, dead_reason := None, fetchActive := 0, decodeActive := 0,
       pending := 0, peakPending := 0\<rparr>))"

lemma wq_fields [simp]:
  "wq_active k (set_active k n q) = n" "wq_waiters k (set_active k n q) = wq_waiters k q"
  "wq_limit k (set_active k n q) = wq_limit k q" "wq_waiters k (set_waiters k ws q) = ws"
  "wq_active k (set_waiters k ws q) = wq_active k q" "wq_limit k (set_waiters k ws q) = wq_limit k q"
  by (simp_all add: wq_active_def wq_waiters_def wq_limit_def set_active_def set_waiters_def)

interpretation work: permit_pool "wq_limit k" "wq_active k" "wq_waiters k" "wq_acquire k" "wq_release k"
  for k
  by unfold_locales (auto simp: wq_acquire_def wq_release_def Let_def)

text \<open>A queue with the callers that hold a permit, per kind.\<close>

datatype 'w wq_op = Start work_kind 'w | Resume work_kind 'w | Finish work_kind 'w
  | RejectAll string | Rejected | Reset

definition leave :: "work_kind \<Rightarrow> 'w \<Rightarrow> 'w option \<Rightarrow> (work_kind \<Rightarrow> 'w list) \<Rightarrow> work_kind \<Rightarrow> 'w list" where
  "leave kind w woken hs = hs(kind := (case woken of None \<Rightarrow> [] | Some v \<Rightarrow> [v]) @ remove1 w (hs kind))"

fun wq_exec :: "'w work_queue \<times> (work_kind \<Rightarrow> 'w list) \<Rightarrow> 'w wq_op \<Rightarrow>
    'w work_queue \<times> (work_kind \<Rightarrow> 'w list)" where
  "wq_exec (q, hs) (Start kind w) =
    (case wq_start kind w q of Inl _ \<Rightarrow> (q, hs)
     | Inr (granted, q') \<Rightarrow> (q', if granted then hs(kind := w # hs kind) else hs))"
| "wq_exec (q, hs) (Resume kind w) =
    (if w \<in> set (hs kind)
     then (case wq_resume kind q of
         (Inl _, woken, q') \<Rightarrow> (q', leave kind w woken hs)
       | (Inr _, _, q') \<Rightarrow> (q', hs))
     else (q, hs))"
| "wq_exec (q, hs) (Finish kind w) =
    (if w \<in> set (hs kind)
     then (case wq_finish kind q of (woken, q') \<Rightarrow> (q', leave kind w woken hs))
     else (q, hs))"
| "wq_exec (q, hs) (RejectAll r) = (snd (wq_rejectAll r q), hs)"
| "wq_exec (q, hs) Rejected = (wq_rejected q, hs)"
| "wq_exec (q, hs) Reset = (snd (wq_reset q), hs)"

definition wq_inv :: "nat \<Rightarrow> nat \<Rightarrow> 'w work_queue \<times> (work_kind \<Rightarrow> 'w list) \<Rightarrow> bool" where
  "wq_inv f d s \<longleftrightarrow> work.pool_inv Fetch f (fst s, snd s Fetch) \<and> work.pool_inv Decode d (fst s, snd s Decode)"

lemma wq_inv_cong:
  assumes "fetchActive q' = fetchActive q" "decodeActive q' = decodeActive q"
    "maxConcurrentFetches q' = maxConcurrentFetches q" "maxConcurrentDecodes q' = maxConcurrentDecodes q"
    "fetchWaiters q' = fetchWaiters q \<or> fetchWaiters q' = []"
    "decodeWaiters q' = decodeWaiters q \<or> decodeWaiters q' = []"
  shows "wq_inv f d (q, hs) \<Longrightarrow> wq_inv f d (q', hs)"
  using assms unfolding wq_inv_def work.pool_inv_def wq_active_def wq_limit_def wq_waiters_def
  by auto

text \<open>An operation on one slot leaves the other alone.\<close>

lemma wq_other_slot [simp]:
  assumes "k' \<noteq> k"
  shows "wq_active k' (set_active k n q) = wq_active k' q" "wq_waiters k' (set_active k n q) = wq_waiters k' q"
    "wq_limit k' (set_active k n q) = wq_limit k' q" "wq_waiters k' (set_waiters k ws q) = wq_waiters k' q"
    "wq_active k' (set_waiters k ws q) = wq_active k' q" "wq_limit k' (set_waiters k ws q) = wq_limit k' q"
  using assms by (cases k; cases k'; simp add: wq_active_def wq_waiters_def wq_limit_def set_active_def
    set_waiters_def)+

lemma wq_slot_step:
  assumes inv: "wq_inv f d (q, hs)"
    and same: "work.pool_inv k (if k = Fetch then f else d) (q', hs')"
    and other: "\<And>k'. k' \<noteq> k \<Longrightarrow> wq_active k' q' = wq_active k' q \<and> wq_waiters k' q' = wq_waiters k' q
      \<and> wq_limit k' q' = wq_limit k' q"
  shows "wq_inv f d (q', hs(k := hs'))"
proof (cases k)
  case Fetch
  have "work.pool_inv Decode d (q', hs Decode)"
    using inv other [of Decode] Fetch by (simp add: wq_inv_def work.pool_inv_def)
  with same Fetch show ?thesis by (simp add: wq_inv_def)
next
  case Decode
  have "work.pool_inv Fetch f (q', hs Fetch)"
    using inv other [of Fetch] Decode by (simp add: wq_inv_def work.pool_inv_def)
  with same Decode show ?thesis by (simp add: wq_inv_def)
qed

lemma wq_inv_slot: "wq_inv f d (q, hs) \<Longrightarrow> work.pool_inv k (if k = Fetch then f else d) (q, hs k)"
  by (cases k) (auto simp: wq_inv_def)

lemma wq_acquire_other:
  "k' \<noteq> k \<Longrightarrow> wq_acquire k w q = (g, q') \<Longrightarrow> wq_active k' q' = wq_active k' q
    \<and> wq_waiters k' q' = wq_waiters k' q \<and> wq_limit k' q' = wq_limit k' q"
  by (auto simp: wq_acquire_def split: if_splits)

lemma wq_release_other:
  "k' \<noteq> k \<Longrightarrow> wq_release k q = (g, q') \<Longrightarrow> wq_active k' q' = wq_active k' q
    \<and> wq_waiters k' q' = wq_waiters k' q \<and> wq_limit k' q' = wq_limit k' q"
  by (auto simp: wq_release_def Let_def split: list.splits)

lemma wq_finish_inv:
  assumes inv: "wq_inv f d (q, hs)" and w: "w \<in> set (hs k)" and fin: "wq_finish k q = (woken, q')"
  shows "wq_inv f d (q', leave k w woken hs)"
proof -
  obtain q1 where r: "wq_release k q = (woken, q1)" and q': "q' = q1\<lparr>pending := pending q1 - 1\<rparr>"
    using fin by (auto simp: wq_finish_def Let_def split: prod.splits)
  have step: "pool_exec (wq_acquire k) (wq_release k) (q, hs k) (Leave w)
      = (q1, (case woken of None \<Rightarrow> [] | Some v \<Rightarrow> [v]) @ remove1 w (hs k))"
    using w r by simp
  have "work.pool_inv k (if k = Fetch then f else d)
      (q1, (case woken of None \<Rightarrow> [] | Some v \<Rightarrow> [v]) @ remove1 w (hs k))"
    using work.pool_exec_inv [OF wq_inv_slot [OF inv], of k "Leave w"] unfolding step .
  then have "wq_inv f d (q1, leave k w woken hs)"
    unfolding leave_def by (rule wq_slot_step [OF inv]) (rule wq_release_other [OF _ r])
  then show ?thesis by (rule wq_inv_cong [rotated -1]) (simp_all add: q')
qed

lemma wq_start_inv:
  assumes inv: "wq_inv f d (q, hs)" and st: "wq_start k w q = Inr (granted, q')"
  shows "wq_inv f d (q', if granted then hs(k := w # hs k) else hs)"
proof -
  let ?q0 = "q\<lparr>pending := pending q + 1, peakPending := max (peakPending q) (pending q + 1)\<rparr>"
  have a: "wq_acquire k w ?q0 = (granted, q')"
    using st by (auto simp: wq_start_def Let_def elim!: result_elims)
  have inv0: "wq_inv f d (?q0, hs)" by (rule wq_inv_cong [OF _ _ _ _ _ _ inv]) simp_all
  have step: "pool_exec (wq_acquire k) (wq_release k) (?q0, hs k) (Acquire w)
      = (q', if granted then w # hs k else hs k)"
    using a by simp
  have "work.pool_inv k (if k = Fetch then f else d) (q', if granted then w # hs k else hs k)"
    using work.pool_exec_inv [OF wq_inv_slot [OF inv0], of k "Acquire w"] unfolding step .
  then have "wq_inv f d (q', hs(k := if granted then w # hs k else hs k))"
    by (rule wq_slot_step [OF inv0]) (rule wq_acquire_other [OF _ a])
  then show ?thesis by (cases granted) simp_all
qed

lemma wq_exec_inv: "wq_inv f d s \<Longrightarrow> x \<noteq> Reset \<Longrightarrow> wq_inv f d (wq_exec s x)"
proof (cases s)
  case (Pair q hs)
  assume inv: "wq_inv f d s" and x: "x \<noteq> Reset"
  show ?thesis
  proof (cases x)
    case (Start k w)
    with inv wq_start_inv show ?thesis by (fastforce simp: Pair split: sum.splits)
  next
    case (Resume k w)
    with inv wq_finish_inv show ?thesis
      by (fastforce simp: Pair wq_resume_def split: sum.splits prod.splits)
  next
    case (Finish k w)
    with inv wq_finish_inv show ?thesis by (fastforce simp: Pair split: prod.splits)
  next
    case (RejectAll r)
    have "wq_inv f d (snd (wq_rejectAll r q), hs)"
      by (rule wq_inv_cong [OF _ _ _ _ _ _ inv [unfolded Pair]]) (simp_all add: wq_rejectAll_def)
    then show ?thesis by (simp add: Pair RejectAll)
  next
    case Rejected
    have "wq_inv f d (wq_rejected q, hs)"
      by (rule wq_inv_cong [OF _ _ _ _ _ _ inv [unfolded Pair]]) (simp_all add: wq_rejected_def)
    then show ?thesis by (simp add: Pair Rejected)
  qed (use x in simp)
qed

text \<open>
  Without \<open>reset\<close>, a work queue never has more callers of a kind past their permit than that
  kind's limit, whatever the interleaving of starts, resumptions, ends and \<open>rejectAll\<close>.
\<close>

theorem work_queue_bound:
  assumes "Reset \<notin> set ops"
  shows "length (snd (foldl wq_exec (new_VisualWorkQueue f d, \<lambda>_. []) ops) Fetch) \<le> max 1 f
    \<and> length (snd (foldl wq_exec (new_VisualWorkQueue f d, \<lambda>_. []) ops) Decode) \<le> max 1 d"
proof -
  have "wq_inv (max 1 f) (max 1 d) (foldl wq_exec s ops)" if "wq_inv (max 1 f) (max 1 d) s" for s
    using assms that
  proof (induction ops arbitrary: s)
    case (Cons x ops)
    then have "wq_inv (max 1 f) (max 1 d) (wq_exec s x)" by (intro wq_exec_inv) auto
    then show ?case using Cons by simp
  qed simp
  moreover have "wq_inv (max 1 f) (max 1 d) (new_VisualWorkQueue f d, \<lambda>_. [])"
    by (simp add: wq_inv_def work.pool_inv_def new_VisualWorkQueue_def wq_limit_def wq_active_def
      wq_waiters_def)
  ultimately have "wq_inv (max 1 f) (max 1 d) (foldl wq_exec (new_VisualWorkQueue f d, \<lambda>_. []) ops)"
    by blast
  then show ?thesis by (simp add: wq_inv_def work.pool_inv_def)
qed

theorem work_queue_bound_witness:
  "length (snd (foldl wq_exec (new_VisualWorkQueue 2 1, \<lambda>_. [])
      [Start Decode (1 :: nat), Start Decode 2, Finish Decode 1]) Decode) \<le> max 1 (1 :: nat)"
  using work_queue_bound [of "[Start Decode (1 :: nat), Start Decode 2, Finish Decode 1]" 2 1] by simp

text \<open>
  \<open>reset\<close> breaks the bound: it forgets the callers that are running, the end of one of them
  then frees a permit that a newer caller holds, and two decodes run where one is allowed.
\<close>

theorem work_queue_reset_exceeds_limit:
  "length (snd (foldl wq_exec (new_VisualWorkQueue 1 1, \<lambda>_. [])
      [Start Decode (1 :: nat), Reset, Start Decode 2, Finish Decode 1, Start Decode 3]) Decode) = 2
    \<and> maxConcurrentDecodes (fst (foldl wq_exec (new_VisualWorkQueue 1 1, \<lambda>_. [])
      [Start Decode (1 :: nat), Reset, Start Decode 2, Finish Decode 1, Start Decode 3])) = 1"
  by (simp add: new_VisualWorkQueue_def wq_start_def wq_assertLive_def wq_acquire_def wq_active_def
    wq_limit_def wq_waiters_def set_active_def set_waiters_def wq_reset_def wq_rejectAll_def
    wq_finish_def wq_release_def leave_def Let_def)

end
