(* ===== verification/ResourceCache.thy ===== *)
theory ResourceCache
  imports Ledgers JsSort
begin

text \<open>
  \<open>app/3d/environment/visual/VisualResourceCache.js\<close>: leased, evictable decoded resources under a
  \<open>VisualMemoryLedger\<close>. Entries are mutable objects shared by the map and by lease handles, so
  they live in a heap. Each method that awaits is cut at its awaits into steps that other steps
  may separate. Loaders, decoded values and their disposal are outside the model;
  \<open>localeCompare\<close> is a parameter because its order depends on the host's locale data.
\<close>

record cache_entry =
  ce_key :: string
  ce_useHash :: "string option"
  ce_bytes :: nat
  ce_memoryKind :: string
  reservationId :: nat
  refs :: nat
  lastUsed :: int
  gpuReservationId :: "nat option"
  gpuBytes :: nat
  rightsEpoch :: nat
  disposed :: bool

record resource_cache =
  ledger :: visual_ledger
  cache_dead :: bool
  heap :: "nat \<Rightarrow> cache_entry option"
  next_object :: nat
  entries :: "(string, nat) js_map"
  inflight :: "string list"
  disposals :: nat
  evictions :: nat
  generation :: nat
  handles :: "(nat, nat \<times> bool) js_map" \<comment> \<open>lease to (entry, released)\<close>
  next_handle :: nat

definition new_VisualResourceCache :: "visual_ledger \<Rightarrow> resource_cache" where
  "new_VisualResourceCache l =
    \<lparr>ledger = l, cache_dead = False, heap = (\<lambda>_. None), next_object = 0, entries = [], inflight = [],
     disposals = 0, evictions = 0, generation = 0, handles = [], next_handle = 0\<rparr>"

datatype cache_error = Ledger ledger_error | ContextLost | Superseded string nat | Cancelled
  | AssetMissing string | CannotEvict string nat | RightsDenied

definition lift_ledger :: "(ledger_error, 'a) result \<Rightarrow> (cache_error, 'a) result" where
  "lift_ledger r = (case r of Inl e \<Rightarrow> Inl (Ledger e) | Inr v \<Rightarrow> Inr v)"

definition rc_assertLive :: "resource_cache \<Rightarrow> (cache_error, unit) result" where
  "rc_assertLive c = (if cache_dead c then Inl ContextLost else Inr ())"

definition throwIfAborted :: "bool \<Rightarrow> (cache_error, unit) result" where
  "throwIfAborted aborted = (if aborted then Inl Cancelled else Inr ())"

section \<open>Disposal and eviction\<close>

definition rc_disposeEntry :: "nat \<Rightarrow> bool \<Rightarrow> resource_cache \<Rightarrow> (cache_error, resource_cache) result" where
  "rc_disposeEntry o1 eviction c =
    (case heap c o1 of
       None \<Rightarrow> Inr c
     | Some e \<Rightarrow>
         if disposed e then Inr c
         else if refs e > 0 then Inl (Superseded (ce_key e) (refs e))
         else Inr (c\<lparr>heap := (heap c)(o1 \<mapsto> e\<lparr>disposed := True\<rparr>),
           entries := AList.delete (ce_key e) (entries c),
           ledger := snd (vml_release (gpuReservationId e)
             (snd (vml_release (Some (reservationId e)) (ledger c)))),
           disposals := disposals c + 1,
           evictions := (if eviction then evictions c + 1 else evictions c)\<rparr>))"

definition evict_order :: "(string \<Rightarrow> string \<Rightarrow> int) \<Rightarrow> nat \<times> cache_entry \<Rightarrow> nat \<times> cache_entry \<Rightarrow> int" where
  "evict_order localeCompare l r =
    cmp_or (cmp_int (lastUsed (snd l)) (lastUsed (snd r))) (localeCompare (ce_key (snd l)) (ce_key (snd r)))"

definition zeroRef :: "(string \<Rightarrow> string \<Rightarrow> int) \<Rightarrow> resource_cache \<Rightarrow> nat list" where
  "zeroRef localeCompare c =
    map fst (sort_by (evict_order localeCompare)
      (filter (\<lambda>(_, e). refs e = 0 \<and> \<not> disposed e)
        (List.map_filter (\<lambda>(_, o1). map_option (Pair o1) (heap c o1)) (entries c))))"

fun evict_loop :: "string \<Rightarrow> nat \<Rightarrow> nat list \<Rightarrow> resource_cache \<Rightarrow> (cache_error, resource_cache) result" where
  "evict_loop kind bytes [] c = Inr c"
| "evict_loop kind bytes (o1 # os) c =
    res_bind (lift_ledger (vml_canReserve kind (Some (int bytes)) (ledger c))) (\<lambda>ok.
      if ok then Inr c
      else res_bind (rc_disposeEntry o1 True c) (\<lambda>c'. evict_loop kind bytes os c'))"

definition evictUntil ::
  "(string \<Rightarrow> string \<Rightarrow> int) \<Rightarrow> string \<Rightarrow> nat \<Rightarrow> resource_cache \<Rightarrow> (cache_error, unit) result \<times> resource_cache" where
  "evictUntil localeCompare kind bytes c =
    (case evict_loop kind bytes (zeroRef localeCompare c) c of
       Inl e \<Rightarrow> (Inl e, c)
     | Inr c' \<Rightarrow>
         (case vml_canReserve kind (Some (int bytes)) (ledger c') of
            Inl e \<Rightarrow> (Inl (Ledger e), c')
          | Inr ok \<Rightarrow> if \<not> ok then (Inl (CannotEvict kind bytes), c') else (Inr (), c')))"

definition rc_ledger_reserve ::
  "string \<Rightarrow> nat \<Rightarrow> string \<Rightarrow> resource_cache \<Rightarrow> (cache_error, nat) result \<times> resource_cache" where
  "rc_ledger_reserve kind bytes label c =
    (case vml_reserve kind (Some (int bytes)) label (ledger c) of
       Inl e \<Rightarrow> (Inl (Ledger e), c)
     | Inr (i, l) \<Rightarrow> (Inr i, c\<lparr>ledger := l\<rparr>))"

text \<open>An eviction that fails leaves the entries it already disposed of gone, so it returns the cache.\<close>

definition reserveWithEviction ::
  "(string \<Rightarrow> string \<Rightarrow> int) \<Rightarrow> string \<Rightarrow> nat \<Rightarrow> string \<Rightarrow> resource_cache
    \<Rightarrow> (cache_error, nat) result \<times> resource_cache" where
  "reserveWithEviction localeCompare kind bytes label c =
    (if bytes = 0 then rc_ledger_reserve kind 0 label c
     else case vml_canReserve kind (Some (int bytes)) (ledger c) of
         Inl e \<Rightarrow> (Inl (Ledger e), c)
       | Inr ok \<Rightarrow>
           if ok then rc_ledger_reserve kind bytes label c
           else (case evictUntil localeCompare kind bytes c of
               (Inl e, c') \<Rightarrow> (Inl e, c')
             | (Inr _, c') \<Rightarrow> rc_ledger_reserve kind bytes label c'))"

section \<open>Leases\<close>

definition upd_entry :: "nat \<Rightarrow> (cache_entry \<Rightarrow> cache_entry) \<Rightarrow> resource_cache \<Rightarrow> resource_cache" where
  "upd_entry o1 f c = c\<lparr>heap := (heap c)(o1 := map_option f (heap c o1))\<rparr>"

definition rc_handle :: "nat \<Rightarrow> resource_cache \<Rightarrow> nat \<times> resource_cache" where
  "rc_handle o1 c =
    (next_handle c, c\<lparr>handles := AList.update (next_handle c) (o1, False) (handles c),
      next_handle := next_handle c + 1\<rparr>)"

definition releaseEntry :: "int \<Rightarrow> nat \<Rightarrow> resource_cache \<Rightarrow> resource_cache" where
  "releaseEntry now o1 c =
    upd_entry o1 (\<lambda>e. if disposed e then e else e\<lparr>refs := refs e - 1, lastUsed := now\<rparr>) c"

definition handle_release :: "int \<Rightarrow> nat \<Rightarrow> resource_cache \<Rightarrow> resource_cache" where
  "handle_release now h c =
    (case map_of (handles c) h of
       None \<Rightarrow> c
     | Some (o1, released) \<Rightarrow>
         if released then c
         else releaseEntry now o1 (c\<lparr>handles := AList.update h (o1, True) (handles c)\<rparr>))"

datatype acquire_start = Reuse nat | Join | Load

definition acquire_begin :: "string \<Rightarrow> bool \<Rightarrow> resource_cache \<Rightarrow> (cache_error, acquire_start \<times> resource_cache) result" where
  "acquire_begin key aborted c =
    res_bind (rc_assertLive c) (\<lambda>_. res_bind (throwIfAborted aborted) (\<lambda>_.
      case map_of (entries c) key of
        Some o1 \<Rightarrow> Inr (Reuse o1, c)
      | None \<Rightarrow>
          if key \<in> set (inflight c) then Inr (Join, c)
          else Inr (Load, c\<lparr>inflight := inflight c @ [key]\<rparr>)))"

text \<open>
  \<open>_assertReusable\<close> looks at \<open>disposed\<close> and then awaits the rights checker; the caller increments
  \<open>refs\<close> afterwards.
\<close>

definition assertReusable_begin :: "nat \<Rightarrow> resource_cache \<Rightarrow> (cache_error, unit) result" where
  "assertReusable_begin o1 c =
    (case heap c o1 of
       None \<Rightarrow> Inr ()
     | Some e \<Rightarrow> if disposed e then Inl (AssetMissing (ce_key e)) else Inr ())"

definition assertReusable_end :: "bool \<Rightarrow> nat \<Rightarrow> resource_cache \<Rightarrow> resource_cache" where
  "assertReusable_end checked o1 c =
    (if checked then upd_entry o1 (\<lambda>e. e\<lparr>rightsEpoch := generation c\<rparr>) c else c)"

definition acquire_reuse_end :: "int \<Rightarrow> bool \<Rightarrow> nat \<Rightarrow> resource_cache \<Rightarrow> nat \<times> resource_cache" where
  "acquire_reuse_end now checked o1 c =
    rc_handle o1 (upd_entry o1 (\<lambda>e. e\<lparr>refs := refs e + 1, lastUsed := now\<rparr>)
      (assertReusable_end checked o1 c))"

definition acquire_join_resume :: "bool \<Rightarrow> nat \<Rightarrow> resource_cache \<Rightarrow> (cache_error, unit) result" where
  "acquire_join_resume aborted o1 c =
    res_bind (rc_assertLive c) (\<lambda>_. res_bind (throwIfAborted aborted) (\<lambda>_.
      assertReusable_begin o1 c))"

definition storeEntry ::
  "string \<Rightarrow> string option \<Rightarrow> nat \<Rightarrow> string \<Rightarrow> nat \<Rightarrow> int \<Rightarrow> resource_cache \<Rightarrow> nat \<times> resource_cache" where
  "storeEntry key useHash bytes memoryKind resId now c =
    (let e = \<lparr>ce_key = key, ce_useHash = useHash, ce_bytes = bytes, ce_memoryKind = memoryKind,
           reservationId = resId, refs = 0, lastUsed = now, gpuReservationId = None, gpuBytes = 0,
           rightsEpoch = generation c, disposed = False\<rparr>
     in (next_object c, c\<lparr>heap := (heap c)(next_object c \<mapsto> e), next_object := next_object c + 1,
       entries := AList.update key (next_object c) (entries c)\<rparr>))"

definition release_reservation :: "nat option \<Rightarrow> resource_cache \<Rightarrow> resource_cache" where
  "release_reservation rid c = c\<lparr>ledger := snd (vml_release rid (ledger c))\<rparr>"

text \<open>\<open>_loadEntry\<close> up to the queue, and after the loader returned \<open>actual\<close> bytes.\<close>

definition load_begin ::
  "(string \<Rightarrow> string \<Rightarrow> int) \<Rightarrow> string \<Rightarrow> nat \<Rightarrow> string \<Rightarrow> resource_cache \<Rightarrow> (cache_error, nat) result \<times> resource_cache" where
  "load_begin localeCompare memoryKind estimated kind c =
    reserveWithEviction localeCompare memoryKind estimated kind c"

definition load_end ::
  "(string \<Rightarrow> string \<Rightarrow> int) \<Rightarrow> string \<Rightarrow> string option \<Rightarrow> string \<Rightarrow> string \<Rightarrow> nat \<Rightarrow> nat \<Rightarrow> nat \<Rightarrow> int
    \<Rightarrow> resource_cache \<Rightarrow> (cache_error, nat) result \<times> resource_cache" where
  "load_end localeCompare key useHash memoryKind kind estimated actual resId now c =
    (if actual \<noteq> estimated
     then (case reserveWithEviction localeCompare memoryKind actual kind
             (release_reservation (Some resId) c) of
         (Inl e, c1) \<Rightarrow> (Inl e, release_reservation (Some resId) c1)
       | (Inr adjusted, c1) \<Rightarrow>
           (case storeEntry key useHash actual memoryKind adjusted now c1 of (o1, c2) \<Rightarrow> (Inr o1, c2)))
     else (case storeEntry key useHash actual memoryKind resId now c of (o1, c1) \<Rightarrow> (Inr o1, c1)))"

definition load_failed :: "nat \<Rightarrow> resource_cache \<Rightarrow> resource_cache" where
  "load_failed resId c = release_reservation (Some resId) c"

definition acquire_load_end :: "string \<Rightarrow> nat \<Rightarrow> resource_cache \<Rightarrow> nat \<times> resource_cache" where
  "acquire_load_end key o1 c =
    (case rc_handle o1 (upd_entry o1 (\<lambda>e. e\<lparr>refs := refs e + 1\<rparr>) c) of
       (h, c') \<Rightarrow> (h, c'\<lparr>inflight := removeAll key (inflight c')\<rparr>))"

definition acquire_load_failed :: "string \<Rightarrow> resource_cache \<Rightarrow> resource_cache" where
  "acquire_load_failed key c = c\<lparr>inflight := removeAll key (inflight c)\<rparr>"

text \<open>The end of \<open>acquireTexture\<close>: the GPU bytes of a leased entry are reserved once.\<close>

definition texture_gpu ::
  "(string \<Rightarrow> string \<Rightarrow> int) \<Rightarrow> nat \<Rightarrow> int \<Rightarrow> nat \<Rightarrow> nat \<Rightarrow> resource_cache \<Rightarrow> (cache_error, nat) result \<times> resource_cache" where
  "texture_gpu localeCompare gbytes now h o1 c =
    (case heap c o1 of
       None \<Rightarrow> (Inr h, c)
     | Some e \<Rightarrow>
         if gbytes > 0 \<and> gpuReservationId e = None
         then (case reserveWithEviction localeCompare ''gpu'' gbytes ''gpu'' c of
             (Inl err, c1) \<Rightarrow> (Inl err, handle_release now h c1)
           | (Inr i, c1) \<Rightarrow>
               (Inr h, upd_entry o1 (\<lambda>e. e\<lparr>gpuReservationId := Some i, gpuBytes := gbytes\<rparr>) c1))
         else (Inr h, c))"

definition rc_reserveTransient ::
  "(string \<Rightarrow> string \<Rightarrow> int) \<Rightarrow> nat \<Rightarrow> string \<Rightarrow> resource_cache \<Rightarrow> (cache_error, nat) result \<times> resource_cache" where
  "rc_reserveTransient localeCompare bytes label c =
    (case rc_assertLive c of Inl e \<Rightarrow> (Inl e, c)
     | Inr _ \<Rightarrow> reserveWithEviction localeCompare ''transient'' bytes label c)"

section \<open>Revocation and loss of the context\<close>

text \<open>\<open>revalidateSourceRights\<close>, one use hash at a time: the checker accepted or refused it.\<close>

definition rights_granted :: "string \<Rightarrow> resource_cache \<Rightarrow> resource_cache" where
  "rights_granted useHash c =
    fold (\<lambda>(_, o1) s. upd_entry o1 (\<lambda>e. if ce_useHash e = Some useHash
        then e\<lparr>rightsEpoch := generation s\<rparr> else e) s) (entries c) c"

fun rights_denied_loop :: "string \<Rightarrow> nat list \<Rightarrow> resource_cache \<Rightarrow> (cache_error, unit) result \<times> resource_cache" where
  "rights_denied_loop useHash [] c = (Inr (), c)"
| "rights_denied_loop useHash (o1 # os) c =
    (case heap c o1 of
       None \<Rightarrow> rights_denied_loop useHash os c
     | Some e \<Rightarrow>
         if ce_useHash e \<noteq> Some useHash then rights_denied_loop useHash os c
         else if refs e > 0 then (Inl RightsDenied, c)
         else (case rc_disposeEntry o1 True c of
             Inl err \<Rightarrow> (Inl err, c)
           | Inr c' \<Rightarrow> rights_denied_loop useHash os c'))"

definition rights_denied :: "string \<Rightarrow> resource_cache \<Rightarrow> (cache_error, unit) result \<times> resource_cache" where
  "rights_denied useHash c = rights_denied_loop useHash (map snd (entries c)) c"

definition force_dispose :: "nat \<Rightarrow> resource_cache \<Rightarrow> resource_cache" where
  "force_dispose o1 c =
    (case rc_disposeEntry o1 False (upd_entry o1 (\<lambda>e. e\<lparr>refs := 0\<rparr>) c) of
       Inl _ \<Rightarrow> c | Inr c' \<Rightarrow> c')"

definition rc_disposeEntries :: "resource_cache \<Rightarrow> resource_cache" where
  "rc_disposeEntries c = fold force_dispose (map snd (entries c)) c"

definition handleContextLost :: "resource_cache \<Rightarrow> resource_cache" where
  "handleContextLost c =
    (let c1 = rc_disposeEntries (c\<lparr>cache_dead := True, generation := generation c + 1, inflight := []\<rparr>)
     in c1\<lparr>ledger := vml_releaseAll (ledger c1)\<rparr>)"

section \<open>The invariant\<close>

text \<open>
  The ledger is within its ceilings, the map holds one live entry per key under its own key, and
  object names are fresh.
\<close>

definition entry_live :: "(nat \<Rightarrow> cache_entry option) \<Rightarrow> string \<Rightarrow> nat \<Rightarrow> bool" where
  "entry_live hp k o1 =
    (case hp o1 of None \<Rightarrow> False | Some e \<Rightarrow> ce_key e = k \<and> \<not> disposed e)"

definition rc_inv :: "resource_cache \<Rightarrow> bool" where
  "rc_inv c \<longleftrightarrow> vml_inv (ledger c) \<and> map_ok (entries c)
    \<and> (\<forall>k o1. (k, o1) \<in> set (entries c) \<longrightarrow> entry_live (heap c) k o1)
    \<and> (\<forall>o1. heap c o1 \<noteq> None \<longrightarrow> o1 < next_object c)"

lemma rc_invD:
  assumes "rc_inv c"
  shows "vml_inv (ledger c)" and "map_ok (entries c)"
    and "(k, o1) \<in> set (entries c) \<Longrightarrow> entry_live (heap c) k o1"
    and "heap c o1 = Some e \<Longrightarrow> o1 < next_object c"
  using assms unfolding rc_inv_def by blast+

lemma rc_inv_fields [simp]:
  "rc_inv (c\<lparr>handles := h\<rparr>) = rc_inv c" "rc_inv (c\<lparr>next_handle := n\<rparr>) = rc_inv c"
  "rc_inv (c\<lparr>inflight := ks\<rparr>) = rc_inv c" "rc_inv (c\<lparr>generation := g\<rparr>) = rc_inv c"
  "rc_inv (c\<lparr>cache_dead := d\<rparr>) = rc_inv c"
  by (simp_all add: rc_inv_def)

lemma rc_inv_ledger: "rc_inv c \<Longrightarrow> vml_inv l \<Longrightarrow> rc_inv (c\<lparr>ledger := l\<rparr>)"
  by (simp add: rc_inv_def)

lemma entry_live_upd:
  "entry_live (hp(o1 := map_option f (hp o1))) k o2 = entry_live hp k o2"
  if "\<And>e. ce_key (f e) = ce_key e \<and> disposed (f e) = disposed e"
  using that by (cases "hp o1") (simp_all add: entry_live_def)

lemma rc_inv_upd_entry:
  assumes "rc_inv c" and "\<And>e. ce_key (f e) = ce_key e \<and> disposed (f e) = disposed e"
  shows "rc_inv (upd_entry o1 f c)"
proof -
  have "(upd_entry o1 f c) = c\<lparr>heap := (heap c)(o1 := map_option f (heap c o1))\<rparr>"
    by (simp add: upd_entry_def)
  then show ?thesis
    using assms(1) by (simp add: rc_inv_def entry_live_upd [OF assms(2)])
qed

lemma rc_disposeEntry_Inr:
  assumes "heap c o1 = Some e" "\<not> disposed e" "refs e = 0" and "rc_disposeEntry o1 ev c = Inr c'"
  shows "heap c' = (heap c)(o1 \<mapsto> e\<lparr>disposed := True\<rparr>)"
    and "entries c' = AList.delete (ce_key e) (entries c)"
    and "next_object c' = next_object c"
    and "ledger c' = snd (vml_release (gpuReservationId e)
             (snd (vml_release (Some (reservationId e)) (ledger c))))"
  using assms(4) unfolding rc_disposeEntry_def by (simp_all add: assms(1-3)) (drule sym, simp)+

lemma rc_dispose_inv:
  assumes inv: "rc_inv c" and d: "rc_disposeEntry o1 ev c = Inr c'"
  shows "rc_inv c'"
proof (cases "\<exists>e. heap c o1 = Some e \<and> \<not> disposed e \<and> refs e = 0")
  case False
  then have "c' = c" using d by (auto simp: rc_disposeEntry_def split: option.splits if_splits)
  then show ?thesis using inv by simp
next
  case True
  then obtain e where e: "heap c o1 = Some e" "\<not> disposed e" "refs e = 0" by blast
  note c' = rc_disposeEntry_Inr [OF e d]
  have led: "vml_inv (ledger c')"
    unfolding c'(4) by (intro vml_release_inv rc_invD(1) [OF inv])
  note ent = c'(2) and hp = c'(1) and nx = c'(3)
  have other: "o2 \<noteq> o1" if "(k, o2) \<in> set (entries c')" for k o2
  proof
    assume o2: "o2 = o1"
    have "(k, o2) \<in> set (entries c)" and ne: "k \<noteq> ce_key e"
      using that by (auto simp: ent AList.delete_eq)
    then show False using rc_invD(3) [OF inv, of k o2] e o2 by (simp add: entry_live_def)
  qed
  show ?thesis
    unfolding rc_inv_def
  proof (intro conjI allI impI)
    show "vml_inv (ledger c')" by (rule led)
    show "map_ok (entries c')" unfolding ent by (rule distinct_delete [OF rc_invD(2) [OF inv]])
    fix k o2
    assume m: "(k, o2) \<in> set (entries c')"
    then have "(k, o2) \<in> set (entries c)" by (auto simp: ent dest: mem_delete)
    then show "entry_live (heap c') k o2"
      using rc_invD(3) [OF inv] other [OF m] by (simp add: hp entry_live_def)
  next
    fix o2
    assume "heap c' o2 \<noteq> None"
    then show "o2 < next_object c'"
      using rc_invD(4) [OF inv] e(1) by (auto simp: hp nx split: if_splits)
  qed
qed

lemma evict_loop_inv: "rc_inv c \<Longrightarrow> evict_loop kind bytes os c = Inr c' \<Longrightarrow> rc_inv c'"
proof (induction os arbitrary: c)
  case Nil
  then show ?case by simp
next
  case (Cons o1 os)
  from Cons.prems(2) obtain b where "vml_canReserve kind (Some (int bytes)) (ledger c) = Inr b"
    by (auto simp: lift_ledger_def elim!: result_elims split: sum.splits)
  with Cons.prems(2) show ?case
    using Cons.prems(1) rc_dispose_inv [OF Cons.prems(1)] Cons.IH
    by (cases b) (auto simp: lift_ledger_def elim!: res_bindE)
qed

lemma evictUntil_inv: "rc_inv c \<Longrightarrow> rc_inv (snd (evictUntil lc kind bytes c))"
  by (auto simp: evictUntil_def split: sum.splits intro: evict_loop_inv)

lemma rc_ledger_reserve_inv: "rc_inv c \<Longrightarrow> rc_inv (snd (rc_ledger_reserve kind bytes label c))"
  by (auto simp: rc_ledger_reserve_def split: sum.splits
    intro!: rc_inv_ledger vml_reserve_inv [OF rc_invD(1)])

lemma reserveWithEviction_inv: "rc_inv c \<Longrightarrow> rc_inv (snd (reserveWithEviction lc kind bytes label c))"
  using evictUntil_inv [of c lc kind bytes]
  by (auto simp: reserveWithEviction_def rc_ledger_reserve_inv split: sum.splits prod.splits)

lemma release_reservation_inv: "rc_inv c \<Longrightarrow> rc_inv (release_reservation rid c)"
  by (simp add: release_reservation_def rc_inv_ledger vml_release_inv rc_invD(1))

lemma storeEntry_inv:
  assumes inv: "rc_inv c"
  shows "rc_inv (snd (storeEntry key useHash bytes memoryKind resId now c))"
proof -
  have nx: "heap c (next_object c) = None"
    using rc_invD(4) [OF inv, of "next_object c"] by (cases "heap c (next_object c)") auto
  have mem: "(k, o2) \<in> set (entries c) \<and> k \<noteq> key \<or> k = key \<and> o2 = next_object c"
    if "(k, o2) \<in> set (AList.update key (next_object c) (entries c))" for k o2
    using that map_of_is_SomeI [OF distinct_update [OF rc_invD(2) [OF inv]] that]
    by (auto simp: js_map_simps split: if_splits dest: map_of_SomeD)
  show ?thesis
    unfolding rc_inv_def
  proof (intro conjI allI impI)
    fix k o2
    assume "(k, o2) \<in> set (entries (snd (storeEntry key useHash bytes memoryKind resId now c)))"
    then have "(k, o2) \<in> set (entries c) \<and> k \<noteq> key \<or> k = key \<and> o2 = next_object c"
      by (intro mem) (simp add: storeEntry_def Let_def)
    then show "entry_live (heap (snd (storeEntry key useHash bytes memoryKind resId now c))) k o2"
      using rc_invD(3) [OF inv, of k o2] nx
      by (auto simp: storeEntry_def Let_def entry_live_def split: option.splits)
  next
    fix o2
    assume "heap (snd (storeEntry key useHash bytes memoryKind resId now c)) o2 \<noteq> None"
    then show "o2 < next_object (snd (storeEntry key useHash bytes memoryKind resId now c))"
      using rc_invD(4) [OF inv, of o2]
      by (cases "o2 = next_object c") (auto simp: storeEntry_def Let_def less_Suc_eq)
  qed (use rc_invD(1,2) [OF inv] in \<open>simp_all add: storeEntry_def Let_def distinct_update\<close>)
qed

lemma releaseEntry_inv: "rc_inv c \<Longrightarrow> rc_inv (releaseEntry now o1 c)"
  unfolding releaseEntry_def by (rule rc_inv_upd_entry) simp_all

lemma handle_release_inv: "rc_inv c \<Longrightarrow> rc_inv (handle_release now h c)"
  by (auto simp: handle_release_def split: option.splits intro!: releaseEntry_inv)

lemma rc_handle_inv: "rc_inv c \<Longrightarrow> rc_inv (snd (rc_handle o1 c))"
  by (simp add: rc_handle_def)

lemma load_end_inv:
  assumes "rc_inv c"
  shows "rc_inv (snd (load_end lc key uh mk kind est act resId now c))"
proof (cases "act = est")
  case True
  then show ?thesis
    using storeEntry_inv [OF assms, of key uh act mk resId now]
    by (auto simp: load_end_def split: prod.splits)
next
  case False
  obtain r c1 where r: "reserveWithEviction lc mk act kind (release_reservation (Some resId) c) = (r, c1)"
    by fastforce
  have c1: "rc_inv c1"
    using reserveWithEviction_inv [OF release_reservation_inv [OF assms], of lc mk act kind "Some resId"]
    by (simp add: r)
  show ?thesis
  proof (cases r)
    case (Inl e)
    then show ?thesis using False r c1 by (simp add: load_end_def release_reservation_inv)
  next
    case (Inr i)
    then show ?thesis using False r storeEntry_inv [OF c1, of key uh act mk i now]
      by (auto simp: load_end_def split: prod.splits)
  qed
qed

end
