(* ===== verification/CacheRuns.thy ===== *)
theory CacheRuns
  imports ResourceCache
begin

text \<open>
  What \<open>VisualResourceCache\<close> promises: eviction takes unused entries only, oldest first, and gives
  up only when everything left is leased; the ledger stays within its ceilings however the steps of
  concurrent acquisitions interleave. The last theorem shows an interleaving that hands out a
  lease on an entry that was disposed meanwhile.
\<close>

section \<open>What eviction does\<close>

definition fits :: "string \<Rightarrow> nat \<Rightarrow> resource_cache \<Rightarrow> bool" where
  "fits kind bytes c \<longleftrightarrow> vml_canReserve kind (Some (int bytes)) (ledger c) = Inr True"

definition unused :: "(nat \<Rightarrow> cache_entry option) \<Rightarrow> nat \<Rightarrow> bool" where
  "unused hp o1 = (case hp o1 of None \<Rightarrow> False | Some e \<Rightarrow> refs e = 0 \<and> \<not> disposed e)"

lemma canReserve_kind:
  "vml_canReserve kind bytes l = Inr b \<Longrightarrow> \<exists>b'. vml_canReserve kind bytes l' = Inr b'"
  unfolding vml_canReserve_def by (auto elim!: result_elims)

lemma entries_one_key:
  assumes inv: "rc_inv c" and "(k, o1) \<in> set (entries c)" "(k', o1) \<in> set (entries c)"
  shows "k' = k"
  using rc_invD(3) [OF inv assms(2)] rc_invD(3) [OF inv assms(3)]
  by (auto simp: entry_live_def split: option.splits)

lemma dispose_unused:
  assumes inv: "rc_inv c" and "unused (heap c) o1" and d: "rc_disposeEntry o1 ev c = Inr c'"
    and "(k, o1) \<in> set (entries c)"
  shows "heap c' = (heap c)(o1 := map_option (\<lambda>e. e\<lparr>disposed := True\<rparr>) (heap c o1))"
    and "set (entries c') = {p \<in> set (entries c). snd p \<noteq> o1}"
proof -
  obtain e where e: "heap c o1 = Some e" "\<not> disposed e" "refs e = 0"
    using assms(2) by (auto simp: unused_def split: option.splits)
  note c' = rc_disposeEntry_Inr [OF e d]
  show "heap c' = (heap c)(o1 := map_option (\<lambda>e. e\<lparr>disposed := True\<rparr>) (heap c o1))"
    by (simp add: c'(1) e(1))
  have k: "ce_key e = k" using rc_invD(3) [OF inv assms(4)] e by (simp add: entry_live_def)
  have "fst p = k \<longleftrightarrow> snd p = o1" if "p \<in> set (entries c)" for p
  proof (cases p)
    case (Pair k' o2)
    with that have m: "(k', o2) \<in> set (entries c)" by simp
    have "k' = k" if "o2 = o1" using entries_one_key [OF inv assms(4)] m that by blast
    moreover have "o2 = o1" if "k' = k"
      using eq_key_imp_eq_value [OF rc_invD(2) [OF inv], of k o2 o1] assms(4) m that by blast
    ultimately show ?thesis using Pair by auto
  qed
  then have "{p \<in> set (entries c). k \<noteq> fst p} = {p \<in> set (entries c). snd p \<noteq> o1}" by blast
  then show "set (entries c') = {p \<in> set (entries c). snd p \<noteq> o1}"
    unfolding c'(2) AList.delete_eq k by (simp add: case_prod_unfold)
qed

definition marked :: "nat list \<Rightarrow> (nat \<Rightarrow> cache_entry option) \<Rightarrow> nat \<Rightarrow> cache_entry option" where
  "marked ds hp o1 =
    (if o1 \<in> set ds then map_option (\<lambda>e. e\<lparr>disposed := True\<rparr>) (hp o1) else hp o1)"

text \<open>The loop disposes a prefix of its list, up to the first point where the bytes fit.\<close>

lemma evict_loop_shape:
  assumes "evict_loop kind bytes os c = Inr c'" and "rc_inv c" and "distinct os"
    and "\<And>o1. o1 \<in> set os \<Longrightarrow> unused (heap c) o1 \<and> (\<exists>k. (k, o1) \<in> set (entries c))"
  shows "\<exists>ds rest. os = ds @ rest \<and> (rest = [] \<or> fits kind bytes c')
    \<and> heap c' = marked ds (heap c)
    \<and> set (entries c') = {p \<in> set (entries c). snd p \<notin> set ds}"
  using assms
proof (induction os arbitrary: c)
  case Nil
  then show ?case by (auto simp: marked_def)
next
  case (Cons o1 os)
  obtain b where b: "vml_canReserve kind (Some (int bytes)) (ledger c) = Inr b"
    using Cons.prems(1) by (auto simp: lift_ledger_def elim!: result_elims split: sum.splits)
  show ?case
  proof (cases b)
    case True
    then have "c' = c" using Cons.prems(1) b by (simp add: lift_ledger_def)
    moreover have "fits kind bytes c" using True b by (simp add: fits_def)
    ultimately show ?thesis
      by (intro exI [of _ "[]"] exI [of _ "o1 # os"]) (auto simp: marked_def)
  next
    case False
    with Cons.prems(1) b obtain d where d: "rc_disposeEntry o1 True c = Inr d"
      and rest: "evict_loop kind bytes os d = Inr c'"
      by (auto simp: lift_ledger_def elim!: result_elims)
    obtain k where k: "(k, o1) \<in> set (entries c)" and u: "unused (heap c) o1"
      using Cons.prems(4) by (meson list.set_intros(1))
    note dd = dispose_unused [OF Cons.prems(2) u d k]
    have "\<exists>ds rest. os = ds @ rest \<and> (rest = [] \<or> fits kind bytes c')
      \<and> heap c' = marked ds (heap d) \<and> set (entries c') = {p \<in> set (entries d). snd p \<notin> set ds}"
    proof (rule Cons.IH [OF rest rc_dispose_inv [OF Cons.prems(2) d]])
      show "distinct os" using Cons.prems(3) by simp
      fix o2
      assume o2: "o2 \<in> set os"
      then have "o2 \<noteq> o1" using Cons.prems(3) by auto
      with Cons.prems(4) [of o2] o2 show "unused (heap d) o2 \<and> (\<exists>k. (k, o2) \<in> set (entries d))"
        by (auto simp: dd unused_def)
    qed
    then obtain ds rs where *: "os = ds @ rs" "rs = [] \<or> fits kind bytes c'"
      "heap c' = marked ds (heap d)" "set (entries c') = {p \<in> set (entries d). snd p \<notin> set ds}"
      by blast
    have "o1 \<notin> set ds" using Cons.prems(3) *(1) by auto
    then have "heap c' = marked (o1 # ds) (heap c)"
      unfolding *(3) dd(1) by (auto simp: marked_def fun_eq_iff)
    moreover have "set (entries c') = {p \<in> set (entries c). snd p \<notin> set (o1 # ds)}"
      unfolding *(4) dd(2) by auto
    ultimately show ?thesis
      using *(1,2) by (intro exI [of _ "o1 # ds"] exI [of _ rs]) simp
  qed
qed

definition candidates :: "resource_cache \<Rightarrow> (nat \<times> cache_entry) list" where
  "candidates c = filter (\<lambda>(_, e). refs e = 0 \<and> \<not> disposed e)
      (List.map_filter (\<lambda>(_, o1). map_option (Pair o1) (heap c o1)) (entries c))"

lemma candidates_iff:
  "(o1, e) \<in> set (candidates c) \<longleftrightarrow>
    (\<exists>k. (k, o1) \<in> set (entries c)) \<and> heap c o1 = Some e \<and> refs e = 0 \<and> \<not> disposed e"
  unfolding candidates_def by (force simp: List.map_filter_def)

lemma zeroRef_iff:
  "o1 \<in> set (zeroRef lc c) \<longleftrightarrow> unused (heap c) o1 \<and> (\<exists>k. (k, o1) \<in> set (entries c))"
proof -
  have "o1 \<in> set (zeroRef lc c) \<longleftrightarrow> (\<exists>e. (o1, e) \<in> set (candidates c))"
    by (force simp: zeroRef_def candidates_def)
  then show ?thesis by (auto simp: candidates_iff unused_def split: option.splits)
qed

lemma zeroRef_distinct:
  assumes inv: "rc_inv c"
  shows "distinct (zeroRef lc c)"
proof -
  let ?f = "\<lambda>(_, o1). map_option (Pair o1) (heap c o1)"
  have objs: "distinct (map snd (entries c))"
    using rc_invD(2) [OF inv] entries_one_key [OF inv]
    by (auto simp: distinct_map inj_on_def)
  have proj: "map fst (List.map_filter ?f es) = filter (\<lambda>o1. heap c o1 \<noteq> None) (map snd es)" for es
    by (induction es) (auto simp: List.map_filter_simps split: option.splits)
  have "distinct (map fst (List.map_filter ?f (entries c)))"
    unfolding proj by (rule distinct_filter [OF objs])
  then have "distinct (map fst (candidates c))"
    unfolding candidates_def by (rule distinct_map_filter)
  moreover have "mset (zeroRef lc c) = mset (map fst (candidates c))"
    by (simp add: zeroRef_def candidates_def)
  ultimately show ?thesis using mset_eq_imp_distinct_iff by blast
qed

section \<open>The promises of eviction\<close>

text \<open>One run of \<open>evictUntil\<close>: a prefix of the unused entries in its order is disposed.\<close>

lemma evictUntil_shape:
  assumes inv: "rc_inv c" and u: "evictUntil lc kind bytes c = (r, c')"
  shows "\<exists>ds rest. (zeroRef lc c = ds @ rest \<or> ds = [])
    \<and> (r = Inr () \<longrightarrow> fits kind bytes c')
    \<and> (r = Inl (CannotEvict kind bytes) \<longrightarrow> zeroRef lc c = ds)
    \<and> heap c' = marked ds (heap c)
    \<and> set (entries c') = {p \<in> set (entries c). snd p \<notin> set ds}"
proof (cases "evict_loop kind bytes (zeroRef lc c) c")
  case (Inl e)
  have "e \<noteq> CannotEvict kind bytes"
  proof
    assume "e = CannotEvict kind bytes"
    moreover have "evict_loop kind bytes os d \<noteq> Inl (CannotEvict kind bytes)" for os d
      by (induction os arbitrary: d)
        (auto simp: res_bind_Inl_iff lift_ledger_def rc_disposeEntry_def split: sum.splits option.splits if_splits)
    ultimately show False using Inl by blast
  qed
  then show ?thesis
    using Inl u by (intro exI [of _ "[]"] exI [of _ "zeroRef lc c"]) (auto simp: evictUntil_def marked_def)
next
  case (Inr d)
  then have c': "c' = d" using u by (auto simp: evictUntil_def split: sum.splits if_splits)
  obtain ds rest where *: "zeroRef lc c = ds @ rest" "rest = [] \<or> fits kind bytes d"
    "heap d = marked ds (heap c)" "set (entries d) = {p \<in> set (entries c). snd p \<notin> set ds}"
    using evict_loop_shape [OF Inr inv zeroRef_distinct [OF inv]] zeroRef_iff by blast
  have "r = Inr () \<Longrightarrow> fits kind bytes d" and "r = Inl (CannotEvict kind bytes) \<Longrightarrow> \<not> fits kind bytes d"
    using u Inr by (auto simp: evictUntil_def fits_def split: sum.splits if_splits)
  then show ?thesis
    using * c' by (intro exI [of _ ds] exI [of _ rest]) auto
qed

text \<open>
  C9. Making room never touches a leased entry: after \<open>_reserveWithEviction\<close>, whether it reserved
  or threw, every entry with live leases is the same object state as before and is still in the
  cache under its key.
\<close>

theorem leases_survive_reservation:
  assumes inv: "rc_inv c" and e: "heap c o1 = Some e" "refs e > 0" and m: "(k, o1) \<in> set (entries c)"
    and r: "reserveWithEviction localeCompare kind bytes label c = (r, c')"
  shows "heap c' o1 = Some e \<and> (k, o1) \<in> set (entries c')"
proof -
  have frame: "heap (snd (rc_ledger_reserve kind b label d)) = heap d
      \<and> entries (snd (rc_ledger_reserve kind b label d)) = entries d" for b d
    by (simp add: rc_ledger_reserve_def split: sum.splits)
  have ev: "heap d o1 = Some e \<and> (k, o1) \<in> set (entries d)" if u: "evictUntil localeCompare kind bytes c = (q, d)" for q d
  proof -
    obtain ds rest where ds: "zeroRef localeCompare c = ds @ rest \<or> ds = []"
      "heap d = marked ds (heap c)" "set (entries d) = {p \<in> set (entries c). snd p \<notin> set ds}"
      using evictUntil_shape [OF inv u] by blast
    have "o1 \<notin> set (zeroRef localeCompare c)" using e by (simp add: zeroRef_iff unused_def)
    then have "o1 \<notin> set ds" using ds(1) by auto
    then show ?thesis using ds(2,3) e(1) m by (simp add: marked_def)
  qed
  obtain q d where qd: "evictUntil localeCompare kind bytes c = (q, d)" by fastforce
  have "c' = snd (reserveWithEviction localeCompare kind bytes label c)" by (simp add: r)
  then show ?thesis
    using frame ev [OF qd] e(1) m qd
    by (auto simp: reserveWithEviction_def split: sum.splits)
qed

text \<open>
  C18. \<open>evictUntil\<close> gives up only when nothing is left to evict: when it throws its budget error,
  every entry still in the cache has live leases.
\<close>

theorem eviction_gives_up_only_when_all_leased:
  assumes inv: "rc_inv c" and u: "evictUntil localeCompare kind bytes c = (Inl (CannotEvict kind bytes), c')"
    and m: "(k, o1) \<in> set (entries c')"
  shows "\<exists>e. heap c' o1 = Some e \<and> refs e > 0"
proof -
  obtain ds where ds: "zeroRef localeCompare c = ds" "heap c' = marked ds (heap c)"
    "set (entries c') = {p \<in> set (entries c). snd p \<notin> set ds}"
    using evictUntil_shape [OF inv u] by blast
  have c: "(k, o1) \<in> set (entries c)" and "o1 \<notin> set ds" using ds m by auto
  then have "\<not> unused (heap c) o1" and hp: "heap c' o1 = heap c o1"
    using ds zeroRef_iff by (auto simp: marked_def)
  then show ?thesis
    using rc_invD(3) [OF inv c] by (auto simp: unused_def entry_live_def hp split: option.splits)
qed

lemma evict_order_laws:
  assumes "comparator_laws localeCompare"
  shows "comparator_laws (evict_order localeCompare)"
  unfolding evict_order_def
  using comparator_laws_or [OF comparator_laws_int [of "\<lambda>p. lastUsed (snd p)"]
      comparator_laws_pull [OF assms, of "\<lambda>p. ce_key (snd p)"]] .

text \<open>
  C19. Eviction is least recently used first: of two unused entries, when one was evicted and the
  other survived, the evicted one was not used later. \<open>localeCompare\<close> is a total preorder.
\<close>

theorem eviction_is_lru:
  assumes lc: "comparator_laws localeCompare" and inv: "rc_inv c"
    and u: "evictUntil localeCompare kind bytes c = (r, c')"
    and a: "(ka, a) \<in> set (entries c)" "(ka, a) \<notin> set (entries c')" "heap c a = Some ea"
    and b: "(kb, b) \<in> set (entries c')" "heap c b = Some eb" "refs eb = 0"
  shows "lastUsed ea \<le> lastUsed eb"
proof -
  obtain ds rest where ds: "zeroRef localeCompare c = ds @ rest \<or> ds = []"
    "heap c' = marked ds (heap c)" "set (entries c') = {p \<in> set (entries c). snd p \<notin> set ds}"
    using evictUntil_shape [OF inv u] by blast
  have ads: "a \<in> set ds" using a ds(3) by auto
  then have zs: "map fst (sort_by (evict_order localeCompare) (candidates c)) = ds @ rest"
    using ds(1) by (auto simp: zeroRef_def candidates_def)
  then obtain S1 S2 where S: "sort_by (evict_order localeCompare) (candidates c) = S1 @ S2"
    "map fst S1 = ds" "map fst S2 = rest"
    by (auto simp: map_eq_append_conv)
  have sorted: "sorted_wrt (\<lambda>x y. evict_order localeCompare x y \<le> 0) (S1 @ S2)"
    unfolding S(1) [symmetric] by (rule comparator_laws.sorted_sort_by [OF evict_order_laws [OF lc]])
  have mem: "x \<in> set S1 \<or> x \<in> set S2 \<longleftrightarrow> x \<in> set (candidates c)" for x
    by (metis S(1) UnE UnI1 UnI2 set_append set_sort_by)
  obtain ea' where "(a, ea') \<in> set S1" using ads S(2) by force
  then have amem: "(a, ea) \<in> set S1" using mem [of "(a, ea')"] a(3) by (simp add: candidates_iff)
  have "(kb, b) \<in> set (entries c)" and bnot: "b \<notin> set ds" using b(1) ds(3) by auto
  then have "(b, eb) \<in> set (candidates c)"
    using rc_invD(3) [OF inv, of kb b] b(2,3) by (auto simp: candidates_iff entry_live_def)
  moreover have "(b, eb) \<notin> set S1" using bnot S(2) by force
  ultimately have "(b, eb) \<in> set S2" using mem by blast
  with amem sorted have "evict_order localeCompare (a, ea) (b, eb) \<le> 0"
    by (auto simp: sorted_wrt_append)
  then show ?thesis by (auto simp: evict_order_def cmp_or_def cmp_int_def split: if_splits)
qed

section \<open>Any interleaving\<close>

datatype cache_step =
    AcquireBegin string bool
  | AcquireReuseEnd int bool nat
  | LoadBegin string nat string
  | LoadEnd string "string option" string string nat nat nat int
  | LoadFailed nat
  | AcquireLoadEnd string nat
  | AcquireLoadFailed string
  | TextureGpu nat int nat nat
  | ReserveTransient nat string
  | ReleaseReservation "nat option"
  | HandleRelease int nat
  | EvictUntil string nat
  | RightsGranted string
  | RightsDeniedFor string
  | ContextLostEvent

definition rc_exec :: "(string \<Rightarrow> string \<Rightarrow> int) \<Rightarrow> resource_cache \<Rightarrow> cache_step \<Rightarrow> resource_cache" where
  "rc_exec localeCompare c st =
    (case st of
       AcquireBegin key aborted \<Rightarrow> (case acquire_begin key aborted c of Inl _ \<Rightarrow> c | Inr (_, c') \<Rightarrow> c')
     | AcquireReuseEnd now checked o1 \<Rightarrow> snd (acquire_reuse_end now checked o1 c)
     | LoadBegin memoryKind estimated kind \<Rightarrow> snd (load_begin localeCompare memoryKind estimated kind c)
     | LoadEnd key useHash memoryKind kind estimated actual resId now \<Rightarrow>
         snd (load_end localeCompare key useHash memoryKind kind estimated actual resId now c)
     | LoadFailed resId \<Rightarrow> load_failed resId c
     | AcquireLoadEnd key o1 \<Rightarrow> snd (acquire_load_end key o1 c)
     | AcquireLoadFailed key \<Rightarrow> acquire_load_failed key c
     | TextureGpu gbytes now h o1 \<Rightarrow> snd (texture_gpu localeCompare gbytes now h o1 c)
     | ReserveTransient bytes label \<Rightarrow> snd (rc_reserveTransient localeCompare bytes label c)
     | ReleaseReservation rid \<Rightarrow> release_reservation rid c
     | HandleRelease now h \<Rightarrow> handle_release now h c
     | EvictUntil kind bytes \<Rightarrow> snd (evictUntil localeCompare kind bytes c)
     | RightsGranted useHash \<Rightarrow> rights_granted useHash c
     | RightsDeniedFor useHash \<Rightarrow> snd (rights_denied useHash c)
     | ContextLostEvent \<Rightarrow> handleContextLost c)"

lemma acquire_begin_inv: "rc_inv c \<Longrightarrow> acquire_begin key ab c = Inr (s, c') \<Longrightarrow> rc_inv c'"
  by (auto simp: acquire_begin_def elim!: result_elims split: option.splits if_splits)

lemma acquire_reuse_end_inv: "rc_inv c \<Longrightarrow> rc_inv (snd (acquire_reuse_end now ch o1 c))"
  unfolding acquire_reuse_end_def assertReusable_end_def
  by (cases ch) (auto intro!: rc_handle_inv rc_inv_upd_entry)

lemma acquire_load_end_inv: "rc_inv c \<Longrightarrow> rc_inv (snd (acquire_load_end key o1 c))"
  unfolding acquire_load_end_def
  using rc_handle_inv [OF rc_inv_upd_entry, of c "\<lambda>e. e\<lparr>refs := refs e + 1\<rparr>" o1 o1]
  by (auto split: prod.splits)

lemma texture_gpu_inv:
  assumes "rc_inv c"
  shows "rc_inv (snd (texture_gpu lc gb now h o1 c))"
proof -
  obtain r c1 where r: "reserveWithEviction lc ''gpu'' gb ''gpu'' c = (r, c1)" by fastforce
  have c1: "rc_inv c1" using reserveWithEviction_inv [OF assms, of lc "''gpu''" gb "''gpu''"] by (simp add: r)
  show ?thesis
    using assms c1 rc_inv_upd_entry [OF c1, of "\<lambda>e. e\<lparr>gpuReservationId := Some i, gpuBytes := gb\<rparr>" o1 for i]
      handle_release_inv [OF c1]
    by (auto simp: texture_gpu_def r split: option.splits sum.splits)
qed

lemma rights_granted_inv: "rc_inv c \<Longrightarrow> rc_inv (rights_granted uh c)"
proof -
  have "rc_inv s \<Longrightarrow> rc_inv (fold (\<lambda>(_, o1) s. upd_entry o1 (\<lambda>e. if ce_useHash e = Some uh
        then e\<lparr>rightsEpoch := generation s\<rparr> else e) s) es s)" for es s
    by (induction es arbitrary: s) (auto simp: rc_inv_upd_entry)
  then show "rc_inv c \<Longrightarrow> rc_inv (rights_granted uh c)" by (simp add: rights_granted_def)
qed

lemma rights_denied_inv: "rc_inv c \<Longrightarrow> rc_inv (snd (rights_denied uh c))"
proof -
  have "rc_inv s \<Longrightarrow> rc_inv (snd (rights_denied_loop uh os s))" for os s
    by (induction os arbitrary: s) (auto split: option.splits sum.splits intro: rc_dispose_inv)
  then show "rc_inv c \<Longrightarrow> rc_inv (snd (rights_denied uh c))" by (simp add: rights_denied_def)
qed

lemma force_dispose_inv: "rc_inv c \<Longrightarrow> rc_inv (force_dispose o1 c)"
  unfolding force_dispose_def
  using rc_dispose_inv [OF rc_inv_upd_entry, of c "\<lambda>e. e\<lparr>refs := 0\<rparr>"] by (auto split: sum.splits)

lemma rc_disposeEntries_inv: "rc_inv c \<Longrightarrow> rc_inv (rc_disposeEntries c)"
proof -
  have "rc_inv s \<Longrightarrow> rc_inv (fold force_dispose os s)" for os s
    by (induction os arbitrary: s) (auto intro: force_dispose_inv)
  then show "rc_inv c \<Longrightarrow> rc_inv (rc_disposeEntries c)" by (simp add: rc_disposeEntries_def)
qed

lemma handleContextLost_inv: "rc_inv c \<Longrightarrow> rc_inv (handleContextLost c)"
  unfolding handleContextLost_def Let_def
  by (intro rc_inv_ledger vml_releaseAll_inv rc_invD(1) rc_disposeEntries_inv) simp_all

lemma rc_exec_inv: "rc_inv c \<Longrightarrow> rc_inv (rc_exec lc c st)"
proof (cases st)
  case (AcquireBegin key ab)
  then show "rc_inv c \<Longrightarrow> rc_inv (rc_exec lc c st)"
    by (auto simp: rc_exec_def split: sum.splits intro: acquire_begin_inv)
qed (simp_all add: rc_exec_def acquire_reuse_end_inv load_begin_def reserveWithEviction_inv load_end_inv
  load_failed_def release_reservation_inv acquire_load_end_inv acquire_load_failed_def texture_gpu_inv
  rc_reserveTransient_def handle_release_inv evictUntil_inv rights_granted_inv rights_denied_inv
  handleContextLost_inv split: sum.split)

lemma rc_exec_inv_driven: "driven (rc_exec lc) rc_inv"
  by unfold_locales (rule rc_exec_inv)

interpretation cache: driven "rc_exec lc" rc_inv for lc
  by (rule rc_exec_inv_driven)

text \<open>
  C10. Whatever the interleaving of acquisitions, loads, releases, evictions, revocations and a lost
  context, a cache that starts empty on a fresh ledger never holds more bytes of a kind than the
  ceiling, what is used is what live reservations hold, and every cached entry is live.
\<close>

theorem cache_within_ceilings:
  "let c = foldl (rc_exec localeCompare)
       (new_VisualResourceCache (new_VisualMemoryLedger resolved profile unified)) steps
   in used (ledger c) k \<le> ceilings (ledger c) k
    \<and> used (ledger c) k = kind_total k (reservations (ledger c))
    \<and> map_ok (entries c)
    \<and> list_all (\<lambda>(key, o1). entry_live (heap c) key o1) (entries c)"
proof -
  let ?c0 = "new_VisualResourceCache (new_VisualMemoryLedger resolved profile unified)"
  have "rc_inv ?c0"
    by (simp add: new_VisualResourceCache_def rc_inv_def vml_new_inv)
  then have inv: "rc_inv (foldl (rc_exec localeCompare) ?c0 steps)" by (rule cache.run_inv)
  show ?thesis
    unfolding Let_def
    using rc_invD(2,3) [OF inv] vml_invD(3,4) [OF rc_invD(1) [OF inv]]
    by (auto simp: list_all_iff)
qed

lemmas ledger_eval = new_VisualMemoryLedger_def vml_canReserve_def vml_reserve_def vml_release_def
  assertKind_def assertBytes_def positiveCeiling_def unifiedUsed_def VISUAL_MEMORY_KINDS_def

lemmas cache_eval = ledger_eval new_VisualResourceCache_def acquire_begin_def rc_assertLive_def
  throwIfAborted_def load_begin_def reserveWithEviction_def rc_ledger_reserve_def load_end_def
  storeEntry_def acquire_load_end_def rc_handle_def upd_entry_def handle_release_def releaseEntry_def
  rc_reserveTransient_def evictUntil_def zeroRef_def List.map_filter_def rc_disposeEntry_def
  lift_ledger_def acquire_reuse_end_def assertReusable_end_def

definition race_ledger :: visual_ledger where
  "race_ledger = new_VisualMemoryLedger (\<lambda>_. None) (\<lambda>_. 10) (Some 10)"

definition race_steps :: "cache_step list" where
  "race_steps =
    [AcquireBegin ''a'' False, LoadBegin ''encodedCpu'' 8 ''encoded'',
     LoadEnd ''a'' None ''encodedCpu'' ''encoded'' 8 8 1 0, AcquireLoadEnd ''a'' 0, HandleRelease 1 0,
     AcquireBegin ''a'' False, ReserveTransient 5 ''transient'', AcquireReuseEnd 2 True 0]"


section \<open>A cache in use\<close>

text \<open>
  Three entries of 6, 2 and 1 bytes under a ceiling of 10: the first leased, the others released
  at times 5 and 7.
\<close>

definition demo_load :: "string \<Rightarrow> nat \<Rightarrow> nat \<Rightarrow> cache_step list" where
  "demo_load key bytes o1 =
    [AcquireBegin key False, LoadBegin ''encodedCpu'' bytes ''encoded'',
     LoadEnd key None ''encodedCpu'' ''encoded'' bytes bytes (Suc o1) 0, AcquireLoadEnd key o1]"

definition demo_cache :: resource_cache where
  "demo_cache = foldl (rc_exec (\<lambda>_ _. 0)) (new_VisualResourceCache race_ledger)
    (demo_load ''a'' 6 0 @ demo_load ''b'' 2 1 @ [HandleRelease 5 1] @ demo_load ''c'' 1 2
      @ [HandleRelease 7 2])"

lemma demo_inv: "rc_inv demo_cache"
  unfolding demo_cache_def race_ledger_def
  by (rule cache.run_inv) (simp add: new_VisualResourceCache_def rc_inv_def vml_new_inv)

definition demo_entry :: "string \<Rightarrow> nat \<Rightarrow> nat \<Rightarrow> nat \<Rightarrow> int \<Rightarrow> cache_entry" where
  "demo_entry key bytes rid n t = \<lparr>ce_key = key, ce_useHash = None, ce_bytes = bytes,
    ce_memoryKind = ''encodedCpu'', reservationId = rid, refs = n, lastUsed = t,
    gpuReservationId = None, gpuBytes = 0, rightsEpoch = 0, disposed = False\<rparr>"

lemma demo_cache_eval:
  "entries demo_cache = [(''a'', 0), (''b'', 1), (''c'', 2)]"
  "heap demo_cache 0 = Some (demo_entry ''a'' 6 1 1 0)"
  "heap demo_cache (Suc 0) = Some (demo_entry ''b'' 2 2 0 5)"
  "heap demo_cache 2 = Some (demo_entry ''c'' 1 3 0 7)"
  by (simp_all add: demo_cache_def demo_load_def race_ledger_def rc_exec_def cache_eval demo_entry_def)

lemma demo_evict:
  "entries (snd (evictUntil (\<lambda>_ _. 0) ''transient'' 3 demo_cache)) = [(''a'', 0), (''c'', 2)]"
  "fst (evictUntil (\<lambda>_ _. 0) ''transient'' 5 demo_cache) = Inl (CannotEvict ''transient'' 5)"
  "entries (snd (evictUntil (\<lambda>_ _. 0) ''transient'' 5 demo_cache)) = [(''a'', 0)]"
  by (simp_all add: demo_cache_def demo_load_def race_ledger_def rc_exec_def cache_eval
    evict_order_def cmp_or_def cmp_int_def)

lemma zero_order: "comparator_laws (\<lambda>_ _. 0)"
  by unfold_locales simp_all

theorem leases_survive_reservation_witness:
  "heap (snd (reserveWithEviction (\<lambda>_ _. 0) ''transient'' 3 ''t'' demo_cache)) 0
      = Some (demo_entry ''a'' 6 1 1 0)
    \<and> (''a'', 0) \<in> set (entries (snd (reserveWithEviction (\<lambda>_ _. 0) ''transient'' 3 ''t'' demo_cache)))"
  by (rule leases_survive_reservation [OF demo_inv demo_cache_eval(2) _ _ prod.collapse [symmetric]])
    (simp_all add: demo_entry_def demo_cache_eval(1))

theorem eviction_gives_up_witness:
  "\<exists>e. heap (snd (evictUntil (\<lambda>_ _. 0) ''transient'' 5 demo_cache)) 0 = Some e \<and> refs e > 0"
  by (rule eviction_gives_up_only_when_all_leased [OF demo_inv, where kind = "''transient''" and bytes = 5
        and localeCompare = "\<lambda>_ _. 0" and k = "''a''"])
    (simp_all add: demo_evict prod_eq_iff)

theorem eviction_is_lru_witness:
  "lastUsed (demo_entry ''b'' 2 2 0 5) \<le> lastUsed (demo_entry ''c'' 1 3 0 7)"
  by (rule eviction_is_lru [OF zero_order demo_inv prod.collapse [symmetric], where kind = "''transient''"
        and bytes = 3 and ka = "''b''" and a = 1 and kb = "''c''" and b = 2])
    (simp_all add: demo_evict demo_cache_eval, simp add: demo_entry_def)

end
