(* ===== verification/TopicQueue.thy ===== *)
theory TopicQueue
  imports JsSort
begin

text \<open>
  \<open>app/simulation/TopicInputQueue.js\<close>: the bounded queue between a host that writes topics and the
  simulation step that reads them, with the payload size estimate it is bounded by.
\<close>

section \<open>Payload values\<close>

text \<open>
  JavaScript values as far as their size is looked at. A typed array or a \<open>DataView\<close> is a
  \<open>JView\<close>, an \<open>ArrayBuffer\<close> a \<open>JBuffer\<close>, both of a byte length; functions, symbols and big
  integers are \<open>JOther\<close>.
\<close>

datatype js_value =
    JNull
  | JUndefined
  | JString string
  | JNumber rat
  | JNaN
  | JBool bool
  | JView nat
  | JBuffer nat
  | JArray "js_value list"
  | JObject "(string \<times> js_value) list"
  | JOther

definition get :: "string \<Rightarrow> (string \<times> js_value) list \<Rightarrow> js_value" where
  "get k fields = (case map_of fields k of None \<Rightarrow> JUndefined | Some v \<Rightarrow> v)"

definition nullish :: "js_value \<Rightarrow> bool" where
  "nullish v = (v = JNull \<or> v = JUndefined)"

definition is_bytes :: "js_value \<Rightarrow> bool" where
  "is_bytes v = (case v of JView _ \<Rightarrow> True | JBuffer _ \<Rightarrow> True | _ \<Rightarrow> False)"

text \<open>
  \<open>Number(v)\<close> is finite. Text and array contents are converted by the language's number parser,
  which is the parameter \<open>numeric\<close>.
\<close>

definition finite_number :: "(js_value \<Rightarrow> bool) \<Rightarrow> js_value \<Rightarrow> bool" where
  "finite_number numeric v =
    (case v of JNumber _ \<Rightarrow> True | JBool _ \<Rightarrow> True | JNull \<Rightarrow> True | JUndefined \<Rightarrow> False | JNaN \<Rightarrow> False
     | _ \<Rightarrow> numeric v)"

definition isHeavyValue :: "(js_value \<Rightarrow> bool) \<Rightarrow> js_value \<Rightarrow> bool" where
  "isHeavyValue numeric v =
    (case v of
       JObject fs \<Rightarrow>
         is_bytes (get ''data'' fs)
         \<and> (finite_number numeric (get ''width'' fs) \<and> finite_number numeric (get ''height'' fs)
               \<and> \<not> nullish (get ''encoding'' fs)
             \<or> finite_number numeric (get ''width'' fs) \<and> finite_number numeric (get ''point_step'' fs)
               \<and> (case get ''fields'' fs of JArray _ \<Rightarrow> True | _ \<Rightarrow> False))
     | _ \<Rightarrow> False)"

fun estimatePayloadBytes :: "(js_value \<Rightarrow> bool) \<Rightarrow> js_value \<Rightarrow> nat" where
  "estimatePayloadBytes numeric JNull = 0"
| "estimatePayloadBytes numeric JUndefined = 0"
| "estimatePayloadBytes numeric (JString s) = length s * 2"
| "estimatePayloadBytes numeric (JNumber x) = 8"
| "estimatePayloadBytes numeric JNaN = 8"
| "estimatePayloadBytes numeric (JBool b) = 8"
| "estimatePayloadBytes numeric (JView n) = n"
| "estimatePayloadBytes numeric (JBuffer n) = n"
| "estimatePayloadBytes numeric (JArray vs) = 24 + sum_list (map (estimatePayloadBytes numeric) vs)"
| "estimatePayloadBytes numeric (JObject fs) =
    (if isHeavyValue numeric (JObject fs)
     then (case get ''data'' fs of JView n \<Rightarrow> n + 64 | JBuffer n \<Rightarrow> n + 64 | _ \<Rightarrow> 64)
     else min (48 + sum_list (map (\<lambda>(_, v). estimatePayloadBytes numeric v) fs)) 1000000)"
| "estimatePayloadBytes numeric JOther = 8"

section \<open>The queue\<close>

record topic =
  topic_name :: string
  topic_input :: bool \<comment> \<open>its direction is input\<close>

record queue_entry =
  info_name :: string
  info_value :: js_value
  applyStep :: nat
  arrivalTimeNs :: nat
  sequence_no :: nat
  entry_bytes :: nat

record topic_queue =
  tq_sequence :: nat
  tq_queue :: "queue_entry list"
  queuedBytes :: nat
  maxEntries :: nat
  maxBytes :: nat
  droppedEntries :: nat
  droppedBytes :: nat
  overflowEvents :: nat
  declaredInputs :: "string set"
  topicOrder :: "(string, nat) js_map"

definition input_names :: "topic list \<Rightarrow> string list" where
  "input_names topics = map topic_name (filter topic_input topics)"

definition new_TopicInputQueue :: "topic list \<Rightarrow> nat \<Rightarrow> nat \<Rightarrow> topic_queue" where
  "new_TopicInputQueue topics entries bytes =
    \<lparr>tq_sequence = 0, tq_queue = [], queuedBytes = 0, maxEntries = max 1 entries, maxBytes = max 1024 bytes,
     droppedEntries = 0, droppedBytes = 0, overflowEvents = 0,
     declaredInputs = set (input_names topics),
     topicOrder = fold (\<lambda>(i, n). AList.update n i) (zip [0..<length (input_names topics)] (input_names topics)) []\<rparr>"

text \<open>\<open>while (...) this.queue.shift()\<close>: each round drops the oldest entry.\<close>

definition dropped_size :: "(js_value \<Rightarrow> bool) \<Rightarrow> queue_entry \<Rightarrow> nat" where
  "dropped_size numeric e =
    (if entry_bytes e \<noteq> 0 then entry_bytes e else estimatePayloadBytes numeric (info_value e))"

fun overflow_loop :: "(js_value \<Rightarrow> bool) \<Rightarrow> nat \<Rightarrow> queue_entry list \<Rightarrow> topic_queue \<Rightarrow> topic_queue" where
  "overflow_loop numeric bytes [] q = q\<lparr>tq_queue := []\<rparr>"
| "overflow_loop numeric bytes (d # ds) q =
    (if Suc (length ds) \<ge> maxEntries q \<or> queuedBytes q + bytes > maxBytes q
     then overflow_loop numeric bytes ds
       (q\<lparr>queuedBytes := queuedBytes q - dropped_size numeric d, droppedEntries := droppedEntries q + 1,
         droppedBytes := droppedBytes q + dropped_size numeric d, overflowEvents := overflowEvents q + 1\<rparr>)
     else q\<lparr>tq_queue := d # ds\<rparr>)"

datatype enqueue_outcome = Ignored | Undeclared | PayloadTooLarge | Queued queue_entry

definition enqueue ::
  "(js_value \<Rightarrow> bool) \<Rightarrow> string \<Rightarrow> js_value \<Rightarrow> int \<Rightarrow> int \<Rightarrow> topic_queue \<Rightarrow> enqueue_outcome \<times> topic_queue" where
  "enqueue numeric name val at_step arrival q =
    (if name = [] then (Ignored, q)
     else if declaredInputs q \<noteq> {} \<and> name \<notin> declaredInputs q then (Undeclared, q)
     else let bytes = estimatePayloadBytes numeric val;
              q1 = overflow_loop numeric bytes (tq_queue q) q
       in if bytes > maxBytes q1 \<and> tq_queue q1 = []
          then (PayloadTooLarge, q1\<lparr>droppedEntries := droppedEntries q1 + 1,
            droppedBytes := droppedBytes q1 + bytes, overflowEvents := overflowEvents q1 + 1\<rparr>)
          else let e = \<lparr>info_name = name, info_value = val, applyStep = nat at_step,
                 arrivalTimeNs = nat arrival, sequence_no = tq_sequence q1 + 1, entry_bytes = bytes\<rparr>
            in (Queued e, q1\<lparr>tq_sequence := tq_sequence q1 + 1, tq_queue := tq_queue q1 @ [e],
              queuedBytes := queuedBytes q1 + bytes\<rparr>))"

definition topic_rank :: "topic_queue \<Rightarrow> string \<Rightarrow> nat" where
  "topic_rank q name = (case map_of (topicOrder q) name of None \<Rightarrow> 2 ^ 53 - 1 | Some i \<Rightarrow> i)"

definition drain_order :: "topic_queue \<Rightarrow> queue_entry \<Rightarrow> queue_entry \<Rightarrow> int" where
  "drain_order q l r =
    cmp_or (cmp_int (int (topic_rank q (info_name l))) (int (topic_rank q (info_name r))))
      (cmp_or (cmp_int (int (arrivalTimeNs l)) (int (arrivalTimeNs r)))
        (cmp_int (int (sequence_no l)) (int (sequence_no r))))"

definition drain :: "nat \<Rightarrow> topic_queue \<Rightarrow> queue_entry list \<times> topic_queue" where
  "drain step q =
    (let ready = filter (\<lambda>e. applyStep e \<le> step) (tq_queue q);
         pending = filter (\<lambda>e. \<not> applyStep e \<le> step) (tq_queue q)
     in (sort_by (drain_order q) ready,
         q\<lparr>tq_queue := pending, queuedBytes := sum_list (map entry_bytes pending)\<rparr>))"

definition tq_reset :: "topic_queue \<Rightarrow> topic_queue" where
  "tq_reset q = q\<lparr>tq_sequence := 0, tq_queue := [], queuedBytes := 0, droppedEntries := 0,
    droppedBytes := 0, overflowEvents := 0\<rparr>"

section \<open>Bounds\<close>

text \<open>
  The invariant: the byte count is exact and, like the length, within its limit; entries are in
  the order of their sequence numbers and carry the size of their payload.
\<close>

definition entry_ok :: "(js_value \<Rightarrow> bool) \<Rightarrow> nat \<Rightarrow> queue_entry \<Rightarrow> bool" where
  "entry_ok numeric n e \<longleftrightarrow> sequence_no e \<le> n \<and> entry_bytes e = estimatePayloadBytes numeric (info_value e)"

definition tq_inv :: "(js_value \<Rightarrow> bool) \<Rightarrow> topic_queue \<Rightarrow> bool" where
  "tq_inv numeric q \<longleftrightarrow> queuedBytes q = sum_list (map entry_bytes (tq_queue q))
    \<and> queuedBytes q \<le> maxBytes q \<and> length (tq_queue q) \<le> maxEntries q \<and> 1 \<le> maxEntries q
    \<and> sorted_wrt (\<lambda>a b. sequence_no a < sequence_no b) (tq_queue q)
    \<and> list_all (entry_ok numeric (tq_sequence q)) (tq_queue q)"

datatype queue_op = Enqueue string js_value int int | Drain nat | ResetQueue

definition tq_exec :: "(js_value \<Rightarrow> bool) \<Rightarrow> topic_queue \<Rightarrow> queue_op \<Rightarrow> topic_queue" where
  "tq_exec numeric q op =
    (case op of Enqueue name val at_step arrival \<Rightarrow> snd (enqueue numeric name val at_step arrival q)
     | Drain step \<Rightarrow> snd (drain step q)
     | ResetQueue \<Rightarrow> tq_reset q)"

definition over :: "nat \<Rightarrow> topic_queue \<Rightarrow> queue_entry list \<Rightarrow> bool" where
  "over bytes q xs \<longleftrightarrow> maxEntries q \<le> length xs \<or> maxBytes q < sum_list (map entry_bytes xs) + bytes"

text \<open>The loop drops the shortest prefix after which the new payload fits, or everything.\<close>

lemma overflow_loop_spec:
  assumes "queuedBytes q = sum_list (map entry_bytes xs)" and "list_all (entry_ok numeric N) xs"
  shows "\<exists>n \<le> length xs. overflow_loop numeric bytes xs q =
      q\<lparr>tq_queue := drop n xs, queuedBytes := sum_list (map entry_bytes (drop n xs)),
        droppedEntries := droppedEntries q + n,
        droppedBytes := droppedBytes q + sum_list (map entry_bytes (take n xs)),
        overflowEvents := overflowEvents q + n\<rparr>
    \<and> (n = length xs \<or> \<not> over bytes q (drop n xs)) \<and> (\<forall>m < n. over bytes q (drop m xs))"
  using assms
proof (induction xs arbitrary: q)
  case Nil
  then show ?case by (intro exI [of _ 0]) simp
next
  case (Cons d ds)
  have size: "dropped_size numeric d = entry_bytes d"
    using Cons.prems(2) by (simp add: dropped_size_def entry_ok_def)
  show ?case
  proof (cases "over bytes q (d # ds)")
    case False
    then show ?thesis
      using Cons.prems(1) by (intro exI [of _ 0]) (simp add: over_def)
  next
    case True
    let ?q = "q\<lparr>queuedBytes := queuedBytes q - dropped_size numeric d, droppedEntries := droppedEntries q + 1,
         droppedBytes := droppedBytes q + dropped_size numeric d, overflowEvents := overflowEvents q + 1\<rparr>"
    have step: "overflow_loop numeric bytes (d # ds) q = overflow_loop numeric bytes ds ?q"
      using True Cons.prems(1) by (auto simp: over_def)
    obtain n where n: "n \<le> length ds" "overflow_loop numeric bytes ds ?q =
      ?q\<lparr>tq_queue := drop n ds, queuedBytes := sum_list (map entry_bytes (drop n ds)),
        droppedEntries := droppedEntries ?q + n,
        droppedBytes := droppedBytes ?q + sum_list (map entry_bytes (take n ds)),
        overflowEvents := overflowEvents ?q + n\<rparr>"
      "n = length ds \<or> \<not> over bytes ?q (drop n ds)" "\<forall>m < n. over bytes ?q (drop m ds)"
      using Cons.IH [of ?q] Cons.prems by (auto simp: size)
    have ov: "over bytes ?q = over bytes q" by (simp add: over_def fun_eq_iff)
    have "\<forall>m < Suc n. over bytes q (drop m (d # ds))"
      using n(4) [unfolded ov] True by (auto simp: less_Suc_eq_0_disj)
    then show ?thesis
      using n(1,2) n(3) [unfolded ov] unfolding step by (intro exI [of _ "Suc n"]) (simp add: size)
  qed
qed

text \<open>What \<open>enqueue\<close> does to a declared input, in one equation per outcome.\<close>

lemma enqueue_cases:
  assumes inv: "tq_inv numeric q" and name: "name \<noteq> []" "declaredInputs q = {} \<or> name \<in> declaredInputs q"
  obtains n q1 where "n \<le> length (tq_queue q)"
    and "q1 = q\<lparr>tq_queue := drop n (tq_queue q), queuedBytes := sum_list (map entry_bytes (drop n (tq_queue q))),
        droppedEntries := droppedEntries q + n,
        droppedBytes := droppedBytes q + sum_list (map entry_bytes (take n (tq_queue q))),
        overflowEvents := overflowEvents q + n\<rparr>"
    and "n = length (tq_queue q) \<or> \<not> over (estimatePayloadBytes numeric val) q (drop n (tq_queue q))"
    and "\<And>m. m < n \<Longrightarrow> over (estimatePayloadBytes numeric val) q (drop m (tq_queue q))"
    and "enqueue numeric name val at_step arrival q =
      (if estimatePayloadBytes numeric val > maxBytes q \<and> tq_queue q1 = []
       then (PayloadTooLarge, q1\<lparr>droppedEntries := droppedEntries q1 + 1,
         droppedBytes := droppedBytes q1 + estimatePayloadBytes numeric val,
         overflowEvents := overflowEvents q1 + 1\<rparr>)
       else let e = \<lparr>info_name = name, info_value = val, applyStep = nat at_step,
              arrivalTimeNs = nat arrival, sequence_no = tq_sequence q + 1,
              entry_bytes = estimatePayloadBytes numeric val\<rparr>
         in (Queued e, q1\<lparr>tq_sequence := tq_sequence q + 1, tq_queue := tq_queue q1 @ [e],
           queuedBytes := queuedBytes q1 + estimatePayloadBytes numeric val\<rparr>))"
proof -
  obtain n where n: "n \<le> length (tq_queue q)"
    "overflow_loop numeric (estimatePayloadBytes numeric val) (tq_queue q) q =
      q\<lparr>tq_queue := drop n (tq_queue q), queuedBytes := sum_list (map entry_bytes (drop n (tq_queue q))),
        droppedEntries := droppedEntries q + n,
        droppedBytes := droppedBytes q + sum_list (map entry_bytes (take n (tq_queue q))),
        overflowEvents := overflowEvents q + n\<rparr>"
    "n = length (tq_queue q) \<or> \<not> over (estimatePayloadBytes numeric val) q (drop n (tq_queue q))"
    "\<forall>m < n. over (estimatePayloadBytes numeric val) q (drop m (tq_queue q))"
    using overflow_loop_spec [of q "tq_queue q" numeric "tq_sequence q"] inv
    unfolding tq_inv_def by blast
  show thesis
    by (rule that [OF n(1) refl n(3)]) (use n(2,4) name in \<open>auto simp: enqueue_def Let_def\<close>)
qed

lemma entry_ok_mono: "entry_ok numeric n e \<Longrightarrow> n \<le> m \<Longrightarrow> entry_ok numeric m e"
  by (simp add: entry_ok_def)

lemma sum_list_drop_le: "sum_list (map f (drop n xs)) \<le> (sum_list (map f xs) :: nat)"
  by (metis append_take_drop_id le_add2 map_append sum_list_append)

lemma enqueue_inv:
  assumes inv: "tq_inv numeric q"
  shows "tq_inv numeric (snd (enqueue numeric name val at_step arrival q))"
proof (cases "name \<noteq> [] \<and> (declaredInputs q = {} \<or> name \<in> declaredInputs q)")
  case False
  then show ?thesis using inv by (auto simp: enqueue_def)
next
  case True
  let ?b = "estimatePayloadBytes numeric val"
  from True have name: "name \<noteq> []" "declaredInputs q = {} \<or> name \<in> declaredInputs q" by auto
  show ?thesis
  proof (rule enqueue_cases [OF inv name, of val at_step arrival])
    fix n q1
    assume q1: "q1 = q\<lparr>tq_queue := drop n (tq_queue q), queuedBytes := sum_list (map entry_bytes (drop n (tq_queue q))),
        droppedEntries := droppedEntries q + n,
        droppedBytes := droppedBytes q + sum_list (map entry_bytes (take n (tq_queue q))),
        overflowEvents := overflowEvents q + n\<rparr>"
    and fit: "n = length (tq_queue q) \<or> \<not> over ?b q (drop n (tq_queue q))"
    and eq: "enqueue numeric name val at_step arrival q =
      (if ?b > maxBytes q \<and> tq_queue q1 = []
       then (PayloadTooLarge, q1\<lparr>droppedEntries := droppedEntries q1 + 1,
         droppedBytes := droppedBytes q1 + ?b, overflowEvents := overflowEvents q1 + 1\<rparr>)
       else let e = \<lparr>info_name = name, info_value = val, applyStep = nat at_step,
              arrivalTimeNs = nat arrival, sequence_no = tq_sequence q + 1, entry_bytes = ?b\<rparr>
         in (Queued e, q1\<lparr>tq_sequence := tq_sequence q + 1, tq_queue := tq_queue q1 @ [e],
           queuedBytes := queuedBytes q1 + ?b\<rparr>))"
    have d: "sorted_wrt (\<lambda>a b. sequence_no a < sequence_no b) (drop n (tq_queue q))"
      "list_all (entry_ok numeric (tq_sequence q)) (drop n (tq_queue q))"
      "sum_list (map entry_bytes (drop n (tq_queue q))) \<le> maxBytes q" "1 \<le> maxEntries q"
      "length (tq_queue q) \<le> maxEntries q"
      using inv sum_list_drop_le [of entry_bytes n "tq_queue q"]
      by (auto simp: tq_inv_def sorted_wrt_drop list_all_iff dest: in_set_dropD)
    show ?thesis
    proof (cases "?b > maxBytes q \<and> drop n (tq_queue q) = []")
      case True
      then show ?thesis using d eq by (simp add: q1 tq_inv_def)
    next
      case False
      have room: "length (drop n (tq_queue q)) < maxEntries q
        \<and> sum_list (map entry_bytes (drop n (tq_queue q))) + ?b \<le> maxBytes q"
        using fit False d(4) by (auto simp: over_def)
      have res: "snd (enqueue numeric name val at_step arrival q) =
        q1\<lparr>tq_sequence := tq_sequence q + 1, tq_queue := tq_queue q1 @ [\<lparr>info_name = name, info_value = val,
             applyStep = nat at_step, arrivalTimeNs = nat arrival, sequence_no = tq_sequence q + 1, entry_bytes = ?b\<rparr>],
             queuedBytes := queuedBytes q1 + ?b\<rparr>"
        unfolding eq by (subst if_not_P) (use False in \<open>auto simp: q1 Let_def\<close>)
      show ?thesis
        unfolding res using d room
        by (auto simp: q1 tq_inv_def sorted_wrt_append list_all_iff entry_ok_def less_Suc_eq_le)
    qed
  qed
qed

lemma tq_exec_inv: "tq_inv numeric q \<Longrightarrow> tq_inv numeric (tq_exec numeric q op)"
proof (cases op)
  case (Drain step)
  have le: "sum_list (map entry_bytes (filter P xs)) \<le> sum_list (map entry_bytes xs)" for P xs
    by (induction xs) auto
  show "tq_inv numeric q \<Longrightarrow> ?thesis"
    unfolding Drain tq_exec_def tq_inv_def
    by (auto simp: drain_def Let_def sorted_wrt_filter list_all_iff
      intro: order_trans [OF le] order_trans [OF length_filter_le])
qed (simp_all add: tq_exec_def enqueue_inv tq_reset_def, simp add: tq_inv_def)

interpretation topic_queue: driven "tq_exec numeric" "tq_inv numeric" for numeric
  by unfold_locales (rule tq_exec_inv)

section \<open>What the queue promises\<close>

lemma overflow_loop_limits [simp]:
  "maxEntries (overflow_loop numeric b xs q) = maxEntries q"
  "maxBytes (overflow_loop numeric b xs q) = maxBytes q"
  by (induction xs arbitrary: q) simp_all

lemma tq_exec_limits:
  "maxEntries (tq_exec numeric q op) = maxEntries q \<and> maxBytes (tq_exec numeric q op) = maxBytes q"
  by (cases op) (auto simp: tq_exec_def enqueue_def drain_def tq_reset_def Let_def)

lemma run_limits:
  "maxEntries (foldl (tq_exec numeric) q ops) = maxEntries q
    \<and> maxBytes (foldl (tq_exec numeric) q ops) = maxBytes q"
  by (induction ops arbitrary: q) (simp_all add: tq_exec_limits)

text \<open>
  C26. Whatever is enqueued, drained and reset, a topic input queue never holds more entries or
  bytes than its limits, and its byte count is the sum over the entries it holds.
\<close>

theorem topic_queue_bounded:
  "let q = foldl (tq_exec numeric) (new_TopicInputQueue topics entries bytes) ops
   in length (tq_queue q) \<le> max 1 entries \<and> queuedBytes q \<le> max 1024 bytes
    \<and> queuedBytes q = sum_list (map entry_bytes (tq_queue q))"
proof -
  have "tq_inv numeric (new_TopicInputQueue topics entries bytes)"
    by (simp add: tq_inv_def new_TopicInputQueue_def)
  from topic_queue.run_inv [OF this, of ops] show ?thesis
    using run_limits [of numeric "new_TopicInputQueue topics entries bytes" ops]
    by (simp add: tq_inv_def new_TopicInputQueue_def)
qed

text \<open>
  An accepted entry goes to the end, oldest entries make room for it, and no more of them
  than needed: every shorter prefix would leave the queue over a limit. The counters record
  exactly what was dropped.
\<close>

theorem enqueue_drops_oldest:
  assumes inv: "tq_inv numeric q" and r: "enqueue numeric name val at_step arrival q = (Queued e, q')"
  shows "\<exists>n \<le> length (tq_queue q). tq_queue q' = drop n (tq_queue q) @ [e]
    \<and> (\<forall>m < n. over (entry_bytes e) q (drop m (tq_queue q)))
    \<and> droppedEntries q' = droppedEntries q + n
    \<and> droppedBytes q' = droppedBytes q + sum_list (map entry_bytes (take n (tq_queue q)))
    \<and> list_all (\<lambda>d. sequence_no d < sequence_no e) (tq_queue q)"
proof -
  have name: "name \<noteq> []" "declaredInputs q = {} \<or> name \<in> declaredInputs q"
    using r by (auto simp: enqueue_def split: if_splits)
  show ?thesis
  proof (rule enqueue_cases [OF inv name, of val at_step arrival])
    fix n q1
    assume n: "n \<le> length (tq_queue q)"
    and q1: "q1 = q\<lparr>tq_queue := drop n (tq_queue q), queuedBytes := sum_list (map entry_bytes (drop n (tq_queue q))),
        droppedEntries := droppedEntries q + n,
        droppedBytes := droppedBytes q + sum_list (map entry_bytes (take n (tq_queue q))),
        overflowEvents := overflowEvents q + n\<rparr>"
    and min: "\<And>m. m < n \<Longrightarrow> over (estimatePayloadBytes numeric val) q (drop m (tq_queue q))"
    and eq: "enqueue numeric name val at_step arrival q =
      (if estimatePayloadBytes numeric val > maxBytes q \<and> tq_queue q1 = []
       then (PayloadTooLarge, q1\<lparr>droppedEntries := droppedEntries q1 + 1,
         droppedBytes := droppedBytes q1 + estimatePayloadBytes numeric val,
         overflowEvents := overflowEvents q1 + 1\<rparr>)
       else let e = \<lparr>info_name = name, info_value = val, applyStep = nat at_step,
              arrivalTimeNs = nat arrival, sequence_no = tq_sequence q + 1,
              entry_bytes = estimatePayloadBytes numeric val\<rparr>
         in (Queued e, q1\<lparr>tq_sequence := tq_sequence q + 1, tq_queue := tq_queue q1 @ [e],
           queuedBytes := queuedBytes q1 + estimatePayloadBytes numeric val\<rparr>))"
    have "list_all (\<lambda>d. sequence_no d \<le> tq_sequence q) (tq_queue q)"
      using inv by (auto simp: tq_inv_def list_all_iff entry_ok_def)
    with n min r show ?thesis
      unfolding eq by (intro exI [of _ n]) (auto simp: q1 Let_def list_all_iff less_Suc_eq_le split: if_splits)
  qed
qed

text \<open>
  A payload larger than the whole byte limit is rejected, and takes every queued entry with
  it: the loop that makes room has already emptied the queue when the size is looked at.
\<close>

theorem oversized_payload_flushes_queue:
  assumes inv: "tq_inv numeric q" and name: "name \<noteq> []" "declaredInputs q = {} \<or> name \<in> declaredInputs q"
    and big: "estimatePayloadBytes numeric val > maxBytes q"
  shows "fst (enqueue numeric name val at_step arrival q) = PayloadTooLarge
    \<and> tq_queue (snd (enqueue numeric name val at_step arrival q)) = []
    \<and> droppedEntries (snd (enqueue numeric name val at_step arrival q))
        = droppedEntries q + length (tq_queue q) + 1"
proof (rule enqueue_cases [OF inv name, of val at_step arrival])
  fix n q1
  assume "n = length (tq_queue q) \<or> \<not> over (estimatePayloadBytes numeric val) q (drop n (tq_queue q))"
  then have n: "n = length (tq_queue q)" using big by (auto simp: over_def)
  assume "q1 = q\<lparr>tq_queue := drop n (tq_queue q), queuedBytes := sum_list (map entry_bytes (drop n (tq_queue q))),
        droppedEntries := droppedEntries q + n,
        droppedBytes := droppedBytes q + sum_list (map entry_bytes (take n (tq_queue q))),
        overflowEvents := overflowEvents q + n\<rparr>"
    and eq: "enqueue numeric name val at_step arrival q =
      (if estimatePayloadBytes numeric val > maxBytes q \<and> tq_queue q1 = []
       then (PayloadTooLarge, q1\<lparr>droppedEntries := droppedEntries q1 + 1,
         droppedBytes := droppedBytes q1 + estimatePayloadBytes numeric val,
         overflowEvents := overflowEvents q1 + 1\<rparr>)
       else let e = \<lparr>info_name = name, info_value = val, applyStep = nat at_step,
              arrivalTimeNs = nat arrival, sequence_no = tq_sequence q + 1,
              entry_bytes = estimatePayloadBytes numeric val\<rparr>
         in (Queued e, q1\<lparr>tq_sequence := tq_sequence q + 1, tq_queue := tq_queue q1 @ [e],
           queuedBytes := queuedBytes q1 + estimatePayloadBytes numeric val\<rparr>))"
  then show ?thesis using big by (simp add: n)
qed

lemma drain_order_laws: "comparator_laws (drain_order q)"
  unfolding drain_order_def
  by (intro comparator_laws_or comparator_laws_int [of "\<lambda>e. int (topic_rank q (info_name e))"]
    comparator_laws_int [of "\<lambda>e. int (arrivalTimeNs e)"] comparator_laws_int [of "\<lambda>e. int (sequence_no e)"])

text \<open>
  \<open>drain\<close> neither loses nor repeats an entry: what it returns and what it keeps is what was
  queued; what it returns is due and sorted by topic, arrival time and sequence number; what it
  keeps is not due.
\<close>

theorem drain_partitions_and_sorts:
  "mset (fst (drain step q)) + mset (tq_queue (snd (drain step q))) = mset (tq_queue q)
    \<and> list_all (\<lambda>e. applyStep e \<le> step) (fst (drain step q))
    \<and> list_all (\<lambda>e. step < applyStep e) (tq_queue (snd (drain step q)))
    \<and> sorted_wrt (\<lambda>a b. drain_order q a b \<le> 0) (fst (drain step q))"
  using comparator_laws.sorted_sort_by [OF drain_order_laws]
  by (auto simp: drain_def Let_def list_all_iff)

text \<open>
  C27. The order of delivery does not depend on the order of the queue: two queues that hold the
  same entries, with distinct sequence numbers and the same topics, drain the same list.
\<close>

theorem drain_deterministic:
  assumes "mset (tq_queue p) = mset (tq_queue q)" and "topicOrder p = topicOrder q"
    and d: "distinct (map sequence_no (tq_queue q))"
  shows "fst (drain step p) = fst (drain step q)"
proof -
  have "drain_order p = drain_order q"
    using assms(2) by (simp add: drain_order_def topic_rank_def fun_eq_iff)
  moreover have "sort_by (drain_order q) (filter (\<lambda>e. applyStep e \<le> step) (tq_queue p))
      = sort_by (drain_order q) (filter (\<lambda>e. applyStep e \<le> step) (tq_queue q))"
  proof (rule comparator_laws.sort_by_unique [OF drain_order_laws])
    show "mset (filter (\<lambda>e. applyStep e \<le> step) (tq_queue p)) = mset (filter (\<lambda>e. applyStep e \<le> step) (tq_queue q))"
      using assms(1) by (metis mset_filter)
    fix x y
    assume "x \<in> set (filter (\<lambda>e. applyStep e \<le> step) (tq_queue p))"
      and "y \<in> set (filter (\<lambda>e. applyStep e \<le> step) (tq_queue p))" and 0: "drain_order q x y = 0"
    then have "x \<in> set (tq_queue q)" "y \<in> set (tq_queue q)"
      using assms(1) by (metis filter_is_subset set_mset_mset subsetD)+
    moreover have "sequence_no x = sequence_no y"
      using 0 by (auto simp: drain_order_def cmp_or_def cmp_int_def split: if_splits)
    ultimately show "x = y" using d by (auto simp: distinct_map inj_on_def)
  qed
  ultimately show ?thesis by (simp add: drain_def Let_def)
qed

section \<open>A queue in use\<close>

definition demo_queue :: topic_queue where
  "demo_queue = foldl (tq_exec (\<lambda>_. False)) (new_TopicInputQueue [] 2 1024)
    [Enqueue ''a'' (JBuffer 600) 1 7, Enqueue ''b'' (JBuffer 300) 0 9]"

lemma demo_queue_inv: "tq_inv (\<lambda>_. False) demo_queue"
  unfolding demo_queue_def by (rule topic_queue.run_inv) (simp add: tq_inv_def new_TopicInputQueue_def)

lemmas queue_eval = tq_exec_def enqueue_def new_TopicInputQueue_def drain_def dropped_size_def
  input_names_def Let_def

lemma demo_queue_eval:
  "demo_queue = \<lparr>tq_sequence = 2, tq_queue =
      [\<lparr>info_name = ''a'', info_value = JBuffer 600, applyStep = 1, arrivalTimeNs = 7, sequence_no = 1, entry_bytes = 600\<rparr>,
       \<lparr>info_name = ''b'', info_value = JBuffer 300, applyStep = 0, arrivalTimeNs = 9, sequence_no = 2, entry_bytes = 300\<rparr>],
     queuedBytes = 900, maxEntries = 2, maxBytes = 1024, droppedEntries = 0, droppedBytes = 0,
     overflowEvents = 0, declaredInputs = {}, topicOrder = []\<rparr>"
  unfolding demo_queue_def by (simp add: queue_eval)

theorem enqueue_drops_oldest_witness:
  "\<exists>n \<le> length (tq_queue demo_queue).
    tq_queue (snd (enqueue (\<lambda>_. False) ''c'' (JBuffer 500) 3 1 demo_queue))
      = drop n (tq_queue demo_queue) @ [\<lparr>info_name = ''c'', info_value = JBuffer 500, applyStep = 3,
        arrivalTimeNs = 1, sequence_no = 3, entry_bytes = 500\<rparr>]"
proof -
  have "enqueue (\<lambda>_. False) ''c'' (JBuffer 500) 3 1 demo_queue
    = (Queued \<lparr>info_name = ''c'', info_value = JBuffer 500, applyStep = 3, arrivalTimeNs = 1, sequence_no = 3,
        entry_bytes = 500\<rparr>, snd (enqueue (\<lambda>_. False) ''c'' (JBuffer 500) 3 1 demo_queue))"
    by (simp add: demo_queue_eval queue_eval)
  from enqueue_drops_oldest [OF demo_queue_inv this] show ?thesis by blast
qed

theorem oversized_payload_witness:
  "length (tq_queue demo_queue) = 2
    \<and> tq_queue (snd (enqueue (\<lambda>_. False) ''c'' (JBuffer 2000) 3 1 demo_queue)) = []"
proof -
  have "declaredInputs demo_queue = {}" and "maxBytes demo_queue < estimatePayloadBytes (\<lambda>_. False) (JBuffer 2000)"
    and "length (tq_queue demo_queue) = 2"
    by (simp_all add: demo_queue_eval)
  then show ?thesis
    using oversized_payload_flushes_queue [OF demo_queue_inv, of "''c''" "JBuffer 2000" 3 1] by blast
qed

theorem drain_deterministic_witness:
  "fst (drain 5 (demo_queue\<lparr>tq_queue := rev (tq_queue demo_queue)\<rparr>)) = fst (drain 5 demo_queue)
    \<and> length (fst (drain 5 demo_queue)) = 2"
proof
  show "fst (drain 5 (demo_queue\<lparr>tq_queue := rev (tq_queue demo_queue)\<rparr>)) = fst (drain 5 demo_queue)"
    by (rule drain_deterministic) (simp_all add: demo_queue_eval)
  show "length (fst (drain 5 demo_queue)) = 2"
    by (simp add: demo_queue_eval drain_def Let_def)
qed

end
