(* ===== verification/PcapEncoder.thy ===== *)
theory PcapEncoder
  imports JsText
begin

text \<open>
  \<open>server/sensor-transports/PcapEncoder.js\<close> and \<open>HostPacketOrdering.js\<close>: addresses, the internet
  checksum, Ethernet/IPv4/UDP frames, capture records, and the order of packets within a step. A
  reader of frames and records, written from the formats, checks what the encoder writes.
\<close>

type_synonym byte = "8 word"

section \<open>Numbers in bytes\<close>

text \<open>\<open>n >> 8\<close> and \<open>n & 0xff\<close> stored into a \<open>Uint8Array\<close>, and \<open>DataView\<close> in little endian.\<close>

definition be16 :: "nat \<Rightarrow> byte list" where
  "be16 n = [word_of_nat (n div 256), word_of_nat (n mod 256)]"

definition le16 :: "nat \<Rightarrow> byte list" where
  "le16 n = [word_of_nat (n mod 256), word_of_nat (n div 256)]"

definition le32 :: "nat \<Rightarrow> byte list" where
  "le32 n = [word_of_nat (n mod 256), word_of_nat (n div 256 mod 256), word_of_nat (n div 65536 mod 256),
    word_of_nat (n div 16777216 mod 256)]"

fun from_be16 :: "byte list \<Rightarrow> nat" where
  "from_be16 [h, l] = unat h * 256 + unat l"
| "from_be16 _ = 0"

fun from_le32 :: "byte list \<Rightarrow> nat" where
  "from_le32 [a, b, c, d] = unat a + unat b * 256 + unat c * 65536 + unat d * 16777216"
| "from_le32 _ = 0"

lemma unat_byte_mod [simp]: "unat (word_of_nat n :: byte) = n mod 256"
  by (simp add: unat_of_nat)

lemma from_be16_be16: "n < 65536 \<Longrightarrow> from_be16 (be16 n) = n"
  by (simp add: be16_def)

lemma from_le32_le32:
  assumes n: "n < 2 ^ 32"
  shows "from_le32 (le32 n) = n"
proof -
  have a: "n div 65536 = n div 256 div 256" "n div 16777216 = n div 256 div 256 div 256"
    by (simp_all add: div_mult2_eq [symmetric])
  have b: "n div 256 div 256 div 256 < 256" using n by (simp add: div_mult2_eq [symmetric])
  have "n mod 256 + n div 256 mod 256 * 256 + n div 256 div 256 mod 256 * 65536
      + n div 256 div 256 div 256 * 16777216 = n"
    using div_mult_mod_eq [of n 256] div_mult_mod_eq [of "n div 256" 256]
      div_mult_mod_eq [of "n div 256 div 256" 256] by linarith
  with b show ?thesis by (simp add: le32_def a)
qed

lemma unat_byte: "unat (b :: byte) < 256"
  using unsigned_less [of b, where 'a = nat] by simp

lemma length_numbers [simp]: "length (be16 n) = 2" "length (le16 n) = 2" "length (le32 n) = 4"
  by (simp_all add: be16_def le16_def le32_def)

section \<open>The internet checksum\<close>

fun sum16 :: "byte list \<Rightarrow> nat" where
  "sum16 [] = 0"
| "sum16 [h] = unat h * 256"
| "sum16 (h # l # bs) = unat h * 256 + unat l + sum16 bs"

text \<open>\<open>while (sum > 0xffff)\<close>; \<open>&\<close> and \<open>>>>\<close> see the low 32 bits of \<open>sum\<close>.\<close>

function fold16 :: "nat \<Rightarrow> nat" where
  "fold16 s = (if s > 0xFFFF then fold16 (s mod 2 ^ 32 mod 0x10000 + s mod 2 ^ 32 div 0x10000) else s)"
  by auto
termination
proof (relation "measure (\<lambda>s. s)")
  fix s :: nat
  assume s: "s > 0xFFFF"
  have "s mod 2 ^ 32 mod 0x10000 + s mod 2 ^ 32 div 0x10000 < s"
  proof (cases "s mod 2 ^ 32 div 0x10000 = 0")
    case True
    then have "s mod 2 ^ 32 mod 0x10000 \<le> 0xFFFF" by simp
    with s True show ?thesis by linarith
  next
    case False
    then have "s mod 2 ^ 32 mod 0x10000 + s mod 2 ^ 32 div 0x10000 < s mod 2 ^ 32"
      using div_mult_mod_eq [of "s mod 2 ^ 32" "0x10000"] by linarith
    also have "\<dots> \<le> s" by simp
    finally show ?thesis .
  qed
  then show "(s mod 2 ^ 32 mod 0x10000 + s mod 2 ^ 32 div 0x10000, s) \<in> measure (\<lambda>s. s)" by simp
qed simp

declare fold16.simps [simp del]

definition internetChecksum :: "byte list \<Rightarrow> nat \<Rightarrow> nat" where
  "internetChecksum bytes extra = 0xFFFF - fold16 (extra mod 2 ^ 32 + sum16 bytes)"

lemma fold16_le: "fold16 s \<le> 0xFFFF"
proof (induction s rule: fold16.induct)
  case (1 s)
  then show ?case by (subst fold16.simps) (cases "s > 0xFFFF"; simp)
qed

lemma fold16_pos: "0 < s \<Longrightarrow> s < 2 ^ 32 \<Longrightarrow> 0 < fold16 s"
proof (induction s rule: fold16.induct)
  case (1 s)
  show ?case
  proof (cases "s > 0xFFFF")
    case True
    have "0 < s mod 0x10000 + s div 0x10000" using True by (cases "s div 0x10000") auto
    moreover have "s mod 0x10000 + s div 0x10000 < 2 ^ 32" using "1.prems"(2) by linarith
    ultimately show ?thesis
      using "1.IH" [OF True] "1.prems"(2) True by (subst fold16.simps) simp
  next
    case False
    then show ?thesis using "1.prems" by (subst fold16.simps) simp
  qed
qed

lemma fold16_mod: "s < 2 ^ 32 \<Longrightarrow> fold16 s mod 0xFFFF = s mod 0xFFFF"
proof (induction s rule: fold16.induct)
  case (1 s)
  show ?case
  proof (cases "s > 0xFFFF")
    case True
    have "(s mod 0x10000 + s div 0x10000) mod 0xFFFF = s mod (0xFFFF :: nat)"
    proof -
      have "s = (s mod 0x10000 + s div 0x10000) + s div 0x10000 * 0xFFFF"
        using div_mult_mod_eq [of s "0x10000"] by linarith
      then show ?thesis by (metis mod_mult_self1)
    qed
    moreover have "s mod 0x10000 + s div 0x10000 < 2 ^ 32" using "1.prems" by linarith
    ultimately show ?thesis
      using "1.IH" [OF True] "1.prems" True by (subst fold16.simps) simp
  next
    case False
    then show ?thesis by (subst fold16.simps) simp
  qed
qed

text \<open>Adding the complement of the folded sum makes the whole sum fold to all ones.\<close>

lemma fold16_complement:
  assumes "0 < s" and "s < 2 ^ 31"
  shows "fold16 (s + (0xFFFF - fold16 s)) = 0xFFFF"
proof -
  let ?t = "s + (0xFFFF - fold16 s)"
  have t: "?t < 2 ^ 32" "0 < ?t" using assms by simp_all
  have "?t mod 0xFFFF = 0"
  proof -
    have "(?t + fold16 s) mod 0xFFFF = (s + 0xFFFF) mod 0xFFFF" using fold16_le [of s] by simp
    also have "\<dots> = fold16 s mod 0xFFFF" using fold16_mod [of s] assms(2) by simp
    finally have "(?t + fold16 s) mod 0xFFFF = fold16 s mod 0xFFFF" .
    then have "0xFFFF dvd (?t + fold16 s) - fold16 s"
      by (subst mod_eq_dvd_iff_nat [symmetric]) simp_all
    then show ?thesis by (simp only: add_diff_cancel_right' dvd_eq_mod_eq_0)
  qed
  then have "fold16 ?t mod 0xFFFF = 0" using fold16_mod [OF t(1)] by simp
  moreover have "0 < fold16 ?t" by (rule fold16_pos [OF t(2,1)])
  moreover have "fold16 ?t \<le> 0xFFFF" by (rule fold16_le)
  ultimately show ?thesis using mod_less [of "fold16 ?t" "0xFFFF"] by linarith
qed

lemma sum16_append: "even (length xs) \<Longrightarrow> sum16 (xs @ ys) = sum16 xs + sum16 ys"
  by (induction xs rule: sum16.induct) simp_all

lemma sum16_be16: "n < 65536 \<Longrightarrow> sum16 (be16 n) = n"
  by (simp add: be16_def)

lemma sum16_bound: "2 * sum16 bs \<le> 65535 * (length bs + 1)"
proof (induction bs rule: sum16.induct)
  case (3 h l bs)
  have "unat h * 256 + unat l \<le> 65535" using unat_byte [of h] unat_byte [of l] by linarith
  then show ?case using 3 by simp
next
  case (2 h)
  show ?case using unat_byte [of h] by simp
qed simp

section \<open>Addresses\<close>

datatype pcap_error = BadLength string nat | InvalidMac string | InvalidIpv4 string | BadTtl
  | BadSourcePort | BadDestinationPort | PayloadTooLong | NegativeTimestamp | TimestampTooLarge

datatype address = Bytes "byte list" | Text string

definition requireBytes :: "byte list \<Rightarrow> nat \<Rightarrow> string \<Rightarrow> (pcap_error, byte list) result" where
  "requireBytes bs n path = (if length bs \<noteq> n then Inl (BadLength path n) else Inr bs)"

definition js_space :: "char \<Rightarrow> bool" where
  "js_space c \<longleftrightarrow> (let n = of_char c :: nat in 9 \<le> n \<and> n \<le> 13 \<or> n = 32 \<or> n = 160)"

definition js_trim :: "string \<Rightarrow> string" where
  "js_trim s = rev (dropWhile js_space (rev (dropWhile js_space s)))"

definition digit :: "char \<Rightarrow> nat option" where
  "digit c = (let n = of_char c :: nat in if 48 \<le> n \<and> n \<le> 57 then Some (n - 48) else None)"

definition hex_digit :: "char \<Rightarrow> nat option" where
  "hex_digit c = (let n = of_char c :: nat in
    if 48 \<le> n \<and> n \<le> 57 then Some (n - 48) else if 97 \<le> n \<and> n \<le> 102 then Some (n - 87)
    else if 65 \<le> n \<and> n \<le> 70 then Some (n - 55) else None)"

fun split_on :: "char \<Rightarrow> string \<Rightarrow> string list" where
  "split_on d [] = [[]]"
| "split_on d (c # cs) =
    (if c = d then [] # split_on d cs
     else case split_on d cs of [] \<Rightarrow> [[c]] | p # ps \<Rightarrow> (c # p) # ps)"

definition mac_part :: "string \<Rightarrow> byte option" where
  "mac_part p =
    (case p of
       [a, b] \<Rightarrow> (case (hex_digit a, hex_digit b) of
           (Some x, Some y) \<Rightarrow> Some (word_of_nat (x * 16 + y)) | _ \<Rightarrow> None)
     | _ \<Rightarrow> None)"

definition ipv4_part :: "string \<Rightarrow> byte option" where
  "ipv4_part p =
    (let ds = map digit p in
     if p \<noteq> [] \<and> length p \<le> 3 \<and> None \<notin> set ds \<and> (length p > 1 \<longrightarrow> hd ds \<noteq> Some 0)
     then (let n = foldl (\<lambda>a d. a * 10 + the d) 0 ds in if n > 255 then None else Some (word_of_nat n))
     else None)"

definition all_parts :: "(string \<Rightarrow> byte option) \<Rightarrow> nat \<Rightarrow> string list \<Rightarrow> byte list option" where
  "all_parts f n ps = (if length ps = n \<and> None \<notin> set (map f ps) then Some (map (the \<circ> f) ps) else None)"

definition macAddressBytes :: "string \<Rightarrow> (pcap_error, byte list) result" where
  "macAddressBytes val =
    (case all_parts mac_part 6 (split_on (CHR '':'') (js_trim val)) of
       None \<Rightarrow> Inl (InvalidMac val) | Some bs \<Rightarrow> Inr bs)"

definition ipv4AddressBytes :: "string \<Rightarrow> (pcap_error, byte list) result" where
  "ipv4AddressBytes val =
    (case all_parts ipv4_part 4 (split_on (CHR ''.'') (js_trim val)) of
       None \<Rightarrow> Inl (InvalidIpv4 val) | Some bs \<Rightarrow> Inr bs)"

definition mac_of :: "address \<Rightarrow> string \<Rightarrow> (pcap_error, byte list) result" where
  "mac_of a path = (case a of Bytes bs \<Rightarrow> requireBytes bs 6 path | Text t \<Rightarrow> macAddressBytes t)"

definition ipv4_of :: "address \<Rightarrow> string \<Rightarrow> (pcap_error, byte list) result" where
  "ipv4_of a path = (case a of Bytes bs \<Rightarrow> requireBytes bs 4 path | Text t \<Rightarrow> ipv4AddressBytes t)"

lemma mac_of_length: "mac_of a path = Inr bs \<Longrightarrow> length bs = 6"
  by (auto simp: mac_of_def requireBytes_def macAddressBytes_def all_parts_def
    split: address.splits if_splits option.splits)

lemma ipv4_of_length: "ipv4_of a path = Inr bs \<Longrightarrow> length bs = 4"
  by (auto simp: ipv4_of_def requireBytes_def ipv4AddressBytes_def all_parts_def
    split: address.splits if_splits option.splits)

section \<open>Frames\<close>

record endpoint =
  sourceMac :: address
  destinationMac :: address
  sourceAddress :: address
  destinationAddress :: address
  ttl :: int
  sourcePort :: int
  destinationPort :: int

definition ip_header :: "nat \<Rightarrow> nat \<Rightarrow> nat \<Rightarrow> byte list \<Rightarrow> byte list \<Rightarrow> nat \<Rightarrow> byte list" where
  "ip_header total_len ident time_to_live src dst checksum =
    [0x45, 0] @ be16 total_len @ be16 ident @ be16 0x4000 @ [word_of_nat time_to_live, 17] @ be16 checksum @ src @ dst"

definition udp_datagram :: "nat \<Rightarrow> nat \<Rightarrow> byte list \<Rightarrow> nat \<Rightarrow> byte list" where
  "udp_datagram sport dport payload checksum =
    be16 sport @ be16 dport @ be16 (8 + length payload) @ be16 checksum @ payload"

text \<open>
  The packet is laid out field by field; both checksums are taken while their own field is still
  zero, then stored.
\<close>

definition encodeEthernetIpv4Udp :: "endpoint \<Rightarrow> nat \<Rightarrow> byte list \<Rightarrow> (pcap_error, byte list) result" where
  "encodeEthernetIpv4Udp ep identification payload =
    res_bind (mac_of (sourceMac ep) ''ethernet.sourceMac'') (\<lambda>smac.
    res_bind (mac_of (destinationMac ep) ''ethernet.destinationMac'') (\<lambda>dmac.
    res_bind (ipv4_of (sourceAddress ep) ''ipv4.sourceAddress'') (\<lambda>src.
    res_bind (ipv4_of (destinationAddress ep) ''ipv4.destinationAddress'') (\<lambda>dst.
      let ident = identification mod 65536 in
      if ttl ep < 1 \<or> ttl ep > 255 then Inl BadTtl
      else if sourcePort ep < 1 \<or> sourcePort ep > 65535 then Inl BadSourcePort
      else if destinationPort ep < 1 \<or> destinationPort ep > 65535 then Inl BadDestinationPort
      else let udpLength = 8 + length payload; ipTotalLength = 20 + udpLength in
      if ipTotalLength > 65535 then Inl PayloadTooLong
      else let ipChecksum = internetChecksum (ip_header ipTotalLength ident (nat (ttl ep)) src dst 0) 0;
        sport = nat (sourcePort ep); dport = nat (destinationPort ep);
        pseudoSum = sum16 src + sum16 dst + 17 + udpLength;
        c = internetChecksum (udp_datagram sport dport payload 0) pseudoSum;
        udpChecksum = (if c = 0 then 0xFFFF else c)
      in Inr (dmac @ smac @ be16 0x0800 @ ip_header ipTotalLength ident (nat (ttl ep)) src dst ipChecksum
        @ udp_datagram sport dport payload udpChecksum)))))"

text \<open>\<open>BigInt\<close> division truncates towards zero.\<close>

definition bigint_div :: "int \<Rightarrow> int \<Rightarrow> int" where
  "bigint_div a b = (if (a < 0) = (b < 0) then \<bar>a\<bar> div \<bar>b\<bar> else - (\<bar>a\<bar> div \<bar>b\<bar>))"

definition pcapTimestampUs :: "int \<Rightarrow> int" where
  "pcapTimestampUs logicalNs = bigint_div logicalNs 1000"

definition encodePcapGlobalHeader :: "byte list" where
  "encodePcapGlobalHeader =
    le32 0xA1B2C3D4 @ le16 2 @ le16 4 @ le32 0 @ le32 0 @ le32 65535 @ le32 1"

definition encodePcapRecord :: "int \<Rightarrow> nat \<Rightarrow> endpoint \<Rightarrow> byte list \<Rightarrow> (pcap_error, byte list) result" where
  "encodePcapRecord timestampUs identification ep payload =
    res_bind (encodeEthernetIpv4Udp ep identification payload) (\<lambda>packet.
      if timestampUs < 0 then Inl NegativeTimestamp
      else let seconds = nat timestampUs div 1000000; leftover = nat timestampUs mod 1000000 in
      if seconds > 0xFFFFFFFF then Inl TimestampTooLarge
      else Inr (le32 seconds @ le32 leftover @ le32 (length packet) @ le32 (length packet) @ packet))"

section \<open>Reading them back\<close>

record frame_view =
  v_destinationMac :: "byte list"
  v_sourceMac :: "byte list"
  v_identification :: nat
  v_ttl :: nat
  v_source :: "byte list"
  v_destination :: "byte list"
  v_sourcePort :: nat
  v_destinationPort :: nat
  v_payload :: "byte list"

definition slice :: "nat \<Rightarrow> nat \<Rightarrow> 'a list \<Rightarrow> 'a list" where
  "slice i n xs = take n (drop i xs)"

text \<open>
  The receiver's check of RFC 1071, written without the encoder's sum: the data, padded with a zero byte to whole 16-bit
  words and read as one big-endian number, is a positive multiple of \<open>2 ^ 16 - 1\<close>. Over the pseudo header of RFC 768 for UDP,
  where a stored checksum of zero would mean that there is none.
\<close>

definition be_number :: "byte list \<Rightarrow> nat" where
  "be_number bs = foldl (\<lambda>n b. n * 256 + unat b) 0 bs"

definition checksum_verifies :: "byte list \<Rightarrow> bool" where
  "checksum_verifies bs \<longleftrightarrow>
    (let n = be_number (if even (length bs) then bs else bs @ [0]) in 0 < n \<and> n mod 0xFFFF = 0)"

definition read_frame :: "byte list \<Rightarrow> frame_view option" where
  "read_frame bs =
    (let hdr = slice 14 20 bs; udp = drop 34 bs;
         pseudo = slice 12 4 hdr @ slice 16 4 hdr @ [0, 17] @ slice 4 2 udp
     in if length bs \<ge> 42 \<and> slice 12 2 bs = [8, 0] \<and> slice 0 1 hdr = [0x45] \<and> slice 9 1 hdr = [17]
        \<and> be_number (slice 2 2 hdr) = length bs - 14 \<and> checksum_verifies hdr
        \<and> be_number (slice 4 2 udp) = length udp \<and> be_number (slice 6 2 udp) \<noteq> 0 \<and> checksum_verifies (pseudo @ udp)
      then Some \<lparr>v_destinationMac = slice 0 6 bs, v_sourceMac = slice 6 6 bs,
        v_identification = be_number (slice 4 2 hdr), v_ttl = be_number (slice 8 1 hdr),
        v_source = slice 12 4 hdr, v_destination = slice 16 4 hdr,
        v_sourcePort = be_number (slice 0 2 udp), v_destinationPort = be_number (slice 2 2 udp),
        v_payload = drop 8 udp\<rparr>
      else None)"

definition read_record :: "byte list \<Rightarrow> (nat \<times> nat \<times> byte list) option" where
  "read_record bs =
    (if length bs \<ge> 16 \<and> from_le32 (slice 8 4 bs) = length bs - 16 \<and> slice 8 4 bs = slice 12 4 bs
     then Some (from_le32 (slice 0 4 bs), from_le32 (slice 4 4 bs), drop 16 bs) else None)"

lemma slice_append:
  "slice i n (xs @ ys) = (if length xs \<le> i then slice (i - length xs) n ys
    else if i + n \<le> length xs then slice i n xs
    else drop i xs @ take (n - (length xs - i)) ys)"
  by (auto simp: slice_def)

lemma slice_all: "length xs = n \<Longrightarrow> slice 0 n xs = xs"
  by (simp add: slice_def)

lemma slice_Cons: "slice (Suc i) n (x # xs) = slice i n xs"
  by (simp add: slice_def)

lemma internetChecksum_le: "internetChecksum bs e \<le> 0xFFFF"
  by (simp add: internetChecksum_def)

text \<open>The number of an even list of bytes and the sum of its 16-bit words agree modulo \<open>2 ^ 16 - 1\<close>.\<close>

lemma be_number_append: "be_number (xs @ ys) = be_number xs * 256 ^ length ys + be_number ys"
proof (induction ys rule: rev_induct)
  case (snoc y ys)
  have "be_number (zs @ [y]) = be_number zs * 256 + unat y" for zs by (simp add: be_number_def)
  from this [of "xs @ ys"] this [of ys] snoc show ?case by (simp add: algebra_simps)
qed (simp add: be_number_def)

lemma be_number_be16: "n < 65536 \<Longrightarrow> be_number (be16 n) = n"
  by (simp add: be_number_def be16_def)

lemma be_number_pos: "b \<in> set bs \<Longrightarrow> b \<noteq> 0 \<Longrightarrow> 0 < be_number bs"
proof (induction bs rule: rev_induct)
  case (snoc x xs)
  then show ?case by (auto simp: be_number_def unat_gt_0)
qed simp

lemma even_power_mod:
  assumes "even k"
  shows "(m * 256 ^ k) mod 0xFFFF = m mod (0xFFFF :: nat)"
proof -
  obtain j where "k = 2 * j" using assms by (elim evenE)
  then have k: "256 ^ k = (65536 :: nat) ^ j" by (simp add: power_mult)
  have "m * 65536 ^ j mod 0xFFFF = m mod (0xFFFF :: nat)"
  proof (induction j)
    case (Suc j)
    have "m * 65536 ^ Suc j = m * 65536 ^ j + (m * 65536 ^ j) * 0xFFFF" by simp
    then show ?case using Suc by (simp only: mod_mult_self1)
  qed simp
  then show ?thesis by (simp only: k)
qed

lemma padded_mod: "be_number (if even (length bs) then bs else bs @ [0]) mod 0xFFFF = sum16 bs mod 0xFFFF"
proof (induction bs rule: sum16.induct)
  case (2 h)
  show ?case by (simp add: be_number_def)
next
  case (3 h l bs)
  let ?p = "\<lambda>bs :: byte list. if even (length bs) then bs else bs @ [0]"
  have two: "be_number [h, l] = unat h * 256 + unat l" by (simp add: be_number_def)
  have "even (length (?p bs))" by simp
  moreover have "?p (h # l # bs) = [h, l] @ ?p bs" by simp
  ultimately have "be_number (?p (h # l # bs)) mod 0xFFFF = ((unat h * 256 + unat l) * 256 ^ length (?p bs) + be_number (?p bs)) mod 0xFFFF"
    by (simp only: be_number_append two)
  also have "\<dots> = ((unat h * 256 + unat l) mod 0xFFFF + sum16 bs mod 0xFFFF) mod 0xFFFF"
    by (subst mod_add_eq [symmetric]) (simp only: even_power_mod [OF \<open>even (length (?p bs))\<close>] 3)
  also have "\<dots> = sum16 (h # l # bs) mod 0xFFFF" by (simp only: mod_add_eq sum16.simps)
  finally show ?case .
qed (simp add: be_number_def)

lemma checksum_zero_verifies:
  assumes "internetChecksum bs e = 0" and "sum16 pre = e" and "even (length pre)" and "e + sum16 bs < 2 ^ 32" and "b \<in> set (pre @ bs)" "b \<noteq> 0"
  shows "checksum_verifies (pre @ bs)"
proof -
  have e: "e mod 2 ^ 32 = e" using assms(4) by simp
  have "fold16 (e + sum16 bs) = 0xFFFF" using assms(1) fold16_le [of "e + sum16 bs"] unfolding internetChecksum_def e by simp
  then have "(e + sum16 bs) mod 0xFFFF = 0" using fold16_mod [OF assms(4)] by simp
  then have "sum16 (pre @ bs) mod 0xFFFF = 0" using assms(2) sum16_append [OF assms(3)] by simp
  moreover have "0 < be_number (if even (length (pre @ bs)) then pre @ bs else (pre @ bs) @ [0])"
    by (rule be_number_pos [OF _ assms(6)]) (use assms(5) in auto)
  ultimately show ?thesis unfolding checksum_verifies_def Let_def padded_mod by simp
qed

text \<open>A checksum field, stored where the sum had a zero, makes the receiver's sum vanish.\<close>

lemma checksum_stored:
  assumes "sum16 stored = sum16 zeroed + c" and "0 < e + sum16 zeroed" "e + sum16 zeroed < 2 ^ 31"
    and "c = internetChecksum zeroed e \<or> internetChecksum zeroed e = 0 \<and> c = 0xFFFF"
  shows "internetChecksum stored e = 0"
proof -
  let ?s = "e + sum16 zeroed"
  have e: "e mod 2 ^ 32 = e" using assms(3) by simp
  have c: "internetChecksum zeroed e = 0xFFFF - fold16 ?s" unfolding internetChecksum_def e ..
  have "fold16 (?s + c) = 0xFFFF"
    using assms(4)
  proof
    assume "c = internetChecksum zeroed e"
    then show ?thesis using fold16_complement [OF assms(2,3)] c by simp
  next
    assume z: "internetChecksum zeroed e = 0 \<and> c = 0xFFFF"
    then have "fold16 ?s = 0xFFFF" using c fold16_le [of ?s] by simp
    then have "?s mod 0xFFFF = 0" using fold16_mod [of ?s] assms(3) by simp
    moreover have "?s + c < 2 ^ 32" using z assms(3) by simp
    ultimately have "fold16 (?s + c) mod 0xFFFF = 0" using fold16_mod [of "?s + c"] z by simp
    moreover have "0 < fold16 (?s + c)" using assms(2) by (intro fold16_pos \<open>?s + c < 2 ^ 32\<close>) simp
    ultimately show ?thesis using fold16_le [of "?s + c"] mod_less [of "fold16 (?s + c)" "0xFFFF"] by linarith
  qed
  then show ?thesis unfolding internetChecksum_def e assms(1) by (simp add: add.assoc)
qed

lemma sum16_ip_header:
  "c < 65536 \<Longrightarrow> sum16 (ip_header n i t src dst c) = sum16 (ip_header n i t src dst 0) + c"
  by (simp add: ip_header_def be16_def)

lemma sum16_udp:
  "c < 65536 \<Longrightarrow> sum16 (udp_datagram s d p c) = sum16 (udp_datagram s d p 0) + c"
  by (simp add: udp_datagram_def be16_def)

lemma length_ip_header: "length (ip_header n i t src dst c) = 12 + length src + length dst"
  by (simp add: ip_header_def)

lemma length_udp: "length (udp_datagram s d p c) = 8 + length p"
  by (simp add: udp_datagram_def)

lemma encode_shape:
  assumes "encodeEthernetIpv4Udp ep identification payload = Inr packet"
  obtains smac dmac src dst ic uc where
    "mac_of (sourceMac ep) ''ethernet.sourceMac'' = Inr smac"
    "mac_of (destinationMac ep) ''ethernet.destinationMac'' = Inr dmac"
    "ipv4_of (sourceAddress ep) ''ipv4.sourceAddress'' = Inr src"
    "ipv4_of (destinationAddress ep) ''ipv4.destinationAddress'' = Inr dst"
    "1 \<le> ttl ep" "ttl ep \<le> 255" "1 \<le> sourcePort ep" "sourcePort ep \<le> 65535"
    "1 \<le> destinationPort ep" "destinationPort ep \<le> 65535" "28 + length payload \<le> 65535"
    "ic = internetChecksum (ip_header (28 + length payload) (identification mod 65536) (nat (ttl ep)) src dst 0) 0"
    "uc \<le> 0xFFFF" "uc \<noteq> 0"
    "uc = internetChecksum (udp_datagram (nat (sourcePort ep)) (nat (destinationPort ep)) payload 0)
        (sum16 src + sum16 dst + 17 + (8 + length payload))
      \<or> internetChecksum (udp_datagram (nat (sourcePort ep)) (nat (destinationPort ep)) payload 0)
        (sum16 src + sum16 dst + 17 + (8 + length payload)) = 0 \<and> uc = 0xFFFF"
    "packet = dmac @ smac @ be16 0x0800 @ ip_header (28 + length payload) (identification mod 65536) (nat (ttl ep)) src dst ic
        @ udp_datagram (nat (sourcePort ep)) (nat (destinationPort ep)) payload uc"
proof -
  let ?c = "\<lambda>src dst. internetChecksum (udp_datagram (nat (sourcePort ep)) (nat (destinationPort ep)) payload 0)
        (sum16 src + sum16 dst + 17 + (8 + length payload))"
  from assms obtain smac dmac src dst where a:
    "mac_of (sourceMac ep) ''ethernet.sourceMac'' = Inr smac"
    "mac_of (destinationMac ep) ''ethernet.destinationMac'' = Inr dmac"
    "ipv4_of (sourceAddress ep) ''ipv4.sourceAddress'' = Inr src"
    "ipv4_of (destinationAddress ep) ''ipv4.destinationAddress'' = Inr dst"
    unfolding encodeEthernetIpv4Udp_def by (blast elim: res_bindE)
  have b: "1 \<le> ttl ep" "ttl ep \<le> 255" "1 \<le> sourcePort ep" "sourcePort ep \<le> 65535"
    "1 \<le> destinationPort ep" "destinationPort ep \<le> 65535" "28 + length payload \<le> 65535"
    and p: "packet = dmac @ smac @ be16 0x0800 @ ip_header (28 + length payload) (identification mod 65536)
        (nat (ttl ep)) src dst
        (internetChecksum (ip_header (28 + length payload) (identification mod 65536) (nat (ttl ep)) src dst 0) 0)
      @ udp_datagram (nat (sourcePort ep)) (nat (destinationPort ep)) payload
        (if ?c src dst = 0 then 0xFFFF else ?c src dst)"
    using assms by (auto simp: encodeEthernetIpv4Udp_def a Let_def add.commute split: if_splits)
  show thesis
    by (rule that [OF a b refl _ _ _ p]) (auto simp: internetChecksum_le)
qed

text \<open>Both checksums of an encoded frame, as the receiver checks them.\<close>

lemma ip_checksum_verifies:
  assumes "length src = 4" "length dst = 4" and "ic = internetChecksum (ip_header n i t src dst 0) 0"
  shows "checksum_verifies (ip_header n i t src dst ic)"
proof -
  let ?ip = "ip_header n i t src dst"
  have small: "sum16 (?ip c) < 2 ^ 31" for c
    using sum16_bound [of "?ip c"] by (simp add: length_ip_header assms(1,2))
  have "internetChecksum (?ip ic) 0 = 0"
  proof (rule checksum_stored [where zeroed = "?ip 0" and c = ic])
    show "sum16 (?ip ic) = sum16 (?ip 0) + ic"
      using internetChecksum_le [of "?ip 0" 0] assms(3) by (intro sum16_ip_header) simp
    show "0 < 0 + sum16 (?ip 0)" by (simp add: ip_header_def)
    show "0 + sum16 (?ip 0) < 2 ^ 31" using small by simp
  qed (simp add: assms(3))
  then have "checksum_verifies ([] @ ?ip ic)"
    by (rule checksum_zero_verifies [where b = "0x45"]) (use small [of ic] in \<open>simp_all add: ip_header_def\<close>)
  then show ?thesis by simp
qed

lemma udp_checksum_verifies:
  assumes "length src = 4" "length dst = 4" and n: "28 + length payload \<le> 65535" and uc: "uc \<le> 0xFFFF"
    "uc = internetChecksum (udp_datagram s d payload 0) (sum16 src + sum16 dst + 17 + (8 + length payload))
      \<or> internetChecksum (udp_datagram s d payload 0) (sum16 src + sum16 dst + 17 + (8 + length payload)) = 0 \<and> uc = 0xFFFF"
  shows "checksum_verifies ((src @ dst @ [0, 17] @ be16 (8 + length payload)) @ udp_datagram s d payload uc)"
proof -
  let ?udp = "udp_datagram s d payload" and ?ps = "sum16 src + sum16 dst + 17 + (8 + length payload)"
  have "2 * sum16 src \<le> 65535 * 5" "2 * sum16 dst \<le> 65535 * 5"
    using sum16_bound [of src] sum16_bound [of dst] by (simp_all add: assms(1,2))
  then have small: "?ps + sum16 (?udp c) < 2 ^ 31" for c
    using n sum16_bound [of "?udp c", unfolded length_udp] by simp
  have "internetChecksum (?udp uc) ?ps = 0"
  proof (rule checksum_stored [OF sum16_udp _ _ uc(2)])
    show "uc < 65536" using uc(1) by simp
    show "?ps + sum16 (?udp 0) < 2 ^ 31" by (rule small)
  qed simp
  moreover have "sum16 (src @ dst @ [0, 17] @ be16 (8 + length payload)) = ?ps"
    using n by (simp add: sum16_append assms(1,2) be16_def)
  ultimately show ?thesis
    by (rule checksum_zero_verifies [where b = 17]) (use small [of uc] in \<open>simp_all add: assms(1,2)\<close>)
qed

text \<open>
  C12. What \<open>encodeEthernetIpv4Udp\<close> writes is a frame that a receiver accepts and reads back: the
  ether type, version and protocol are IPv4/UDP, both lengths match, both checksums verify by the rule
  of RFC 1071 (also over a payload of odd length), and the addresses, ports, identification, time to
  live and payload are those given.
\<close>

theorem frame_reads_back:
  assumes enc: "encodeEthernetIpv4Udp ep identification payload = Inr packet"
  shows "\<exists>smac dmac src dst. mac_of (sourceMac ep) ''ethernet.sourceMac'' = Inr smac
    \<and> mac_of (destinationMac ep) ''ethernet.destinationMac'' = Inr dmac
    \<and> ipv4_of (sourceAddress ep) ''ipv4.sourceAddress'' = Inr src
    \<and> ipv4_of (destinationAddress ep) ''ipv4.destinationAddress'' = Inr dst
    \<and> read_frame packet = Some \<lparr>v_destinationMac = dmac, v_sourceMac = smac,
        v_identification = identification mod 65536, v_ttl = nat (ttl ep), v_source = src,
        v_destination = dst, v_sourcePort = nat (sourcePort ep),
        v_destinationPort = nat (destinationPort ep), v_payload = payload\<rparr>"
  using enc
proof (rule encode_shape)
  fix smac dmac src dst ic uc
  let ?n = "28 + length payload" and ?id = "identification mod 65536" and ?t = "nat (ttl ep)"
  let ?s = "nat (sourcePort ep)" and ?d = "nat (destinationPort ep)"
  let ?ip = "ip_header ?n ?id ?t src dst" and ?udp = "udp_datagram ?s ?d payload"
  let ?ps = "sum16 src + sum16 dst + 17 + (8 + length payload)"
  assume a: "mac_of (sourceMac ep) ''ethernet.sourceMac'' = Inr smac"
    "mac_of (destinationMac ep) ''ethernet.destinationMac'' = Inr dmac"
    "ipv4_of (sourceAddress ep) ''ipv4.sourceAddress'' = Inr src"
    "ipv4_of (destinationAddress ep) ''ipv4.destinationAddress'' = Inr dst"
  assume ranges: "1 \<le> ttl ep" "ttl ep \<le> 255" "1 \<le> sourcePort ep" "sourcePort ep \<le> 65535"
    "1 \<le> destinationPort ep" "destinationPort ep \<le> 65535" "?n \<le> 65535"
  assume ic: "ic = internetChecksum (?ip 0) 0" and uc0: "uc \<noteq> 0" and uc: "uc \<le> 0xFFFF"
    "uc = internetChecksum (?udp 0) ?ps \<or> internetChecksum (?udp 0) ?ps = 0 \<and> uc = 0xFFFF"
  assume packet: "packet = dmac @ smac @ be16 0x0800 @ ?ip ic @ ?udp uc"
  have len: "length smac = 6" "length dmac = 6" "length src = 4" "length dst = 4"
    using a by (simp_all add: mac_of_length ipv4_of_length)
  have hdr: "slice 14 20 packet = ?ip ic" and udp: "drop 34 packet = ?udp uc"
    by (simp_all add: packet slice_def len length_ip_header)
  have f: "slice 0 6 packet = dmac" "slice 6 6 packet = smac" "slice 12 2 packet = be16 0x0800"
    by (simp_all add: packet slice_def len)
  have g: "slice 12 4 (?ip ic) = src" "slice 16 4 (?ip ic) = dst" "slice 0 1 (?ip ic) = [0x45]"
    "slice 9 1 (?ip ic) = [17]" "slice 2 2 (?ip ic) = be16 ?n" "slice 4 2 (?ip ic) = be16 ?id"
    "slice 8 1 (?ip ic) = [word_of_nat ?t]"
    by (simp_all add: ip_header_def slice_def len be16_def)
  have h: "slice 0 2 (?udp uc) = be16 ?s" "slice 2 2 (?udp uc) = be16 ?d" "slice 6 2 (?udp uc) = be16 uc"
    "slice 4 2 (?udp uc) = be16 (8 + length payload)" "drop 8 (?udp uc) = payload"
    by (simp_all add: udp_datagram_def slice_def be16_def)
  have n: "length packet = 14 + ?n" by (simp add: packet len length_ip_header length_udp)
  have nums: "be_number (be16 ?n) = ?n" "be_number (be16 ?id) = ?id" "be_number (be16 ?s) = ?s"
    "be_number (be16 ?d) = ?d" "be_number (be16 (8 + length payload)) = 8 + length payload" "be_number (be16 uc) = uc"
    using ranges uc(1) by (auto intro!: be_number_be16)
  have "?t < 256" using ranges by linarith
  then have tt: "be_number [word_of_nat ?t] = ?t" by (simp only: be_number_def foldl_Cons foldl_Nil unat_byte_mod mod_less)
  have eth: "be16 0x0800 = [8, 0]" by (simp add: be16_def)
  have sums: "checksum_verifies (?ip ic)" "checksum_verifies ((src @ dst @ [0, 17] @ be16 (8 + length payload)) @ ?udp uc)"
    by (rule ip_checksum_verifies [OF len(3,4) ic]) (rule udp_checksum_verifies [OF len(3,4) ranges(7) uc])
  with uc0 have "read_frame packet = Some \<lparr>v_destinationMac = dmac, v_sourceMac = smac, v_identification = ?id, v_ttl = ?t,
      v_source = src, v_destination = dst, v_sourcePort = ?s, v_destinationPort = ?d, v_payload = payload\<rparr>"
    unfolding read_frame_def Let_def hdr udp f g h n nums eth length_udp tt by simp
  with a show "\<exists>smac dmac src dst. mac_of (sourceMac ep) ''ethernet.sourceMac'' = Inr smac
    \<and> mac_of (destinationMac ep) ''ethernet.destinationMac'' = Inr dmac
    \<and> ipv4_of (sourceAddress ep) ''ipv4.sourceAddress'' = Inr src
    \<and> ipv4_of (destinationAddress ep) ''ipv4.destinationAddress'' = Inr dst
    \<and> read_frame packet = Some \<lparr>v_destinationMac = dmac, v_sourceMac = smac, v_identification = ?id, v_ttl = ?t, v_source = src,
        v_destination = dst, v_sourcePort = ?s, v_destinationPort = ?d, v_payload = payload\<rparr>" by blast
qed

text \<open>
  A capture record reads back: it gives the frame, its length twice, and the timestamp split
  into seconds and microseconds that add up to it again.
\<close>

theorem record_reads_back:
  assumes enc: "encodePcapRecord timestampUs identification ep payload = Inr r"
  shows "\<exists>packet s us. encodeEthernetIpv4Udp ep identification payload = Inr packet
    \<and> read_record r = Some (s, us, packet) \<and> int (s * 1000000 + us) = timestampUs \<and> us < 1000000"
proof -
  obtain packet where p: "encodeEthernetIpv4Udp ep identification payload = Inr packet"
    using enc unfolding encodePcapRecord_def by (blast elim: res_bindE)
  let ?s = "nat timestampUs div 1000000" and ?us = "nat timestampUs mod 1000000"
  have t: "0 \<le> timestampUs" and s: "?s \<le> 0xFFFFFFFF"
    and r: "r = le32 ?s @ le32 ?us @ le32 (length packet) @ le32 (length packet) @ packet"
    using enc by (auto simp: encodePcapRecord_def p Let_def split: if_splits)
  have len: "length packet < 2 ^ 32"
    using p by (rule encode_shape)
      (simp add: mac_of_length ipv4_of_length length_ip_header length_udp)
  have f: "from_le32 (le32 ?s) = ?s" "from_le32 (le32 ?us) = ?us"
    "from_le32 (le32 (length packet)) = length packet"
    using s len by (auto intro!: from_le32_le32)
  have "read_record r = Some (?s, ?us, packet)"
    unfolding read_record_def by (simp add: r slice_def f)
  moreover have "int (?s * 1000000 + ?us) = timestampUs" using t by simp
  ultimately show ?thesis using p by (intro exI [of _ packet] exI [of _ ?s] exI [of _ ?us]) simp
qed

definition demo_endpoint :: endpoint where
  "demo_endpoint = \<lparr>sourceMac = Bytes [2, 0, 0, 0, 0, 1], destinationMac = Bytes [2, 0, 0, 0, 0, 2],
    sourceAddress = Bytes [192, 168, 1, 10], destinationAddress = Bytes [192, 168, 1, 20],
    ttl = 64, sourcePort = 5000, destinationPort = 2368\<rparr>"

lemmas encode_eval = encodeEthernetIpv4Udp_def demo_endpoint_def mac_of_def ipv4_of_def requireBytes_def Let_def

theorem frame_reads_back_witness:
  "\<exists>packet. encodeEthernetIpv4Udp demo_endpoint 7 [1, 2, 3] = Inr packet
    \<and> map_option v_payload (read_frame packet) = Some [1, 2, 3]
    \<and> map_option v_destinationPort (read_frame packet) = Some 2368"
proof -
  obtain packet where "encodeEthernetIpv4Udp demo_endpoint 7 [1, 2, 3] = Inr packet"
    by (simp add: encode_eval)
  with frame_reads_back [OF this] show ?thesis by (auto simp: demo_endpoint_def)
qed

theorem record_reads_back_witness:
  "\<exists>r packet. encodePcapRecord 1500000 7 demo_endpoint [1, 2, 3] = Inr r
    \<and> encodeEthernetIpv4Udp demo_endpoint 7 [1, 2, 3] = Inr packet
    \<and> (\<exists>s us. read_record r = Some (s, us, packet) \<and> int (s * 1000000 + us) = 1500000)"
proof -
  obtain r where "encodePcapRecord 1500000 7 demo_endpoint [1, 2, 3] = Inr r"
    by (simp add: encodePcapRecord_def encode_eval)
  with record_reads_back [OF this] show ?thesis by blast
qed

section \<open>The order of packets\<close>

record host_packet =
  sensorId :: js_string
  productId :: js_string
  streamId :: js_string
  sampleIndex :: int
  packetIndex :: int
  logical_ns :: int
  p_payload :: "byte list"
  artifactId :: string
  p_endpoint :: endpoint

definition logicalEgressTimeNs :: "int \<Rightarrow> int \<Rightarrow> int \<Rightarrow> int" where
  "logicalEgressTimeNs actualDeliveryStep stepNs offsetNs = actualDeliveryStep * stepNs + offsetNs"

definition cmp_time :: "int \<Rightarrow> int \<Rightarrow> int" where
  "cmp_time l r = (if l \<noteq> r then (if l < r then -1 else 1) else 0)"

definition compareHostPackets :: "host_packet \<Rightarrow> host_packet \<Rightarrow> int" where
  "compareHostPackets l r =
    cmp_or (cmp_time (logical_ns l) (logical_ns r))
      (cmp_or (compareUtf8 (sensorId l) (sensorId r))
        (cmp_or (compareUtf8 (productId l) (productId r))
          (cmp_or (compareUtf8 (streamId l) (streamId r))
            (cmp_or (cmp_int (sampleIndex l) (sampleIndex r)) (cmp_int (packetIndex l) (packetIndex r))))))"

definition sortHostPackets :: "host_packet list \<Rightarrow> host_packet list" where
  "sortHostPackets packets = sort_by compareHostPackets packets"

lemma cmp_time_laws: "comparator_laws cmp_time"
  by unfold_locales (auto simp: cmp_time_def split: if_splits)

lemma compareHostPackets_laws: "comparator_laws compareHostPackets"
  unfolding compareHostPackets_def
  by (intro comparator_laws_or comparator_laws_pull [OF cmp_time_laws, of logical_ns]
    comparator_laws_pull [OF utf8_order.comparator_laws_axioms, of sensorId]
    comparator_laws_pull [OF utf8_order.comparator_laws_axioms, of productId]
    comparator_laws_pull [OF utf8_order.comparator_laws_axioms, of streamId]
    comparator_laws_int)

interpretation packet_order: comparator_laws compareHostPackets
  by (rule compareHostPackets_laws)

end
