(* ===== verification/PacketHub.thy ===== *)
theory PacketHub
  imports PcapEncoder "HOL-Library.Sublist"
begin

text \<open>
  \<open>server/sensor-transports/PcapWriter.js\<close> and \<open>HostPacketTransportHub.js\<close> with capture (PCAP)
  bindings: packets of a delivery step are ordered, encoded and queued per artifact, later written
  to the artifact's file. What the file system does is an argument of each operation that uses it: whether a
  call succeeds, and for every \<open>handle.write\<close> whether it fails and how many bytes of its buffer it stores,
  which may be fewer than all (\<open>bytesWritten\<close>) without the promise being rejected. The UDP delegate is left out:
  the hub is modelled with \<open>udpDelegate = null\<close>.
\<close>

datatype hub_error = ArtifactFailure | Aborted | AlreadyFinalized | ResourceLimit nat nat
  | UnsupportedCapability | NotAttached | NotConfigured | EncodeFailed pcap_error | ScriptError

section \<open>PcapWriter\<close>

record pcap_writer =
  pw_maxQueueBytes :: nat
  pw_created :: bool \<comment> \<open>the file exists, so that the flag \<open>wx\<close> opens it no more\<close>
  pw_handle :: bool
  pw_queue :: "byte list list"
  pw_queuedBytes :: nat
  writtenBytes :: nat
  pw_failed :: "hub_error option"
  pw_finalized :: bool
  pw_aborted :: bool
  pw_digest :: "byte list" \<comment> \<open>what the hash has been fed\<close>
  pw_sha256 :: "byte list option" \<comment> \<open>the input of the digest that was taken\<close>
  pw_file :: "byte list" \<comment> \<open>the bytes written through the handle\<close>

definition new_PcapWriter :: "nat \<Rightarrow> pcap_writer" where
  "new_PcapWriter limit =
    \<lparr>pw_maxQueueBytes = limit, pw_created = False, pw_handle = False, pw_queue = [], pw_queuedBytes = 0, writtenBytes = 0,
     pw_failed = None, pw_finalized = False, pw_aborted = False, pw_digest = [], pw_sha256 = None, pw_file = []\<rparr>"

definition pw_outputBytes :: "pcap_writer \<Rightarrow> nat" where
  "pw_outputBytes w = writtenBytes w + pw_queuedBytes w"

definition pw_fail :: "hub_error \<Rightarrow> pcap_writer \<Rightarrow> hub_error option \<times> pcap_writer" where
  "pw_fail e w = (Some e, w\<lparr>pw_failed := Some e\<rparr>)"

definition pw_guard :: "pcap_writer \<Rightarrow> hub_error option" where
  "pw_guard w =
    (case pw_failed w of Some e \<Rightarrow> Some e
     | None \<Rightarrow> if pw_aborted w then Some Aborted else if pw_finalized w then Some AlreadyFinalized else None)"

text \<open>
  What one \<open>handle.write(buffer)\<close> does: stores the whole buffer, resolves having stored only its first bytes, or is
  rejected, with some of its bytes stored or none.
\<close>

datatype write_outcome = Whole | Short nat | Rejected nat

definition stored :: "write_outcome \<Rightarrow> byte list \<Rightarrow> byte list" where
  "stored out bs = (case out of Whole \<Rightarrow> bs | Short n \<Rightarrow> take n bs | Rejected n \<Rightarrow> take n bs)"

text \<open>
  \<open>await handle.write(bs)\<close> and, when it resolves, the two lines after it: the number of bytes that it reports is not
  looked at. The flag tells whether it resolved.
\<close>

definition pw_write :: "write_outcome \<Rightarrow> byte list \<Rightarrow> pcap_writer \<Rightarrow> bool \<times> pcap_writer" where
  "pw_write out bs w =
    (let w1 = w\<lparr>pw_file := pw_file w @ stored out bs\<rparr> in
     case out of
       Rejected n \<Rightarrow> (False, w1)
     | _ \<Rightarrow> (True, w1\<lparr>pw_digest := pw_digest w1 @ bs, writtenBytes := writtenBytes w1 + length bs\<rparr>))"

text \<open>\<^const>\<open>None\<close>: the directory or the file could not be made. A file that exists is never opened again.\<close>

definition pw_open :: "write_outcome option \<Rightarrow> pcap_writer \<Rightarrow> hub_error option \<times> pcap_writer" where
  "pw_open fs w =
    (case pw_guard w of Some e \<Rightarrow> (Some e, w)
     | None \<Rightarrow> (case fs of
         None \<Rightarrow> pw_fail ArtifactFailure w
       | Some out \<Rightarrow>
           if pw_created w then pw_fail ArtifactFailure w
           else (case pw_write out encodePcapGlobalHeader (w\<lparr>pw_created := True, pw_handle := True\<rparr>) of
               (True, w1) \<Rightarrow> (None, w1)
             | (False, w1) \<Rightarrow> pw_fail ArtifactFailure w1)))"

definition pw_enqueue :: "byte list \<Rightarrow> pcap_writer \<Rightarrow> hub_error option \<times> pcap_writer" where
  "pw_enqueue record w =
    (case pw_guard w of Some e \<Rightarrow> (Some e, w)
     | None \<Rightarrow>
         if \<not> pw_handle w then (Some ArtifactFailure, w)
         else if pw_maxQueueBytes w > 0 \<and> pw_queuedBytes w + length record > pw_maxQueueBytes w
         then pw_fail (ResourceLimit (pw_queuedBytes w + length record) (pw_maxQueueBytes w)) w
         else (None, w\<lparr>pw_queue := pw_queue w @ [record], pw_queuedBytes := pw_queuedBytes w + length record\<rparr>))"

text \<open>The loop of \<open>drain\<close>, with the outcomes of its writes; a write without one stores everything.\<close>

fun drain_loop :: "write_outcome list \<Rightarrow> byte list list \<Rightarrow> pcap_writer \<Rightarrow> bool \<times> pcap_writer" where
  "drain_loop outs [] w = (True, w)"
| "drain_loop outs (r # rs) w =
    (case pw_write (case outs of [] \<Rightarrow> Whole | out # _ \<Rightarrow> out) r w of
       (False, w1) \<Rightarrow> (False, w1)
     | (True, w1) \<Rightarrow> drain_loop (tl outs) rs w1)"

definition pw_drain :: "write_outcome list \<Rightarrow> pcap_writer \<Rightarrow> hub_error option \<times> pcap_writer" where
  "pw_drain outs w =
    (case pw_failed w of Some e \<Rightarrow> (Some e, w)
     | None \<Rightarrow>
         if pw_aborted w \<or> pw_finalized w \<or> \<not> pw_handle w \<or> pw_queue w = [] then (None, w)
         else (case drain_loop outs (pw_queue w) (w\<lparr>pw_queue := [], pw_queuedBytes := 0\<rparr>) of
             (True, w1) \<Rightarrow> (None, w1)
           | (False, w1) \<Rightarrow> pw_fail ArtifactFailure w1))"

definition pw_finalize :: "write_outcome list \<Rightarrow> bool \<Rightarrow> pcap_writer \<Rightarrow> hub_error option \<times> pcap_writer" where
  "pw_finalize outs close_ok w =
    (case pw_failed w of Some e \<Rightarrow> (Some e, w)
     | None \<Rightarrow>
         if pw_aborted w then (Some Aborted, w)
         else if pw_finalized w then (None, w)
         else (case pw_drain outs w of
             (Some e, w1) \<Rightarrow> (Some e, w1)
           | (None, w1) \<Rightarrow>
               if \<not> pw_handle w1 \<or> \<not> close_ok then pw_fail ArtifactFailure w1
               else (None, w1\<lparr>pw_handle := False, pw_finalized := True, pw_sha256 := Some (pw_digest w1)\<rparr>)))"

definition pw_abort :: "pcap_writer \<Rightarrow> pcap_writer" where
  "pw_abort w = w\<lparr>pw_aborted := True, pw_handle := False, pw_queue := [], pw_queuedBytes := 0\<rparr>"

datatype writer_op = WOpen "write_outcome option" | WEnqueue "byte list" | WDrain "write_outcome list"
  | WFinalize "write_outcome list" bool | WAbort

definition pw_exec :: "pcap_writer \<Rightarrow> writer_op \<Rightarrow> pcap_writer" where
  "pw_exec w op =
    (case op of WOpen out \<Rightarrow> snd (pw_open out w) | WEnqueue r \<Rightarrow> snd (pw_enqueue r w)
     | WDrain outs \<Rightarrow> snd (pw_drain outs w) | WFinalize outs ok \<Rightarrow> snd (pw_finalize outs ok w) | WAbort \<Rightarrow> pw_abort w)"

text \<open>The records that were taken along a run, and whether a write of an operation stores less than it reports done.\<close>

definition taken :: "pcap_writer \<Rightarrow> writer_op \<Rightarrow> byte list list" where
  "taken w op = (case op of WEnqueue r \<Rightarrow> (if fst (pw_enqueue r w) = None then [r] else []) | _ \<Rightarrow> [])"

fun accepted :: "pcap_writer \<Rightarrow> writer_op list \<Rightarrow> byte list list" where
  "accepted w [] = []"
| "accepted w (op # ops) = taken w op @ accepted (pw_exec w op) ops"

definition is_short :: "write_outcome \<Rightarrow> bool" where
  "is_short out = (case out of Short n \<Rightarrow> True | _ \<Rightarrow> False)"

definition short_op :: "writer_op \<Rightarrow> bool" where
  "short_op op = (case op of WOpen (Some out) \<Rightarrow> is_short out | WDrain outs \<Rightarrow> list_ex is_short outs
     | WFinalize outs ok \<Rightarrow> list_ex is_short outs | _ \<Rightarrow> False)"

lemma pw_guard_None: "pw_guard w = None \<longleftrightarrow> pw_failed w = None \<and> \<not> pw_aborted w \<and> \<not> pw_finalized w"
  by (auto simp: pw_guard_def split: option.splits)

lemma pw_write_fields:
  assumes "pw_write out bs w = (ok, w1)"
  shows "w1 = w\<lparr>pw_file := pw_file w @ stored out bs, pw_digest := (if ok then pw_digest w @ bs else pw_digest w),
      writtenBytes := (if ok then writtenBytes w + length bs else writtenBytes w)\<rparr>"
    and "ok \<longleftrightarrow> (\<forall>n. out \<noteq> Rejected n)"
  using assms by (auto simp: pw_write_def Let_def split: write_outcome.splits)

lemma drain_loop_form:
  "\<exists>f d n. drain_loop outs rs w
      = (fst (drain_loop outs rs w), w\<lparr>pw_file := f, pw_digest := d, writtenBytes := n\<rparr>)
    \<and> n + length (pw_digest w) = writtenBytes w + length d \<and> (fst (drain_loop outs rs w) \<longrightarrow> d = pw_digest w @ concat rs)"
proof (induction outs rs w rule: drain_loop.induct)
  case (1 outs w)
  have "w = w\<lparr>pw_file := pw_file w, pw_digest := pw_digest w, writtenBytes := writtenBytes w\<rparr>" by simp
  then show ?case by (metis append_Nil2 concat.simps(1) drain_loop.simps(1) fst_conv)
next
  case (2 outs r rs w)
  obtain ok w1 where wr: "pw_write (case outs of [] \<Rightarrow> Whole | out # _ \<Rightarrow> out) r w = (ok, w1)" by fastforce
  note w1 = pw_write_fields(1) [OF wr]
  show ?case
  proof (cases ok)
    case False
    have "w1 = w\<lparr>pw_file := pw_file w1, pw_digest := pw_digest w, writtenBytes := writtenBytes w\<rparr>" by (simp add: w1 False)
    moreover have "drain_loop outs (r # rs) w = (False, w1)" using wr False by simp
    ultimately show ?thesis by (metis fst_conv)
  next
    case True
    with wr have wr': "pw_write (case outs of [] \<Rightarrow> Whole | out # _ \<Rightarrow> out) r w = (True, w1)" by simp
    then have step: "drain_loop outs (r # rs) w = drain_loop (tl outs) rs w1" by simp
    obtain f d n where rest: "drain_loop (tl outs) rs w1
        = (fst (drain_loop (tl outs) rs w1), w1\<lparr>pw_file := f, pw_digest := d, writtenBytes := n\<rparr>)"
      "n + length (pw_digest w1) = writtenBytes w1 + length d"
      "fst (drain_loop (tl outs) rs w1) \<longrightarrow> d = pw_digest w1 @ concat rs"
      using 2 [OF wr' [symmetric] refl] by blast
    have "w1\<lparr>pw_file := f, pw_digest := d, writtenBytes := n\<rparr> = w\<lparr>pw_file := f, pw_digest := d, writtenBytes := n\<rparr>"
      by (simp add: w1)
    with rest True show ?thesis
      unfolding step by (intro exI [of _ f] exI [of _ d] exI [of _ n]) (simp add: w1)
  qed
qed

lemma pw_drain_cases:
  obtains (idle) "pw_drain outs w = (pw_failed w, w)"
      and "pw_failed w = None \<Longrightarrow> pw_aborted w \<or> pw_finalized w \<or> \<not> pw_handle w \<or> pw_queue w = []"
  | (ran) ok f d n w1 where "pw_failed w = None" "\<not> pw_aborted w" "\<not> pw_finalized w" "pw_handle w"
      and "w1 = w\<lparr>pw_queue := [], pw_queuedBytes := 0, pw_file := f, pw_digest := d, writtenBytes := n\<rparr>"
      and "drain_loop outs (pw_queue w) (w\<lparr>pw_queue := [], pw_queuedBytes := 0\<rparr>) = (ok, w1)"
      and "n + length (pw_digest w) = writtenBytes w + length d" and "ok \<Longrightarrow> d = pw_digest w @ concat (pw_queue w)"
      and "pw_drain outs w = (if ok then (None, w1) else (Some ArtifactFailure, w1\<lparr>pw_failed := Some ArtifactFailure\<rparr>))"
proof (cases "pw_failed w = None \<and> \<not> pw_aborted w \<and> \<not> pw_finalized w \<and> pw_handle w \<and> pw_queue w \<noteq> []")
  case False
  then show thesis by (intro idle) (auto simp: pw_drain_def split: option.splits)
next
  case True
  let ?w = "w\<lparr>pw_queue := [], pw_queuedBytes := 0\<rparr>"
  obtain ok f d n where "drain_loop outs (pw_queue w) ?w = (ok, ?w\<lparr>pw_file := f, pw_digest := d, writtenBytes := n\<rparr>)"
    "n + length (pw_digest ?w) = writtenBytes ?w + length d" "ok \<longrightarrow> d = pw_digest ?w @ concat (pw_queue w)"
    using drain_loop_form [of outs "pw_queue w" ?w] by blast
  then have form: "drain_loop outs (pw_queue w) ?w = (ok, ?w\<lparr>pw_file := f, pw_digest := d, writtenBytes := n\<rparr>)"
    "n + length (pw_digest w) = writtenBytes w + length d" "ok \<Longrightarrow> d = pw_digest w @ concat (pw_queue w)"
    by simp_all
  show thesis
    by (rule ran [OF _ _ _ _ refl form]) (use True form(1) in \<open>simp_all add: pw_drain_def pw_fail_def\<close>)
qed

lemma pw_open_cases:
  obtains (refused) "snd (pw_open fs w) = w"
  | (missing) "pw_guard w = None" and "snd (pw_open fs w) = w\<lparr>pw_failed := Some ArtifactFailure\<rparr>"
  | (opened) out where "fs = Some out" "pw_guard w = None" "\<not> pw_created w" "\<And>n. out \<noteq> Rejected n"
      and "snd (pw_open fs w) = w\<lparr>pw_created := True, pw_handle := True, pw_file := pw_file w @ stored out encodePcapGlobalHeader,
        pw_digest := pw_digest w @ encodePcapGlobalHeader, writtenBytes := writtenBytes w + length encodePcapGlobalHeader\<rparr>"
  | (torn) out where "pw_guard w = None" and "snd (pw_open fs w) = w\<lparr>pw_created := True, pw_handle := True,
        pw_file := pw_file w @ stored out encodePcapGlobalHeader, pw_failed := Some ArtifactFailure\<rparr>"
proof (cases "\<exists>out. fs = Some out \<and> pw_guard w = None \<and> \<not> pw_created w")
  case True
  then obtain out where out: "fs = Some out" "pw_guard w = None" "\<not> pw_created w" by blast
  obtain ok w1 where wr: "pw_write out encodePcapGlobalHeader (w\<lparr>pw_created := True, pw_handle := True\<rparr>) = (ok, w1)"
    by fastforce
  note w1 = pw_write_fields(1) [OF wr]
  show thesis
  proof (cases ok)
    case True
    with out wr w1 pw_write_fields(2) [OF wr] show thesis by (intro opened [OF out]) (simp_all add: pw_open_def)
  next
    case False
    with out wr w1 show thesis by (intro torn [OF out(2)]) (simp add: pw_open_def pw_fail_def)
  qed
next
  case False
  show thesis
  proof (cases "pw_guard w = None")
    case True
    with False show thesis by (intro missing) (auto simp: pw_open_def pw_fail_def split: option.splits)
  next
    case no: False
    then show thesis by (intro refused) (auto simp: pw_open_def)
  qed
qed

lemma pw_finalize_cases:
  obtains (refused) "snd (pw_finalize outs ok w) = w"
  | (broken) "pw_failed w = None" "\<not> pw_finalized w"
      and "snd (pw_finalize outs ok w) = snd (pw_drain outs w)\<lparr>pw_failed := Some ArtifactFailure\<rparr>"
  | (finalized) w1 where "pw_failed w = None" "\<not> pw_aborted w" "\<not> pw_finalized w"
      and "pw_drain outs w = (None, w1)" "pw_handle w1"
      and "snd (pw_finalize outs ok w) = w1\<lparr>pw_handle := False, pw_finalized := True, pw_sha256 := Some (pw_digest w1)\<rparr>"
proof (cases "pw_failed w = None \<and> \<not> pw_aborted w \<and> \<not> pw_finalized w")
  case False
  then show thesis by (intro refused) (auto simp: pw_finalize_def split: option.splits)
next
  case True
  obtain e w1 where d: "pw_drain outs w = (e, w1)" by fastforce
  show thesis
  proof (cases "e = None \<and> pw_handle w1 \<and> ok")
    case go: True
    with True d show thesis by (intro finalized [of w1]) (simp_all add: pw_finalize_def)
  next
    case stop: False
    have failed: "w1 = w1\<lparr>pw_failed := Some ArtifactFailure\<rparr>" if "e \<noteq> None"
      using that d True by (cases rule: pw_drain_cases [of outs w]) (auto split: if_splits)
    show thesis
    proof (rule broken)
      show "snd (pw_finalize outs ok w) = snd (pw_drain outs w)\<lparr>pw_failed := Some ArtifactFailure\<rparr>"
      proof (cases e)
        case None
        then show ?thesis using True stop d by (simp add: pw_finalize_def pw_fail_def)
      next
        case (Some x)
        then show ?thesis using True d failed by (simp add: pw_finalize_def)
      qed
    qed (use True in simp_all)
  qed
qed

text \<open>
  How the file lies to what the hash has seen, as a relation that storing a buffer keeps: with writes that may be short
  the file is a subsequence, with writes that are all whole it is the same.
\<close>

locale write_relation =
  fixes rel :: "byte list \<Rightarrow> byte list \<Rightarrow> bool" and allowed :: "write_outcome \<Rightarrow> bool"
  assumes rel_Nil: "rel [] []"
    and rel_stored: "rel f d \<Longrightarrow> allowed out \<Longrightarrow> (\<And>n. out \<noteq> Rejected n) \<Longrightarrow> rel (f @ stored out bs) (d @ bs)"
    and allowed_Whole: "allowed Whole"
begin

definition op_allowed :: "writer_op \<Rightarrow> bool" where
  "op_allowed op = (case op of WOpen (Some out) \<Rightarrow> allowed out | WDrain outs \<Rightarrow> list_all allowed outs
     | WFinalize outs ok \<Rightarrow> list_all allowed outs | _ \<Rightarrow> True)"

definition rel_inv :: "pcap_writer \<Rightarrow> bool" where
  "rel_inv w \<longleftrightarrow> (pw_failed w = None \<longrightarrow> rel (pw_file w) (pw_digest w)) \<and> (pw_finalized w \<longrightarrow> pw_failed w = None)"

lemma drain_loop_rel:
  "rel (pw_file w) (pw_digest w) \<Longrightarrow> list_all allowed outs \<Longrightarrow> fst (drain_loop outs rs w)
    \<Longrightarrow> rel (pw_file (snd (drain_loop outs rs w))) (pw_digest (snd (drain_loop outs rs w)))"
proof (induction outs rs w rule: drain_loop.induct)
  case (2 outs r rs w)
  obtain ok w1 where wr: "pw_write (case outs of [] \<Rightarrow> Whole | out # _ \<Rightarrow> out) r w = (ok, w1)" by fastforce
  have ok: ok using 2(4) wr by (cases ok) simp_all
  with wr have wr': "pw_write (case outs of [] \<Rightarrow> Whole | out # _ \<Rightarrow> out) r w = (True, w1)" by simp
  have outs: "allowed (case outs of [] \<Rightarrow> Whole | out # _ \<Rightarrow> out)" "list_all allowed (tl outs)"
    using 2(3) allowed_Whole by (cases outs; simp)+
  have "rel (pw_file w1) (pw_digest w1)"
    using pw_write_fields [OF wr] ok rel_stored [OF 2(2) outs(1), of r] by simp
  then show ?case using 2(1) [OF wr' [symmetric] refl] 2(4) outs(2) wr' by simp
qed simp

lemma drain_rel:
  assumes inv: "rel_inv w" and outs: "list_all allowed outs"
  shows "rel_inv (snd (pw_drain outs w))"
proof (cases rule: pw_drain_cases [of outs w])
  case (ran ok f d n w1)
  let ?w = "w\<lparr>pw_queue := [], pw_queuedBytes := 0\<rparr>"
  have "rel (pw_file w1) (pw_digest w1)" if ok
    using drain_loop_rel [of ?w outs "pw_queue w"] inv outs that ran(1,6) by (simp add: rel_inv_def)
  then show ?thesis using ran by (simp add: rel_inv_def)
qed (use inv in simp)

lemma exec_rel:
  assumes inv: "rel_inv w" and "op_allowed op"
  shows "rel_inv (pw_exec w op)"
proof (cases op)
  case (WOpen fs)
  have allow: "fs = Some out \<Longrightarrow> allowed out" for out using assms(2) WOpen by (simp add: op_allowed_def)
  show ?thesis
  proof (cases rule: pw_open_cases [of fs w])
    case (opened out)
    have "rel (pw_file w @ stored out encodePcapGlobalHeader) (pw_digest w @ encodePcapGlobalHeader)"
      by (rule rel_stored) (use inv opened allow in \<open>auto simp: rel_inv_def pw_guard_None\<close>)
    then show ?thesis using inv opened by (simp add: WOpen pw_exec_def rel_inv_def)
  qed (use inv in \<open>auto simp: WOpen pw_exec_def rel_inv_def pw_guard_None\<close>)
next
  case (WFinalize outs ok)
  have d: "rel_inv (snd (pw_drain outs w))" using assms WFinalize by (intro drain_rel) (simp_all add: op_allowed_def)
  show ?thesis
  proof (cases rule: pw_finalize_cases [of outs ok w])
    case broken
    have "\<not> pw_finalized (snd (pw_drain outs w))" using broken(2) by (cases rule: pw_drain_cases [of outs w]) simp_all
    then show ?thesis using broken(3) by (simp add: WFinalize pw_exec_def rel_inv_def)
  next
    case (finalized w1)
    have "pw_failed w1 = None" using finalized(1,4) by (cases rule: pw_drain_cases [of outs w]) (auto split: if_splits)
    then show ?thesis using finalized(4,6) d by (simp add: WFinalize pw_exec_def rel_inv_def)
  qed (use inv in \<open>simp add: WFinalize pw_exec_def\<close>)
next
  case (WEnqueue r)
  then show ?thesis using inv
    by (auto simp: pw_exec_def pw_enqueue_def pw_fail_def rel_inv_def pw_guard_None split: option.splits)
next
  case (WDrain outs)
  then show ?thesis using assms by (simp add: pw_exec_def drain_rel op_allowed_def)
next
  case WAbort
  then show ?thesis using inv by (simp add: pw_exec_def pw_abort_def rel_inv_def)
qed

lemma run_rel: "rel_inv w \<Longrightarrow> list_all op_allowed ops \<Longrightarrow> rel_inv (foldl pw_exec w ops)"
  by (induction ops arbitrary: w) (simp_all add: exec_rel)

lemma new_rel: "rel_inv (new_PcapWriter limit)"
  by (simp add: rel_inv_def new_PcapWriter_def rel_Nil)

end

interpretation any_write: write_relation subseq "\<lambda>_. True"
  by unfold_locales (auto simp: stored_def intro!: list_emb_append_mono split: write_outcome.split)

interpretation whole_write: write_relation "(=)" "\<lambda>out. \<not> is_short out"
  by unfold_locales (auto simp: stored_def is_short_def split: write_outcome.splits)

text \<open>
  The writer's invariant, for the records taken so far: the counters are the lengths of what they count, a limit is
  respected, and until something fails the hash has seen, or the queue still holds, the file header and those records.
\<close>

definition pw_inv :: "byte list list \<Rightarrow> pcap_writer \<Rightarrow> bool" where
  "pw_inv acc w \<longleftrightarrow> pw_queuedBytes w = sum_list (map length (pw_queue w)) \<and> writtenBytes w = length (pw_digest w)
    \<and> (0 < pw_maxQueueBytes w \<longrightarrow> pw_queuedBytes w \<le> pw_maxQueueBytes w)
    \<and> (\<not> pw_created w \<longrightarrow> \<not> pw_handle w \<and> pw_queue w = [] \<and> pw_digest w = [] \<and> acc = [])
    \<and> (pw_failed w = None \<and> \<not> pw_aborted w \<and> pw_created w
        \<longrightarrow> pw_digest w @ concat (pw_queue w) = encodePcapGlobalHeader @ concat acc)
    \<and> (pw_finalized w \<longrightarrow> pw_queue w = [] \<and> pw_sha256 w = Some (pw_digest w)
        \<and> pw_digest w = encodePcapGlobalHeader @ concat acc)"

lemma pw_inv_failed: "pw_inv acc w \<Longrightarrow> pw_inv acc (w\<lparr>pw_failed := Some e\<rparr>)"
  by (auto simp: pw_inv_def)

lemma pw_drain_inv:
  assumes "pw_inv acc w"
  shows "pw_inv acc (snd (pw_drain outs w))"
proof (cases rule: pw_drain_cases [of outs w])
  case (ran ok f d n w1)
  have "pw_created w" using assms ran(4) by (auto simp: pw_inv_def)
  with assms ran show ?thesis by (auto simp: pw_inv_def)
qed (use assms in simp)

lemma pw_exec_inv:
  assumes inv: "pw_inv acc w"
  shows "pw_inv (acc @ taken w op) (pw_exec w op)"
proof (cases op)
  case (WOpen fs)
  show ?thesis
    by (cases rule: pw_open_cases [of fs w])
      (use inv in \<open>auto simp: WOpen pw_exec_def taken_def pw_inv_def pw_guard_None\<close>)
next
  case (WEnqueue r)
  show ?thesis
  proof (cases "fst (pw_enqueue r w) = None")
    case True
    then have open_: "pw_guard w = None" "pw_handle w"
      and fits: "0 < pw_maxQueueBytes w \<longrightarrow> pw_queuedBytes w + length r \<le> pw_maxQueueBytes w"
      by (auto simp: pw_enqueue_def pw_fail_def split: option.splits if_splits)
    then have "pw_enqueue r w = (None, w\<lparr>pw_queue := pw_queue w @ [r], pw_queuedBytes := pw_queuedBytes w + length r\<rparr>)"
      by (auto simp: pw_enqueue_def)
    moreover have "pw_created w" using inv open_(2) by (auto simp: pw_inv_def)
    ultimately show ?thesis using inv open_ fits True
      by (auto simp: WEnqueue pw_exec_def taken_def pw_inv_def pw_guard_None)
  next
    case False
    then have "snd (pw_enqueue r w) = w \<or> (\<exists>e. snd (pw_enqueue r w) = w\<lparr>pw_failed := Some e\<rparr>)"
      by (auto simp: pw_enqueue_def pw_fail_def split: option.splits if_splits)
    with inv False show ?thesis by (auto simp: WEnqueue pw_exec_def taken_def pw_inv_failed)
  qed
next
  case (WDrain outs)
  then show ?thesis using pw_drain_inv [OF inv] by (simp add: pw_exec_def taken_def)
next
  case (WFinalize outs ok)
  note drained = pw_drain_inv [OF inv, of outs]
  show ?thesis
  proof (cases rule: pw_finalize_cases [of outs ok w])
    case refused
    then show ?thesis using inv by (simp add: WFinalize pw_exec_def taken_def)
  next
    case broken
    then show ?thesis using drained by (simp add: WFinalize pw_exec_def taken_def pw_inv_failed)
  next
    case (finalized w1)
    have empty: "pw_queue w1 = []" "pw_failed w1 = None" "\<not> pw_aborted w1"
      using finalized(1-5) by (cases rule: pw_drain_cases [of outs w]; auto split: if_splits)+
    have "pw_created w1" using drained finalized(4,5) by (auto simp: pw_inv_def)
    with empty drained finalized(4) show ?thesis by (simp add: WFinalize pw_exec_def taken_def finalized(6) pw_inv_def)
  qed
next
  case WAbort
  then show ?thesis using inv by (auto simp: pw_exec_def taken_def pw_abort_def pw_inv_def)
qed

lemma pw_run_inv: "pw_inv acc w \<Longrightarrow> pw_inv (acc @ accepted w ops) (foldl pw_exec w ops)"
proof (induction ops arbitrary: acc w)
  case (Cons op ops)
  show ?case using Cons.IH [OF pw_exec_inv [OF Cons.prems, of op]] by simp
qed simp

lemma pw_new_inv: "pw_inv [] (new_PcapWriter limit)"
  by (simp add: pw_inv_def new_PcapWriter_def)

lemma pw_exec_limit: "pw_maxQueueBytes (pw_exec w op) = pw_maxQueueBytes w"
proof -
  have d: "pw_maxQueueBytes (snd (pw_drain outs w)) = pw_maxQueueBytes w" for outs
    by (cases rule: pw_drain_cases [of outs w]) simp_all
  show ?thesis
  proof (cases op)
    case (WOpen fs)
    then show ?thesis by (cases rule: pw_open_cases [of fs w]) (simp_all add: pw_exec_def)
  next
    case (WFinalize outs ok)
    then show ?thesis using d [of outs] by (cases rule: pw_finalize_cases [of outs ok w]) (simp_all add: pw_exec_def)
  qed (auto simp: pw_exec_def d pw_enqueue_def pw_abort_def pw_fail_def split: option.splits)
qed

lemma pw_run_limit: "pw_maxQueueBytes (foldl pw_exec w ops) = pw_maxQueueBytes w"
  by (induction ops arbitrary: w) (simp_all add: pw_exec_limit)

lemma op_allowed_any: "any_write.op_allowed op"
  by (auto simp: any_write.op_allowed_def list_all_iff split: writer_op.split option.split)

lemma op_allowed_whole: "\<not> short_op op \<Longrightarrow> whole_write.op_allowed op"
  by (auto simp: whole_write.op_allowed_def short_op_def list_all_iff list_ex_iff split: writer_op.splits option.splits)



text \<open>
  C0. A short write goes unnoticed: when the file system stores only the first bytes of the last record, the writer
  still ends without an error, reports the size of the whole stream and the digest of bytes that the file lacks.
\<close>

theorem short_write_unnoticed:
  assumes "pw_guard w = None" and "pw_handle w" and "pw_queue w = [r]" and "pw_file w = pw_digest w"
    and "writtenBytes w = length (pw_digest w)" and "n < length r"
  shows "\<exists>w'. pw_finalize [Short n] True w = (None, w') \<and> pw_finalized w' \<and> pw_failed w' = None
    \<and> pw_sha256 w' = Some (pw_digest w @ r) \<and> pw_file w' = pw_digest w @ take n r
    \<and> writtenBytes w' = length (pw_digest w) + length r \<and> length (pw_file w') < writtenBytes w' \<and> pw_sha256 w' \<noteq> Some (pw_file w')"
proof -
  have "length (take n r) \<noteq> length r" using assms(6) by simp
  then have "r \<noteq> take n r" by metis
  with assms show ?thesis
    by (simp add: pw_finalize_def pw_drain_def pw_write_def stored_def pw_guard_None)
qed

theorem short_write_unnoticed_witness:
  "\<exists>w'. pw_finalize [Short 1] True (foldl pw_exec (new_PcapWriter 0) [WOpen (Some Whole), WEnqueue [1, 2, 3]]) = (None, w')
    \<and> writtenBytes w' = 27 \<and> length (pw_file w') = 25"
proof -
  let ?w = "foldl pw_exec (new_PcapWriter 0) [WOpen (Some Whole), WEnqueue [1, 2, 3]]"
  have w: "?w = \<lparr>pw_maxQueueBytes = 0, pw_created = True, pw_handle = True, pw_queue = [[1, 2, 3]], pw_queuedBytes = 3,
      writtenBytes = length encodePcapGlobalHeader, pw_failed = None, pw_finalized = False, pw_aborted = False,
      pw_digest = encodePcapGlobalHeader, pw_sha256 = None, pw_file = encodePcapGlobalHeader\<rparr>"
    by (simp add: pw_exec_def new_PcapWriter_def pw_open_def pw_guard_def pw_write_def stored_def pw_enqueue_def Let_def)
  have header: "length encodePcapGlobalHeader = 24" by (simp add: encodePcapGlobalHeader_def le32_def le16_def)
  have "pw_guard ?w = None" "pw_handle ?w" "pw_queue ?w = [[1, 2, 3]]" "pw_file ?w = pw_digest ?w"
    "writtenBytes ?w = length (pw_digest ?w)" "1 < length [1, 2, 3 :: byte]"
    unfolding w by (simp_all add: pw_guard_def)
  from short_write_unnoticed [OF this] obtain w' where "pw_finalize [Short 1] True ?w = (None, w')"
    and "pw_file w' = pw_digest ?w @ take 1 [1, 2, 3]" and "writtenBytes w' = length (pw_digest ?w) + length [1, 2, 3 :: byte]"
    by blast
  moreover have "pw_digest ?w = encodePcapGlobalHeader" unfolding w by simp
  ultimately show ?thesis by (intro exI [of _ w']) (simp only: header length_append, simp)
qed

section \<open>HostPacketTransportHub\<close>

record artifact_stats =
  st_fileName :: string
  recordCount :: nat
  payloadBytes :: nat
  firstLogicalEgressTimeNs :: "int option"
  lastLogicalEgressTimeNs :: "int option"
  st_sizeBytes :: nat
  st_sha256 :: "byte list option"

definition new_stats :: "string \<Rightarrow> artifact_stats" where
  "new_stats fileName = \<lparr>st_fileName = fileName, recordCount = 0, payloadBytes = 0,
    firstLogicalEgressTimeNs = None, lastLogicalEgressTimeNs = None, st_sizeBytes = 0, st_sha256 = None\<rparr>"

record requested_binding =
  rb_sensorId :: js_string
  rb_productId :: js_string
  rb_streamId :: js_string
  rb_adapter :: string
  rb_endpointId :: string

record pcap_binding =
  b_sensorId :: js_string
  b_productId :: js_string
  b_streamId :: js_string
  b_endpoint :: endpoint
  b_artifact :: string

record host_config =
  hc_endpoints :: "(string \<times> endpoint \<times> string) list" \<comment> \<open>id, wrapper, artifact id\<close>
  hc_artifacts :: "(string \<times> string) list" \<comment> \<open>id, file name\<close>

record packet_hub =
  bindings :: "pcap_binding list"
  hostConfig :: "host_config option"
  stepNs :: int
  maxQueueBytes :: nat
  writers :: "(string, pcap_writer) js_map"
  stats :: "(string, artifact_stats) js_map"
  pending :: "host_packet list"
  recordIds :: "(string, nat) js_map"
  staging :: bool
  configured :: bool
  hub_failed :: "hub_error option"
  hub_finalized :: bool
  hub_aborted :: bool

definition new_HostPacketTransportHub :: packet_hub where
  "new_HostPacketTransportHub =
    \<lparr>bindings = [], hostConfig = None, stepNs = 1, maxQueueBytes = 0, writers = [], stats = [], pending = [],
     recordIds = [], staging = False, configured = False, hub_failed = None, hub_finalized = False,
     hub_aborted = False\<rparr>"

definition hub_queuedBytes :: "packet_hub \<Rightarrow> nat" where
  "hub_queuedBytes h = sum_list (map (pw_queuedBytes \<circ> snd) (writers h))"

definition hub_fail :: "hub_error \<Rightarrow> packet_hub \<Rightarrow> hub_error option \<times> packet_hub" where
  "hub_fail e h = (Some e, h\<lparr>hub_failed := Some e\<rparr>)"

definition hub_guard :: "packet_hub \<Rightarrow> hub_error option" where
  "hub_guard h =
    (case hub_failed h of Some e \<Rightarrow> Some e
     | None \<Rightarrow> if hub_aborted h then Some Aborted else if hub_finalized h then Some AlreadyFinalized else None)"

definition fresh_stats :: "host_config \<Rightarrow> (string, artifact_stats) js_map" where
  "fresh_stats c = fold (\<lambda>(i, f). AList.update i (new_stats f)) (hc_artifacts c) []"

definition resolve_binding :: "host_config \<Rightarrow> requested_binding \<Rightarrow> (hub_error, pcap_binding) result" where
  "resolve_binding c b =
    (case map_of (rev (hc_endpoints c)) (rb_endpointId b) of
       None \<Rightarrow> Inl UnsupportedCapability
     | Some (ep, art) \<Rightarrow>
         if \<not> map_has (hc_artifacts c) art then Inl UnsupportedCapability
         else Inr \<lparr>b_sensorId = rb_sensorId b, b_productId = rb_productId b, b_streamId = rb_streamId b,
           b_endpoint = ep, b_artifact = art\<rparr>)"

fun resolve_all :: "host_config \<Rightarrow> requested_binding list \<Rightarrow> (hub_error, pcap_binding list) result" where
  "resolve_all c [] = Inr []"
| "resolve_all c (b # bs) =
    res_bind (resolve_binding c b) (\<lambda>r. res_bind (resolve_all c bs) (\<lambda>rs. Inr (r # rs)))"

definition configure ::
  "requested_binding list \<Rightarrow> host_config option \<Rightarrow> int \<Rightarrow> nat \<Rightarrow> packet_hub \<Rightarrow> hub_error option \<times> packet_hub" where
  "configure requested config step limit h =
    (case hub_guard h of Some e \<Rightarrow> (Some e, h)
     | None \<Rightarrow>
         let pcapBindings = filter (\<lambda>b. rb_adapter b = ''pcap'') requested;
             done = (\<lambda>h. (None, h\<lparr>hostConfig := config, stepNs := max 1 step, maxQueueBytes := limit, configured := True\<rparr>))
         in if \<exists>b \<in> set requested. rb_adapter b = ''udp'' then hub_fail UnsupportedCapability h
            else if pcapBindings = [] then done (h\<lparr>bindings := [], stats := []\<rparr>)
            else (case config of
                None \<Rightarrow> hub_fail UnsupportedCapability h
              | Some c \<Rightarrow> (case resolve_all c pcapBindings of
                    Inl e \<Rightarrow> hub_fail e h
                  | Inr bs \<Rightarrow> done (h\<lparr>bindings := bs, stats := fresh_stats c\<rparr>))))"

definition bindingFor :: "js_string \<Rightarrow> js_string \<Rightarrow> js_string \<Rightarrow> packet_hub \<Rightarrow> pcap_binding option" where
  "bindingFor sensor product stream h =
    List.find (\<lambda>b. b_sensorId b = sensor \<and> b_productId b = product \<and> b_streamId b = stream) (bindings h)"

definition resetCaptureState :: "packet_hub \<Rightarrow> packet_hub" where
  "resetCaptureState h = h\<lparr>hub_failed := None, hub_aborted := False, hub_finalized := False, pending := [],
    writers := [], recordIds := [], staging := False,
    stats := (case hostConfig h of None \<Rightarrow> [] | Some c \<Rightarrow> fresh_stats c)\<rparr>"

fun open_writers :: "write_outcome option list \<Rightarrow> (string \<times> string) list \<Rightarrow> packet_hub \<Rightarrow> hub_error option \<times> packet_hub" where
  "open_writers oks [] h = (None, h)"
| "open_writers oks ((a, f) # arts) h =
    (if \<not> (\<exists>b \<in> set (bindings h). b_artifact b = a) then open_writers oks arts h
     else (case pw_open (case oks of [] \<Rightarrow> None | ok # _ \<Rightarrow> ok) (new_PcapWriter 0) of
         (Some e, _) \<Rightarrow> (Some e, h)
       | (None, w) \<Rightarrow> open_writers (tl oks) arts
           (h\<lparr>writers := AList.update a w (writers h), recordIds := AList.update a 0 (recordIds h)\<rparr>)))"

definition attachArtifactRoot :: "bool \<Rightarrow> write_outcome option list \<Rightarrow> packet_hub \<Rightarrow> hub_error option \<times> packet_hub" where
  "attachArtifactRoot directory oks h =
    (let h1 = resetCaptureState h in
     if \<not> configured h1 then hub_fail NotConfigured h1
     else if bindings h1 = [] then (None, h1\<lparr>staging := directory\<rparr>)
     else if \<not> directory then hub_fail UnsupportedCapability h1
     else open_writers oks (case hostConfig h1 of None \<Rightarrow> [] | Some c \<Rightarrow> hc_artifacts c) (h1\<lparr>staging := True\<rparr>))"

record batch_packet =
  bp_productId :: js_string
  bp_streamId :: js_string
  bp_packetIndex :: int
  bp_offsetNs :: int
  bp_payload :: "byte list"

record packet_batch =
  bt_sensorId :: js_string
  bt_sampleIndex :: int
  bt_actualDeliveryStep :: int
  bt_packets :: "batch_packet list"

definition pending_packet :: "packet_hub \<Rightarrow> packet_batch \<Rightarrow> batch_packet \<Rightarrow> host_packet option" where
  "pending_packet h batch p =
    (case bindingFor (bt_sensorId batch) (bp_productId p) (bp_streamId p) h of
       None \<Rightarrow> None
     | Some b \<Rightarrow> Some \<lparr>sensorId = bt_sensorId batch, productId = bp_productId p, streamId = bp_streamId p,
         sampleIndex = bt_sampleIndex batch, packetIndex = bp_packetIndex p,
         logical_ns = logicalEgressTimeNs (bt_actualDeliveryStep batch) (stepNs h) (bp_offsetNs p),
         p_payload = bp_payload p, artifactId = b_artifact b, p_endpoint = b_endpoint b\<rparr>)"

definition enqueueBatch :: "packet_batch \<Rightarrow> packet_hub \<Rightarrow> hub_error option \<times> packet_hub" where
  "enqueueBatch batch h =
    (if hub_failed h \<noteq> None then (hub_failed h, h)
     else if \<not> configured h then (None, h)
     else case hub_guard h of Some e \<Rightarrow> (Some e, h)
     | None \<Rightarrow> (None, h\<lparr>pending := pending h @ List.map_filter (pending_packet h batch) (bt_packets batch)\<rparr>))"

definition count_record :: "host_packet \<Rightarrow> artifact_stats \<Rightarrow> artifact_stats" where
  "count_record p st = st\<lparr>recordCount := recordCount st + 1, payloadBytes := payloadBytes st + length (p_payload p),
    firstLogicalEgressTimeNs := (case firstLogicalEgressTimeNs st of None \<Rightarrow> Some (logical_ns p) | t \<Rightarrow> t),
    lastLogicalEgressTimeNs := Some (logical_ns p)\<rparr>"

definition identification_of :: "packet_hub \<Rightarrow> string \<Rightarrow> nat" where
  "identification_of h a = (case map_of (recordIds h) a of None \<Rightarrow> 0 | Some i \<Rightarrow> i)"

definition record_of :: "nat \<Rightarrow> host_packet \<Rightarrow> (pcap_error, byte list) result" where
  "record_of ident p = encodePcapRecord (pcapTimestampUs (logical_ns p)) ident (p_endpoint p) (p_payload p)"

definition deliver :: "host_packet \<Rightarrow> packet_hub \<Rightarrow> hub_error option \<times> packet_hub" where
  "deliver p h =
    (let a = artifactId p; ident = identification_of h a;
         h1 = h\<lparr>recordIds := AList.update a ((ident + 1) mod 65536) (recordIds h)\<rparr>
     in case record_of ident p of
         Inl e \<Rightarrow> (Some (EncodeFailed e), h1)
       | Inr r \<Rightarrow>
           if maxQueueBytes h1 > 0 \<and> hub_queuedBytes h1 + length r > maxQueueBytes h1
           then hub_fail (ResourceLimit (hub_queuedBytes h1 + length r) (maxQueueBytes h1)) h1
           else (case map_of (writers h1) a of
               None \<Rightarrow> (Some ScriptError, h1)
             | Some w \<Rightarrow> (case pw_enqueue r w of
                 (Some e, w') \<Rightarrow> (Some e, h1\<lparr>writers := AList.update a w' (writers h1)\<rparr>)
               | (None, w') \<Rightarrow>
                   let h2 = h1\<lparr>writers := AList.update a w' (writers h1)\<rparr> in
                   (case map_of (stats h2) a of
                      None \<Rightarrow> (Some ScriptError, h2)
                    | Some st \<Rightarrow> (None, h2\<lparr>stats := AList.update a (count_record p st) (stats h2)\<rparr>)))))"

fun deliver_loop :: "host_packet list \<Rightarrow> packet_hub \<Rightarrow> hub_error option \<times> packet_hub" where
  "deliver_loop [] h = (None, h)"
| "deliver_loop (p # ps) h =
    (case deliver p h of (Some e, h') \<Rightarrow> (Some e, h') | (None, h') \<Rightarrow> deliver_loop ps h')"

definition endDeliveryStep :: "packet_hub \<Rightarrow> hub_error option \<times> packet_hub" where
  "endDeliveryStep h =
    (if hub_failed h \<noteq> None then (hub_failed h, h)
     else if \<not> configured h then (None, h)
     else case hub_guard h of Some e \<Rightarrow> (Some e, h)
     | None \<Rightarrow>
         if bindings h \<noteq> [] \<and> pending h \<noteq> []
         then (if writers h = [] then hub_fail NotAttached h
           else deliver_loop (sortHostPackets (pending h)) (h\<lparr>pending := []\<rparr>))
         else (None, h\<lparr>pending := []\<rparr>))"

text \<open>\<open>for (const writer of writers.values()) await writer.drain()\<close>\<close>

fun drain_writers :: "(string \<Rightarrow> write_outcome list) \<Rightarrow> (string, pcap_writer) js_map \<Rightarrow>
    hub_error option \<times> (string, pcap_writer) js_map" where
  "drain_writers writes [] = (None, [])"
| "drain_writers writes ((a, w) # ws) =
    (case pw_drain (writes a) w of
       (Some e, w') \<Rightarrow> (Some e, (a, w') # ws)
     | (None, w') \<Rightarrow> (case drain_writers writes ws of (r, ws') \<Rightarrow> (r, (a, w') # ws')))"

definition hub_drain :: "(string \<Rightarrow> write_outcome list) \<Rightarrow> packet_hub \<Rightarrow> hub_error option \<times> packet_hub" where
  "hub_drain writes h =
    (if hub_failed h \<noteq> None then (hub_failed h, h)
     else if hub_aborted h \<or> hub_finalized h then (None, h)
     else case drain_writers writes (writers h) of (r, ws) \<Rightarrow> (r, h\<lparr>writers := ws\<rparr>))"

fun finalize_loop :: "(string \<Rightarrow> bool) \<Rightarrow> string list \<Rightarrow> packet_hub \<Rightarrow> hub_error option \<times> packet_hub" where
  "finalize_loop close_ok [] h = (None, h)"
| "finalize_loop close_ok (a # as) h =
    (case map_of (writers h) a of
       None \<Rightarrow> finalize_loop close_ok as h
     | Some w \<Rightarrow> (case pw_finalize [] (close_ok a) w of
         (Some e, w') \<Rightarrow> (Some e, h\<lparr>writers := AList.update a w' (writers h)\<rparr>)
       | (None, w') \<Rightarrow>
           let h1 = h\<lparr>writers := AList.update a w' (writers h)\<rparr> in
           (case map_of (stats h1) a of
              None \<Rightarrow> (Some ScriptError, h1)
            | Some st \<Rightarrow> finalize_loop close_ok as
                (h1\<lparr>stats := AList.update a (st\<lparr>st_sizeBytes := writtenBytes w', st_sha256 := pw_sha256 w'\<rparr>)
                  (stats h1)\<rparr>))))"

definition hub_then ::
  "hub_error option \<times> packet_hub \<Rightarrow> (packet_hub \<Rightarrow> hub_error option \<times> packet_hub) \<Rightarrow> hub_error option \<times> packet_hub" where
  "hub_then r f = (case r of (Some e, h) \<Rightarrow> (Some e, h) | (None, h) \<Rightarrow> f h)"

text \<open>
  The body of \<open>finalize\<close>'s \<open>try\<close>, and \<open>finalize\<close>: an error is kept as the hub's failure. Writing
  the evidence file succeeds or not.
\<close>

definition finalize_body ::
  "(string \<Rightarrow> write_outcome list) \<Rightarrow> (string \<Rightarrow> bool) \<Rightarrow> bool \<Rightarrow> packet_hub \<Rightarrow> hub_error option \<times> packet_hub" where
  "finalize_body writes close_ok evidence_ok h =
    hub_then (if pending h \<noteq> [] then endDeliveryStep h else (None, h)) (\<lambda>h1.
    hub_then (hub_drain writes h1) (\<lambda>h2.
    hub_then (finalize_loop close_ok (map_keys (writers h2)) h2) (\<lambda>h3.
      if staging h3 \<and> bindings h3 \<noteq> [] \<and> \<not> evidence_ok then (Some ArtifactFailure, h3)
      else (None, h3\<lparr>hub_finalized := True\<rparr>))))"

definition hub_finalize ::
  "(string \<Rightarrow> write_outcome list) \<Rightarrow> (string \<Rightarrow> bool) \<Rightarrow> bool \<Rightarrow> packet_hub \<Rightarrow> hub_error option \<times> packet_hub" where
  "hub_finalize writes close_ok evidence_ok h =
    (if hub_failed h \<noteq> None then (hub_failed h, h)
     else if hub_aborted h then (Some Aborted, h)
     else if hub_finalized h then (None, h)
     else case finalize_body writes close_ok evidence_ok h of
         (None, h') \<Rightarrow> (None, h')
       | (Some e, h') \<Rightarrow> (case hub_failed h' of Some f \<Rightarrow> (Some f, h') | None \<Rightarrow> hub_fail e h'))"

definition hub_abort :: "packet_hub \<Rightarrow> packet_hub" where
  "hub_abort h = h\<lparr>hub_aborted := True, pending := [], writers := []\<rparr>"

section \<open>What a delivery step writes\<close>

lemma hub_queuedBytes_recordIds [simp]: "hub_queuedBytes (h\<lparr>recordIds := x\<rparr>) = hub_queuedBytes h"
  by (simp add: hub_queuedBytes_def)

lemma deliver_cases:
  assumes "deliver p h = (None, h')"
  obtains r w st where "record_of (identification_of h (artifactId p)) p = Inr r"
    and "map_of (writers h) (artifactId p) = Some w" and "map_of (stats h) (artifactId p) = Some st"
    and "0 < maxQueueBytes h \<Longrightarrow> hub_queuedBytes h + length r \<le> maxQueueBytes h"
    and "h' = h\<lparr>recordIds := AList.update (artifactId p)
          ((identification_of h (artifactId p) + 1) mod 65536) (recordIds h),
        writers := AList.update (artifactId p)
          (w\<lparr>pw_queue := pw_queue w @ [r], pw_queuedBytes := pw_queuedBytes w + length r\<rparr>) (writers h),
        stats := AList.update (artifactId p) (count_record p st) (stats h)\<rparr>"
proof (cases "record_of (identification_of h (artifactId p)) p")
  case (Inl e)
  then show ?thesis using assms by (simp add: deliver_def Let_def)
next
  case (Inr r)
  have fits: "\<not> (maxQueueBytes h > 0 \<and> hub_queuedBytes h + length r > maxQueueBytes h)"
    using assms Inr by (auto simp: deliver_def Let_def hub_fail_def)
  then obtain w where w: "map_of (writers h) (artifactId p) = Some w"
    using assms Inr by (auto simp: deliver_def Let_def split: option.splits)
  obtain w' where e: "pw_enqueue r w = (None, w')"
    using assms Inr fits w by (cases "pw_enqueue r w") (auto simp: deliver_def Let_def split: option.splits)
  then have w': "w' = w\<lparr>pw_queue := pw_queue w @ [r], pw_queuedBytes := pw_queuedBytes w + length r\<rparr>"
    by (auto simp: pw_enqueue_def pw_fail_def split: option.splits if_splits)
  obtain st where st: "map_of (stats h) (artifactId p) = Some st"
    using assms Inr fits w e by (auto simp: deliver_def Let_def split: option.splits)
  show ?thesis
    by (rule that [OF Inr w st]) (use assms Inr fits w e st w' in \<open>auto simp: deliver_def Let_def\<close>)
qed

text \<open>The records of an artifact's packets, with consecutive identifications.\<close>

fun records_from :: "nat \<Rightarrow> host_packet list \<Rightarrow> (pcap_error, byte list list) result" where
  "records_from ident [] = Inr []"
| "records_from ident (p # ps) =
    res_bind (record_of ident p) (\<lambda>r. res_bind (records_from ((ident + 1) mod 65536) ps) (\<lambda>rs. Inr (r # rs)))"

lemma identification_update:
  "identification_of (h\<lparr>recordIds := AList.update b i (recordIds h), writers := ws, stats := ss\<rparr>) a
    = (if a = b then i else identification_of h a)"
  by (simp add: identification_of_def js_map_simps)

lemma deliver_loop_spec:
  assumes "deliver_loop ps h = (None, h')" and "map_of (writers h) a = Some w" and "map_of (stats h) a = Some st"
  shows "\<exists>rs w' st'. records_from (identification_of h a) (filter (\<lambda>p. artifactId p = a) ps) = Inr rs
    \<and> map_of (writers h') a = Some w' \<and> pw_queue w' = pw_queue w @ rs \<and> pw_file w' = pw_file w
    \<and> map_of (stats h') a = Some st' \<and> recordCount st' = recordCount st + length rs"
  using assms
proof (induction ps arbitrary: h w st)
  case Nil
  then show ?case by simp
next
  case (Cons p ps)
  from Cons.prems(1) obtain h1 where d: "deliver p h = (None, h1)" and rest: "deliver_loop ps h1 = (None, h')"
    by (auto split: prod.splits option.splits)
  from d show ?case
  proof (rule deliver_cases)
    fix r wp stp
    assume r: "record_of (identification_of h (artifactId p)) p = Inr r"
      and wp: "map_of (writers h) (artifactId p) = Some wp" and stp: "map_of (stats h) (artifactId p) = Some stp"
      and h1: "h1 = h\<lparr>recordIds := AList.update (artifactId p)
          ((identification_of h (artifactId p) + 1) mod 65536) (recordIds h),
        writers := AList.update (artifactId p)
          (wp\<lparr>pw_queue := pw_queue wp @ [r], pw_queuedBytes := pw_queuedBytes wp + length r\<rparr>) (writers h),
        stats := AList.update (artifactId p) (count_record p stp) (stats h)\<rparr>"
    show ?case
    proof (cases "artifactId p = a")
      case True
      have w1: "map_of (writers h1) a
          = Some (w\<lparr>pw_queue := pw_queue w @ [r], pw_queuedBytes := pw_queuedBytes w + length r\<rparr>)"
        and s1: "map_of (stats h1) a = Some (count_record p st)"
        using True wp stp Cons.prems(2,3) by (simp_all add: h1 js_map_simps)
      have i1: "identification_of h1 a = (identification_of h a + 1) mod 65536"
        unfolding h1 identification_update using True by simp
      from Cons.IH [OF rest w1 s1] show ?thesis
        using True r by (auto simp: i1 count_record_def)
    next
      case False
      have w1: "map_of (writers h1) a = Some w" and s1: "map_of (stats h1) a = Some st"
        using False Cons.prems(2,3) by (simp_all add: h1 js_map_simps)
      have i1: "identification_of h1 a = identification_of h a"
        unfolding h1 identification_update using False by simp
      from Cons.IH [OF rest w1 s1] show ?thesis using False by (simp add: i1)
    qed
  qed
qed

text \<open>
  C24. A delivery step that ends without error has queued, for each artifact, exactly the records
  of that artifact's pending packets, encoded with consecutive identifications, in the order of
  their egress time; nothing pending is lost or written twice, and the artifact's record count
  grows by their number.
\<close>

theorem delivery_step_writes_in_order:
  assumes run: "endDeliveryStep h = (None, h')" and c: "configured h" "bindings h \<noteq> []"
    and w: "map_of (writers h) a = Some w" and st: "map_of (stats h) a = Some st"
  shows "\<exists>ps rs w' st'. mset ps = mset (filter (\<lambda>p. artifactId p = a) (pending h))
    \<and> sorted_wrt (\<lambda>p q. logical_ns p \<le> logical_ns q) ps
    \<and> records_from (identification_of h a) ps = Inr rs
    \<and> map_of (writers h') a = Some w' \<and> pw_queue w' = pw_queue w @ rs
    \<and> map_of (stats h') a = Some st' \<and> recordCount st' = recordCount st + length rs"
proof (cases "pending h = []")
  case True
  then have "h' = h\<lparr>pending := []\<rparr>"
    using run c by (auto simp: endDeliveryStep_def hub_guard_def split: option.splits if_splits)
  then show ?thesis using True w st by (intro exI [of _ "[]"]) simp
next
  case False
  have "writers h \<noteq> []" using w by auto
  then have loop: "deliver_loop (sortHostPackets (pending h)) (h\<lparr>pending := []\<rparr>) = (None, h')"
    using run c False by (auto simp: endDeliveryStep_def hub_fail_def split: option.splits if_splits)
  let ?ps = "filter (\<lambda>p. artifactId p = a) (sortHostPackets (pending h))"
  have "sorted_wrt (\<lambda>p q. compareHostPackets p q \<le> 0) ?ps"
    unfolding sortHostPackets_def by (rule sorted_wrt_filter [OF packet_order.sorted_sort_by])
  then have "sorted_wrt (\<lambda>p q. logical_ns p \<le> logical_ns q) ?ps"
    by (rule sorted_wrt_mono_rel [rotated])
      (auto simp: compareHostPackets_def cmp_or_def cmp_time_def split: if_splits)
  moreover have "mset ?ps = mset (filter (\<lambda>p. artifactId p = a) (pending h))"
    by (simp add: sortHostPackets_def mset_filter)
  moreover have "identification_of (h\<lparr>pending := []\<rparr>) a = identification_of h a"
    by (simp add: identification_of_def)
  ultimately show ?thesis
    using deliver_loop_spec [OF loop, of a w st] w st by (intro exI [of _ ?ps]) auto
qed

section \<open>The queue limit\<close>

datatype hub_op = HAttach bool "write_outcome option list" | HEnqueue packet_batch | HEndStep | HDrain "string \<Rightarrow> write_outcome list"
  | HFinalize "string \<Rightarrow> write_outcome list" "string \<Rightarrow> bool" bool | HAbort

definition hub_exec :: "packet_hub \<Rightarrow> hub_op \<Rightarrow> packet_hub" where
  "hub_exec h op =
    (case op of
       HAttach dir oks \<Rightarrow> snd (attachArtifactRoot dir oks h) | HEnqueue b \<Rightarrow> snd (enqueueBatch b h)
     | HEndStep \<Rightarrow> snd (endDeliveryStep h) | HDrain wr \<Rightarrow> snd (hub_drain wr h)
     | HFinalize wr cl ev \<Rightarrow> snd (hub_finalize wr cl ev h) | HAbort \<Rightarrow> hub_abort h)"

definition hub_inv :: "packet_hub \<Rightarrow> bool" where
  "hub_inv h \<longleftrightarrow> map_ok (writers h) \<and> (0 < maxQueueBytes h \<longrightarrow> hub_queuedBytes h \<le> maxQueueBytes h)"

lemma sum_list_update:
  fixes f :: "'v \<Rightarrow> nat"
  assumes "map_of m k = Some v" and "map_ok m"
  shows "sum_list (map (f \<circ> snd) (AList.update k v' m)) + f v = sum_list (map (f \<circ> snd) m) + f v'"
  using assms
proof (induction m)
  case (Cons p m)
  then show ?case by (cases "fst p = k") (auto split: if_splits)
qed simp

lemma hub_update_writer:
  assumes inv: "hub_inv h" and w: "map_of (writers h) a = Some w"
    and le: "pw_queuedBytes w' \<le> pw_queuedBytes w + n"
    and fits: "0 < maxQueueBytes h \<Longrightarrow> hub_queuedBytes h + n \<le> maxQueueBytes h"
  shows "hub_inv (h\<lparr>writers := AList.update a w' (writers h)\<rparr>)"
  using inv le fits sum_list_update [OF w, of pw_queuedBytes w']
  by (auto simp: hub_inv_def hub_queuedBytes_def distinct_update)

lemma hub_inv_fields [simp]:
  "hub_inv (h\<lparr>recordIds := x1\<rparr>) = hub_inv h" "hub_inv (h\<lparr>stats := x2\<rparr>) = hub_inv h"
  "hub_inv (h\<lparr>hub_failed := x3\<rparr>) = hub_inv h" "hub_inv (h\<lparr>pending := x4\<rparr>) = hub_inv h"
  "hub_inv (h\<lparr>staging := x5\<rparr>) = hub_inv h" "hub_inv (h\<lparr>hub_finalized := x6\<rparr>) = hub_inv h"
  "hub_inv (h\<lparr>hub_aborted := x7\<rparr>) = hub_inv h"
  by (simp_all add: hub_inv_def hub_queuedBytes_def)

lemma pw_enqueue_grows: "pw_queuedBytes (snd (pw_enqueue r w)) \<le> pw_queuedBytes w + length r"
  by (auto simp: pw_enqueue_def pw_fail_def split: option.splits)

lemma deliver_inv:
  assumes inv: "hub_inv h"
  shows "hub_inv (snd (deliver p h))"
proof -
  let ?a = "artifactId p"
  let ?h1 = "h\<lparr>recordIds := AList.update ?a ((identification_of h ?a + 1) mod 65536) (recordIds h)\<rparr>"
  have h1: "hub_inv ?h1" using inv by simp
  show ?thesis
  proof (cases "record_of (identification_of h ?a) p")
    case (Inl e)
    then show ?thesis using h1 by (simp add: deliver_def Let_def)
  next
    case (Inr r)
    show ?thesis
    proof (cases "(maxQueueBytes h > 0 \<and> hub_queuedBytes h + length r > maxQueueBytes h) \<or> map_of (writers h) ?a = None")
      case True
      then show ?thesis using Inr inv by (auto simp: deliver_def Let_def hub_fail_def)
    next
      case False
      then obtain w where w: "map_of (writers h) ?a = Some w" by auto
      obtain e w' where e: "pw_enqueue r w = (e, w')" by fastforce
      have "hub_inv (?h1\<lparr>writers := AList.update ?a w' (writers ?h1)\<rparr>)"
        by (rule hub_update_writer [OF h1, of _ w _ "length r"])
          (use False w pw_enqueue_grows [of r w] e in auto)
      then show ?thesis
        using Inr False w e by (auto simp: deliver_def Let_def split: option.splits)
    qed
  qed
qed

lemma deliver_loop_inv: "hub_inv h \<Longrightarrow> hub_inv (snd (deliver_loop ps h))"
proof (induction ps arbitrary: h)
  case (Cons p ps)
  then show ?case using deliver_inv [OF Cons.prems, of p] by (auto split: prod.splits option.splits)
qed simp

lemma endDeliveryStep_inv: "hub_inv h \<Longrightarrow> hub_inv (snd (endDeliveryStep h))"
  by (auto simp: endDeliveryStep_def hub_fail_def deliver_loop_inv split: option.splits)

lemma pw_drain_shrinks: "pw_queuedBytes (snd (pw_drain n w)) \<le> pw_queuedBytes w"
  by (cases rule: pw_drain_cases [of n w]) simp_all

lemma drain_writers_spec:
  "map fst (snd (drain_writers wr ws)) = map fst ws
    \<and> sum_list (map (pw_queuedBytes \<circ> snd) (snd (drain_writers wr ws))) \<le> sum_list (map (pw_queuedBytes \<circ> snd) ws)"
proof (induction ws)
  case (Cons x ws)
  obtain a w where x: "x = (a, w)" by fastforce
  then show ?case using Cons pw_drain_shrinks [of "wr a" w]
    by (auto split: prod.splits option.splits intro: add_mono)
qed simp

lemma hub_drain_inv: "hub_inv h \<Longrightarrow> hub_inv (snd (hub_drain wr h))"
  using drain_writers_spec [of wr "writers h"]
  by (auto simp: hub_drain_def hub_inv_def hub_queuedBytes_def split: prod.splits)

lemma pw_finalize_shrinks: "pw_queuedBytes (snd (pw_finalize n ok w)) \<le> pw_queuedBytes w"
  using pw_drain_shrinks [of n w]
  by (auto simp: pw_finalize_def pw_fail_def split: option.splits prod.splits)

lemma finalize_loop_inv: "hub_inv h \<Longrightarrow> hub_inv (snd (finalize_loop cl as h))"
proof (induction as arbitrary: h)
  case (Cons a as)
  show ?case
  proof (cases "map_of (writers h) a")
    case None
    then show ?thesis using Cons by simp
  next
    case (Some w)
    obtain e w' where e: "pw_finalize [] (cl a) w = (e, w')" by fastforce
    have "hub_inv (h\<lparr>writers := AList.update a w' (writers h)\<rparr>)"
      by (rule hub_update_writer [OF Cons.prems Some, of _ 0])
        (use Cons.prems pw_finalize_shrinks [of "[]" "cl a" w] e in \<open>auto simp: hub_inv_def\<close>)
    then show ?thesis using Some e Cons.IH by (auto simp: Let_def split: option.splits)
  qed
qed simp

lemma hub_then_inv:
  "hub_inv (snd r) \<Longrightarrow> (\<And>h. hub_inv h \<Longrightarrow> hub_inv (snd (f h))) \<Longrightarrow> hub_inv (snd (hub_then r f))"
  by (auto simp: hub_then_def split: prod.splits option.splits)

lemma finalize_body_inv: "hub_inv h \<Longrightarrow> hub_inv (snd (finalize_body wr cl ev h))"
  unfolding finalize_body_def
  by (intro hub_then_inv hub_drain_inv finalize_loop_inv) (auto simp: endDeliveryStep_inv)

lemma hub_finalize_inv: "hub_inv h \<Longrightarrow> hub_inv (snd (hub_finalize wr cl ev h))"
  using finalize_body_inv [of h wr cl ev]
  by (auto simp: hub_finalize_def hub_fail_def split: option.splits prod.splits)

lemma pw_open_new: "pw_open ok (new_PcapWriter 0) = (None, w) \<Longrightarrow> pw_queuedBytes w = 0"
  by (auto simp: pw_open_def new_PcapWriter_def pw_fail_def pw_write_def Let_def
    split: option.splits if_splits write_outcome.splits)

lemma sum_update_zero:
  "f v = (0 :: nat) \<Longrightarrow> sum_list (map (f \<circ> snd) (AList.update k v m)) \<le> sum_list (map (f \<circ> snd) m)"
  by (induction m) auto

lemma open_writers_inv: "hub_inv h \<Longrightarrow> hub_inv (snd (open_writers oks arts h))"
proof (induction arts arbitrary: oks h)
  case (Cons x arts)
  obtain a f where x: "x = (a, f)" by fastforce
  obtain e w where e: "pw_open (case oks of [] \<Rightarrow> None | ok # _ \<Rightarrow> ok) (new_PcapWriter 0) = (e, w)" by fastforce
  have "hub_inv (h\<lparr>writers := AList.update a w (writers h), recordIds := AList.update a 0 (recordIds h)\<rparr>)"
    if "e = None"
    using Cons.prems sum_update_zero [of pw_queuedBytes w a "writers h"] pw_open_new [of _ w] e that
    by (auto simp: hub_inv_def hub_queuedBytes_def distinct_update intro: order_trans)
  then show ?case using Cons e by (auto simp: x split: option.splits)
qed simp

lemma attach_inv: "hub_inv (snd (attachArtifactRoot dir oks h))"
proof -
  have "hub_inv (resetCaptureState h)"
    by (simp add: resetCaptureState_def hub_inv_def hub_queuedBytes_def)
  then show ?thesis
    by (auto simp: attachArtifactRoot_def Let_def hub_fail_def open_writers_inv)
qed

lemma hub_exec_inv: "hub_inv h \<Longrightarrow> hub_inv (hub_exec h op)"
proof (cases op)
  case (HEnqueue b)
  then show "hub_inv h \<Longrightarrow> ?thesis"
    by (auto simp: hub_exec_def enqueueBatch_def split: option.splits)
next
  case HAbort
  then show ?thesis by (simp add: hub_exec_def hub_abort_def hub_inv_def hub_queuedBytes_def)
qed (simp_all add: hub_exec_def attach_inv endDeliveryStep_inv hub_drain_inv hub_finalize_inv)

interpretation packet_hub: driven hub_exec hub_inv
  by unfold_locales (rule hub_exec_inv)

text \<open>
  The queue limit: whatever batches, steps, drains, attachments, ends and file system failures
  follow a configuration, the capture writers together never hold more queued bytes than
  \<open>maxQueueBytes\<close> (zero means no limit).
\<close>

theorem hub_queue_bounded:
  "let h = foldl hub_exec (snd (configure requested config step limit new_HostPacketTransportHub)) ops
   in maxQueueBytes h = 0 \<or> hub_queuedBytes h \<le> maxQueueBytes h"
proof -
  have "hub_inv (snd (configure requested config step limit new_HostPacketTransportHub))"
    by (auto simp: configure_def new_HostPacketTransportHub_def hub_guard_def hub_fail_def hub_inv_def
      hub_queuedBytes_def Let_def split: option.splits sum.splits)
  from packet_hub.run_inv [OF this, of ops] show ?thesis by (auto simp: hub_inv_def Let_def)
qed

section \<open>A hub in use\<close>

definition demo_packet :: "int \<Rightarrow> int \<Rightarrow> byte list \<Rightarrow> host_packet" where
  "demo_packet ns i bs = \<lparr>sensorId = [108], productId = [112], streamId = [115], sampleIndex = 0,
    packetIndex = i, logical_ns = ns, p_payload = bs, artifactId = ''cap'', p_endpoint = demo_endpoint\<rparr>"

definition demo_hub :: packet_hub where
  "demo_hub = new_HostPacketTransportHub\<lparr>
    bindings := [\<lparr>b_sensorId = [108], b_productId = [112], b_streamId = [115], b_endpoint = demo_endpoint, b_artifact = ''cap''\<rparr>],
    writers := [(''cap'', (new_PcapWriter 0)\<lparr>pw_handle := True\<rparr>)],
    stats := [(''cap'', new_stats ''cap.pcap'')], configured := True,
    pending := [demo_packet 9000 1 [1, 2], demo_packet 3000 0 [3]]\<rparr>"

lemma demo_record:
  assumes "0 \<le> ns" "ns < 10 ^ 9" "length bs \<le> 2"
  obtains r where "record_of i (demo_packet ns j bs) = Inr r"
proof -
  have "\<exists>packet. encodeEthernetIpv4Udp demo_endpoint i bs = Inr packet"
    using assms(3) by (simp add: encode_eval)
  moreover have "0 \<le> pcapTimestampUs ns" "nat (pcapTimestampUs ns) div 1000000 \<le> 0xFFFFFFFF"
    using assms(1,2) by (auto simp: pcapTimestampUs_def bigint_div_def)
  ultimately show thesis
    using that by (auto simp: record_of_def demo_packet_def encodePcapRecord_def Let_def)
qed

lemma demo_deliver:
  assumes "map_of (writers h) ''cap'' = Some w" "pw_guard w = None" "pw_handle w" "pw_maxQueueBytes w = 0"
    and "map_of (stats h) ''cap'' = Some st" "maxQueueBytes h = 0" and p: "0 \<le> ns" "ns < 10 ^ 9" "length bs \<le> 2"
  shows "\<exists>h' w' st'. deliver (demo_packet ns j bs) h = (None, h') \<and> map_of (writers h') ''cap'' = Some w'
    \<and> pw_guard w' = None \<and> pw_handle w' \<and> pw_maxQueueBytes w' = 0
    \<and> map_of (stats h') ''cap'' = Some st' \<and> maxQueueBytes h' = 0"
proof -
  have a: "artifactId (demo_packet ns j bs) = ''cap''" by (simp add: demo_packet_def)
  obtain r where "record_of (identification_of h ''cap'') (demo_packet ns j bs) = Inr r"
    using p by (rule demo_record)
  then show ?thesis
    using assms by (simp add: deliver_def a Let_def pw_enqueue_def js_map_simps) (simp add: pw_guard_None)
qed

lemma demo_step: "fst (endDeliveryStep demo_hub) = None"
proof -
  have order: "sortHostPackets (pending demo_hub) = [demo_packet 3000 0 [3], demo_packet 9000 1 [1, 2]]"
    by (simp add: demo_hub_def sortHostPackets_def compareHostPackets_def cmp_time_def cmp_or_def demo_packet_def)
  let ?h = "demo_hub\<lparr>pending := []\<rparr>"
  obtain h1 w1 st1 where 1: "deliver (demo_packet 3000 0 [3]) ?h = (None, h1)" "map_of (writers h1) ''cap'' = Some w1"
    "pw_guard w1 = None" "pw_handle w1" "pw_maxQueueBytes w1 = 0" "map_of (stats h1) ''cap'' = Some st1" "maxQueueBytes h1 = 0"
    using demo_deliver [of ?h "(new_PcapWriter 0)\<lparr>pw_handle := True\<rparr>" "new_stats ''cap.pcap''" 3000 "[3]" 0]
    by (auto simp: demo_hub_def new_PcapWriter_def pw_guard_def new_HostPacketTransportHub_def)
  obtain h2 where 2: "deliver (demo_packet 9000 1 [1, 2]) h1 = (None, h2)"
    using demo_deliver [OF 1(2-7), of 9000 "[1, 2]" 1] by auto
  have "fst (deliver_loop (sortHostPackets (pending demo_hub)) ?h) = None"
    unfolding order by (simp add: 1 2)
  then show ?thesis
    by (simp add: endDeliveryStep_def demo_hub_def new_HostPacketTransportHub_def hub_guard_def)
qed

theorem delivery_step_witness:
  "\<exists>ps rs w'. mset ps = mset (pending demo_hub) \<and> sorted_wrt (\<lambda>p q. logical_ns p \<le> logical_ns q) ps
    \<and> records_from 0 ps = Inr rs
    \<and> map_of (writers (snd (endDeliveryStep demo_hub))) ''cap'' = Some w' \<and> pw_queue w' = rs"
proof -
  have run: "endDeliveryStep demo_hub = (None, snd (endDeliveryStep demo_hub))"
    using demo_step by (simp add: prod_eq_iff)
  have h: "configured demo_hub" "bindings demo_hub \<noteq> []"
    "map_of (writers demo_hub) ''cap'' = Some ((new_PcapWriter 0)\<lparr>pw_handle := True\<rparr>)"
    "map_of (stats demo_hub) ''cap'' = Some (new_stats ''cap.pcap'')"
    by (simp_all add: demo_hub_def)
  have fs: "filter (\<lambda>p. artifactId p = ''cap'') (pending demo_hub) = pending demo_hub"
    by (simp add: demo_hub_def demo_packet_def)
  have 0: "identification_of demo_hub ''cap'' = 0" "pw_queue ((new_PcapWriter 0)\<lparr>pw_handle := True\<rparr>) = []"
    by (simp_all add: demo_hub_def identification_of_def new_HostPacketTransportHub_def new_PcapWriter_def)
  from delivery_step_writes_in_order [OF run h] show ?thesis
    unfolding fs 0 by auto
qed

end
