(* ===== verification/ChangeSets.thy ===== *)
theory ChangeSets
  imports JsSort
begin

text \<open>
  \<open>app/3d/editor/document/ChangeSet.js\<close> and the parts of \<open>EnvironmentDocument.js\<close> that record,
  apply and undo changes. Records are JSON values. What other modules and the host do to a value is
  in an environment of functions: text and number conversion, the canonical copies of records and
  scalars, and the canonical orders of object records and metric definitions.
\<close>

datatype json = JsNull | JsBool bool | JsNum rat | JsStr string | JsArr "json list"
  | JsObj "(string \<times> json) list"

definition fld :: "string \<Rightarrow> json \<Rightarrow> json option" where
  "fld k r = (case r of JsObj fs \<Rightarrow> map_of fs k | _ \<Rightarrow> None)"

datatype change_domain = Nodes | Edges | TurnRules | Buildings | Features | Primitives | Objects
  | MetricDefinitions

datatype change_scalar = Earth | GeoFrame | RoadsAuthored | BuildingsAuthored | FeaturesAuthored
  | ChunkSize | Sky | Floor | RoadGeometryVersion | AssetMetricsVersion

definition CHANGE_DOMAINS :: "change_domain list" where
  "CHANGE_DOMAINS = [Nodes, Edges, TurnRules, Buildings, Features, Primitives, Objects, MetricDefinitions]"

definition CHANGE_SCALARS :: "change_scalar list" where
  "CHANGE_SCALARS = [Earth, GeoFrame, RoadsAuthored, BuildingsAuthored, FeaturesAuthored, ChunkSize, Sky,
    Floor, RoadGeometryVersion, AssetMetricsVersion]"

record doc_env =
  to_text :: "json option \<Rightarrow> string" \<comment> \<open>\<open>String(v)\<close>; none is undefined\<close>
  to_num :: "json \<Rightarrow> rat option" \<comment> \<open>\<open>Number(v)\<close> when it is finite\<close>
  clone_record :: "change_domain \<Rightarrow> json \<Rightarrow> json"
  clone_scalar :: "change_scalar \<Rightarrow> json \<Rightarrow> json"
  record_order :: "change_domain \<Rightarrow> json \<Rightarrow> json \<Rightarrow> int"

definition present :: "json option \<Rightarrow> bool" where
  "present v = (v \<noteq> None \<and> v \<noteq> Some JsNull)"

definition domainKeyOf :: "doc_env \<Rightarrow> change_domain \<Rightarrow> json \<Rightarrow> string option" where
  "domainKeyOf env d r =
    (if r = JsNull then None
     else case d of
         MetricDefinitions \<Rightarrow>
           (case (fld ''assetId'' r, fld ''revision'' r) of
              (Some a, Some v) \<Rightarrow> Some (to_text env (Some a) @ ''@''
                @ to_text env (map_option JsNum (to_num env v)))
            | _ \<Rightarrow> None)
       | Buildings \<Rightarrow>
           if present (fld ''buildingId'' r) then Some (to_text env (fld ''buildingId'' r)) else None
       | TurnRules \<Rightarrow> Some (to_text env (fld ''nodeId'' r) @ [CHR 0x00] @ to_text env (fld ''fromEdgeId'' r)
           @ [CHR 0x00] @ to_text env (fld ''toEdgeId'' r))
       | _ \<Rightarrow> if present (fld ''id'' r) then Some (to_text env (fld ''id'' r)) else None)"

section \<open>Change sets\<close>

record change_meta =
  m_label :: "string option"
  m_source :: string
  m_transient :: bool

type_synonym sides = "(string, json) js_map \<times> (string, json) js_map"

record change_set =
  cs_domains :: "(change_domain, sides) js_map"
  cs_scalars :: "(change_scalar, json \<times> json) js_map"
  cs_meta :: change_meta

definition createEmptyChangeSet :: "change_meta \<Rightarrow> change_set" where
  "createEmptyChangeSet meta = \<lparr>cs_domains = [], cs_scalars = [], cs_meta = meta\<rparr>"

definition ensureDomain :: "change_set \<Rightarrow> change_domain \<Rightarrow> sides" where
  "ensureDomain cs d = (case map_of (cs_domains cs) d of None \<Rightarrow> ([], []) | Some e \<Rightarrow> e)"

definition recordChange :: "change_domain \<Rightarrow> string \<Rightarrow> json \<Rightarrow> json \<Rightarrow> change_set \<Rightarrow> change_set" where
  "recordChange d key bf af cs =
    (let (b, a) = ensureDomain cs d
     in cs\<lparr>cs_domains := AList.update d
          (if map_has b key then b else AList.update key bf b, AList.update key af a) (cs_domains cs)\<rparr>)"

definition recordScalarChange :: "change_scalar \<Rightarrow> json \<Rightarrow> json \<Rightarrow> change_set \<Rightarrow> change_set" where
  "recordScalarChange name bf af cs =
    cs\<lparr>cs_scalars := AList.update name
      (case map_of (cs_scalars cs) name of None \<Rightarrow> (bf, af) | Some (b, _) \<Rightarrow> (b, af)) (cs_scalars cs)\<rparr>"

definition isEmptyChangeSet :: "change_set \<Rightarrow> bool" where
  "isEmptyChangeSet cs = (cs_domains cs = [] \<and> cs_scalars cs = [])"

definition changedKeys :: "change_set \<Rightarrow> change_domain \<Rightarrow> string list" where
  "changedKeys cs d = (case map_of (cs_domains cs) d of None \<Rightarrow> [] | Some (_, a) \<Rightarrow> map_keys a)"

definition hasDomainChanges :: "change_set \<Rightarrow> change_domain list \<Rightarrow> bool" where
  "hasDomainChanges cs ds = (\<exists>d \<in> set ds. map_has (cs_domains cs) d)"

definition side_get :: "(string, json) js_map \<Rightarrow> string \<Rightarrow> json" where
  "side_get m k = (case map_of m k of None \<Rightarrow> JsNull | Some v \<Rightarrow> v)"

definition merge_from :: "change_set \<Rightarrow> change_set \<Rightarrow> change_set" where
  "merge_from src merged =
    fold (\<lambda>(name, b, a). recordScalarChange name b a) (cs_scalars src)
      (fold (\<lambda>(d, b, a). fold (\<lambda>k. recordChange d k (side_get b k) (side_get a k)) (map_keys a))
        (cs_domains src) merged)"

definition mergeChangeSets :: "change_set \<Rightarrow> change_set \<Rightarrow> change_meta \<Rightarrow> change_set" where
  "mergeChangeSets base nx meta = merge_from nx (merge_from base (createEmptyChangeSet meta))"

definition invertChangeSet :: "change_set \<Rightarrow> change_meta \<Rightarrow> change_set" where
  "invertChangeSet cs meta =
    fold (\<lambda>(name, b, a). recordScalarChange name a b) (cs_scalars cs)
      (fold (\<lambda>(d, b, a). fold (\<lambda>k. recordChange d k (side_get a k) (side_get b k)) (map_keys a))
        (cs_domains cs) (createEmptyChangeSet meta))"

section \<open>The document\<close>

text \<open>
  A document holds the records of each domain and its scalars (\<open>JsNull\<close> when unset). A document
  without asset metrics has a null \<open>AssetMetricsVersion\<close>.
\<close>

record editor_doc =
  doc_records :: "change_domain \<Rightarrow> json list"
  doc_scalar :: "change_scalar \<Rightarrow> json"
  doc_version :: nat

record doc_snapshot =
  sn_records :: "change_domain \<Rightarrow> json list"
  sn_scalar :: "change_scalar \<Rightarrow> json"

datatype doc_error = BadMetricsVersion

fun text_less :: "nat list \<Rightarrow> nat list \<Rightarrow> bool" where
  "text_less [] ys = (ys \<noteq> [])"
| "text_less (x # xs) [] = False"
| "text_less (x # xs) (y # ys) = (x < y \<or> x = y \<and> text_less xs ys)"

definition compareTurnRules :: "doc_env \<Rightarrow> json \<Rightarrow> json \<Rightarrow> int" where
  "compareTurnRules env l r =
    (let key = \<lambda>x. the (domainKeyOf env TurnRules x);
         codes = (\<lambda>x. map of_char (key x) :: nat list)
     in if key l = key r then 0 else if text_less (codes l) (codes r) then -1 else 1)"

text \<open>The order a domain is kept in, if it has one.\<close>

definition canonical_order :: "doc_env \<Rightarrow> change_domain \<Rightarrow> json list \<Rightarrow> json list" where
  "canonical_order env d rs =
    (case d of TurnRules \<Rightarrow> sort_by (compareTurnRules env) rs
     | Objects \<Rightarrow> sort_by (record_order env Objects) rs
     | MetricDefinitions \<Rightarrow> sort_by (record_order env MetricDefinitions) rs
     | _ \<Rightarrow> rs)"

text \<open>\<open>earth\<close>, \<open>geoFrame\<close>, \<open>sky\<close> and \<open>floor\<close> are copied through their own module's canonical form.\<close>

definition copied :: "change_scalar \<Rightarrow> bool" where
  "copied s = (s = Earth \<or> s = GeoFrame \<or> s = Sky \<or> s = Floor)"

definition copy_scalar :: "doc_env \<Rightarrow> change_scalar \<Rightarrow> json \<Rightarrow> json" where
  "copy_scalar env s v = (if copied s \<and> v \<noteq> JsNull then clone_scalar env s v else v)"

definition snapshot :: "doc_env \<Rightarrow> editor_doc \<Rightarrow> doc_snapshot" where
  "snapshot env doc =
    \<lparr>sn_records = (\<lambda>d.
        if d = MetricDefinitions
        then (if doc_scalar doc AssetMetricsVersion = JsNull then []
          else canonical_order env d (map (clone_record env d) (doc_records doc d)))
        else map (clone_record env d) (doc_records doc d)),
     sn_scalar = (\<lambda>s. copy_scalar env s (doc_scalar doc s))\<rparr>"

definition version_scalar :: "doc_env \<Rightarrow> json \<Rightarrow> json" where
  "version_scalar env v =
    (if v = JsNull \<or> to_num env v = Some 1 then JsNull
     else case to_num env v of Some n \<Rightarrow> JsNum n | None \<Rightarrow> JsNull)"

text \<open>A snapshot without a sky leaves the current sky untouched.\<close>

definition restore_scalar :: "doc_env \<Rightarrow> change_scalar \<Rightarrow> json \<Rightarrow> json \<Rightarrow> json" where
  "restore_scalar env s v old =
    (case s of
       ChunkSize \<Rightarrow> if v = JsNull then old else v
     | Sky \<Rightarrow> if v = JsNull then old else clone_scalar env Sky v
     | RoadGeometryVersion \<Rightarrow> version_scalar env v
     | RoadsAuthored \<Rightarrow> JsBool (v = JsBool True)
     | BuildingsAuthored \<Rightarrow> JsBool (v = JsBool True)
     | FeaturesAuthored \<Rightarrow> JsBool (v = JsBool True)
     | _ \<Rightarrow> copy_scalar env s v)"

definition restoreSnapshot :: "doc_env \<Rightarrow> doc_snapshot \<Rightarrow> editor_doc \<Rightarrow> editor_doc" where
  "restoreSnapshot env sn doc = doc\<lparr>
    doc_records := (\<lambda>d.
      if d = MetricDefinitions \<and> sn_scalar sn AssetMetricsVersion = JsNull then []
      else if d = TurnRules \<or> d = MetricDefinitions
      then canonical_order env d (map (clone_record env d) (sn_records sn d))
      else map (clone_record env d) (sn_records sn d)),
    doc_scalar := (\<lambda>s. restore_scalar env s (sn_scalar sn s) (doc_scalar doc s))\<rparr>"

definition replace_one :: "doc_env \<Rightarrow> change_domain \<Rightarrow> string \<times> json \<Rightarrow> json list \<Rightarrow> json list" where
  "replace_one env d = (\<lambda>(key, r) rs.
    (case List.find (\<lambda>i. domainKeyOf env d (rs ! i) = Some key) [0..<length rs] of
       None \<Rightarrow> if r = JsNull then rs else rs @ [clone_record env d r]
     | Some i \<Rightarrow> if r = JsNull then take i rs @ drop (Suc i) rs else rs[i := clone_record env d r]))"

text \<open>Touching the metric definitions of a document without asset metrics creates them.\<close>

definition replaceDomainRecords :: "doc_env \<Rightarrow> change_domain \<Rightarrow> (string, json) js_map \<Rightarrow> editor_doc \<Rightarrow> editor_doc" where
  "replaceDomainRecords env d es doc =
    (let doc1 = (if d = MetricDefinitions \<and> doc_scalar doc AssetMetricsVersion = JsNull
           then doc\<lparr>doc_scalar := (doc_scalar doc)(AssetMetricsVersion := JsNum 1)\<rparr> else doc)
     in doc1\<lparr>doc_records := (doc_records doc1)(d :=
          canonical_order env d (fold (replace_one env d) es (doc_records doc1 d)))\<rparr>)"

definition setScalar :: "doc_env \<Rightarrow> change_scalar \<Rightarrow> json \<Rightarrow> editor_doc \<Rightarrow> (doc_error, editor_doc) result" where
  "setScalar env name v doc =
    (let put = \<lambda>w. Inr (doc\<lparr>doc_scalar := (doc_scalar doc)(name := w)\<rparr>) in
     case name of
       ChunkSize \<Rightarrow> put (case to_num env v of Some n \<Rightarrow> JsNum n | None \<Rightarrow> doc_scalar doc ChunkSize)
     | RoadGeometryVersion \<Rightarrow>
         put (version_scalar env v)
     | AssetMetricsVersion \<Rightarrow>
         if v = JsNull
         then Inr (doc\<lparr>doc_scalar := (doc_scalar doc)(AssetMetricsVersion := JsNull),
           doc_records := (doc_records doc)(MetricDefinitions := [])\<rparr>)
         else (case to_num env v of
             Some n \<Rightarrow> if n < 1 \<or> of_int \<lfloor>n\<rfloor> \<noteq> n then Inl BadMetricsVersion else put (JsNum n)
           | None \<Rightarrow> Inl BadMetricsVersion)
     | RoadsAuthored \<Rightarrow> put (JsBool (v = JsBool True))
     | BuildingsAuthored \<Rightarrow> put (JsBool (v = JsBool True))
     | FeaturesAuthored \<Rightarrow> put (JsBool (v = JsBool True))
     | _ \<Rightarrow> put (if v = JsNull then JsNull else clone_scalar env name v))"

section \<open>Differences\<close>

definition indexRecords :: "doc_env \<Rightarrow> change_domain \<Rightarrow> json list \<Rightarrow> (string, json) js_map" where
  "indexRecords env d rs =
    fold (\<lambda>r m. case domainKeyOf env d r of None \<Rightarrow> m | Some k \<Rightarrow> AList.update k r m) rs []"

text \<open>\<open>new Set([...a.keys(), ...b.keys()])\<close> iterates in the order of first occurrence.\<close>

definition key_union :: "'k list \<Rightarrow> 'k list \<Rightarrow> 'k list" where
  "key_union ks ls = ks @ filter (\<lambda>k. k \<notin> set ks) ls"

definition diff_domain ::
  "change_domain \<Rightarrow> (string, json) js_map \<Rightarrow> (string, json) js_map \<Rightarrow> change_set \<Rightarrow> change_set" where
  "diff_domain d b a cs =
    fold (\<lambda>k cs. if side_get b k \<noteq> side_get a k then recordChange d k (side_get b k) (side_get a k) cs else cs)
      (key_union (map_keys b) (map_keys a)) cs"

definition diffSnapshots :: "doc_env \<Rightarrow> doc_snapshot \<Rightarrow> doc_snapshot \<Rightarrow> change_meta \<Rightarrow> change_set" where
  "diffSnapshots env b a meta =
    fold (\<lambda>s cs. if sn_scalar b s \<noteq> sn_scalar a s
        then recordScalarChange s (sn_scalar b s) (sn_scalar a s) cs else cs) CHANGE_SCALARS
      (fold (\<lambda>d. diff_domain d (indexRecords env d (sn_records b d)) (indexRecords env d (sn_records a d)))
        CHANGE_DOMAINS (createEmptyChangeSet meta))"

datatype side = Before | After

definition pick_side :: "side \<Rightarrow> 'a \<times> 'a \<Rightarrow> 'a" where
  "pick_side s p = (case s of Before \<Rightarrow> fst p | After \<Rightarrow> snd p)"

definition apply_sides :: "doc_env \<Rightarrow> change_set \<Rightarrow> side \<Rightarrow> editor_doc \<Rightarrow> (doc_error, editor_doc) result" where
  "apply_sides env cs side doc =
    res_fold (\<lambda>doc (name, p). setScalar env name (pick_side side p) doc)
      (fold (\<lambda>(d, p). replaceDomainRecords env d (pick_side side p)) (cs_domains cs) doc) (cs_scalars cs)"

text \<open>\<open>transaction\<close> at the outermost level: one notification when something changed.\<close>

definition transaction ::
  "doc_env \<Rightarrow> (editor_doc \<Rightarrow> 'a \<times> editor_doc) \<Rightarrow> change_meta \<Rightarrow> editor_doc \<Rightarrow> 'a \<times> change_set option \<times> editor_doc" where
  "transaction env f meta doc =
    (case f doc of (r, doc1) \<Rightarrow>
      let cs = diffSnapshots env (snapshot env doc) (snapshot env doc1) meta
      in if isEmptyChangeSet cs then (r, None, doc1)
         else (r, Some cs, doc1\<lparr>doc_version := doc_version doc1 + 1\<rparr>))"

definition applyChangeSet :: "doc_env \<Rightarrow> change_set \<Rightarrow> side \<Rightarrow> change_meta \<Rightarrow> editor_doc \<Rightarrow> (doc_error, editor_doc) result" where
  "applyChangeSet env cs side meta doc =
    (case transaction env (\<lambda>d. case apply_sides env cs side d of Inl e \<Rightarrow> (Some e, d) | Inr d' \<Rightarrow> (None, d')) meta doc of
       (Some e, _, _) \<Rightarrow> Inl e | (None, _, doc') \<Rightarrow> Inr doc')"

section \<open>Well-formed documents\<close>

text \<open>
  The records of a domain have distinct keys and are in their canonical form, scalars are values
  that setting them again leaves alone, and there are definitions only with asset metrics.
\<close>

definition keyed :: "doc_env \<Rightarrow> change_domain \<Rightarrow> json list \<Rightarrow> bool" where
  "keyed env d rs \<longleftrightarrow> distinct (map (domainKeyOf env d) rs)
    \<and> list_all (\<lambda>r. r \<noteq> JsNull \<and> domainKeyOf env d r \<noteq> None \<and> clone_record env d r = r) rs"

definition integral_num :: "doc_env \<Rightarrow> json \<Rightarrow> bool" where
  "integral_num env v = (case v of JsNum n \<Rightarrow> to_num env v = Some n \<and> 1 \<le> n \<and> of_int \<lfloor>n\<rfloor> = n | _ \<Rightarrow> False)"

definition plain_num :: "doc_env \<Rightarrow> json \<Rightarrow> bool" where
  "plain_num env v = (case v of JsNum n \<Rightarrow> to_num env v = Some n | _ \<Rightarrow> False)"

definition scalar_ok :: "doc_env \<Rightarrow> change_scalar \<Rightarrow> json \<Rightarrow> bool" where
  "scalar_ok env s v =
    (case s of
       ChunkSize \<Rightarrow> plain_num env v
     | RoadGeometryVersion \<Rightarrow> v = JsNull \<or> plain_num env v \<and> v \<noteq> JsNum 1
     | AssetMetricsVersion \<Rightarrow> v = JsNull \<or> integral_num env v
     | RoadsAuthored \<Rightarrow> v = JsBool True \<or> v = JsBool False
     | BuildingsAuthored \<Rightarrow> v = JsBool True \<or> v = JsBool False
     | FeaturesAuthored \<Rightarrow> v = JsBool True \<or> v = JsBool False
     | _ \<Rightarrow> v = JsNull \<or> clone_scalar env s v = v)"

definition doc_ok :: "doc_env \<Rightarrow> editor_doc \<Rightarrow> bool" where
  "doc_ok env doc \<longleftrightarrow> (\<forall>d. keyed env d (doc_records doc d)) \<and> (\<forall>s. scalar_ok env s (doc_scalar doc s))
    \<and> (doc_scalar doc AssetMetricsVersion = JsNull \<longrightarrow> doc_records doc MetricDefinitions = [])"

definition rec_at :: "doc_env \<Rightarrow> change_domain \<Rightarrow> json list \<Rightarrow> string \<Rightarrow> json" where
  "rec_at env d rs k =
    (case List.find (\<lambda>r. domainKeyOf env d r = Some k) rs of None \<Rightarrow> JsNull | Some r \<Rightarrow> r)"

text \<open>Two documents agree when they hold the same records under the same keys and the same scalars.\<close>

definition same_doc :: "doc_env \<Rightarrow> editor_doc \<Rightarrow> editor_doc \<Rightarrow> bool" where
  "same_doc env a b \<longleftrightarrow> (\<forall>d. mset (doc_records a d) = mset (doc_records b d)) \<and> doc_scalar a = doc_scalar b"

lemma keyedD:
  assumes "keyed env d rs"
  shows "distinct (map (domainKeyOf env d) rs)" and "r \<in> set rs \<Longrightarrow> r \<noteq> JsNull"
    and "r \<in> set rs \<Longrightarrow> \<exists>k. domainKeyOf env d r = Some k" and "r \<in> set rs \<Longrightarrow> clone_record env d r = r"
  using assms by (auto simp: keyed_def list_all_iff)

lemma keyed_mset: "mset rs = mset qs \<Longrightarrow> keyed env d rs = keyed env d qs"
  unfolding keyed_def list_all_iff
  by (metis mset_eq_imp_distinct_iff mset_map set_mset_mset)

lemma mset_canonical_order [simp]: "mset (canonical_order env d rs) = mset rs"
  by (simp add: canonical_order_def split: change_domain.split)

lemma rec_at_iff:
  assumes "keyed env d rs"
  shows "rec_at env d rs k = r \<longleftrightarrow>
    (if r = JsNull then \<forall>x \<in> set rs. domainKeyOf env d x \<noteq> Some k
     else r \<in> set rs \<and> domainKeyOf env d r = Some k)"
proof (cases "List.find (\<lambda>r. domainKeyOf env d r = Some k) rs")
  case None
  then have "\<forall>x \<in> set rs. domainKeyOf env d x \<noteq> Some k" by (auto simp: find_None_iff)
  moreover have "rec_at env d rs k = JsNull" using None by (simp add: rec_at_def)
  ultimately show ?thesis by (cases "r = JsNull") auto
next
  case (Some x)
  then have x: "x \<in> set rs" "domainKeyOf env d x = Some k" by (auto simp: find_Some_iff)
  then have "y = x" if "y \<in> set rs" "domainKeyOf env d y = Some k" for y
    using keyedD(1) [OF assms] that by (auto simp: distinct_map inj_on_def)
  moreover have "rec_at env d rs k = x" using Some by (simp add: rec_at_def)
  moreover have "x \<noteq> JsNull" by (rule keyedD(2) [OF assms x(1)])
  ultimately show ?thesis using x by (metis (no_types, lifting))
qed

lemma same_records:
  assumes a: "keyed env d rs" and b: "keyed env d qs" and "\<And>k. rec_at env d rs k = rec_at env d qs k"
  shows "mset rs = mset qs"
proof -
  have "r \<in> set rs \<longleftrightarrow> r \<in> set qs" for r
  proof -
    have "r \<in> set ps \<longleftrightarrow> (\<exists>k. domainKeyOf env d r = Some k \<and> r \<noteq> JsNull \<and> rec_at env d ps k = r)"
      if "keyed env d ps" for ps
      using keyedD(2,3) [OF that, of r] rec_at_iff [OF that, of _ r] by (cases "r = JsNull") auto
    then show ?thesis using a b assms(3) by simp
  qed
  moreover have "distinct rs" "distinct qs"
    using keyedD(1) [OF a] keyedD(1) [OF b] by (auto simp: distinct_map)
  ultimately show ?thesis by (metis set_eq_iff set_eq_iff_mset_eq_distinct)
qed

section \<open>Replacing records\<close>

definition change_ok :: "doc_env \<Rightarrow> change_domain \<Rightarrow> string \<times> json \<Rightarrow> bool" where
  "change_ok env d = (\<lambda>(k, r). r = JsNull \<or> clone_record env d r = r \<and> domainKeyOf env d r = Some k)"

lemma find_index:
  assumes "distinct (map f rs)"
  shows "(case List.find (\<lambda>i. f (rs ! i) = k) [0..<length rs] of
      None \<Rightarrow> \<forall>x \<in> set rs. f x \<noteq> k
    | Some i \<Rightarrow> \<exists>xs x ys. rs = xs @ x # ys \<and> f x = k \<and> i = length xs)"
proof (cases "List.find (\<lambda>i. f (rs ! i) = k) [0..<length rs]")
  case None
  then have "\<forall>x \<in> set rs. f x \<noteq> k" by (auto simp: find_None_iff in_set_conv_nth)
  with None show ?thesis by simp
next
  case (Some i)
  then have "i < length rs" "f (rs ! i) = k" by (auto simp: find_Some_iff)
  then have "rs = take i rs @ rs ! i # drop (Suc i) rs \<and> f (rs ! i) = k \<and> i = length (take i rs)"
    using id_take_nth_drop [of i rs] by simp
  then show ?thesis using Some by (simp only: option.case) blast
qed

lemma replace_one_set:
  assumes keyed: "keyed env d rs" and ok: "change_ok env d (k, r)"
  shows "set (replace_one env d (k, r) rs) =
      {x \<in> set rs. domainKeyOf env d x \<noteq> Some k} \<union> (if r = JsNull then {} else {r})"
    and "distinct (map (domainKeyOf env d) (replace_one env d (k, r) rs))"
proof -
  have cl: "clone_record env d r = r" if "r \<noteq> JsNull" using ok that by (simp add: change_ok_def)
  have key: "domainKeyOf env d r = Some k" if "r \<noteq> JsNull" using ok that by (simp add: change_ok_def)
  note D = keyedD(1) [OF keyed]
  have "set (replace_one env d (k, r) rs) =
      {x \<in> set rs. domainKeyOf env d x \<noteq> Some k} \<union> (if r = JsNull then {} else {r})
    \<and> distinct (map (domainKeyOf env d) (replace_one env d (k, r) rs))"
  proof (cases "List.find (\<lambda>i. domainKeyOf env d (rs ! i) = Some k) [0..<length rs]")
    case None
    with find_index [OF D, of "Some k"] have n: "\<forall>x \<in> set rs. domainKeyOf env d x \<noteq> Some k" by simp
    then show ?thesis
      using None D cl key by (auto simp: replace_one_def)
  next
    case (Some i)
    with find_index [OF D, of "Some k"] obtain xs x ys
      where rs: "rs = xs @ x # ys" and x: "domainKeyOf env d x = Some k" and i: "i = length xs" by auto
    have n: "z \<in> set xs \<Longrightarrow> domainKeyOf env d z \<noteq> Some k" "z \<in> set ys \<Longrightarrow> domainKeyOf env d z \<noteq> Some k" for z
      using D x unfolding rs by (auto simp: image_iff)
    have "replace_one env d (k, r) rs = xs @ (if r = JsNull then [] else [r]) @ ys"
      using Some cl unfolding rs by (simp add: replace_one_def i)
    then show ?thesis using D x key n unfolding rs by (auto simp: image_iff)
  qed
  then show "set (replace_one env d (k, r) rs) =
      {x \<in> set rs. domainKeyOf env d x \<noteq> Some k} \<union> (if r = JsNull then {} else {r})"
    and "distinct (map (domainKeyOf env d) (replace_one env d (k, r) rs))" by blast+
qed

lemma replace_one_keyed:
  assumes keyed: "keyed env d rs" and ok: "change_ok env d (k, r)"
  shows "keyed env d (replace_one env d (k, r) rs)"
  using replace_one_set [OF assms] keyed ok
  by (auto simp: keyed_def list_all_iff change_ok_def)

lemma replace_one_at:
  assumes keyed: "keyed env d rs" and ok: "change_ok env d (k, r)"
  shows "rec_at env d (replace_one env d (k, r) rs) k' = (if k' = k then r else rec_at env d rs k')"
proof -
  let ?x = "if k' = k then r else rec_at env d rs k'"
  have "rec_at env d rs k' = rec_at env d rs k'" ..
  then have o1: "if rec_at env d rs k' = JsNull then \<forall>x \<in> set rs. domainKeyOf env d x \<noteq> Some k'
     else rec_at env d rs k' \<in> set rs \<and> domainKeyOf env d (rec_at env d rs k') = Some k'"
    using rec_at_iff [OF keyed, of k' "rec_at env d rs k'"] by simp
  show ?thesis
    unfolding rec_at_iff [OF replace_one_keyed [OF keyed ok]]
    using o1 ok unfolding replace_one_set(1) [OF keyed ok]
    by (auto simp: change_ok_def split: if_splits)
qed

lemma replace_fold:
  assumes "keyed env d rs" and "list_all (change_ok env d) es" and "map_ok es"
  shows "keyed env d (fold (replace_one env d) es rs)
    \<and> (\<forall>k. rec_at env d (fold (replace_one env d) es rs) k =
        (case map_of es k of None \<Rightarrow> rec_at env d rs k | Some r \<Rightarrow> r))"
  using assms
proof (induction es arbitrary: rs)
  case Nil
  then show ?case by simp
next
  case (Cons e es)
  obtain k r where e: "e = (k, r)" by fastforce
  have ok: "change_ok env d (k, r)" using Cons.prems(2) e by simp
  have "map_of es k = None" using Cons.prems(3) e by (simp add: map_of_eq_None_iff)
  then show ?case
    using Cons.IH [OF replace_one_keyed [OF Cons.prems(1) ok]] Cons.prems(2,3)
    by (auto simp: e replace_one_at [OF Cons.prems(1) ok] split: option.splits)
qed

lemma keyed_canonical: "keyed env d (canonical_order env d rs) = keyed env d rs"
  by (rule keyed_mset) simp

lemma rec_at_canonical:
  assumes "keyed env d rs"
  shows "rec_at env d (canonical_order env d rs) k = rec_at env d rs k"
proof -
  have s: "set (canonical_order env d rs) = set rs" by (metis mset_canonical_order set_mset_mset)
  have "rec_at env d rs k = rec_at env d rs k" ..
  then show ?thesis
    unfolding rec_at_iff [OF keyed_canonical [THEN iffD2, OF assms]] s rec_at_iff [OF assms, symmetric] .
qed

section \<open>What a difference holds\<close>

lemma indexRecords_keyed:
  assumes "keyed env d rs"
  shows "indexRecords env d rs = map (\<lambda>r. (the (domainKeyOf env d r), r)) rs"
proof -
  have "fold (\<lambda>r m. case domainKeyOf env d r of None \<Rightarrow> m | Some k \<Rightarrow> AList.update k r m) rs m
      = m @ map (\<lambda>r. (the (domainKeyOf env d r), r)) rs"
    if "distinct (map (domainKeyOf env d) rs)" "\<forall>r \<in> set rs. \<exists>k. domainKeyOf env d r = Some k"
      "\<forall>r \<in> set rs. map_of m (the (domainKeyOf env d r)) = None" for m
    using that
  proof (induction rs arbitrary: m)
    case Nil
    then show ?case by simp
  next
    case (Cons r rs)
    obtain k where k: "domainKeyOf env d r = Some k" using Cons.prems(2) by auto
    have "map_of (m @ [(k, r)]) (the (domainKeyOf env d x)) = None" if x: "x \<in> set rs" for x
    proof -
      obtain kx where kx: "domainKeyOf env d x = Some kx" using Cons.prems(2) x by auto
      then have "kx \<noteq> k" using Cons.prems(1) x k by (force simp: image_iff)
      moreover have "map_of m kx = None" using Cons.prems(3) x kx by force
      ultimately show ?thesis by (simp add: kx map_add_def)
    qed
    moreover have "map_of m k = None" using Cons.prems(3) k by force
    ultimately show ?case
      using Cons.IH [of "m @ [(k, r)]"] Cons.prems(1,2) by (simp add: k map_keys_update_fresh)
  qed
  from this [of "[]"] keyedD(1,3) [OF assms] show ?thesis by (simp add: indexRecords_def)
qed

lemma indexRecords_facts:
  assumes "keyed env d rs"
  shows "map_ok (indexRecords env d rs)" and "side_get (indexRecords env d rs) k = rec_at env d rs k"
    and "k \<in> set (map_keys (indexRecords env d rs)) \<longleftrightarrow> rec_at env d rs k \<noteq> JsNull"
proof -
  let ?ix = "map (\<lambda>r. (the (domainKeyOf env d r), r)) rs"
  have ix: "indexRecords env d rs = ?ix" by (rule indexRecords_keyed [OF assms])
  have inj: "inj_on (\<lambda>r. the (domainKeyOf env d r)) (set rs)"
  proof (rule inj_onI)
    fix x y
    assume xy: "x \<in> set rs" "y \<in> set rs" "the (domainKeyOf env d x) = the (domainKeyOf env d y)"
    then have "domainKeyOf env d x = domainKeyOf env d y"
      using keyedD(3) [OF assms xy(1)] keyedD(3) [OF assms xy(2)] by auto
    moreover have "inj_on (domainKeyOf env d) (set rs)" using keyedD(1) [OF assms] by (simp add: distinct_map)
    ultimately show "x = y" using xy by (simp add: inj_on_def)
  qed
  have "distinct rs" using keyedD(1) [OF assms] by (auto simp: distinct_map)
  with inj show ok: "map_ok (indexRecords env d rs)" by (simp add: ix distinct_map comp_def)
  have mem: "(k, r) \<in> set ?ix \<longleftrightarrow> r \<in> set rs \<and> domainKeyOf env d r = Some k" for k r
    using keyedD(3) [OF assms] by force
  have at: "map_of ?ix k = Some r \<longleftrightarrow> r \<in> set rs \<and> domainKeyOf env d r = Some k" for k r
    using map_of_eq_Some_iff [OF ok, of k r] mem by (simp add: ix)
  show g: "side_get (indexRecords env d rs) k = rec_at env d rs k"
  proof (cases "map_of ?ix k")
    case None
    then have "\<forall>x \<in> set rs. domainKeyOf env d x \<noteq> Some k" using at by (metis option.distinct(1))
    then have "rec_at env d rs k = JsNull" by (subst rec_at_iff [OF assms]) simp
    then show ?thesis by (simp add: side_get_def ix None)
  next
    case (Some r)
    then have "r \<in> set rs \<and> domainKeyOf env d r = Some k" by (simp only: at)
    then have "rec_at env d rs k = r" using keyedD(2) [OF assms] by (subst rec_at_iff [OF assms]) auto
    then show ?thesis by (simp add: side_get_def ix Some)
  qed
  show "k \<in> set (map_keys (indexRecords env d rs)) \<longleftrightarrow> rec_at env d rs k \<noteq> JsNull"
  proof (cases "map_of ?ix k")
    case None
    then have "k \<notin> set (map_keys ?ix)" by (simp only: map_of_eq_None_iff set_map not_False_eq_True)
    moreover have "rec_at env d rs k = JsNull" using g None by (simp only: side_get_def ix option.case)
    ultimately show ?thesis by (simp only: ix) simp
  next
    case (Some r)
    then have "r \<noteq> JsNull" using at keyedD(2) [OF assms] by blast
    have "fst (k, r) \<in> fst ` set ?ix" by (rule imageI [OF map_of_SomeD [OF Some]])
    then have "k \<in> set (map_keys ?ix)" by (simp only: fst_conv set_map)
    moreover have "rec_at env d rs k = r" using g Some by (simp only: side_get_def ix option.case)
    ultimately show ?thesis using \<open>r \<noteq> JsNull\<close> by (simp only: ix) simp
  qed
qed

text \<open>A domain's difference lists the changed keys with both sides, or is absent.\<close>

definition changed :: "(string, json) js_map \<Rightarrow> (string, json) js_map \<Rightarrow> string list" where
  "changed b a = filter (\<lambda>k. side_get b k \<noteq> side_get a k) (key_union (map_keys b) (map_keys a))"

lemma recordChange_fold:
  assumes "distinct ks" and "map_of (cs_domains cs) d = None"
  shows "fold (\<lambda>k. recordChange d k (f k) (g k)) ks cs =
    (if ks = [] then cs else cs\<lparr>cs_domains := cs_domains cs @ [(d, map (\<lambda>k. (k, f k)) ks, map (\<lambda>k. (k, g k)) ks)]\<rparr>)"
proof -
  have more: "fold (\<lambda>k. recordChange d k (f k) (g k)) ks (cs\<lparr>cs_domains := ds @ [(d, B, A)]\<rparr>) =
      cs\<lparr>cs_domains := ds @ [(d, B @ map (\<lambda>k. (k, f k)) ks, A @ map (\<lambda>k. (k, g k)) ks)]\<rparr>"
    if "distinct ks" "d \<notin> set (map fst ds)" "\<forall>k \<in> set ks. k \<notin> set (map fst B) \<and> k \<notin> set (map fst A)" for ds B A ks
    using that
  proof (induction ks arbitrary: B A)
    case Nil
    then show ?case by simp
  next
    case (Cons k ks)
    have up: "AList.update d v (ds @ [(d, w)]) = ds @ [(d, v)]" for v w
      using Cons.prems(2) by (induction ds) auto
    have "map_of (ds @ [(d, B, A)]) d = Some (B, A)"
      using Cons.prems(2) by (simp add: map_of_eq_None_iff [THEN iffD2] map_add_def)
    moreover have "map_of B k = None" "map_of A k = None"
      using Cons.prems(3) by (auto simp: map_of_eq_None_iff)
    ultimately have "recordChange d k (f k) (g k) (cs\<lparr>cs_domains := ds @ [(d, B, A)]\<rparr>)
        = cs\<lparr>cs_domains := ds @ [(d, B @ [(k, f k)], A @ [(k, g k)])]\<rparr>"
      by (simp add: recordChange_def ensureDomain_def up map_keys_update_fresh)
    then show ?case using Cons.IH [of "B @ [(k, f k)]" "A @ [(k, g k)]"] Cons.prems by auto
  qed
  show ?thesis
  proof (cases ks)
    case Nil
    then show ?thesis by simp
  next
    case (Cons k rest)
    have "recordChange d k (f k) (g k) cs = cs\<lparr>cs_domains := cs_domains cs @ [(d, [(k, f k)], [(k, g k)])]\<rparr>"
      using assms(2) by (simp add: recordChange_def ensureDomain_def map_keys_update_fresh)
    then show ?thesis
      using more [of rest "cs_domains cs" "[(k, f k)]" "[(k, g k)]"] assms Cons
      by (auto simp: map_of_eq_None_iff)
  qed
qed

lemma fold_filter: "fold (\<lambda>x s. if P x then f x s else s) xs s = fold f (filter P xs) s"
  by (induction xs arbitrary: s) auto

lemma distinct_key_union: "distinct ks \<Longrightarrow> distinct ls \<Longrightarrow> distinct (key_union ks ls)"
  by (auto simp: key_union_def)

lemma diff_domain_eq:
  assumes "map_ok b" and "map_ok a" and "map_of (cs_domains cs) d = None"
  shows "diff_domain d b a cs = (if changed b a = [] then cs
    else cs\<lparr>cs_domains := cs_domains cs @ [(d, map (\<lambda>k. (k, side_get b k)) (changed b a),
      map (\<lambda>k. (k, side_get a k)) (changed b a))]\<rparr>)"
  unfolding diff_domain_def fold_filter changed_def [symmetric]
  by (rule recordChange_fold [OF _ assms(3)]) (simp add: changed_def distinct_key_union assms)

lemma diff_domains_eq:
  assumes "distinct ds" and "\<forall>d. map_ok (b d) \<and> map_ok (a d)" and "\<forall>d \<in> set ds. map_of (cs_domains cs) d = None"
  shows "fold (\<lambda>d. diff_domain d (b d) (a d)) ds cs =
    cs\<lparr>cs_domains := cs_domains cs @ map (\<lambda>d. (d, map (\<lambda>k. (k, side_get (b d) k)) (changed (b d) (a d)),
      map (\<lambda>k. (k, side_get (a d) k)) (changed (b d) (a d)))) (filter (\<lambda>d. changed (b d) (a d) \<noteq> []) ds)\<rparr>"
  using assms
proof (induction ds arbitrary: cs)
  case Nil
  then show ?case by simp
next
  case (Cons d ds)
  show ?case
  proof (cases "changed (b d) (a d) = []")
    case True
    then show ?thesis using Cons by (simp add: diff_domain_eq)
  next
    case False
    let ?cs = "cs\<lparr>cs_domains := cs_domains cs @ [(d, map (\<lambda>k. (k, side_get (b d) k)) (changed (b d) (a d)),
      map (\<lambda>k. (k, side_get (a d) k)) (changed (b d) (a d)))]\<rparr>"
    have "\<forall>d' \<in> set ds. map_of (cs_domains ?cs) d' = None"
      using Cons.prems by (auto simp: map_of_eq_None_iff)
    then show ?thesis
      using Cons.IH [of ?cs] Cons.prems False by (simp add: diff_domain_eq)
  qed
qed

lemma diff_scalars_eq:
  assumes "distinct ss" and "\<forall>s \<in> set ss. map_of (cs_scalars cs) s = None"
  shows "fold (\<lambda>s cs. if f s \<noteq> g s then recordScalarChange s (f s) (g s) cs else cs) ss cs =
    cs\<lparr>cs_scalars := cs_scalars cs @ map (\<lambda>s. (s, f s, g s)) (filter (\<lambda>s. f s \<noteq> g s) ss)\<rparr>"
  using assms
proof (induction ss arbitrary: cs)
  case Nil
  then show ?case by simp
next
  case (Cons s ss)
  let ?cs = "cs\<lparr>cs_scalars := cs_scalars cs @ [(s, f s, g s)]\<rparr>"
  have r: "recordScalarChange s (f s) (g s) cs = ?cs"
    using Cons.prems(2) by (simp add: recordScalarChange_def map_keys_update_fresh)
  have "\<forall>s' \<in> set ss. map_of (cs_scalars ?cs) s' = None"
    using Cons.prems by (auto simp: map_of_eq_None_iff)
  then show ?case using Cons.IH [of ?cs] Cons.IH [of cs] Cons.prems r by simp
qed

section \<open>Applying a difference\<close>

lemma setScalar_ok:
  assumes "scalar_ok env s v"
  shows "setScalar env s v doc = Inr (doc\<lparr>doc_scalar := (doc_scalar doc)(s := v),
    doc_records := (if s = AssetMetricsVersion \<and> v = JsNull then (doc_records doc)(MetricDefinitions := [])
      else doc_records doc)\<rparr>)"
proof (cases s)
  case ChunkSize
  then show ?thesis using assms by (cases v) (auto simp: scalar_ok_def plain_num_def setScalar_def)
next
  case RoadGeometryVersion
  then show ?thesis using assms
    by (cases v) (auto simp: scalar_ok_def plain_num_def setScalar_def version_scalar_def)
next
  case AssetMetricsVersion
  then show ?thesis using assms
    by (cases v) (auto simp: scalar_ok_def integral_num_def setScalar_def)
qed (use assms in \<open>auto simp: scalar_ok_def setScalar_def\<close>)

lemma apply_scalars:
  assumes "distinct ss" and "\<forall>s \<in> set ss. scalar_ok env s (pick_side side (f s))"
  shows "res_fold (\<lambda>doc (name, p). setScalar env name (pick_side side p) doc) doc (map (\<lambda>s. (s, f s)) ss) =
    Inr (doc\<lparr>doc_scalar := (\<lambda>s. if s \<in> set ss then pick_side side (f s) else doc_scalar doc s),
      doc_records := (if AssetMetricsVersion \<in> set ss \<and> pick_side side (f AssetMetricsVersion) = JsNull
        then (doc_records doc)(MetricDefinitions := []) else doc_records doc)\<rparr>)"
  using assms
proof (induction ss arbitrary: doc)
  case Nil
  then show ?case by simp
next
  case (Cons s ss)
  let ?d = "doc\<lparr>doc_scalar := (doc_scalar doc)(s := pick_side side (f s)),
    doc_records := (if s = AssetMetricsVersion \<and> pick_side side (f s) = JsNull
      then (doc_records doc)(MetricDefinitions := []) else doc_records doc)\<rparr>"
  have "setScalar env s (pick_side side (f s)) doc = Inr ?d"
    using Cons.prems(2) by (intro setScalar_ok) simp
  moreover have "(\<lambda>x. if x \<in> set ss then pick_side side (f x) else doc_scalar ?d x)
      = (\<lambda>x. if x \<in> set (s # ss) then pick_side side (f x) else doc_scalar doc x)"
    by (auto simp: fun_eq_iff)
  ultimately show ?case using Cons.IH [of ?d] Cons.prems by (auto simp: fun_eq_iff)
qed

lemma replaceDomain_spec:
  assumes "keyed env d (doc_records doc d)" and "list_all (change_ok env d) es" and "map_ok es"
  shows "keyed env d (doc_records (replaceDomainRecords env d es doc) d)"
    and "rec_at env d (doc_records (replaceDomainRecords env d es doc) d) k =
      (case map_of es k of None \<Rightarrow> rec_at env d (doc_records doc d) k | Some r \<Rightarrow> r)"
    and "d' \<noteq> d \<Longrightarrow> doc_records (replaceDomainRecords env d es doc) d' = doc_records doc d'"
    and "doc_scalar (replaceDomainRecords env d es doc) =
      (if d = MetricDefinitions \<and> doc_scalar doc AssetMetricsVersion = JsNull
       then (doc_scalar doc)(AssetMetricsVersion := JsNum 1) else doc_scalar doc)"
  using replace_fold [OF assms] rec_at_canonical [of env d "fold (replace_one env d) es (doc_records doc d)" k]
  by (auto simp: replaceDomainRecords_def Let_def keyed_canonical)

lemma apply_domains:
  assumes "distinct (map fst ps)" and "\<forall>d. keyed env d (doc_records doc d)"
    and "\<forall>(d, p) \<in> set ps. list_all (change_ok env d) (pick_side side p) \<and> map_ok (pick_side side p)"
  defines "doc' \<equiv> fold (\<lambda>(d, p). replaceDomainRecords env d (pick_side side p)) ps doc"
  shows "(\<forall>d. keyed env d (doc_records doc' d))
    \<and> (\<forall>d k. rec_at env d (doc_records doc' d) k = (case map_of ps d of
          None \<Rightarrow> rec_at env d (doc_records doc d) k
        | Some p \<Rightarrow> (case map_of (pick_side side p) k of None \<Rightarrow> rec_at env d (doc_records doc d) k | Some r \<Rightarrow> r)))
    \<and> (\<forall>s. s = AssetMetricsVersion \<and> map_has ps MetricDefinitions \<or> doc_scalar doc' s = doc_scalar doc s)"
  using assms(1-3) unfolding doc'_def
proof (induction ps arbitrary: doc)
  case Nil
  then show ?case by simp
next
  case (Cons x ps)
  obtain d p where x: "x = (d, p)" by (rule prod.exhaust)
  let ?doc = "replaceDomainRecords env d (pick_side side p) doc"
  have ok: "list_all (change_ok env d) (pick_side side p)" "map_ok (pick_side side p)"
    using Cons.prems(3) x by auto
  note S = replaceDomain_spec [OF Cons.prems(2) [THEN spec] ok]
  have nd: "map_of ps d = None" using Cons.prems(1) x by (simp add: map_of_eq_None_iff)
  have k: "\<forall>d'. keyed env d' (doc_records ?doc d')"
  proof
    fix d'
    show "keyed env d' (doc_records ?doc d')"
      using S(1,3) Cons.prems(2) by (cases "d' = d") auto
  qed
  have IH: "(\<forall>d'. keyed env d' (doc_records (fold (\<lambda>(d, p). replaceDomainRecords env d (pick_side side p)) ps ?doc) d'))
    \<and> (\<forall>d' k. rec_at env d' (doc_records (fold (\<lambda>(d, p). replaceDomainRecords env d (pick_side side p)) ps ?doc) d') k =
        (case map_of ps d' of
          None \<Rightarrow> rec_at env d' (doc_records ?doc d') k
        | Some p \<Rightarrow> (case map_of (pick_side side p) k of None \<Rightarrow> rec_at env d' (doc_records ?doc d') k | Some r \<Rightarrow> r)))
    \<and> (\<forall>s. s = AssetMetricsVersion \<and> map_has ps MetricDefinitions
        \<or> doc_scalar (fold (\<lambda>(d, p). replaceDomainRecords env d (pick_side side p)) ps ?doc) s = doc_scalar ?doc s)"
    using Cons.IH [OF _ k] Cons.prems(1,3) x by auto
  show ?case
    unfolding x fold_simps prod.case
  proof (intro conjI allI)
    fix d' k
    show "rec_at env d' (doc_records (fold (\<lambda>(d, p). replaceDomainRecords env d (pick_side side p)) ps ?doc) d') k =
        (case map_of ((d, p) # ps) d' of
          None \<Rightarrow> rec_at env d' (doc_records doc d') k
        | Some p \<Rightarrow> (case map_of (pick_side side p) k of None \<Rightarrow> rec_at env d' (doc_records doc d') k | Some r \<Rightarrow> r))"
    proof (cases "d' = d")
      case True
      show ?thesis
        unfolding True
        using IH [THEN conjunct2, THEN conjunct1, THEN spec, of d, THEN spec, of k] nd S(2) by simp
    next
      case False
      from S(3) [OF False] IH [THEN conjunct2, THEN conjunct1, THEN spec, of d', THEN spec, of k]
      show ?thesis using False by (simp only: map_of.simps fst_conv snd_conv fun_upd_apply if_False)
    qed
  next
    fix s
    show "s = AssetMetricsVersion \<and> map_has ((d, p) # ps) MetricDefinitions
      \<or> doc_scalar (fold (\<lambda>(d, p). replaceDomainRecords env d (pick_side side p)) ps ?doc) s = doc_scalar doc s"
      using IH [THEN conjunct2, THEN conjunct2, THEN spec, of s] S(4) by (auto split: if_splits)
  qed (use IH in blast)
qed

lemma snapshot_records:
  assumes ok: "doc_ok env a"
  shows "keyed env d (sn_records (snapshot env a) d)"
    and "rec_at env d (sn_records (snapshot env a) d) k = rec_at env d (doc_records a d) k"
    and "sn_scalar (snapshot env a) = doc_scalar a"
proof -
  have keyed: "keyed env d (doc_records a d)" for d using ok by (simp add: doc_ok_def)
  have cl: "map (clone_record env d) (doc_records a d) = doc_records a d" for d
    using keyedD(4) [OF keyed] by (simp add: map_idI)
  have "sn_records (snapshot env a) d = doc_records a d \<or>
    sn_records (snapshot env a) d = canonical_order env d (doc_records a d)"
    using ok by (auto simp: snapshot_def cl doc_ok_def)
  then show "keyed env d (sn_records (snapshot env a) d)"
    and "rec_at env d (sn_records (snapshot env a) d) k = rec_at env d (doc_records a d) k"
    using keyed rec_at_canonical by (auto simp: keyed_canonical)
  have "copied s \<Longrightarrow> doc_scalar a s \<noteq> JsNull \<Longrightarrow> clone_scalar env s (doc_scalar a s) = doc_scalar a s" for s
    using ok by (cases s) (auto simp: doc_ok_def copied_def scalar_ok_def split: change_scalar.splits)
  then show "sn_scalar (snapshot env a) = doc_scalar a"
    by (auto simp: snapshot_def copy_scalar_def fun_eq_iff)
qed

definition diff_at :: "doc_env \<Rightarrow> editor_doc \<Rightarrow> editor_doc \<Rightarrow> change_domain \<Rightarrow> string list" where
  "diff_at env a b d = changed (indexRecords env d (sn_records (snapshot env a) d))
    (indexRecords env d (sn_records (snapshot env b) d))"

lemma diff_shape:
  assumes a: "doc_ok env a" and b: "doc_ok env b"
  shows "cs_domains (diffSnapshots env (snapshot env a) (snapshot env b) meta) =
      map (\<lambda>d. (d, map (\<lambda>k. (k, rec_at env d (doc_records a d) k)) (diff_at env a b d),
        map (\<lambda>k. (k, rec_at env d (doc_records b d) k)) (diff_at env a b d)))
        (filter (\<lambda>d. diff_at env a b d \<noteq> []) CHANGE_DOMAINS)"
    and "cs_scalars (diffSnapshots env (snapshot env a) (snapshot env b) meta) =
      map (\<lambda>s. (s, doc_scalar a s, doc_scalar b s)) (filter (\<lambda>s. doc_scalar a s \<noteq> doc_scalar b s) CHANGE_SCALARS)"
proof -
  let ?A = "\<lambda>d. indexRecords env d (sn_records (snapshot env a) d)"
  let ?B = "\<lambda>d. indexRecords env d (sn_records (snapshot env b) d)"
  have mo: "\<forall>d. map_ok (?A d) \<and> map_ok (?B d)"
    using indexRecords_facts(1) snapshot_records(1) a b by blast
  have gets: "side_get (?A d) k = rec_at env d (doc_records a d) k" "side_get (?B d) k = rec_at env d (doc_records b d) k" for d k
    using indexRecords_facts(2) snapshot_records(1,2) a b by metis+
  have "distinct CHANGE_DOMAINS" by (simp add: CHANGE_DOMAINS_def)
  from diff_domains_eq [OF this mo, of "createEmptyChangeSet meta"]
  have D: "fold (\<lambda>d. diff_domain d (?A d) (?B d)) CHANGE_DOMAINS (createEmptyChangeSet meta) =
    (createEmptyChangeSet meta)\<lparr>cs_domains := map (\<lambda>d. (d, map (\<lambda>k. (k, rec_at env d (doc_records a d) k)) (diff_at env a b d),
        map (\<lambda>k. (k, rec_at env d (doc_records b d) k)) (diff_at env a b d)))
        (filter (\<lambda>d. diff_at env a b d \<noteq> []) CHANGE_DOMAINS)\<rparr>"
    by (simp add: createEmptyChangeSet_def gets diff_at_def)
  have "distinct CHANGE_SCALARS" by (simp add: CHANGE_SCALARS_def)
  then have S: "fold (\<lambda>s cs. if doc_scalar a s \<noteq> doc_scalar b s
        then recordScalarChange s (doc_scalar a s) (doc_scalar b s) cs else cs) CHANGE_SCALARS cs =
    cs\<lparr>cs_scalars := cs_scalars cs @ map (\<lambda>s. (s, doc_scalar a s, doc_scalar b s))
      (filter (\<lambda>s. doc_scalar a s \<noteq> doc_scalar b s) CHANGE_SCALARS)\<rparr>" if "cs_scalars cs = []" for cs
    using that by (intro diff_scalars_eq) simp_all
  show "cs_domains (diffSnapshots env (snapshot env a) (snapshot env b) meta) =
      map (\<lambda>d. (d, map (\<lambda>k. (k, rec_at env d (doc_records a d) k)) (diff_at env a b d),
        map (\<lambda>k. (k, rec_at env d (doc_records b d) k)) (diff_at env a b d)))
        (filter (\<lambda>d. diff_at env a b d \<noteq> []) CHANGE_DOMAINS)"
    and "cs_scalars (diffSnapshots env (snapshot env a) (snapshot env b) meta) =
      map (\<lambda>s. (s, doc_scalar a s, doc_scalar b s)) (filter (\<lambda>s. doc_scalar a s \<noteq> doc_scalar b s) CHANGE_SCALARS)"
    unfolding diffSnapshots_def D snapshot_records(3) [OF a] snapshot_records(3) [OF b]
    by (subst S; simp add: createEmptyChangeSet_def)+
qed

lemma diff_at_facts:
  assumes a: "doc_ok env a" and b: "doc_ok env b"
  shows "distinct (diff_at env a b d)"
    and "k \<in> set (diff_at env a b d) \<longleftrightarrow> rec_at env d (doc_records a d) k \<noteq> rec_at env d (doc_records b d) k"
proof -
  let ?A = "indexRecords env d (sn_records (snapshot env a) d)"
  let ?B = "indexRecords env d (sn_records (snapshot env b) d)"
  note A = indexRecords_facts [OF snapshot_records(1) [OF a, of d]]
    and B = indexRecords_facts [OF snapshot_records(1) [OF b, of d]]
  show "distinct (diff_at env a b d)"
    unfolding diff_at_def changed_def by (intro distinct_filter distinct_key_union A(1) B(1))
  have "k \<in> set (diff_at env a b d) \<longleftrightarrow> side_get ?A k \<noteq> side_get ?B k
      \<and> (k \<in> set (map_keys ?A) \<or> k \<in> set (map_keys ?B))"
    by (auto simp: diff_at_def changed_def key_union_def)
  also have "\<dots> \<longleftrightarrow> rec_at env d (doc_records a d) k \<noteq> rec_at env d (doc_records b d) k"
    unfolding A B snapshot_records(2) [OF a] snapshot_records(2) [OF b] by auto
  finally show "k \<in> set (diff_at env a b d) \<longleftrightarrow> rec_at env d (doc_records a d) k \<noteq> rec_at env d (doc_records b d) k" .
qed

lemma all_domains [simp]: "d \<in> set CHANGE_DOMAINS" "distinct CHANGE_DOMAINS"
  by (cases d) (simp_all add: CHANGE_DOMAINS_def)

lemma all_scalars [simp]: "s \<in> set CHANGE_SCALARS" "distinct CHANGE_SCALARS"
  by (cases s) (simp_all add: CHANGE_SCALARS_def)

lemma map_of_filter_pairs:
  "map_of (map (\<lambda>d. (d, f d)) (filter P xs)) d = (if d \<in> set xs \<and> P d then Some (f d) else None)"
  by (induction xs) auto

lemma apply_domains_scalar:
  assumes "\<not> (doc_scalar doc s = JsNull \<and> s = AssetMetricsVersion)"
  shows "doc_scalar (fold (\<lambda>(d, p). replaceDomainRecords env d (pick_side side p)) ps doc) s = doc_scalar doc s"
  using assms
proof (induction ps arbitrary: doc)
  case (Cons x ps)
  obtain d p where x: "x = (d, p)" by (rule prod.exhaust)
  have "doc_scalar (replaceDomainRecords env d (pick_side side p) doc) s = doc_scalar doc s"
    using Cons.prems by (auto simp: replaceDomainRecords_def Let_def)
  then show ?case using Cons by (simp add: x)
qed simp

lemma rec_at_same:
  assumes "keyed env d rs" and "mset rs = mset qs"
  shows "rec_at env d qs k = rec_at env d rs k"
proof -
  have s: "set rs = set qs" using assms(2) by (metis set_mset_mset)
  have q: "keyed env d qs" using assms keyed_mset by blast
  have "rec_at env d rs k = rec_at env d rs k" ..
  then show ?thesis unfolding rec_at_iff [OF q] s [symmetric] rec_at_iff [OF assms(1), symmetric] .
qed

text \<open>A side of a difference, applied to a document that agrees with the other side.\<close>

lemma side_apply:
  assumes a: "doc_ok env a" and b: "doc_ok env b" and u: "doc_ok env u"
    and cs: "cs = diffSnapshots env (snapshot env a) (snapshot env b) meta"
    and tu: "side = Before \<and> t = a \<and> same_doc env b u \<or> side = After \<and> t = b \<and> same_doc env a u"
  shows "\<exists>c. apply_sides env cs side u = Inr c \<and> same_doc env t c \<and> doc_ok env c"
proof -
  let ?ds = "filter (\<lambda>d. diff_at env a b d \<noteq> []) CHANGE_DOMAINS"
  let ?ss = "filter (\<lambda>s. doc_scalar a s \<noteq> doc_scalar b s) CHANGE_SCALARS"
  let ?R = "\<lambda>x d k. rec_at env d (doc_records x d) k"
  have t: "doc_ok env t" using a b tu by auto
  have ku: "\<forall>d. keyed env d (doc_records u d)" and kt: "keyed env d (doc_records t d)" for d
    using t u by (auto simp: doc_ok_def)
  have pick: "pick_side side (doc_scalar a s, doc_scalar b s) = doc_scalar t s"
    "pick_side side (map (\<lambda>k. (k, ?R a d k)) ks, map (\<lambda>k. (k, ?R b d k)) ks) = map (\<lambda>k. (k, ?R t d k)) ks" for s d ks
    using tu by (auto simp: pick_side_def)
  have su: "same_doc env x u \<Longrightarrow> doc_ok env x \<Longrightarrow> ?R u d k = ?R x d k \<and> doc_scalar u = doc_scalar x" for x d k
    using rec_at_same [of env d "doc_records x d" "doc_records u d" k] by (auto simp: same_doc_def doc_ok_def)
  have chg: "k \<in> set (diff_at env a b d) \<longleftrightarrow> ?R t d k \<noteq> ?R u d k" for d k
    using diff_at_facts(2) [OF a b] tu su a b by auto
  have schg: "doc_scalar a s \<noteq> doc_scalar b s \<longleftrightarrow> doc_scalar t s \<noteq> doc_scalar u s" for s
    using tu su a b by auto
  note D = diff_shape(1) [OF a b, of meta, folded cs] and S = diff_shape(2) [OF a b, of meta, folded cs]
  define v where "v = fold (\<lambda>(d, p). replaceDomainRecords env d (pick_side side p)) (cs_domains cs) u"
  have change: "list_all (change_ok env d) (map (\<lambda>k. (k, ?R t d k)) ks)" for d ks
  proof -
    have "change_ok env d (k, ?R t d k)" for k
      using rec_at_iff [OF kt, of d k "?R t d k"] keyedD(4) [OF kt, of "?R t d k" d]
      by (auto simp: change_ok_def split: if_splits)
    then show ?thesis by (simp add: list_all_iff)
  qed
  have mapof: "map_of (cs_domains cs) d = (if diff_at env a b d = [] then None else
      Some (map (\<lambda>k. (k, ?R a d k)) (diff_at env a b d), map (\<lambda>k. (k, ?R b d k)) (diff_at env a b d)))" for d
    unfolding D map_of_filter_pairs by simp
  have dom: "(\<forall>d. keyed env d (doc_records v d))
    \<and> (\<forall>d k. ?R v d k = (case map_of (cs_domains cs) d of None \<Rightarrow> ?R u d k
        | Some p \<Rightarrow> (case map_of (pick_side side p) k of None \<Rightarrow> ?R u d k | Some r \<Rightarrow> r)))
    \<and> (\<forall>s. s = AssetMetricsVersion \<and> map_has (cs_domains cs) MetricDefinitions \<or> doc_scalar v s = doc_scalar u s)"
    unfolding v_def
  proof (rule apply_domains [OF _ ku])
    show "distinct (map fst (cs_domains cs))"
      unfolding D by (simp add: comp_def)
    show "\<forall>(d, p) \<in> set (cs_domains cs). list_all (change_ok env d) (pick_side side p) \<and> map_ok (pick_side side p)"
      unfolding D using change diff_at_facts(1) [OF a b] by (auto simp: pick comp_def)
  qed
  have recs: "?R v d k = ?R t d k" for d k
  proof -
    have "?R v d k = (if k \<in> set (diff_at env a b d) then ?R t d k else ?R u d k)"
      using dom [THEN conjunct2, THEN conjunct1, THEN spec, of d, THEN spec, of k]
      by (auto simp: mapof pick map_of_map_restrict restrict_map_def)
    then show ?thesis using chg [of k d] by auto
  qed
  have eqrec: "mset (doc_records t d) = mset (doc_records v d)" for d
    by (rule same_records [OF kt]) (use dom recs in auto)
  have sc: "\<forall>s \<in> set ?ss. scalar_ok env s (pick_side side (doc_scalar a s, doc_scalar b s))"
    using t by (auto simp: pick doc_ok_def)
  define c where "c = v\<lparr>doc_scalar := (\<lambda>s. if s \<in> set ?ss then doc_scalar t s else doc_scalar v s),
      doc_records := (if AssetMetricsVersion \<in> set ?ss \<and> doc_scalar t AssetMetricsVersion = JsNull
        then (doc_records v)(MetricDefinitions := []) else doc_records v)\<rparr>"
  have app: "apply_sides env cs side u = Inr c"
    unfolding apply_sides_def v_def [symmetric] S c_def
    by (subst apply_scalars [OF _ sc]) (simp_all only: pick distinct_filter all_scalars)
  have empty: "doc_scalar x AssetMetricsVersion = JsNull \<Longrightarrow> doc_records x MetricDefinitions = []" if "doc_ok env x" for x
    using that by (simp add: doc_ok_def)
  have scal: "doc_scalar c s = doc_scalar t s" for s
  proof (cases "s \<in> set ?ss")
    case True
    then show ?thesis by (simp add: c_def)
  next
    case False
    then have eq: "doc_scalar t s = doc_scalar u s" using schg by auto
    have "doc_scalar v s = doc_scalar u s"
    proof (cases "doc_scalar u s = JsNull \<and> s = AssetMetricsVersion")
      case True
      then have "doc_records t MetricDefinitions = []" "doc_records u MetricDefinitions = []"
        using empty [OF t] empty [OF u] eq by auto
      then have "diff_at env a b MetricDefinitions = []"
        using chg [of _ MetricDefinitions] by (metis all_not_in_conv set_empty)
      then show ?thesis
        using dom [THEN conjunct2, THEN conjunct2, THEN spec, of s] True by (simp add: mapof)
    next
      case False
      show ?thesis unfolding v_def by (rule apply_domains_scalar) (use False in blast)
    qed
    then show ?thesis using False eq by (simp add: c_def)
  qed
  have recc: "mset (doc_records c d) = mset (doc_records t d)" for d
  proof (cases "d = MetricDefinitions \<and> AssetMetricsVersion \<in> set ?ss \<and> doc_scalar t AssetMetricsVersion = JsNull")
    case True
    then show ?thesis using empty [OF t] by (simp add: c_def)
  next
    case False
    then show ?thesis using eqrec [of d] by (auto simp: c_def)
  qed
  have same: "same_doc env t c" using scal recc by (auto simp: same_doc_def fun_eq_iff)
  moreover have "doc_ok env c"
    unfolding doc_ok_def
  proof (intro conjI allI impI)
    show "keyed env d (doc_records c d)" for d using keyed_mset [OF recc] kt by blast
    show "scalar_ok env s (doc_scalar c s)" for s using t by (simp add: scal doc_ok_def)
    show "doc_records c MetricDefinitions = []" if "doc_scalar c AssetMetricsVersion = JsNull"
      using that empty [OF t] recc [of MetricDefinitions] by (simp add: scal)
  qed
  ultimately show ?thesis using app by blast
qed

lemma applyChangeSet_apply:
  assumes "apply_sides env cs side u = Inr c"
  shows "\<exists>c'. applyChangeSet env cs side meta u = Inr c' \<and> doc_records c' = doc_records c \<and> doc_scalar c' = doc_scalar c"
  using assms by (simp add: applyChangeSet_def transaction_def Let_def)

lemma doc_ok_version: "doc_records c' = doc_records c \<Longrightarrow> doc_scalar c' = doc_scalar c \<Longrightarrow> doc_ok env c' = doc_ok env c"
  by (simp add: doc_ok_def)

lemma same_doc_version:
  "doc_records c' = doc_records c \<Longrightarrow> doc_scalar c' = doc_scalar c \<Longrightarrow> same_doc env t c' = same_doc env t c"
  by (simp add: same_doc_def)

lemma same_doc_refl [simp]: "same_doc env a a"
  by (simp add: same_doc_def)

lemma same_doc_sym: "same_doc env a b \<Longrightarrow> same_doc env b a"
  by (simp add: same_doc_def)

lemma same_doc_trans: "same_doc env a b \<Longrightarrow> same_doc env b c \<Longrightarrow> same_doc env a c"
  by (simp add: same_doc_def)

lemma change_applies:
  assumes "doc_ok env a" "doc_ok env b" "doc_ok env u"
    and "cs = diffSnapshots env (snapshot env a) (snapshot env b) meta"
    and "side = Before \<and> t = a \<and> same_doc env b u \<or> side = After \<and> t = b \<and> same_doc env a u"
  obtains c where "applyChangeSet env cs side meta' u = Inr c" and "same_doc env t c" and "doc_ok env c"
proof -
  obtain c where c: "apply_sides env cs side u = Inr c" "same_doc env t c" "doc_ok env c"
    using side_apply [OF assms] by blast
  with applyChangeSet_apply [OF c(1), of meta'] that show thesis
    by (metis doc_ok_version same_doc_version)
qed


section \<open>Documents in use\<close>

definition demo_env :: doc_env where
  "demo_env = \<lparr>to_text = (\<lambda>v. case v of Some (JsStr s) \<Rightarrow> s | _ \<Rightarrow> ''undefined''),
    to_num = (\<lambda>v. case v of JsNum n \<Rightarrow> Some n | _ \<Rightarrow> None),
    clone_record = (\<lambda>_ r. r), clone_scalar = (\<lambda>_ v. v), record_order = (\<lambda>_ _ _. 0)\<rparr>"

definition demo_node :: "string \<Rightarrow> rat \<Rightarrow> json" where
  "demo_node i x = JsObj [(''id'', JsStr i), (''x'', JsNum x)]"

definition demo_doc :: "json list \<Rightarrow> json \<Rightarrow> editor_doc" where
  "demo_doc nodes sky = \<lparr>doc_records = (\<lambda>d. if d = Nodes then nodes else []),
    doc_scalar = (\<lambda>s. case s of ChunkSize \<Rightarrow> JsNum 20 | RoadsAuthored \<Rightarrow> JsBool False | BuildingsAuthored \<Rightarrow> JsBool False
      | FeaturesAuthored \<Rightarrow> JsBool False | Sky \<Rightarrow> sky | _ \<Rightarrow> JsNull), doc_version = 0\<rparr>"

lemma demo_doc_ok:
  assumes "keyed demo_env Nodes nodes"
  shows "doc_ok demo_env (demo_doc nodes sky)"
  using assms unfolding doc_ok_def
  by (auto simp: demo_doc_def keyed_def scalar_ok_def plain_num_def demo_env_def split: change_scalar.split)

lemma demo_keyed:
  "keyed demo_env Nodes [demo_node ''a'' 1, demo_node ''b'' 2]" "keyed demo_env Nodes [demo_node ''b'' 3, demo_node ''c'' 4]"
  by (simp_all add: keyed_def domainKeyOf_def demo_env_def demo_node_def fld_def present_def)


end
