(* ===== verification/CommandBus.thy ===== *)
theory CommandBus
  imports ChangeSets
begin

text \<open>
  \<open>app/3d/editor/commands/CommandBus.js\<close> and \<open>gestureCapture.js\<close>: the editor's only mutation path.
  Commands, validation, reconciliation and the planning of transforms are functions given to the
  operations; selection pruning and subscribers see the state but do not change it. Commands that
  start other commands from inside (nested transactions) are left out.
\<close>

section \<open>Captures\<close>

record gesture_closure =
  cl_issues :: "string list"
  cl_ids :: "change_domain \<Rightarrow> string list"

record capture =
  cap_records :: "(change_domain, (string, json) js_map) js_map"
  cap_scalars :: "(change_scalar, json) js_map"

definition CAPTURE_DOMAINS :: "change_domain list" where
  "CAPTURE_DOMAINS = [Nodes, Edges, Features, Buildings, Primitives, Objects]"

definition cloneInto :: "string \<Rightarrow> json \<Rightarrow> (string, json) js_map \<Rightarrow> (string, json) js_map" where
  "cloneInto key r m = (if r = JsNull then m else AList.update key r m)"

definition captureRecords :: "doc_env \<Rightarrow> gesture_closure \<Rightarrow> editor_doc \<Rightarrow> capture" where
  "captureRecords env cl doc =
    \<lparr>cap_records = map (\<lambda>d. (d, fold (\<lambda>k. cloneInto k (rec_at env d (doc_records doc d) k)) (cl_ids cl d) []))
       CAPTURE_DOMAINS,
     cap_scalars =
       (if cl_ids cl Edges \<noteq> [] \<or> cl_ids cl Nodes \<noteq> []
        then [(RoadGeometryVersion, copy_scalar env RoadGeometryVersion (doc_scalar doc RoadGeometryVersion)),
          (RoadsAuthored, copy_scalar env RoadsAuthored (doc_scalar doc RoadsAuthored))]
        else [])\<rparr>"

definition set_or_keep :: "doc_env \<Rightarrow> change_scalar \<Rightarrow> json \<Rightarrow> editor_doc \<Rightarrow> editor_doc" where
  "set_or_keep env s v doc = (case setScalar env s v doc of Inl _ \<Rightarrow> doc | Inr doc' \<Rightarrow> doc')"

definition restoreRecords :: "doc_env \<Rightarrow> capture \<Rightarrow> editor_doc \<Rightarrow> editor_doc" where
  "restoreRecords env cap doc =
    fold (\<lambda>(s, v). set_or_keep env s v) (cap_scalars cap)
      (fold (\<lambda>(d, m). if m = [] then id else replaceDomainRecords env d m) (cap_records cap) doc)"

definition same_map :: "('k, 'v) js_map \<Rightarrow> ('k, 'v) js_map \<Rightarrow> bool" where
  "same_map a b = (length a = length b \<and> list_all (\<lambda>(k, v). map_of b k = Some v) a)"

definition cap_map :: "capture \<Rightarrow> change_domain \<Rightarrow> (string, json) js_map" where
  "cap_map cap d = (case map_of (cap_records cap) d of None \<Rightarrow> [] | Some m \<Rightarrow> m)"

definition capturesEqual :: "capture \<Rightarrow> capture \<Rightarrow> bool" where
  "capturesEqual l r =
    (list_all (\<lambda>d. same_map (cap_map l d) (cap_map r d)) (key_union (map_keys (cap_records l)) (map_keys (cap_records r)))
      \<and> same_map (cap_scalars l) (cap_scalars r))"

definition scalar_get :: "(change_scalar, json) js_map \<Rightarrow> change_scalar \<Rightarrow> json" where
  "scalar_get m s = (case map_of m s of None \<Rightarrow> JsNull | Some v \<Rightarrow> v)"

definition diffCaptures :: "capture \<Rightarrow> capture \<Rightarrow> change_meta \<Rightarrow> change_set" where
  "diffCaptures b a meta =
    fold (\<lambda>s cs. if scalar_get (cap_scalars b) s \<noteq> scalar_get (cap_scalars a) s
        then recordScalarChange s (scalar_get (cap_scalars b) s) (scalar_get (cap_scalars a) s) cs else cs)
      (key_union (map_keys (cap_scalars b)) (map_keys (cap_scalars a)))
      (fold (\<lambda>d. diff_domain d (cap_map b d) (cap_map a d))
        (key_union (map_keys (cap_records b)) (map_keys (cap_records a))) (createEmptyChangeSet meta))"

section \<open>The bus\<close>

record 'd gesture =
  g_id :: nat
  g_label :: string
  g_closure :: gesture_closure
  g_before :: capture
  g_lastCapture :: capture
  g_lastDelta :: 'd
  g_lastOk :: bool

record commit_info =
  ci_label :: "string option"
  ci_source :: string
  ci_version :: nat

record 'd bus =
  b_doc :: editor_doc
  b_history :: "change_set list" \<comment> \<open>oldest first\<close>
  b_redo :: "change_set list"
  b_limit :: nat
  b_gesture :: "'d gesture option"
  b_gestures :: nat
  b_commands :: nat
  b_lastCommit :: "commit_info option"

definition new_CommandBus :: "editor_doc \<Rightarrow> int \<Rightarrow> 'd bus" where
  "new_CommandBus doc limit =
    \<lparr>b_doc = doc, b_history = [], b_redo = [], b_limit = nat (max 1 (if limit = 0 then 200 else limit)),
     b_gesture = None, b_gestures = 0, b_commands = 0, b_lastCommit = None\<rparr>"

record adapter =
  reconcile :: "editor_doc \<Rightarrow> editor_doc"
  validate :: "bool \<Rightarrow> editor_doc \<Rightarrow> string list" \<comment> \<open>the error issues; the flag is \<open>transient\<close>\<close>

datatype run_outcome = Threw string | Refused "string list" | NoResult | Completed

record command =
  cmd_label :: string
  cmd_run :: "editor_doc \<Rightarrow> run_outcome \<times> editor_doc"

datatype bus_result = Ok "change_set option" | Failed "string list"

definition runGuarded :: "doc_env \<Rightarrow> adapter \<Rightarrow> command \<Rightarrow> editor_doc \<Rightarrow> string list option \<times> editor_doc" where
  "runGuarded env ad cmd doc =
    (let before = snapshot env doc in
     case cmd_run cmd doc of
       (Threw msg, doc1) \<Rightarrow> (Some [msg], restoreSnapshot env before doc1)
     | (Refused issues, doc1) \<Rightarrow> (Some issues, restoreSnapshot env before doc1)
     | (NoResult, doc1) \<Rightarrow> (Some [''Command returned no result.''], restoreSnapshot env before doc1)
     | (Completed, doc1) \<Rightarrow>
         let doc2 = reconcile ad doc1; issues = validate ad False doc2 in
         if issues \<noteq> [] then (Some issues, restoreSnapshot env before doc2) else (None, doc2))"

text \<open>\<open>history.push\<close> and the \<open>splice\<close> that drops the oldest entries.\<close>

definition push_history :: "change_set \<Rightarrow> 'd bus \<Rightarrow> 'd bus" where
  "push_history cs b =
    b\<lparr>b_history := drop (length (b_history b) + 1 - b_limit b) (b_history b @ [cs]), b_redo := []\<rparr>"

definition commit :: "change_set option \<Rightarrow> 'd bus \<Rightarrow> 'd bus" where
  "commit cs b =
    (case cs of None \<Rightarrow> b
     | Some c \<Rightarrow> if isEmptyChangeSet c then b
         else (push_history c b)\<lparr>b_lastCommit := Some \<lparr>ci_label = m_label (cs_meta c),
           ci_source = m_source (cs_meta c), ci_version = doc_version (b_doc b)\<rparr>\<rparr>)"

text \<open>\<open>document.notify\<close> outside a transaction advances the version.\<close>

definition notify :: "editor_doc \<Rightarrow> editor_doc" where
  "notify doc = doc\<lparr>doc_version := doc_version doc + 1\<rparr>"

definition cancelGesture :: "doc_env \<Rightarrow> 'd bus \<Rightarrow> 'd bus" where
  "cancelGesture env b =
    (case b_gesture b of None \<Rightarrow> b
     | Some g \<Rightarrow> b\<lparr>b_gesture := None, b_doc := notify (restoreRecords env (g_before g) (b_doc b))\<rparr>)"

definition execute :: "doc_env \<Rightarrow> adapter \<Rightarrow> command \<Rightarrow> string \<Rightarrow> 'd bus \<Rightarrow> bus_result \<times> 'd bus" where
  "execute env ad cmd source b0 =
    (let b = cancelGesture env b0;
         b1 = b\<lparr>b_commands := b_commands b + 1\<rparr>;
         meta = \<lparr>m_label = Some (cmd_label cmd), m_source = source, m_transient = False\<rparr>
     in case transaction env (runGuarded env ad cmd) meta (b_doc b1) of
         (Some issues, _, doc) \<Rightarrow> (Failed issues, b1\<lparr>b_doc := doc\<rparr>)
       | (None, cs, doc) \<Rightarrow> (Ok cs, commit cs (b1\<lparr>b_doc := doc\<rparr>)))"

text \<open>\<open>transaction(label, fn)\<close> where \<open>fn\<close> runs the commands of a list.\<close>

fun run_commands :: "doc_env \<Rightarrow> adapter \<Rightarrow> command list \<Rightarrow> editor_doc \<Rightarrow> string list option \<times> editor_doc" where
  "run_commands env ad [] doc = (None, doc)"
| "run_commands env ad (c # cs) doc =
    (case runGuarded env ad c doc of
       (Some issues, doc1) \<Rightarrow> (Some issues, doc1)
     | (None, doc1) \<Rightarrow> run_commands env ad cs doc1)"

definition run_all :: "doc_env \<Rightarrow> adapter \<Rightarrow> command list \<Rightarrow> editor_doc \<Rightarrow> string list option \<times> editor_doc" where
  "run_all env ad cmds doc =
    (case run_commands env ad cmds doc of
       (Some issues, doc1) \<Rightarrow> (Some issues, restoreSnapshot env (snapshot env doc) doc1)
     | (None, doc1) \<Rightarrow> (None, doc1))"

definition bus_transaction ::
  "doc_env \<Rightarrow> adapter \<Rightarrow> string \<Rightarrow> command list \<Rightarrow> string \<Rightarrow> 'd bus \<Rightarrow> bus_result \<times> 'd bus" where
  "bus_transaction env ad label cmds source b0 =
    (let b = cancelGesture env b0;
         b1 = b\<lparr>b_commands := b_commands b + 1\<rparr>;
         meta = \<lparr>m_label = Some label, m_source = source, m_transient = False\<rparr>
     in case transaction env (run_all env ad cmds) meta (b_doc b1) of
         (Some issues, _, doc) \<Rightarrow> (Failed issues, b1\<lparr>b_doc := doc\<rparr>)
       | (None, cs, doc) \<Rightarrow> (Ok cs, commit cs (b1\<lparr>b_doc := doc\<rparr>)))"

section \<open>History\<close>

definition history_meta :: "change_set \<Rightarrow> string \<Rightarrow> string \<Rightarrow> change_meta" where
  "history_meta cs source fallback =
    \<lparr>m_label = (case m_label (cs_meta cs) of None \<Rightarrow> Some fallback | l \<Rightarrow> l), m_source = source, m_transient = False\<rparr>"

definition last_commit :: "change_set \<Rightarrow> string \<Rightarrow> editor_doc \<Rightarrow> commit_info option" where
  "last_commit cs source doc = Some \<lparr>ci_label = m_label (cs_meta cs), ci_source = source, ci_version = doc_version doc\<rparr>"

definition bus_undo :: "doc_env \<Rightarrow> 'd bus \<Rightarrow> (doc_error option, change_set) result \<times> 'd bus" where
  "bus_undo env b0 =
    (let b = cancelGesture env b0 in
     if b_history b = [] then (Inl None, b)
     else let cs = last (b_history b); b1 = b\<lparr>b_history := butlast (b_history b)\<rparr> in
       case applyChangeSet env cs Before (history_meta cs ''undo'' ''Undo'') (b_doc b1) of
         Inl e \<Rightarrow> (Inl (Some e), b1)
       | Inr doc \<Rightarrow> (Inr cs, b1\<lparr>b_doc := doc, b_redo := b_redo b1 @ [cs],
           b_lastCommit := last_commit cs ''undo'' doc\<rparr>))"

definition bus_redo :: "doc_env \<Rightarrow> 'd bus \<Rightarrow> (doc_error option, change_set) result \<times> 'd bus" where
  "bus_redo env b0 =
    (let b = cancelGesture env b0 in
     if b_redo b = [] then (Inl None, b)
     else let cs = last (b_redo b); b1 = b\<lparr>b_redo := butlast (b_redo b)\<rparr> in
       case applyChangeSet env cs After (history_meta cs ''redo'' ''Redo'') (b_doc b1) of
         Inl e \<Rightarrow> (Inl (Some e), b1)
       | Inr doc \<Rightarrow> (Inr cs, b1\<lparr>b_doc := doc, b_history := b_history b1 @ [cs],
           b_lastCommit := last_commit cs ''redo'' doc\<rparr>))"

definition bus_reset :: "'d bus \<Rightarrow> 'd bus" where
  "bus_reset b = b\<lparr>b_gesture := None, b_history := [], b_redo := [], b_lastCommit := None\<rparr>"

section \<open>Gestures\<close>

definition beginGesture ::
  "doc_env \<Rightarrow> 'd \<Rightarrow> gesture_closure \<Rightarrow> string \<Rightarrow> 'd bus \<Rightarrow> (string list, nat) result \<times> 'd bus" where
  "beginGesture env identity cl label b0 =
    (let b = cancelGesture env b0 in
     if cl_issues cl \<noteq> [] then (Inl (cl_issues cl), b)
     else if \<forall>d \<in> set CAPTURE_DOMAINS. cl_ids cl d = [] then (Inl [''Nothing to transform.''], b)
     else let before = captureRecords env cl (b_doc b); n = b_gestures b + 1 in
       (Inr n, b\<lparr>b_gestures := n, b_gesture := Some \<lparr>g_id = n, g_label = label, g_closure = cl, g_before = before,
         g_lastCapture = before, g_lastDelta = identity, g_lastOk = True\<rparr>\<rparr>))"

datatype plan_outcome = PlanRejected "string list" | PlanFailed string editor_doc | PlanApplied editor_doc

text \<open>One frame: restore, plan and apply the cumulative delta, validate; on failure restore again.\<close>

definition gesture_frame ::
  "doc_env \<Rightarrow> adapter \<Rightarrow> (editor_doc \<Rightarrow> plan_outcome) \<Rightarrow> capture \<Rightarrow> editor_doc \<Rightarrow> string list \<times> editor_doc" where
  "gesture_frame env ad plan before doc =
    (let doc0 = restoreRecords env before doc in
     case plan doc0 of
       PlanRejected issues \<Rightarrow> (issues, doc0)
     | PlanFailed msg doc1 \<Rightarrow> ([msg], restoreRecords env before doc1)
     | PlanApplied doc1 \<Rightarrow>
         let issues = validate ad True doc1 in
         if issues \<noteq> [] then (issues, restoreRecords env before doc1) else ([], doc1))"

definition updateGesture ::
  "doc_env \<Rightarrow> adapter \<Rightarrow> ('d \<Rightarrow> gesture_closure \<Rightarrow> editor_doc \<Rightarrow> plan_outcome) \<Rightarrow> nat \<Rightarrow> 'd \<Rightarrow> 'd bus
    \<Rightarrow> bus_result \<times> 'd bus" where
  "updateGesture env ad plan gid delta b =
    (case b_gesture b of
       None \<Rightarrow> (Failed [''No active gesture.''], b)
     | Some g \<Rightarrow>
         if g_id g \<noteq> gid then (Failed [''No active gesture.''], b)
         else (case gesture_frame env ad (plan delta (g_closure g)) (g_before g) (b_doc b) of
           (issues, doc) \<Rightarrow>
             let now = captureRecords env (g_closure g) doc;
                 cs = diffCaptures (g_lastCapture g) now
                   \<lparr>m_label = Some (g_label g), m_source = ''gesture'', m_transient = True\<rparr>;
                 b' = b\<lparr>b_doc := notify doc, b_gesture := Some (g\<lparr>g_lastDelta := delta, g_lastOk := (issues = []),
                   g_lastCapture := now\<rparr>)\<rparr>
             in (if issues = [] then Ok (if isEmptyChangeSet cs then None else Some cs) else Failed issues, b')))"

definition commitGesture :: "doc_env \<Rightarrow> adapter \<Rightarrow> nat \<Rightarrow> 'd bus \<Rightarrow> bus_result \<times> 'd bus" where
  "commitGesture env ad gid b =
    (case b_gesture b of
       None \<Rightarrow> (Failed [''No active gesture.''], b)
     | Some g \<Rightarrow>
         if g_id g \<noteq> gid then (Failed [''No active gesture.''], b)
         else let b1 = b\<lparr>b_gesture := None\<rparr>; after = captureRecords env (g_closure g) (b_doc b) in
           if \<not> g_lastOk g
           then (Failed [''The gesture was rejected; nothing was committed.''],
             b1\<lparr>b_doc := restoreRecords env (g_before g) (b_doc b)\<rparr>)
           else if capturesEqual (g_before g) after then (Ok None, b1)
           else if validate ad False (b_doc b) \<noteq> []
           then (Failed (validate ad False (b_doc b)),
             b1\<lparr>b_doc := notify (restoreRecords env (g_before g) (b_doc b))\<rparr>)
           else let doc = reconcile ad (b_doc b);
                    cs = diffCaptures (g_before g) after
                      \<lparr>m_label = Some (g_label g), m_source = ''gesture'', m_transient = False\<rparr>;
                    b2 = push_history cs (b1\<lparr>b_doc := notify doc\<rparr>)
             in (Ok (Some cs), b2\<lparr>b_lastCommit := Some \<lparr>ci_label = Some (g_label g), ci_source = ''gesture'',
               ci_version = doc_version (b_doc b2)\<rparr>\<rparr>))"

section \<open>Restoring a document\<close>

lemma restored:
  assumes a: "doc_ok env a" and sky: "doc_scalar a Sky \<noteq> JsNull \<or> doc_scalar d' Sky = JsNull"
  shows "same_doc env a (restoreSnapshot env (snapshot env a) d') \<and> doc_ok env (restoreSnapshot env (snapshot env a) d')"
proof -
  let ?r = "restoreSnapshot env (snapshot env a) d'"
  have keyed: "keyed env d (doc_records a d)" for d using a by (simp add: doc_ok_def)
  have cl: "map (clone_record env d) (doc_records a d) = doc_records a d" for d
    using keyedD(4) [OF keyed] by (simp add: map_idI)
  have cl2: "map (clone_record env d) (canonical_order env d (doc_records a d)) = canonical_order env d (doc_records a d)" for d
    using keyedD(4) [OF keyed_canonical [THEN iffD2, OF keyed]] by (simp add: map_idI)
  have metrics: "doc_scalar a AssetMetricsVersion = JsNull \<Longrightarrow> doc_records a MetricDefinitions = []"
    using a by (simp add: doc_ok_def)
  have cm: "image_mset (clone_record env d) (mset (doc_records a d)) = mset (doc_records a d)" for d
    by (metis cl mset_map)
  have recs: "mset (doc_records ?r d) = mset (doc_records a d)" for d
    using metrics by (auto simp: restoreSnapshot_def snapshot_def cl cl2 cm copy_scalar_def copied_def)
  have ok: "scalar_ok env s (doc_scalar a s)" for s using a by (simp add: doc_ok_def)
  have scal: "doc_scalar ?r s = doc_scalar a s" for s
    unfolding restoreSnapshot_def editor_doc.simps snapshot_records(3) [OF a]
    using ok [of s] sky
    by (cases s) (auto simp: restore_scalar_def scalar_ok_def copy_scalar_def copied_def version_scalar_def
      plain_num_def split: json.splits)
  have "same_doc env a ?r" using recs scal by (auto simp: same_doc_def fun_eq_iff)
  moreover have "doc_ok env ?r"
    unfolding doc_ok_def
  proof (intro conjI allI impI)
    show "keyed env d (doc_records ?r d)" for d using keyed_mset [OF recs] keyed by blast
    show "scalar_ok env s (doc_scalar ?r s)" for s using ok by (simp add: scal)
    show "doc_records ?r MetricDefinitions = []" if "doc_scalar ?r AssetMetricsVersion = JsNull"
      using that metrics recs [of MetricDefinitions] by (simp add: scal)
  qed
  ultimately show ?thesis ..
qed

text \<open>
  A unit of work is clean when its success leaves a well-formed document and its failure the
  document it found. Guarded commands are clean when they do not set a sky that was unset.
\<close>

definition clean :: "doc_env \<Rightarrow> (editor_doc \<Rightarrow> string list option \<times> editor_doc) \<Rightarrow> bool" where
  "clean env f \<longleftrightarrow> (\<forall>doc. doc_ok env doc \<longrightarrow> (case f doc of
      (None, d) \<Rightarrow> doc_ok env d | (Some _, d) \<Rightarrow> doc_ok env d \<and> same_doc env doc d))"

definition keeps_unset_sky :: "(editor_doc \<Rightarrow> editor_doc) \<Rightarrow> bool" where
  "keeps_unset_sky f \<longleftrightarrow> (\<forall>doc. doc_scalar doc Sky = JsNull \<longrightarrow> doc_scalar (f doc) Sky = JsNull)"

lemma runGuarded_clean:
  assumes run: "keeps_unset_sky (\<lambda>d. snd (cmd_run cmd d))" and rec: "keeps_unset_sky (reconcile ad)"
    and ok: "\<And>doc d. doc_ok env doc \<Longrightarrow> cmd_run cmd doc = (Completed, d) \<Longrightarrow> validate ad False (reconcile ad d) = []
      \<Longrightarrow> doc_ok env (reconcile ad d)"
  shows "clean env (runGuarded env ad cmd)"
  unfolding clean_def
proof (intro allI impI)
  fix doc assume d: "doc_ok env doc"
  obtain r doc1 where r: "cmd_run cmd doc = (r, doc1)" by fastforce
  have sky: "doc_scalar doc Sky \<noteq> JsNull \<or> doc_scalar doc1 Sky = JsNull"
    "doc_scalar doc Sky \<noteq> JsNull \<or> doc_scalar (reconcile ad doc1) Sky = JsNull"
    using run rec r unfolding keeps_unset_sky_def by (metis snd_conv)+
  have R: "same_doc env doc (restoreSnapshot env (snapshot env doc) doc1)
      \<and> doc_ok env (restoreSnapshot env (snapshot env doc) doc1)"
    "same_doc env doc (restoreSnapshot env (snapshot env doc) (reconcile ad doc1))
      \<and> doc_ok env (restoreSnapshot env (snapshot env doc) (reconcile ad doc1))"
    using restored [OF d sky(1)] restored [OF d sky(2)] by blast+
  show "case runGuarded env ad cmd doc of
      (None, d) \<Rightarrow> doc_ok env d | (Some _, d) \<Rightarrow> doc_ok env d \<and> same_doc env doc d"
    using R ok [OF d] r by (cases r) (auto simp: runGuarded_def Let_def)
qed

section \<open>History under any run\<close>

fun behind :: "doc_env \<Rightarrow> change_set list \<Rightarrow> editor_doc \<Rightarrow> bool" where
  "behind env [] d = True"
| "behind env (c # cs) d = (\<exists>a b meta. doc_ok env a \<and> doc_ok env b
    \<and> c = diffSnapshots env (snapshot env a) (snapshot env b) meta \<and> same_doc env b d \<and> behind env cs a)"

fun ahead :: "doc_env \<Rightarrow> change_set list \<Rightarrow> editor_doc \<Rightarrow> bool" where
  "ahead env [] d = True"
| "ahead env (c # cs) d = (\<exists>a b meta. doc_ok env a \<and> doc_ok env b
    \<and> c = diffSnapshots env (snapshot env a) (snapshot env b) meta \<and> same_doc env a d \<and> ahead env cs b)"

lemma behind_Cons:
  "doc_ok env a \<Longrightarrow> doc_ok env b \<Longrightarrow> c = diffSnapshots env (snapshot env a) (snapshot env b) meta
    \<Longrightarrow> same_doc env b d \<Longrightarrow> behind env cs a \<Longrightarrow> behind env (c # cs) d"
  unfolding behind.simps by blast

lemma ahead_Cons:
  "doc_ok env a \<Longrightarrow> doc_ok env b \<Longrightarrow> c = diffSnapshots env (snapshot env a) (snapshot env b) meta
    \<Longrightarrow> same_doc env a d \<Longrightarrow> ahead env cs b \<Longrightarrow> ahead env (c # cs) d"
  unfolding ahead.simps by blast

lemma behind_same: "behind env cs d \<Longrightarrow> same_doc env d d' \<Longrightarrow> behind env cs d'"
  by (cases cs) (auto intro: same_doc_trans)

lemma ahead_same: "ahead env cs d \<Longrightarrow> same_doc env d d' \<Longrightarrow> ahead env cs d'"
  by (cases cs) (auto intro: same_doc_trans)

lemma behind_take: "behind env cs d \<Longrightarrow> behind env (take n cs) d"
proof (induction cs arbitrary: n d)
  case (Cons c cs)
  then show ?case by (cases n) (simp, fastforce)
qed simp

definition bus_inv :: "doc_env \<Rightarrow> 'd bus \<Rightarrow> bool" where
  "bus_inv env b \<longleftrightarrow> doc_ok env (b_doc b) \<and> b_gesture b = None
    \<and> behind env (rev (b_history b)) (b_doc b) \<and> ahead env (rev (b_redo b)) (b_doc b)
    \<and> length (b_history b) + length (b_redo b) \<le> b_limit b \<and> 1 \<le> b_limit b"

datatype bus_op = Execute command string | Transact string "command list" string | Undo | Redo | ResetHistory

definition bus_exec :: "doc_env \<Rightarrow> adapter \<Rightarrow> 'd bus \<Rightarrow> bus_op \<Rightarrow> 'd bus" where
  "bus_exec env ad b op =
    (case op of Execute cmd source \<Rightarrow> snd (execute env ad cmd source b)
     | Transact label cmds source \<Rightarrow> snd (bus_transaction env ad label cmds source b)
     | Undo \<Rightarrow> snd (bus_undo env b) | Redo \<Rightarrow> snd (bus_redo env b) | ResetHistory \<Rightarrow> bus_reset b)"

definition op_clean :: "doc_env \<Rightarrow> adapter \<Rightarrow> bus_op \<Rightarrow> bool" where
  "op_clean env ad op =
    (case op of Execute cmd _ \<Rightarrow> clean env (runGuarded env ad cmd)
     | Transact _ cmds _ \<Rightarrow> clean env (run_all env ad cmds) | _ \<Rightarrow> True)"

lemma isEmpty_same:
  assumes a: "doc_ok env a" and b: "doc_ok env b"
    and e: "isEmptyChangeSet (diffSnapshots env (snapshot env a) (snapshot env b) meta)"
  shows "same_doc env a b"
proof -
  have "diff_at env a b d = []" for d
    using e unfolding isEmptyChangeSet_def diff_shape [OF a b] by (auto simp: filter_empty_conv)
  then have "rec_at env d (doc_records a d) k = rec_at env d (doc_records b d) k" for d k
    using diff_at_facts(2) [OF a b, of k d] by (metis empty_iff empty_set)
  moreover have "doc_scalar a s = doc_scalar b s" for s
    using e unfolding isEmptyChangeSet_def diff_shape [OF a b] by (auto simp: filter_empty_conv)
  moreover have "mset (doc_records a d) = mset (doc_records b d)" for d
    by (rule same_records) (use a b calculation(1) in \<open>auto simp: doc_ok_def\<close>)
  ultimately show ?thesis by (simp add: same_doc_def fun_eq_iff)
qed

text \<open>What a transaction over clean work does to the bus.\<close>

lemma transaction_cases:
  assumes "clean env f" and a: "doc_ok env a" and t: "transaction env f meta a = (r, cs, d)"
  shows "case r of Some _ \<Rightarrow> doc_ok env d \<and> same_doc env a d
    | None \<Rightarrow> doc_ok env d \<and> (case cs of None \<Rightarrow> same_doc env a d
        | Some c \<Rightarrow> c = diffSnapshots env (snapshot env a) (snapshot env d) meta \<and> \<not> isEmptyChangeSet c)"
proof -
  obtain d1 where f: "f a = (r, d1)" and d: "doc_records d = doc_records d1" "doc_scalar d = doc_scalar d1"
    and cs: "cs = (if isEmptyChangeSet (diffSnapshots env (snapshot env a) (snapshot env d1) meta) then None
      else Some (diffSnapshots env (snapshot env a) (snapshot env d1) meta))"
    using t by (auto simp: transaction_def Let_def split: prod.splits if_splits)
  have sn: "snapshot env d = snapshot env d1" unfolding snapshot_def d ..
  have c: "case r of None \<Rightarrow> doc_ok env d1 | Some _ \<Rightarrow> doc_ok env d1 \<and> same_doc env a d1"
    using assms(1) a f by (auto simp: clean_def split: option.splits)
  have ok: "doc_ok env d = doc_ok env d1" and same: "same_doc env a d = same_doc env a d1"
    using doc_ok_version [OF d] same_doc_version [OF d] by auto
  show ?thesis
    using c cs isEmpty_same [OF a, of d1 meta] by (auto simp: ok same sn split: option.splits)
qed

lemma commit_inv:
  assumes inv: "bus_inv env b" and b1: "b_history b1 = b_history b" "b_redo b1 = b_redo b" "b_limit b1 = b_limit b"
    "b_gesture b1 = None"
    and f: "clean env f" and t: "transaction env f meta (b_doc b) = (r, cs, d)"
  shows "bus_inv env (case r of Some _ \<Rightarrow> b1\<lparr>b_doc := d\<rparr> | None \<Rightarrow> commit cs (b1\<lparr>b_doc := d\<rparr>))"
proof -
  have a: "doc_ok env (b_doc b)" using inv by (simp add: bus_inv_def)
  note T = transaction_cases [OF f a t]
  have same: "bus_inv env (b1\<lparr>b_doc := d\<rparr>)" if "doc_ok env d" "same_doc env (b_doc b) d"
    using inv b1 that behind_same ahead_same by (auto simp: bus_inv_def)
  show ?thesis
  proof (cases r)
    case (Some issues)
    then show ?thesis using T same by simp
  next
    case None
    show ?thesis
    proof (cases cs)
      case None
      then show ?thesis using T same \<open>r = None\<close> by (simp add: commit_def)
    next
      case (Some c)
      have c: "doc_ok env d" "c = diffSnapshots env (snapshot env (b_doc b)) (snapshot env d) meta" "\<not> isEmptyChangeSet c"
        using T \<open>r = None\<close> Some by auto
      let ?h = "b_history b @ [c]"
      have "behind env (c # rev (b_history b)) d"
        by (rule behind_Cons [OF a c(1,2) same_doc_refl]) (use inv in \<open>simp add: bus_inv_def\<close>)
      then have "behind env (rev ?h) d" by simp
      then have "behind env (rev (drop (length ?h - b_limit b) ?h)) d"
        unfolding rev_drop by (rule behind_take)
      moreover have "length (drop (length ?h - b_limit b) ?h) \<le> b_limit b" by simp
      ultimately show ?thesis
        using inv b1 c \<open>r = None\<close> Some
        by (simp add: commit_def push_history_def bus_inv_def)
    qed
  qed
qed

lemma cancel_none [simp]: "b_gesture b = None \<Longrightarrow> cancelGesture env b = b"
  by (simp add: cancelGesture_def)

lemma execute_inv:
  assumes inv: "bus_inv env b" and c: "clean env (runGuarded env ad cmd)"
  shows "bus_inv env (snd (execute env ad cmd source b))"
proof -
  have g: "b_gesture b = None" using inv by (simp add: bus_inv_def)
  let ?m = "\<lparr>m_label = Some (cmd_label cmd), m_source = source, m_transient = False\<rparr>"
  obtain r cs d where t: "transaction env (runGuarded env ad cmd) ?m (b_doc b) = (r, cs, d)"
    by (metis prod.exhaust)
  show ?thesis
    using commit_inv [OF inv _ _ _ _ c t, of "b\<lparr>b_commands := b_commands b + 1\<rparr>"] g
    by (cases r) (simp_all add: execute_def Let_def t)
qed

lemma bus_transaction_inv:
  assumes inv: "bus_inv env b" and c: "clean env (run_all env ad cmds)"
  shows "bus_inv env (snd (bus_transaction env ad label cmds source b))"
proof -
  have g: "b_gesture b = None" using inv by (simp add: bus_inv_def)
  let ?m = "\<lparr>m_label = Some label, m_source = source, m_transient = False\<rparr>"
  obtain r cs d where t: "transaction env (run_all env ad cmds) ?m (b_doc b) = (r, cs, d)"
    by (metis prod.exhaust)
  show ?thesis
    using commit_inv [OF inv _ _ _ _ c t, of "b\<lparr>b_commands := b_commands b + 1\<rparr>"] g
    by (cases r) (simp_all add: bus_transaction_def Let_def t)
qed

text \<open>One step back along the history always succeeds, and leads to the document before it.\<close>

lemma undo_step:
  assumes inv: "bus_inv env b" and h: "b_history b = hs @ [cs]"
  obtains a meta b' where "doc_ok env a" "cs = diffSnapshots env (snapshot env a) (snapshot env (b_doc b)) meta \<or> True"
    and "bus_undo env b = (Inr cs, b')" and "b_history b' = hs" and "b_redo b' = b_redo b @ [cs]"
    and "same_doc env a (b_doc b')" and "bus_inv env b'"
    and "\<And>x y m. doc_ok env x \<Longrightarrow> doc_ok env y \<Longrightarrow> cs = diffSnapshots env (snapshot env x) (snapshot env y) m
      \<Longrightarrow> same_doc env y (b_doc b) \<Longrightarrow> same_doc env x (b_doc b')"
proof -
  have g: "b_gesture b = None" and bd: "doc_ok env (b_doc b)" using inv by (auto simp: bus_inv_def)
  from inv h obtain x y m where xy: "doc_ok env x" "doc_ok env y"
    "cs = diffSnapshots env (snapshot env x) (snapshot env y) m" "same_doc env y (b_doc b)" "behind env (rev hs) x"
    by (auto simp: bus_inv_def)
  obtain c where c: "applyChangeSet env cs Before (history_meta cs ''undo'' ''Undo'') (b_doc b) = Inr c"
    "same_doc env x c" "doc_ok env c"
    using change_applies [OF xy(1,2) bd xy(3), of Before x "history_meta cs ''undo'' ''Undo''"] xy(4) by auto
  let ?b = "b\<lparr>b_history := hs, b_doc := c, b_redo := b_redo b @ [cs], b_lastCommit := last_commit cs ''undo'' c\<rparr>"
  have u: "bus_undo env b = (Inr cs, ?b)" using g h c(1) by (simp add: bus_undo_def)
  have "ahead env (cs # rev (b_redo b)) c"
    by (rule ahead_Cons [OF xy(1-3) c(2) ahead_same [OF _ same_doc_sym [OF xy(4)]]])
      (use inv in \<open>simp add: bus_inv_def\<close>)
  moreover have "behind env (rev hs) c" by (rule behind_same [OF xy(5) c(2)])
  ultimately have "bus_inv env ?b" using inv h c(3) g by (simp add: bus_inv_def)
  moreover have "same_doc env x' c" if p: "doc_ok env x'" "doc_ok env y'"
    "cs = diffSnapshots env (snapshot env x') (snapshot env y') m'" "same_doc env y' (b_doc b)" for x' y' m'
    using change_applies [OF p(1,2) bd p(3), of Before x' "history_meta cs ''undo'' ''Undo''"] p(4) c(1) by auto
  ultimately show thesis using that [OF xy(1) _ u] c(2) by simp
qed

lemma redo_step:
  assumes inv: "bus_inv env b" and h: "b_redo b = rs @ [cs]"
  obtains b' where "bus_redo env b = (Inr cs, b')" and "b_redo b' = rs" and "b_history b' = b_history b @ [cs]"
    and "bus_inv env b'"
    and "\<And>x y m. doc_ok env x \<Longrightarrow> doc_ok env y \<Longrightarrow> cs = diffSnapshots env (snapshot env x) (snapshot env y) m
      \<Longrightarrow> same_doc env x (b_doc b) \<Longrightarrow> same_doc env y (b_doc b')"
proof -
  have g: "b_gesture b = None" and bd: "doc_ok env (b_doc b)" using inv by (auto simp: bus_inv_def)
  from inv h obtain x y m where xy: "doc_ok env x" "doc_ok env y"
    "cs = diffSnapshots env (snapshot env x) (snapshot env y) m" "same_doc env x (b_doc b)" "ahead env (rev rs) y"
    by (auto simp: bus_inv_def)
  obtain c where c: "applyChangeSet env cs After (history_meta cs ''redo'' ''Redo'') (b_doc b) = Inr c"
    "same_doc env y c" "doc_ok env c"
    using change_applies [OF xy(1,2) bd xy(3), of After y "history_meta cs ''redo'' ''Redo''"] xy(4) by auto
  let ?b = "b\<lparr>b_redo := rs, b_doc := c, b_history := b_history b @ [cs], b_lastCommit := last_commit cs ''redo'' c\<rparr>"
  have u: "bus_redo env b = (Inr cs, ?b)" using g h c(1) by (simp add: bus_redo_def)
  have "behind env (cs # rev (b_history b)) c"
    by (rule behind_Cons [OF xy(1-3) c(2) behind_same [OF _ same_doc_sym [OF xy(4)]]])
      (use inv in \<open>simp add: bus_inv_def\<close>)
  moreover have "ahead env (rev rs) c" by (rule ahead_same [OF xy(5) c(2)])
  ultimately have "bus_inv env ?b" using inv h c(3) g by (simp add: bus_inv_def)
  moreover have "same_doc env y' c" if p: "doc_ok env x'" "doc_ok env y'"
    "cs = diffSnapshots env (snapshot env x') (snapshot env y') m'" "same_doc env x' (b_doc b)" for x' y' m'
    using change_applies [OF p(1,2) bd p(3), of After y' "history_meta cs ''redo'' ''Redo''"] p(4) c(1) by auto
  ultimately show thesis using that [OF u] by simp
qed

lemma bus_exec_inv: "bus_inv env b \<Longrightarrow> op_clean env ad op \<Longrightarrow> bus_inv env (bus_exec env ad b op)"
proof (cases op)
  case Undo
  assume inv: "bus_inv env b"
  show ?thesis
  proof (cases "b_history b" rule: rev_cases)
    case Nil
    then show ?thesis using inv by (simp add: Undo bus_exec_def bus_undo_def bus_inv_def)
  next
    case (snoc hs cs)
    from inv this show ?thesis by (rule undo_step) (simp add: Undo bus_exec_def)
  qed
next
  case Redo
  assume inv: "bus_inv env b"
  show ?thesis
  proof (cases "b_redo b" rule: rev_cases)
    case Nil
    then show ?thesis using inv by (simp add: Redo bus_exec_def bus_redo_def bus_inv_def)
  next
    case (snoc rs cs)
    from inv this show ?thesis by (rule redo_step) (simp add: Redo bus_exec_def)
  qed
next
  case ResetHistory
  assume "bus_inv env b"
  then show ?thesis by (simp add: ResetHistory bus_exec_def bus_reset_def bus_inv_def)
qed (simp_all add: bus_exec_def op_clean_def execute_inv bus_transaction_inv)

lemma bus_limit: "b_limit (bus_exec env ad b op) = b_limit b"
proof -
  have c: "b_limit (cancelGesture env b) = b_limit b" for b :: "'d bus"
    by (simp add: cancelGesture_def split: option.split)
  have m: "b_limit (commit cs b) = b_limit b" for cs and b :: "'d bus"
    by (simp add: commit_def push_history_def split: option.split)
  show ?thesis
    by (cases op) (auto simp: bus_exec_def execute_def bus_transaction_def bus_undo_def bus_redo_def
      bus_reset_def Let_def c m split: prod.splits option.splits sum.splits)
qed

lemma session_inv:
  assumes "doc_ok env doc" and "list_all (op_clean env ad) ops"
  shows "bus_inv env (foldl (bus_exec env ad) (new_CommandBus doc limit) ops)
    \<and> b_limit (foldl (bus_exec env ad) (new_CommandBus doc limit) ops) = nat (max 1 (if limit = 0 then 200 else limit))"
proof -
  have "bus_inv env (foldl (bus_exec env ad) b ops) \<and> b_limit (foldl (bus_exec env ad) b ops) = b_limit b"
    if "bus_inv env b" for b
    using that assms(2) by (induction ops arbitrary: b) (simp_all add: bus_exec_inv bus_limit)
  moreover have "bus_inv env (new_CommandBus doc limit)"
    using assms(1) by (simp add: bus_inv_def new_CommandBus_def)
  moreover have "b_limit (new_CommandBus doc limit) = nat (max 1 (if limit = 0 then 200 else limit))"
    by (simp add: new_CommandBus_def)
  ultimately show ?thesis by metis
qed



text \<open>
  C29. A command that fails, whatever it did to the document before it threw, was refused, or left
  an invalid document, changes nothing: the document holds the same records and scalars and
  neither stack moves. The sky must have been set.
\<close>

theorem failed_command_changes_nothing:
  assumes a: "doc_ok env (b_doc b)" and g: "b_gesture b = None" and sky: "doc_scalar (b_doc b) Sky \<noteq> JsNull"
    and e: "execute env ad cmd source b = (Failed issues, b')"
  shows "same_doc env (b_doc b) (b_doc b') \<and> b_history b' = b_history b \<and> b_redo b' = b_redo b"
proof -
  let ?m = "\<lparr>m_label = Some (cmd_label cmd), m_source = source, m_transient = False\<rparr>"
  obtain r cs d where t: "transaction env (runGuarded env ad cmd) ?m (b_doc b) = (r, cs, d)"
    by (metis prod.exhaust)
  have r: "r = Some issues" and b': "b' = b\<lparr>b_commands := b_commands b + 1, b_doc := d\<rparr>"
    using e t g by (auto simp: execute_def Let_def split: option.splits)
  obtain d1 where f: "runGuarded env ad cmd (b_doc b) = (Some issues, d1)"
    and d: "doc_records d = doc_records d1" "doc_scalar d = doc_scalar d1"
    using t r by (auto simp: transaction_def Let_def split: prod.splits if_splits)
  have "\<exists>x. d1 = restoreSnapshot env (snapshot env (b_doc b)) x"
    using f by (auto simp: runGuarded_def Let_def split: prod.splits run_outcome.splits if_splits)
  then have "same_doc env (b_doc b) d1" using restored [OF a] sky by blast
  then show ?thesis using same_doc_version [OF d] by (simp add: b')
qed

section \<open>Sessions in use\<close>

definition demo_adapter :: adapter where
  "demo_adapter = \<lparr>reconcile = (\<lambda>d. d), validate = (\<lambda>_ d. if doc_records d Nodes = [] then [''empty''] else [])\<rparr>"

definition move_node :: command where
  "move_node = \<lparr>cmd_label = ''move'', cmd_run = (\<lambda>d. (Completed,
    d\<lparr>doc_records := (doc_records d)(Nodes := [demo_node ''b'' 3, demo_node ''c'' 4])\<rparr>))\<rparr>"

definition clear_nodes :: command where
  "clear_nodes = \<lparr>cmd_label = ''clear'', cmd_run = (\<lambda>d. (Completed,
    d\<lparr>doc_records := (doc_records d)(Nodes := []), doc_scalar := (doc_scalar d)(Sky := JsStr ''noon'')\<rparr>))\<rparr>"

definition start_doc :: "json \<Rightarrow> editor_doc" where
  "start_doc sky = demo_doc [demo_node ''a'' 1, demo_node ''b'' 2] sky"

lemma start_doc_ok: "doc_ok demo_env (start_doc sky)"
  unfolding start_doc_def by (rule demo_doc_ok [OF demo_keyed(1)])

lemma move_node_clean: "clean demo_env (runGuarded demo_env demo_adapter move_node)"
proof (rule runGuarded_clean)
  fix doc d
  assume "doc_ok demo_env doc" and "cmd_run move_node doc = (Completed, d)"
  then show "doc_ok demo_env (reconcile demo_adapter d)"
    using demo_keyed(2) by (auto simp: move_node_def demo_adapter_def doc_ok_def)
qed (auto simp: keeps_unset_sky_def move_node_def demo_adapter_def)

lemma demo_commit:
  "\<exists>cs. execute demo_env demo_adapter move_node ''command'' (new_CommandBus (start_doc JsNull) 0 :: unit bus)
      = (Ok (Some cs), snd (execute demo_env demo_adapter move_node ''command'' (new_CommandBus (start_doc JsNull) 0)))
    \<and> b_history (snd (execute demo_env demo_adapter move_node ''command'' (new_CommandBus (start_doc JsNull) 0 :: unit bus))) = [cs]"
proof -
  let ?b = "new_CommandBus (start_doc JsNull) 0 :: unit bus"
  let ?m = "\<lparr>m_label = Some (cmd_label move_node), m_source = ''command'', m_transient = False\<rparr>"
  let ?d = "(start_doc JsNull)\<lparr>doc_records := (doc_records (start_doc JsNull))(Nodes := [demo_node ''b'' 3, demo_node ''c'' 4])\<rparr>"
  let ?cs = "diffSnapshots demo_env (snapshot demo_env (start_doc JsNull)) (snapshot demo_env ?d) ?m"
  have g: "runGuarded demo_env demo_adapter move_node (start_doc JsNull) = (None, ?d)"
    by (simp add: runGuarded_def move_node_def demo_adapter_def)
  have ok: "doc_ok demo_env ?d"
    using move_node_clean [unfolded clean_def, rule_format, OF start_doc_ok [of JsNull]] by (simp add: g)
  have "\<not> same_doc demo_env (start_doc JsNull) ?d"
  proof
    assume "same_doc demo_env (start_doc JsNull) ?d"
    then have "mset (doc_records (start_doc JsNull) Nodes) = mset (doc_records ?d Nodes)"
      by (simp only: same_doc_def)
    then have "set (doc_records (start_doc JsNull) Nodes) = set (doc_records ?d Nodes)"
      by (rule mset_eq_setD)
    moreover have "demo_node ''a'' 1 \<in> set (doc_records (start_doc JsNull) Nodes)"
      by (simp add: start_doc_def demo_doc_def)
    ultimately have "demo_node ''a'' 1 \<in> {demo_node ''b'' 3, demo_node ''c'' 4}" by simp
    then show False by (simp add: demo_node_def)
  qed
  then have ne: "\<not> isEmptyChangeSet ?cs" using isEmpty_same [OF start_doc_ok ok] by blast
  then have "transaction demo_env (runGuarded demo_env demo_adapter move_node) ?m (start_doc JsNull)
    = (None, Some ?cs, ?d\<lparr>doc_version := doc_version ?d + 1\<rparr>)"
    by (simp add: transaction_def g Let_def)
  then show ?thesis
    using ne by (simp add: execute_def Let_def new_CommandBus_def commit_def push_history_def)
qed



lemma clear_fails:
  "\<exists>b'. execute demo_env demo_adapter clear_nodes ''command'' (new_CommandBus (start_doc sky) 0 :: unit bus)
      = (Failed [''empty''], b')
    \<and> doc_scalar (b_doc b') = doc_scalar (restoreSnapshot demo_env (snapshot demo_env (start_doc sky))
        ((start_doc sky)\<lparr>doc_records := (doc_records (start_doc sky))(Nodes := []),
          doc_scalar := (doc_scalar (start_doc sky))(Sky := JsStr ''noon'')\<rparr>))
    \<and> b_history b' = []"
  by (auto simp: execute_def Let_def new_CommandBus_def transaction_def runGuarded_def clear_nodes_def
    demo_adapter_def)

theorem failed_command_witness:
  "\<exists>issues b'. execute demo_env demo_adapter clear_nodes ''command'' (new_CommandBus (start_doc (JsStr ''dawn'')) 0 :: unit bus)
      = (Failed issues, b') \<and> same_doc demo_env (start_doc (JsStr ''dawn'')) (b_doc b')"
proof -
  obtain b' where e: "execute demo_env demo_adapter clear_nodes ''command'' (new_CommandBus (start_doc (JsStr ''dawn'')) 0 :: unit bus)
      = (Failed [''empty''], b')"
    using clear_fails [of "JsStr ''dawn''"] by blast
  have "doc_scalar (start_doc (JsStr ''dawn'')) Sky \<noteq> JsNull" by (simp add: start_doc_def demo_doc_def)
  with failed_command_changes_nothing [OF _ _ _ e] start_doc_ok e show ?thesis
    by (auto simp: new_CommandBus_def)
qed


end
