(* ===== verification/UnionFind.thy ===== *)
theory UnionFind
  imports Prelude
begin

text \<open>
  The union-find of \<open>app/scripting/types/unifyGraph.js\<close>: \<open>find\<close> with path compression over a map of
  parents, and \<open>union\<close>. \<open>find\<close> follows parents until one is its own parent, so it may run for ever
  on an arbitrary map; here that is the value \<open>None\<close>, and the lemmas show it returns on every map
  these operations build.
\<close>

type_synonym parents = "(string, string) js_map"

definition uf_enter :: "string \<Rightarrow> parents \<Rightarrow> parents" where
  "uf_enter key p = (if map_has p key then p else AList.update key key p)"

partial_function (option) uf_find :: "string \<Rightarrow> parents \<Rightarrow> (string \<times> parents) option" where
  "uf_find key p =
    (let p0 = uf_enter key p; current = the (map_of p0 key) in
     if current \<noteq> key
     then Option.bind (uf_find current p0) (\<lambda>(root, p1). Some (root, AList.update key root p1))
     else Some (key, p0))"

declare uf_find.simps [code]

definition uf_union :: "string \<Rightarrow> string \<Rightarrow> parents \<Rightarrow> (string \<times> parents) option" where
  "uf_union l r p =
    Option.bind (uf_find l p) (\<lambda>(lr, p1).
      Option.bind (uf_find r p1) (\<lambda>(rr, p2).
        uf_find l (if lr \<noteq> rr then AList.update lr rr p2 else p2)))"

section \<open>Roots\<close>

inductive reach :: "parents \<Rightarrow> string \<Rightarrow> string \<Rightarrow> bool" for p where
  root: "map_of p r = Some r \<Longrightarrow> reach p r r"
| step: "map_of p k = Some j \<Longrightarrow> j \<noteq> k \<Longrightarrow> reach p j r \<Longrightarrow> reach p k r"

inductive_cases reachE: "reach p k r"

inductive_simps reach_unset: "reach p k r"

definition uf_ok :: "parents \<Rightarrow> bool" where
  "uf_ok p \<longleftrightarrow> (\<forall>k. map_has p k \<longrightarrow> (\<exists>r. reach p k r))"

lemma reach_root: "reach p k r \<Longrightarrow> map_of p r = Some r"
  by (induction rule: reach.induct) auto

lemma reach_has: "reach p k r \<Longrightarrow> map_has p k"
  by (auto elim: reachE)

lemma reach_unique: "reach p k r \<Longrightarrow> reach p k s \<Longrightarrow> r = s"
proof (induction arbitrary: s rule: reach.induct)
  case (root r)
  then show ?case by (auto elim: reachE)
next
  case (step k j r)
  from step.prems step.hyps(1,2) have "reach p j s" by (auto elim: reachE)
  then show ?case by (rule step.IH)
qed

text \<open>Pointing a key at its own root, as compression does, moves no root.\<close>

lemma reach_compress:
  assumes k: "reach p k r"
  shows "reach (AList.update k r p) j s \<longleftrightarrow> reach p j s"
proof -
  let ?q = "AList.update k r p"
  have at: "map_of ?q x = (if x = k then Some r else map_of p x)" for x by (simp add: update_conv')
  have rr: "map_of ?q r = Some r" using reach_root [OF k] by (simp add: at)
  have fwd: "reach p j s \<Longrightarrow> reach ?q j s" for j s
  proof (induction rule: reach.induct)
    case (root x)
    have "reach p x x" using root by (rule reach.root)
    then have "x = k \<Longrightarrow> r = x" using reach_unique [OF k] by blast
    then have "map_of ?q x = Some x" using root by (auto simp: at)
    then show ?case by (rule reach.root)
  next
    case (step x y s)
    have x: "reach p x s" using step.hyps by (rule reach.step)
    show ?case
    proof (cases "x = k")
      case True
      then have s: "s = r" using reach_unique [OF x] k by blast
      have "reach ?q r r" using rr by (rule reach.root)
      moreover have "r \<noteq> k \<Longrightarrow> reach ?q k r"
        by (rule reach.step [of _ _ r]) (simp_all add: at \<open>reach ?q r r\<close>)
      ultimately show ?thesis using s True by (cases "r = k") simp_all
    next
      case False
      then show ?thesis using step by (auto intro: reach.step simp: at)
    qed
  qed
  have "reach p j s" if q: "reach ?q j s"
  proof -
    have "\<exists>t. reach p j t"
      using q
    proof (induction rule: reach.induct)
      case (root x)
      then show ?case using k by (auto simp: at split: if_splits intro: reach.root)
    next
      case (step x y s)
      then show ?case using k by (auto simp: at split: if_splits intro: reach.step)
    qed
    then obtain t where t: "reach p j t" by blast
    with fwd [OF t] q reach_unique show ?thesis by blast
  qed
  then show ?thesis using fwd by blast
qed

text \<open>Linking one root to another joins their classes.\<close>

lemma reach_link:
  assumes l: "map_of p l = Some l" and r: "map_of p r = Some r" and ne: "l \<noteq> r"
  shows "reach (AList.update l r p) j s \<longleftrightarrow> (if reach p j l then s = r else reach p j s)"
proof -
  let ?q = "AList.update l r p"
  have at: "map_of ?q x = (if x = l then Some r else map_of p x)" for x by (simp add: update_conv')
  have lr: "reach ?q l r"
    by (rule reach.step [of _ _ r]) (use r ne in \<open>auto intro: reach.root simp: at\<close>)
  have fwd: "reach p j t \<Longrightarrow> reach ?q j (if t = l then r else t)" for t
  proof (induction rule: reach.induct)
    case (root x)
    then show ?case using lr by (auto intro: reach.root simp: at)
  next
    case (step x y t)
    then have "x \<noteq> l" using l by auto
    with step show ?case by (auto intro: reach.step simp: at)
  qed
  have ex: "\<exists>t. reach p j t" if q: "reach ?q j s"
    using q
  proof (induction rule: reach.induct)
    case (root x)
    then show ?case using ne by (auto simp: at split: if_splits intro: reach.root)
  next
    case (step x y s)
    then show ?case using l by (auto simp: at split: if_splits intro: reach.step reach.root)
  qed
  show ?thesis
  proof (cases "\<exists>t. reach p j t")
    case True
    then obtain t where t: "reach p j t" by blast
    then have l: "reach p j l \<longleftrightarrow> t = l" using reach_unique by blast
    have s: "reach ?q j s \<longleftrightarrow> s = (if t = l then r else t)" using fwd [OF t] reach_unique by blast
    have "reach p j s \<longleftrightarrow> s = t" using t reach_unique by blast
    with l s show ?thesis by auto
  qed (use ex in auto)
qed

lemma reach_next:
  assumes "uf_ok p" and "map_of p x = Some y" and "y \<noteq> x"
  shows "\<exists>r. reach p y r"
proof -
  obtain r where "reach p x r" using assms(1,2) by (auto simp: uf_ok_def)
  then show ?thesis using assms(2,3) by (cases rule: reach.cases) auto
qed

lemma reach_enter:
  assumes ok: "uf_ok p"
  shows "reach (uf_enter k p) j s \<longleftrightarrow> reach p j s \<or> \<not> map_has p k \<and> j = k \<and> s = k"
proof (cases "map_has p k")
  case True
  then show ?thesis by (simp add: uf_enter_def)
next
  case False
  let ?q = "AList.update k k p"
  have at: "map_of ?q x = (if x = k then Some k else map_of p x)" for x by (simp add: update_conv')
  have "reach p j s \<Longrightarrow> reach ?q j s"
  proof (induction rule: reach.induct)
    case (root x)
    with False have "map_of ?q x = Some x" by (auto simp: at)
    then show ?case by (rule reach.root)
  next
    case (step x y s)
    with False have "map_of ?q x = Some y" by (auto simp: at)
    then show ?case using step.hyps(2) step.IH by (rule reach.step)
  qed
  moreover have "reach ?q j s \<Longrightarrow> reach p j s \<or> j = k \<and> s = k"
  proof (induction rule: reach.induct)
    case (root x)
    then show ?case by (cases "x = k") (auto simp: at intro: reach.root)
  next
    case (step x y s)
    then have x: "x \<noteq> k" "map_of p x = Some y" by (auto simp: at split: if_splits)
    from step.IH show ?case
    proof
      assume "reach p y s"
      then show ?thesis using x step.hyps(2) by (auto intro: reach.step)
    next
      assume "y = k \<and> s = k"
      moreover have "map_has p y" using reach_next [OF ok x(2) step.hyps(2)] by (auto dest: reach_has)
      ultimately show ?thesis using False by simp
    qed
  qed
  moreover have "reach ?q k k" by (auto intro: reach.root simp: at)
  ultimately show ?thesis using False by (auto simp: uf_enter_def)
qed

lemma enter_ok: "uf_ok p \<Longrightarrow> uf_ok (uf_enter k p) \<and> map_has (uf_enter k p) k"
  using reach_enter [of p k] by (auto simp: uf_ok_def uf_enter_def update_conv' split: if_splits)

lemma enter_has [simp]: "map_has (uf_enter k p) j \<longleftrightarrow> map_has p j \<or> j = k"
  by (auto simp: uf_enter_def update_conv')

section \<open>What the operations do\<close>

lemma uf_find_reach:
  "reach p k r \<Longrightarrow> \<exists>p'. uf_find k p = Some (r, p') \<and> (\<forall>j. map_has p' j = map_has p j)
    \<and> (\<forall>j s. reach p' j s = reach p j s)"
proof (induction rule: reach.induct)
  case (root r)
  then show ?case by (subst uf_find.simps) (auto simp: uf_enter_def)
next
  case (step k j r)
  from step.IH obtain p1 where p1: "uf_find j p = Some (r, p1)" "\<And>j. map_has p1 j = map_has p j"
    "\<And>j s. reach p1 j s = reach p j s" by blast
  have k: "reach p1 k r" using reach.step [OF step.hyps] by (simp add: p1(3))
  have "uf_find k p = Some (r, AList.update k r p1)"
    using step.hyps(1,2) p1(1) by (subst uf_find.simps) (simp add: uf_enter_def)
  moreover have "map_has (AList.update k r p1) x = map_has p x" for x
    using step.hyps(1) p1(2) by (auto simp: update_conv')
  ultimately show ?case using reach_compress [OF k] p1(3) by blast
qed

text \<open>\<open>find\<close> returns the root of the key, which it enters if it is new, and moves no root.\<close>

lemma uf_find_spec:
  assumes ok: "uf_ok p"
  shows "\<exists>r p'. uf_find k p = Some (r, p') \<and> uf_ok p' \<and> reach p' k r
    \<and> (\<forall>j s. reach p' j s \<longleftrightarrow> reach (uf_enter k p) j s) \<and> (\<forall>j. map_has p' j \<longleftrightarrow> map_has p j \<or> j = k)"
proof -
  let ?p = "uf_enter k p"
  obtain r where r: "reach ?p k r" using enter_ok [OF ok, of k] by (auto simp: uf_ok_def)
  from uf_find_reach [OF r] obtain p' where p': "uf_find k ?p = Some (r, p')" "\<And>j. map_has p' j = map_has ?p j"
    "\<And>j s. reach p' j s = reach ?p j s" by blast
  have "uf_enter k ?p = ?p" by (simp add: uf_enter_def)
  then have "uf_find k p = uf_find k ?p" by (subst (1 2) uf_find.simps) simp
  moreover have "reach p' = reach ?p" by (intro ext) (rule p'(3))
  then have "uf_ok p'" using enter_ok [OF ok, of k] p'(2) unfolding uf_ok_def by simp
  moreover have "map_has p' j \<longleftrightarrow> map_has p j \<or> j = k" for j by (simp only: p'(2) enter_has)
  moreover have "reach p' k r" using r by (simp only: p'(3))
  ultimately show ?thesis using p'(1,3) by (intro exI [of _ r] exI [of _ p'] conjI allI) (simp_all only:)
qed

text \<open>A valuation fits the classes when every key has the value of its root.\<close>

definition fits :: "(string \<Rightarrow> 'a) \<Rightarrow> parents \<Rightarrow> bool" where
  "fits v p \<longleftrightarrow> (\<forall>k r. reach p k r \<longrightarrow> v k = v r)"

lemma fits_enter [simp]: "uf_ok p \<Longrightarrow> fits v (uf_enter k p) = fits v p"
  by (auto simp: fits_def reach_enter)

lemma uf_find_fits:
  assumes "uf_ok p"
  obtains r p' where "uf_find k p = Some (r, p')" and "uf_ok p'" and "reach p' k r"
    and "\<And>v :: string \<Rightarrow> 'a. fits v p' = fits v p" and "\<And>j. map_has p' j \<longleftrightarrow> map_has p j \<or> j = k"
    and "\<And>j s. reach p j s \<Longrightarrow> reach p' j s"
proof -
  obtain r p' where f: "uf_find k p = Some (r, p') \<and> uf_ok p' \<and> reach p' k r
    \<and> (\<forall>j s. reach p' j s \<longleftrightarrow> reach (uf_enter k p) j s) \<and> (\<forall>j. map_has p' j \<longleftrightarrow> map_has p j \<or> j = k)"
    using uf_find_spec [OF assms, of k] by (elim exE)
  have has: "map_has p' j \<longleftrightarrow> map_has p j \<or> j = k" for j using f by (elim conjE) (erule spec)
  have eq: "reach p' = reach (uf_enter k p)" using f by (intro ext) simp
  have fits: "fits v p' = fits v p" for v :: "string \<Rightarrow> 'a"
    using fits_enter [OF assms, of v k] by (simp add: fits_def eq)
  have mono: "reach p j s \<Longrightarrow> reach p' j s" for j s using reach_enter [OF assms] eq by simp
  have "uf_find k p = Some (r, p')" "uf_ok p'" "reach p' k r" using f by auto
  then show ?thesis using fits has mono by (rule that)
qed

lemma uf_union_spec:
  assumes ok: "uf_ok p"
  obtains x p' where "uf_union l r p = Some (x, p')" and "uf_ok p'"
    and "\<And>v :: string \<Rightarrow> 'a. fits v p' \<longleftrightarrow> fits v p \<and> v l = v r"
    and "\<And>j. map_has p' j \<longleftrightarrow> map_has p j \<or> j = l \<or> j = r"
proof -
  obtain lr p1 where 1: "uf_find l p = Some (lr, p1)" "uf_ok p1" "reach p1 l lr"
    "\<And>v :: string \<Rightarrow> 'a. fits v p1 = fits v p" "\<And>j. map_has p1 j \<longleftrightarrow> map_has p j \<or> j = l"
    using uf_find_fits [OF ok, where 'a = 'a and k = l] by metis
  obtain rr p2 where 2: "uf_find r p1 = Some (rr, p2)" "uf_ok p2" "reach p2 r rr"
    "\<And>v :: string \<Rightarrow> 'a. fits v p2 = fits v p1" "\<And>j. map_has p2 j \<longleftrightarrow> map_has p1 j \<or> j = r"
    "\<And>j s. reach p1 j s \<Longrightarrow> reach p2 j s"
    using uf_find_fits [OF 1(2), where 'a = 'a and k = r] by metis
  have l2: "reach p2 l lr" using 1(3) 2(6) by blast
  let ?q = "if lr \<noteq> rr then AList.update lr rr p2 else p2"
  have link: "reach ?q j s \<longleftrightarrow> (if lr \<noteq> rr \<and> reach p2 j lr then s = rr else reach p2 j s)" for j s
    using reach_link [OF reach_root [OF l2] reach_root [OF 2(3)]] by simp
  have has: "map_has ?q j \<longleftrightarrow> map_has p2 j" for j
    using reach_has [OF l2] reach_root [OF l2] by (auto simp: update_conv')
  have ok3: "uf_ok ?q"
    unfolding uf_ok_def has link using 2(2) unfolding uf_ok_def by metis
  have resp: "fits v ?q \<longleftrightarrow> fits v p \<and> v l = v r" for v :: "string \<Rightarrow> 'a"
  proof
    assume q: "fits v ?q"
    have root: "reach p2 j lr \<Longrightarrow> v j = v rr" for j
      using q link [of j rr] unfolding fits_def by (cases "lr = rr") auto
    have "v k = v s" if k: "reach p2 k s" for k s
    proof (cases "s = lr")
      case True
      then show ?thesis using root [of k] root [of lr] k reach_root [OF l2] reach.root by metis
    next
      case False
      then have "\<not> reach p2 k lr" using reach_unique k by blast
      then show ?thesis using q link [of k s] k unfolding fits_def by simp
    qed
    then have p: "fits v p2" by (simp add: fits_def)
    moreover have "v l = v rr" using root [OF l2] .
    moreover have "v r = v rr" using p 2(3) by (simp add: fits_def)
    ultimately show "fits v p \<and> v l = v r" by (simp add: 1(4) 2(4))
  next
    assume a: "fits v p \<and> v l = v r"
    then have p: "fits v p2" by (simp add: 1(4) 2(4))
    have "v lr = v l" "v rr = v r" using p l2 2(3) by (auto simp: fits_def)
    then have "v lr = v rr" using a by simp
    then show "fits v ?q" using p unfolding fits_def link by (metis (full_types))
  qed
  obtain x p' where 3: "uf_find l ?q = Some (x, p')" "uf_ok p'"
    "\<And>v :: string \<Rightarrow> 'a. fits v p' = fits v ?q" "\<And>j. map_has p' j \<longleftrightarrow> map_has ?q j \<or> j = l"
    using uf_find_fits [OF ok3, where 'a = 'a and k = l] by metis
  have "uf_union l r p = Some (x, p')" by (simp add: uf_union_def 1(1) 2(1) 3(1))
  moreover have "fits v p' \<longleftrightarrow> fits v p \<and> v l = v r" for v :: "string \<Rightarrow> 'a" by (simp only: 3(3) resp)
  moreover have "map_has p' j \<longleftrightarrow> map_has p j \<or> j = l \<or> j = r" for j using 3(4) has 2(5) 1(5) by metis
  ultimately show ?thesis by (rule that [OF _ 3(2)])
qed

end
