(* ===== verification/ScriptTypes.thy ===== *)
theory ScriptTypes
  imports Prelude
begin

text \<open>
  \<open>app/scripting/types/PortTypes.js\<close> and \<open>TypeScheme.js\<close>: the types of ports, the type variables
  of a block, and what a port resolves to. Blocks and connections are those of
  \<open>app/scripting/ScriptManager.js\<close>; a connection names its blocks by \<open>uuid\<close>. What a block class
  defines (its ports, its type scheme, how it resolves labels, which types it accepts) is data of
  the block.
\<close>

definition GENERIC_TYPE :: string where
  "GENERIC_TYPE = ''generic''"

definition REPEAT_REF_TYPE :: string where
  "REPEAT_REF_TYPE = ''repeat_ref''"

definition UNIT_TYPE :: string where
  "UNIT_TYPE = ''unit''"

definition isGeneric :: "string \<Rightarrow> bool" where
  "isGeneric t = (t = GENERIC_TYPE)"

definition isConcreteType :: "string \<Rightarrow> bool" where
  "isConcreteType t = (t \<noteq> [] \<and> t \<noteq> GENERIC_TYPE)"

definition portsCompatible :: "string \<Rightarrow> string \<Rightarrow> bool" where
  "portsCompatible a b =
    (if \<not> isConcreteType a \<and> \<not> isGeneric a then False
     else if \<not> isConcreteType b \<and> \<not> isGeneric b then False
     else if a = REPEAT_REF_TYPE \<or> b = REPEAT_REF_TYPE then a = b
     else if isGeneric a \<or> isGeneric b then True
     else a = b)"

section \<open>Blocks\<close>

datatype port_side = Inputs | Outputs

record connection =
  outputUnit :: string
  outputLabel :: string
  inputUnit :: string
  inputLabel :: string

text \<open>A type variable of a scheme: the ports it types, and the types it accepts if it is choosy.\<close>

record type_var =
  tv_inputs :: "string list"
  tv_outputs :: "string list"
  tv_accept :: "(string \<Rightarrow> bool) option"

record block =
  uuid :: string
  blockType :: string
  outputRole :: bool \<comment> \<open>\<open>programNodeRole === "output"\<close>\<close>
  resolveInputLabel :: "string \<Rightarrow> string"
  resolveOutputLabel :: "string \<Rightarrow> string"
  inPorts :: "(string, string) js_map"
  outPorts :: "(string, string) js_map"
  scheme :: "(string, type_var) js_map"
  typeBindings :: "(string, string) js_map"
  b_inputs :: "(string, connection) js_map"
  b_outputs :: "(string, connection list) js_map"

definition resolveLabel :: "block \<Rightarrow> port_side \<Rightarrow> string \<Rightarrow> string" where
  "resolveLabel b s l = (case s of Outputs \<Rightarrow> resolveOutputLabel b l | Inputs \<Rightarrow> resolveInputLabel b l)"

definition portMap :: "block \<Rightarrow> port_side \<Rightarrow> (string, string) js_map" where
  "portMap b s = (case s of Outputs \<Rightarrow> outPorts b | Inputs \<Rightarrow> inPorts b)"

definition tv_ports :: "port_side \<Rightarrow> type_var \<Rightarrow> string list" where
  "tv_ports s v = (case s of Outputs \<Rightarrow> tv_outputs v | Inputs \<Rightarrow> tv_inputs v)"

definition hasDeclaredPort :: "block \<Rightarrow> port_side \<Rightarrow> string \<Rightarrow> bool" where
  "hasDeclaredPort b s l = map_has (portMap b s) (resolveLabel b s l)"

definition getTypeVariable :: "block \<Rightarrow> port_side \<Rightarrow> string \<Rightarrow> string option" where
  "getTypeVariable b s l =
    map_option fst (List.find (\<lambda>(_, spec). resolveLabel b s l \<in> set (tv_ports s spec)) (scheme b))"

definition declaredPortType :: "block \<Rightarrow> port_side \<Rightarrow> string \<Rightarrow> string option" where
  "declaredPortType b s l =
    (let r = resolveLabel b s l in
     case map_of (portMap b s) r of
       None \<Rightarrow> None
     | Some t \<Rightarrow> if getTypeVariable b s r \<noteq> None then Some GENERIC_TYPE else Some t)"

definition resolvedPortType :: "block \<Rightarrow> port_side \<Rightarrow> string \<Rightarrow> string option" where
  "resolvedPortType b s l =
    (let r = resolveLabel b s l in
     case map_of (portMap b s) r of
       None \<Rightarrow> None
     | Some t \<Rightarrow>
         (case getTypeVariable b s r of
            None \<Rightarrow> Some t
          | Some v \<Rightarrow>
              (case map_of (typeBindings b) v of
                 Some bound \<Rightarrow>
                   if isConcreteType bound then Some bound
                   else if isConcreteType t then Some t else Some GENERIC_TYPE
               | None \<Rightarrow> if isConcreteType t then Some t else Some GENERIC_TYPE)))"

definition collectResolvedPortMap :: "block \<Rightarrow> port_side \<Rightarrow> (string, string) js_map" where
  "collectResolvedPortMap b s =
    map (\<lambda>l. (l, case resolvedPortType b s l of Some t \<Rightarrow> t | None \<Rightarrow> [])) (map_keys (portMap b s))"

text \<open>The first port that is still generic, inputs first, and the variable it belongs to.\<close>

definition unbound_at :: "block \<Rightarrow> port_side \<Rightarrow> string option" where
  "unbound_at b s =
    (case List.find (\<lambda>l. resolvedPortType b s l = Some GENERIC_TYPE) (map_keys (portMap b s)) of
       None \<Rightarrow> None
     | Some l \<Rightarrow> Some (case getTypeVariable b s l of None \<Rightarrow> GENERIC_TYPE | Some v \<Rightarrow> v))"

definition findUnboundGeneric :: "block \<Rightarrow> string option" where
  "findUnboundGeneric b = (case unbound_at b Inputs of Some v \<Rightarrow> Some v | None \<Rightarrow> unbound_at b Outputs)"

definition rejects :: "(string, string) js_map \<Rightarrow> string \<times> type_var \<Rightarrow> bool" where
  "rejects bound = (\<lambda>(v, spec).
    (case (tv_accept spec, map_of bound v) of
       (Some accept, Some t) \<Rightarrow> isConcreteType t \<and> \<not> accept t
     | _ \<Rightarrow> False))"

definition findRejectedBinding :: "block \<Rightarrow> (string \<times> string) option" where
  "findRejectedBinding b =
    (case List.find (rejects (typeBindings b)) (scheme b) of
       None \<Rightarrow> None
     | Some (v, _) \<Rightarrow> Some (v, the (map_of (typeBindings b) v)))"

section \<open>Well-formed blocks\<close>

text \<open>
  Declared labels resolve to themselves, resolving is idempotent, ports have a type, and the ports
  of a type variable are declared generic.
\<close>

definition block_ok :: "block \<Rightarrow> bool" where
  "block_ok b \<longleftrightarrow>
    (\<forall>s l. resolveLabel b s (resolveLabel b s l) = resolveLabel b s l)
    \<and> (\<forall>s l t. map_of (portMap b s) l = Some t \<longrightarrow> (isConcreteType t \<or> isGeneric t)
        \<and> (getTypeVariable b s l \<noteq> None \<longrightarrow> isGeneric t))"

lemma concrete_not_generic: "isConcreteType t \<Longrightarrow> \<not> isGeneric t"
  by (simp add: isConcreteType_def isGeneric_def)

lemma generic_not_ref [simp]: "GENERIC_TYPE \<noteq> REPEAT_REF_TYPE" "REPEAT_REF_TYPE \<noteq> GENERIC_TYPE"
  by (simp_all add: GENERIC_TYPE_def REPEAT_REF_TYPE_def)

lemma isGeneric_GENERIC [simp]: "isGeneric GENERIC_TYPE" "\<not> isConcreteType GENERIC_TYPE"
  by (simp_all add: isGeneric_def isConcreteType_def)

lemma compatible_same: "isConcreteType t \<Longrightarrow> portsCompatible t t"
  by (simp add: portsCompatible_def concrete_not_generic)

lemma compatible_generic:
  "isConcreteType t \<or> isGeneric t \<Longrightarrow> t \<noteq> REPEAT_REF_TYPE \<Longrightarrow> portsCompatible GENERIC_TYPE t \<and> portsCompatible t GENERIC_TYPE"
  by (auto simp: portsCompatible_def)

lemma portsCompatible_concrete:
  "portsCompatible s t \<Longrightarrow> isConcreteType s \<Longrightarrow> isConcreteType t \<Longrightarrow> s = t"
  by (auto simp: portsCompatible_def dest: concrete_not_generic split: if_splits)

section \<open>Two blocks for the witnesses\<close>

text \<open>A source of numbers and a block that shows a value of any type.\<close>

definition demo_source :: block where
  "demo_source = \<lparr>uuid = ''a'', blockType = ''number'', outputRole = False,
    resolveInputLabel = (\<lambda>l. l), resolveOutputLabel = (\<lambda>l. l),
    inPorts = [], outPorts = [(''value'', ''float'')], scheme = [], typeBindings = [], b_inputs = [], b_outputs = []\<rparr>"

definition demo_sink :: block where
  "demo_sink = \<lparr>uuid = ''b'', blockType = ''show'', outputRole = True,
    resolveInputLabel = (\<lambda>l. l), resolveOutputLabel = (\<lambda>l. l),
    inPorts = [(''x'', GENERIC_TYPE)], outPorts = [],
    scheme = [(''T'', \<lparr>tv_inputs = [''x''], tv_outputs = [], tv_accept = Some (\<lambda>t. t \<noteq> ''bool'')\<rparr>)],
    typeBindings = [], b_inputs = [], b_outputs = []\<rparr>"

definition demo_edge :: connection where
  "demo_edge = \<lparr>outputUnit = ''a'', outputLabel = ''value'', inputUnit = ''b'', inputLabel = ''x''\<rparr>"

lemma demo_ok: "block_ok demo_source" "block_ok demo_sink"
  by (auto simp: block_ok_def demo_source_def demo_sink_def resolveLabel_def portMap_def getTypeVariable_def tv_ports_def
      isConcreteType_def isGeneric_def GENERIC_TYPE_def split: port_side.splits if_splits)

end
