(* ===== verification/TypeUnify.thy ===== *)
theory TypeUnify
  imports UnionFind ScriptTypes
begin

text \<open>
  \<open>app/scripting/types/unifyGraph.js\<close>: the types of a script's generic blocks, inferred from its
  connections. \<open>planUnify\<close> joins the variables connected to each other, collects the types they are
  connected to, and reports the binding of every variable or the first conflict. A search for a
  root that does not return is the error \<open>NoReturn\<close>; it is shown never to occur.
\<close>

record script =
  units :: "block list"
  head :: "string option"

definition unit_at :: "script \<Rightarrow> string \<Rightarrow> block option" where
  "unit_at g u = List.find (\<lambda>b. uuid b = u) (units g)"

datatype unify_error = NoReturn | InvalidUuids string string | MissingOutput string string
  | MissingInput string string | TypeMismatch string string string string string string
  | RepeatRefOnly string string string string | TypeConflict string string string string
  | RejectedBinding string string string

text \<open>What \<open>describePort\<close> says of a port; a variable is named by its block and its name.\<close>

datatype port_desc = PMissing | PVar string string | PWildcard | PConcrete string

definition describe_block :: "block \<Rightarrow> port_side \<Rightarrow> string \<Rightarrow> port_desc" where
  "describe_block b s l =
    (let r = resolveLabel b s l in
     if \<not> hasDeclaredPort b s r then PMissing
     else case getTypeVariable b s r of
         Some v \<Rightarrow> PVar (uuid b) v
       | None \<Rightarrow>
           (case map_of (portMap b s) r of
              None \<Rightarrow> PMissing
            | Some t \<Rightarrow> if isGeneric t then PWildcard else if isConcreteType t then PConcrete t else PMissing))"

definition describePort :: "script \<Rightarrow> port_side \<Rightarrow> string \<Rightarrow> string \<Rightarrow> port_desc" where
  "describePort g s u l = (case unit_at g u of None \<Rightarrow> PMissing | Some b \<Rightarrow> describe_block b s l)"

definition var_key :: "string \<Rightarrow> string \<Rightarrow> string" where
  "var_key u v = u @ ''::'' @ v"

definition collectExistingEdges :: "script \<Rightarrow> connection list" where
  "collectExistingEdges g = concat (map (\<lambda>b. concat (map snd (b_outputs b))) (units g))"

definition resolveCandidate :: "script \<Rightarrow> connection \<Rightarrow> (unify_error, connection) result" where
  "resolveCandidate g c =
    (case (unit_at g (outputUnit c), unit_at g (inputUnit c)) of
       (Some a, Some b) \<Rightarrow> Inr (c\<lparr>outputLabel := resolveOutputLabel a (outputLabel c),
         inputLabel := resolveInputLabel b (inputLabel c)\<rparr>)
     | _ \<Rightarrow> Inl (InvalidUuids (outputUnit c) (inputUnit c)))"

definition resolved_label :: "script \<Rightarrow> port_side \<Rightarrow> string \<Rightarrow> string \<Rightarrow> string" where
  "resolved_label g s u l = (case unit_at g u of None \<Rightarrow> l | Some b \<Rightarrow> resolveLabel b s l)"

definition find_key :: "string \<Rightarrow> parents \<Rightarrow> (unify_error, string \<times> parents) result" where
  "find_key k p = (case uf_find k p of None \<Rightarrow> Inl NoReturn | Some x \<Rightarrow> Inr x)"

definition union_keys :: "string \<Rightarrow> string \<Rightarrow> parents \<Rightarrow> (unify_error, string \<times> parents) result" where
  "union_keys l r p = (case uf_union l r p of None \<Rightarrow> Inl NoReturn | Some x \<Rightarrow> Inr x)"

section \<open>The first pass: which variables are the same\<close>

type_synonym var_entry = "string \<times> string \<times> string"

definition rememberVar ::
  "port_desc \<Rightarrow> var_entry list \<times> parents \<Rightarrow> (unify_error, var_entry list \<times> parents) result" where
  "rememberVar port = (\<lambda>(ks, p).
    (case port of
       PVar u v \<Rightarrow>
         if var_key u v \<in> fst ` set ks then Inr (ks, p)
         else res_bind (find_key (var_key u v) p) (\<lambda>(_, p'). Inr (ks @ [(var_key u v, u, v)], p'))
     | _ \<Rightarrow> Inr (ks, p)))"

definition class_edge ::
  "script \<Rightarrow> var_entry list \<times> parents \<Rightarrow> connection \<Rightarrow> (unify_error, var_entry list \<times> parents) result" where
  "class_edge g st e =
    (let out = describePort g Outputs (outputUnit e) (outputLabel e);
         inp = describePort g Inputs (inputUnit e) (inputLabel e)
     in if out = PMissing then Inl (MissingOutput (outputLabel e) (outputUnit e))
        else if inp = PMissing then Inl (MissingInput (inputLabel e) (inputUnit e))
        else res_bind (rememberVar out st) (\<lambda>st1. res_bind (rememberVar inp st1) (\<lambda>(ks, p).
          (case (out, inp) of
             (PVar u v, PVar u' v') \<Rightarrow>
               res_bind (union_keys (var_key u v) (var_key u' v') p) (\<lambda>(_, p'). Inr (ks, p'))
           | _ \<Rightarrow> Inr (ks, p)))))"

section \<open>The second pass: the types each class is connected to\<close>

type_synonym constraints = "(string, (string \<times> string) list) js_map"

definition addConstraint ::
  "string \<Rightarrow> string \<Rightarrow> string \<Rightarrow> parents \<times> constraints \<Rightarrow> (unify_error, parents \<times> constraints) result" where
  "addConstraint key t u = (\<lambda>(p, cs).
    res_bind (find_key key p) (\<lambda>(r, p').
      Inr (p', AList.update r ((case map_of cs r of None \<Rightarrow> [] | Some es \<Rightarrow> es) @ [(t, u)]) cs)))"

definition constrain_edge ::
  "script \<Rightarrow> parents \<times> constraints \<Rightarrow> connection \<Rightarrow> (unify_error, parents \<times> constraints) result" where
  "constrain_edge g st e =
    (let out = describePort g Outputs (outputUnit e) (outputLabel e);
         inp = describePort g Inputs (inputUnit e) (inputLabel e);
         ol = resolved_label g Outputs (outputUnit e) (outputLabel e);
         il = resolved_label g Inputs (inputUnit e) (inputLabel e)
     in case (out, inp) of
         (PConcrete s, PConcrete t) \<Rightarrow>
           if s \<noteq> t
           then Inl (TypeMismatch (outputUnit e) ol s (inputUnit e) il t)
           else Inr st
       | _ \<Rightarrow>
           if (out = PConcrete REPEAT_REF_TYPE) \<noteq> (inp = PConcrete REPEAT_REF_TYPE)
           then Inl (RepeatRefOnly (outputUnit e) ol (inputUnit e) il)
           else (case (out, inp) of
               (PVar u v, PConcrete t) \<Rightarrow> addConstraint (var_key u v) t u st
             | (PConcrete t, PVar u v) \<Rightarrow> addConstraint (var_key u v) t u st
             | _ \<Rightarrow> Inr st))"

section \<open>One type for each class\<close>

definition uniq :: "'a list \<Rightarrow> 'a list" where
  "uniq xs = fold (\<lambda>x acc. if x \<in> set acc then acc else acc @ [x]) xs []"

definition membersForRoot ::
  "string \<Rightarrow> var_entry list \<Rightarrow> parents \<Rightarrow> (unify_error, var_entry list \<times> parents) result" where
  "membersForRoot r ks p =
    res_fold (\<lambda>(ms, p) (key, u, v). res_bind (find_key key p) (\<lambda>(r', p').
      Inr (if r' = r then ms @ [(key, u, v)] else ms, p'))) ([], p) ks"

definition type_conflict ::
  "connection option \<Rightarrow> var_entry list \<Rightarrow> parents \<Rightarrow> string \<Rightarrow> (string \<times> string) list \<Rightarrow> unify_error" where
  "type_conflict cand ks p r es =
    (let types = uniq (map fst es) in
     case membersForRoot r ks p of
       Inl err \<Rightarrow> err
     | Inr (ms, _) \<Rightarrow>
         let mine = (case cand of None \<Rightarrow> None | Some c \<Rightarrow> List.find (\<lambda>(_, u, _). u = inputUnit c) ms);
             preferred = (case mine of Some m \<Rightarrow> Some m | None \<Rightarrow> (case ms of [] \<Rightarrow> None | m # _ \<Rightarrow> Some m))
         in (case preferred of
               Some (_, u, v) \<Rightarrow> TypeConflict u v (types ! 0) (types ! 1)
             | None \<Rightarrow> TypeConflict (snd (hd es)) ''T'' (types ! 0) (types ! 1)))"

definition merge_types ::
  "connection option \<Rightarrow> var_entry list \<Rightarrow> parents \<Rightarrow> constraints \<Rightarrow> (unify_error, (string, string) js_map) result" where
  "merge_types cand ks p cs =
    res_fold (\<lambda>merged (r, es).
      if length (uniq (map fst es)) > 1 then Inl (type_conflict cand ks p r es)
      else Inr (AList.update r (uniq (map fst es) ! 0) merged)) [] cs"

type_synonym bindings = "(string, (string, string) js_map) js_map"

definition bindings_of :: "bindings \<Rightarrow> string \<Rightarrow> (string, string) js_map" where
  "bindings_of bs u = (case map_of bs u of None \<Rightarrow> [] | Some b \<Rightarrow> b)"

definition bind_vars ::
  "(string, string) js_map \<Rightarrow> var_entry list \<Rightarrow> parents \<Rightarrow> (unify_error, bindings \<times> parents) result" where
  "bind_vars merged ks p =
    res_fold (\<lambda>(bs, p) (key, u, v). res_bind (find_key key p) (\<lambda>(r, p').
      (case map_of merged r of
         Some t \<Rightarrow> if isConcreteType t then Inr (AList.update u (AList.update v t (bindings_of bs u)) bs, p')
           else Inr (bs, p')
       | None \<Rightarrow> Inr (bs, p')))) ([], p) ks"

section \<open>The plan\<close>

record unify_plan =
  up_ok :: bool
  hardConflict :: bool
  up_bindings :: bindings
  up_error :: "unify_error option"

definition plan_bindings :: "script \<Rightarrow> connection option \<Rightarrow> connection list \<Rightarrow> (unify_error, bindings) result" where
  "plan_bindings g cand edges =
    res_bind (res_fold (class_edge g) ([], []) edges) (\<lambda>(ks, p).
      res_bind (res_fold (constrain_edge g) (p, []) edges) (\<lambda>(p, cs).
        res_bind (merge_types cand ks p cs) (\<lambda>merged.
          res_bind (bind_vars merged ks p) (\<lambda>(bs, _). Inr bs))))"

definition first_rejected :: "script \<Rightarrow> bindings \<Rightarrow> unify_error option" where
  "first_rejected g bs =
    (case List.find (\<lambda>b. \<exists>x \<in> set (scheme b). rejects (bindings_of bs (uuid b)) x) (units g) of
       None \<Rightarrow> None
     | Some b \<Rightarrow>
         (case List.find (rejects (bindings_of bs (uuid b))) (scheme b) of
            None \<Rightarrow> None
          | Some (v, _) \<Rightarrow> Some (RejectedBinding (uuid b) v (the (map_of (bindings_of bs (uuid b)) v)))))"

definition hard_plan :: "unify_error \<Rightarrow> unify_plan" where
  "hard_plan e = \<lparr>up_ok = False, hardConflict = True, up_bindings = [], up_error = Some e\<rparr>"

definition finish_plan :: "script \<Rightarrow> (unify_error, bindings) result \<Rightarrow> unify_plan" where
  "finish_plan g res =
    (case res of
       Inl e \<Rightarrow> hard_plan e
     | Inr bs \<Rightarrow>
         (case first_rejected g bs of
            Some e \<Rightarrow> \<lparr>up_ok = False, hardConflict = False, up_bindings = bs, up_error = Some e\<rparr>
          | None \<Rightarrow> \<lparr>up_ok = True, hardConflict = False, up_bindings = bs, up_error = None\<rparr>))"

definition planUnify :: "script \<Rightarrow> connection option \<Rightarrow> unify_plan" where
  "planUnify g cand =
    (case (case cand of None \<Rightarrow> Inr None | Some c \<Rightarrow> res_bind (resolveCandidate g c) (\<lambda>c'. Inr (Some c'))) of
       Inl e \<Rightarrow> hard_plan e
     | Inr rc \<Rightarrow>
         finish_plan g (plan_bindings g rc (collectExistingEdges g @ (case rc of None \<Rightarrow> [] | Some c \<Rightarrow> [c]))))"

definition applyBindings :: "bindings \<Rightarrow> script \<Rightarrow> script" where
  "applyBindings bs g = g\<lparr>units := map (\<lambda>b. b\<lparr>typeBindings :=
    filter (\<lambda>(_, t). isConcreteType t) (bindings_of bs (uuid b))\<rparr>) (units g)\<rparr>"

definition recomputeBindings :: "script \<Rightarrow> unify_plan \<times> script" where
  "recomputeBindings g =
    (let plan = planUnify g None
     in (plan, if hardConflict plan then g else applyBindings (up_bindings plan) g))"

section \<open>What a plan has to satisfy\<close>

text \<open>
  A valuation gives every variable a type. It satisfies an edge when both ends are declared, have
  the same type where both have one, and a loop reference meets a loop reference.
\<close>

abbreviation out_port :: "script \<Rightarrow> connection \<Rightarrow> port_desc" where
  "out_port g e \<equiv> describePort g Outputs (outputUnit e) (outputLabel e)"

abbreviation in_port :: "script \<Rightarrow> connection \<Rightarrow> port_desc" where
  "in_port g e \<equiv> describePort g Inputs (inputUnit e) (inputLabel e)"

definition vsat :: "script \<Rightarrow> (string \<Rightarrow> string) \<Rightarrow> connection \<Rightarrow> bool" where
  "vsat g v e \<longleftrightarrow> (case (out_port g e, in_port g e) of
      (PVar a x, PVar b y) \<Rightarrow> v (var_key a x) = v (var_key b y) | _ \<Rightarrow> True)"

definition tsat :: "script \<Rightarrow> (string \<Rightarrow> string) \<Rightarrow> connection \<Rightarrow> bool" where
  "tsat g v e \<longleftrightarrow> (case (out_port g e, in_port g e) of
      (PConcrete s, PConcrete t) \<Rightarrow> s = t
    | (PVar a x, PConcrete t) \<Rightarrow> t \<noteq> REPEAT_REF_TYPE \<and> v (var_key a x) = t
    | (PConcrete t, PVar a x) \<Rightarrow> t \<noteq> REPEAT_REF_TYPE \<and> v (var_key a x) = t
    | (PConcrete t, _) \<Rightarrow> t \<noteq> REPEAT_REF_TYPE
    | (_, PConcrete t) \<Rightarrow> t \<noteq> REPEAT_REF_TYPE
    | _ \<Rightarrow> True)"

definition declared_edge :: "script \<Rightarrow> connection \<Rightarrow> bool" where
  "declared_edge g e \<longleftrightarrow> out_port g e \<noteq> PMissing \<and> in_port g e \<noteq> PMissing"

definition edge_sat :: "script \<Rightarrow> (string \<Rightarrow> string) \<Rightarrow> connection \<Rightarrow> bool" where
  "edge_sat g v e \<longleftrightarrow> declared_edge g e \<and> vsat g v e \<and> tsat g v e"

definition satisfiable :: "script \<Rightarrow> connection list \<Rightarrow> bool" where
  "satisfiable g es \<longleftrightarrow> (\<exists>v. \<forall>e \<in> set es. edge_sat g v e)"

abbreviation fit :: "(string \<Rightarrow> string) \<Rightarrow> parents \<Rightarrow> bool" where
  "fit \<equiv> fits"

section \<open>The first pass is right\<close>

definition vars_ok :: "var_entry list \<times> parents \<Rightarrow> bool" where
  "vars_ok = (\<lambda>(ks, p). uf_ok p \<and> distinct (map fst ks)
    \<and> (\<forall>(key, u, v) \<in> set ks. key = var_key u v \<and> map_has p key))"

definition port_keys :: "port_desc \<Rightarrow> string set" where
  "port_keys port = (case port of PVar u v \<Rightarrow> {var_key u v} | _ \<Rightarrow> {})"

definition port_entries :: "port_desc \<Rightarrow> var_entry set" where
  "port_entries port = (case port of PVar u v \<Rightarrow> {(var_key u v, u, v)} | _ \<Rightarrow> {})"

lemma find_key_spec:
  assumes "uf_ok p"
  obtains r p' where "find_key k p = Inr (r, p')" and "uf_ok p'" and "reach p' k r"
    and "\<And>v. fit v p' = fit v p" and "\<And>j. map_has p' j \<longleftrightarrow> map_has p j \<or> j = k"
    and "\<And>j s. reach p j s \<Longrightarrow> reach p' j s"
proof -
  obtain r p' where f: "uf_find k p = Some (r, p')" "uf_ok p'" "reach p' k r"
    "\<And>v :: string \<Rightarrow> string. fits v p' = fits v p" "\<And>j. map_has p' j \<longleftrightarrow> map_has p j \<or> j = k"
    "\<And>j s. reach p j s \<Longrightarrow> reach p' j s"
    using uf_find_fits [OF assms, where 'a = string and k = k] by metis
  have "find_key k p = Inr (r, p')" by (simp add: find_key_def f(1))
  then show ?thesis using f(2-6) by (rule that)
qed

lemma rememberVar_spec:
  assumes "vars_ok (ks, p)"
  obtains ks' p' where "rememberVar port (ks, p) = Inr (ks', p')" and "vars_ok (ks', p')"
    and "\<And>v. fit v p' = fit v p" and "fst ` set ks' = fst ` set ks \<union> port_keys port"
    and "set ks' \<subseteq> set ks \<union> port_entries port"
proof (cases "\<exists>u v. port = PVar u v \<and> var_key u v \<notin> fst ` set ks")
  case False
  then have "rememberVar port (ks, p) = Inr (ks, p)" and "fst ` set ks = fst ` set ks \<union> port_keys port"
    by (auto simp: rememberVar_def port_keys_def split: port_desc.splits)
  then show ?thesis using that assms by blast
next
  case True
  then obtain u v where port: "port = PVar u v" and new: "var_key u v \<notin> fst ` set ks" by blast
  have ok: "uf_ok p" using assms by (simp add: vars_ok_def)
  obtain r p' where f: "find_key (var_key u v) p = Inr (r, p')" "uf_ok p'"
    "\<And>v. fit v p' = fit v p" "\<And>j. map_has p' j \<longleftrightarrow> map_has p j \<or> j = var_key u v"
    using find_key_spec [OF ok, of "var_key u v"] by metis
  have "rememberVar port (ks, p) = Inr (ks @ [(var_key u v, u, v)], p')"
    using new by (simp add: rememberVar_def port f(1))
  moreover have "vars_ok (ks @ [(var_key u v, u, v)], p')"
    using assms new f(2,4) unfolding vars_ok_def by auto
  moreover have "fst ` set (ks @ [(var_key u v, u, v)]) = fst ` set ks \<union> port_keys port"
    by (auto simp: port port_keys_def)
  moreover have "set (ks @ [(var_key u v, u, v)]) \<subseteq> set ks \<union> port_entries port"
    by (auto simp: port port_entries_def)
  ultimately show ?thesis using f(3) that by blast
qed

definition edge_keys :: "script \<Rightarrow> connection \<Rightarrow> string set" where
  "edge_keys g e = port_keys (out_port g e) \<union> port_keys (in_port g e)"

definition edge_entries :: "script \<Rightarrow> connection \<Rightarrow> var_entry set" where
  "edge_entries g e = port_entries (out_port g e) \<union> port_entries (in_port g e)"

lemma union_keys_spec:
  assumes "vars_ok (ks, p)" and "k \<in> fst ` set ks" and "l \<in> fst ` set ks"
  obtains x p' where "union_keys k l p = Inr (x, p')" and "vars_ok (ks, p')"
    and "\<And>v. fit v p' \<longleftrightarrow> fit v p \<and> v k = v l"
proof -
  have ok: "uf_ok p" using assms(1) by (simp add: vars_ok_def)
  obtain x p' where u: "uf_union k l p = Some (x, p')" "uf_ok p'"
    "\<And>v :: string \<Rightarrow> string. fits v p' \<longleftrightarrow> fits v p \<and> v k = v l" "\<And>j. map_has p' j \<longleftrightarrow> map_has p j \<or> j = k \<or> j = l"
    using uf_union_spec [OF ok, where 'a = string and l = k and r = l] by metis
  have "union_keys k l p = Inr (x, p')" by (simp add: union_keys_def u(1))
  moreover have "vars_ok (ks, p')" using assms(1) u(2,4) unfolding vars_ok_def by auto
  ultimately show ?thesis using u(3) by (rule that)
qed

lemma class_edge_spec:
  assumes vars: "vars_ok (ks, p)" and decl: "declared_edge g e"
  obtains ks' p' where "class_edge g (ks, p) e = Inr (ks', p')" and "vars_ok (ks', p')"
    and "\<And>v. fit v p' \<longleftrightarrow> fit v p \<and> vsat g v e" and "fst ` set ks' = fst ` set ks \<union> edge_keys g e"
    and "set ks' \<subseteq> set ks \<union> edge_entries g e"
proof -
  obtain ks1 p1 where 1: "rememberVar (out_port g e) (ks, p) = Inr (ks1, p1)" "vars_ok (ks1, p1)"
    "\<And>v. fit v p1 = fit v p" "fst ` set ks1 = fst ` set ks \<union> port_keys (out_port g e)"
    "set ks1 \<subseteq> set ks \<union> port_entries (out_port g e)"
    using rememberVar_spec [OF vars] by metis
  obtain ks2 p2 where 2: "rememberVar (in_port g e) (ks1, p1) = Inr (ks2, p2)" "vars_ok (ks2, p2)"
    "\<And>v. fit v p2 = fit v p1" "fst ` set ks2 = fst ` set ks1 \<union> port_keys (in_port g e)"
    "set ks2 \<subseteq> set ks1 \<union> port_entries (in_port g e)"
    using rememberVar_spec [OF 1(2)] by metis
  have keys: "fst ` set ks2 = fst ` set ks \<union> edge_keys g e" by (simp add: 1(4) 2(4) edge_keys_def Un_assoc)
  have entries: "set ks2 \<subseteq> set ks \<union> edge_entries g e" using 1(5) 2(5) by (auto simp: edge_entries_def)
  have fit2: "fit v p2 = fit v p" for v by (simp add: 1(3) 2(3))
  show ?thesis
  proof (cases "\<exists>a x b y. out_port g e = PVar a x \<and> in_port g e = PVar b y")
    case True
    then obtain a x b y where vv: "out_port g e = PVar a x" "in_port g e = PVar b y" by blast
    have "var_key a x \<in> fst ` set ks2" "var_key b y \<in> fst ` set ks2"
      unfolding keys by (simp_all add: edge_keys_def port_keys_def vv)
    from union_keys_spec [OF 2(2) this] obtain z p3 where 3:
      "union_keys (var_key a x) (var_key b y) p2 = Inr (z, p3)" "vars_ok (ks2, p3)"
      "\<And>v. fit v p3 \<longleftrightarrow> fit v p2 \<and> v (var_key a x) = v (var_key b y)" by metis
    have "class_edge g (ks, p) e = Inr (ks2, p3)"
      using 1(1) 2(1) 3(1) by (simp add: class_edge_def vv)
    moreover have "fit v p3 \<longleftrightarrow> fit v p \<and> vsat g v e" for v by (simp add: 3(3) fit2 vsat_def vv)
    ultimately show ?thesis using 3(2) keys entries by (intro that [of ks2 p3])
  next
    case False
    then have "class_edge g (ks, p) e = Inr (ks2, p2)"
      using decl 1(1) 2(1) unfolding class_edge_def declared_edge_def Let_def
      by (auto split: port_desc.split)
    moreover have "vsat g v e" for v using False by (auto simp: vsat_def split: port_desc.split)
    ultimately show ?thesis using 2(2) keys entries fit2 by (intro that [of ks2 p2]) simp_all
  qed
qed

lemma class_edge_missing: "\<not> declared_edge g e \<Longrightarrow> \<exists>err. class_edge g st e = Inl err \<and> err \<noteq> NoReturn"
  by (auto simp: class_edge_def declared_edge_def Let_def)

lemma class_fold:
  assumes "vars_ok (ks, p)"
  shows "if \<forall>e \<in> set es. declared_edge g e
    then \<exists>ks' p'. res_fold (class_edge g) (ks, p) es = Inr (ks', p') \<and> vars_ok (ks', p')
      \<and> (\<forall>v. fit v p' \<longleftrightarrow> fit v p \<and> (\<forall>e \<in> set es. vsat g v e))
      \<and> fst ` set ks' = fst ` set ks \<union> (\<Union>e \<in> set es. edge_keys g e)
      \<and> set ks' \<subseteq> set ks \<union> (\<Union>e \<in> set es. edge_entries g e)
    else \<exists>err. res_fold (class_edge g) (ks, p) es = Inl err \<and> err \<noteq> NoReturn"
  using assms
proof (induction es arbitrary: ks p)
  case Nil
  then show ?case by simp
next
  case (Cons e es)
  show ?case
  proof (cases "declared_edge g e")
    case True
    from class_edge_spec [OF Cons.prems True] obtain ks1 p1 where
      1: "class_edge g (ks, p) e = Inr (ks1, p1)" "vars_ok (ks1, p1)"
        "\<And>v. fit v p1 \<longleftrightarrow> fit v p \<and> vsat g v e" "fst ` set ks1 = fst ` set ks \<union> edge_keys g e"
        "set ks1 \<subseteq> set ks \<union> edge_entries g e"
      by metis
    have step: "res_fold (class_edge g) (ks, p) (e # es) = res_fold (class_edge g) (ks1, p1) es"
      by (simp add: 1(1))
    show ?thesis
    proof (cases "\<forall>e \<in> set es. declared_edge g e")
      case all: True
      with Cons.IH [OF 1(2)] obtain ks' p' where
        "res_fold (class_edge g) (ks1, p1) es = Inr (ks', p')" "vars_ok (ks', p')"
        "\<forall>v. fit v p' \<longleftrightarrow> fit v p1 \<and> (\<forall>e \<in> set es. vsat g v e)"
        "fst ` set ks' = fst ` set ks1 \<union> (\<Union>e \<in> set es. edge_keys g e)"
        and sub: "set ks' \<subseteq> set ks1 \<union> (\<Union>e \<in> set es. edge_entries g e)" by auto
      moreover have "set ks' \<subseteq> set ks \<union> (\<Union>e \<in> set (e # es). edge_entries g e)" using sub 1(5) by auto
      ultimately show ?thesis using True all unfolding step by (simp add: 1(3,4) Un_assoc)
    next
      case False
      with Cons.IH [OF 1(2)] show ?thesis unfolding step by auto
    qed
  next
    case False
    with class_edge_missing [OF False, of "(ks, p)"] show ?thesis by auto
  qed
qed

section \<open>The second pass is right\<close>

definition cons_ok :: "parents \<times> constraints \<Rightarrow> bool" where
  "cons_ok = (\<lambda>(p, cs). uf_ok p \<and> map_ok cs
    \<and> (\<forall>r es. map_of cs r = Some es \<longrightarrow> map_of p r = Some r \<and> es \<noteq> []
      \<and> (\<forall>x \<in> set es. isConcreteType (fst x) \<and> fst x \<noteq> REPEAT_REF_TYPE)))"

definition csat :: "(string \<Rightarrow> string) \<Rightarrow> constraints \<Rightarrow> bool" where
  "csat v cs \<longleftrightarrow> (\<forall>r es. map_of cs r = Some es \<longrightarrow> (\<forall>x \<in> set es. v r = fst x))"

text \<open>A step adds exactly a condition on valuations, or fails because no valuation meets it.\<close>

definition cons_result ::
  "parents \<Rightarrow> constraints \<Rightarrow> ((string \<Rightarrow> string) \<Rightarrow> bool) \<Rightarrow> (unify_error, parents \<times> constraints) result \<Rightarrow> bool" where
  "cons_result p cs cond res \<longleftrightarrow>
    (case res of
       Inl err \<Rightarrow> err \<noteq> NoReturn \<and> (\<forall>v. \<not> cond v)
     | Inr (p', cs') \<Rightarrow> cons_ok (p', cs') \<and> (\<forall>v. fit v p' = fit v p)
         \<and> (\<forall>v. fit v p \<longrightarrow> csat v cs' = (csat v cs \<and> cond v)) \<and> (\<forall>j. map_has p j \<longrightarrow> map_has p' j))"

lemma addConstraint_spec:
  assumes ok: "cons_ok (p, cs)" and t: "isConcreteType t" "t \<noteq> REPEAT_REF_TYPE"
  shows "cons_result p cs (\<lambda>v. v key = t) (addConstraint key t u (p, cs))"
proof -
  have uf: "uf_ok p" using ok by (simp add: cons_ok_def)
  obtain r p' where f: "find_key key p = Inr (r, p')" "uf_ok p'" "reach p' key r" "\<And>v. fit v p' = fit v p"
    "\<And>j. map_has p' j \<longleftrightarrow> map_has p j \<or> j = key" "\<And>j s. reach p j s \<Longrightarrow> reach p' j s"
    using find_key_spec [OF uf, of key] by metis
  let ?es = "case map_of cs r of None \<Rightarrow> [] | Some es \<Rightarrow> es"
  let ?cs = "AList.update r (?es @ [(t, u)]) cs"
  have at: "map_of ?cs q = (if q = r then Some (?es @ [(t, u)]) else map_of cs q)" for q
    by (simp add: update_conv')
  have roots: "map_of p q = Some q \<Longrightarrow> map_of p' q = Some q" for q
    using f(6) [of q q] reach_root [of p' q q] reach.root [of p q] by blast
  have rr: "map_of p' r = Some r" using f(3) by (rule reach_root)
  have "cons_ok (p', ?cs)"
    unfolding cons_ok_def prod.case at
  proof (intro conjI allI impI ballI)
    show "map_ok ?cs" using ok by (simp add: cons_ok_def distinct_update)
  next
    fix q es
    assume q: "(if q = r then Some (?es @ [(t, u)]) else map_of cs q) = Some es"
    show "map_of p' q = Some q" using q rr ok roots by (auto simp: cons_ok_def split: if_splits)
    show "es \<noteq> []" using q ok by (auto simp: cons_ok_def split: if_splits)
    fix x assume x: "x \<in> set es"
    show "isConcreteType (fst x)" "fst x \<noteq> REPEAT_REF_TYPE"
      using q ok x t by (auto simp: cons_ok_def split: if_splits option.splits)
  qed (fact f(2))
  moreover have "csat v ?cs = (csat v cs \<and> v key = t)" if "fit v p" for v
  proof -
    have key: "v key = v r" using that f(3) f(4) [of v] by (simp add: fits_def)
    let ?S = "\<lambda>q x. case x of None \<Rightarrow> True | Some es \<Rightarrow> \<forall>x \<in> set es. v q = fst x"
    have S: "csat v cs' \<longleftrightarrow> (\<forall>q. ?S q (map_of cs' q))" for cs' by (auto simp: csat_def split: option.split)
    have r: "?S r (Some (?es @ [(t, u)])) \<longleftrightarrow> ?S r (map_of cs r) \<and> v r = t" by (auto split: option.split)
    have "csat v ?cs \<longleftrightarrow> csat v cs \<and> v r = t"
      unfolding S at using r by (auto simp del: option.case split: if_splits)
    then show ?thesis by (simp add: key)
  qed
  moreover have "map_has p' j" if "map_has p j" for j using that f(5) by blast
  moreover have "addConstraint key t u (p, cs) = Inr (p', ?cs)" by (simp add: addConstraint_def f(1))
  ultimately show ?thesis using f(4) by (simp add: cons_result_def)
qed

lemma concrete_port: "describePort g s u l = PConcrete t \<Longrightarrow> isConcreteType t"
  by (auto simp: describePort_def describe_block_def Let_def split: option.splits if_splits)

lemma cons_result_same: "cons_ok (p, cs) \<Longrightarrow> (\<And>v. c v) \<Longrightarrow> cons_result p cs c (Inr (p, cs))"
  by (simp add: cons_result_def)

lemma constrain_edge_spec:
  assumes ok: "cons_ok (p, cs)"
  shows "cons_result p cs (\<lambda>v. tsat g v e) (constrain_edge g (p, cs) e)"
proof -
  have err: "cons_result p cs (\<lambda>v. False) (Inl x)" if "x \<noteq> NoReturn" for x
    using that by (simp add: cons_result_def)
  have same: "cons_result p cs (\<lambda>v. True) (Inr (p, cs))" using ok by (rule cons_result_same) simp
  have con: "isConcreteType t" if "out_port g e = PConcrete t \<or> in_port g e = PConcrete t" for t
    using that concrete_port by blast
  note add = addConstraint_spec [OF ok con]
  show ?thesis
  proof (cases "out_port g e")
    case PMissing
    then show ?thesis using same err
      by (cases "in_port g e") (auto simp: constrain_edge_def tsat_def Let_def)
  next
    case (PVar a x)
    then show ?thesis using same err add
      by (cases "in_port g e") (auto simp: constrain_edge_def tsat_def Let_def)
  next
    case PWildcard
    then show ?thesis using same err
      by (cases "in_port g e") (auto simp: constrain_edge_def tsat_def Let_def)
  next
    case (PConcrete t)
    then show ?thesis using same err add
      by (cases "in_port g e") (auto simp: constrain_edge_def tsat_def Let_def)
  qed
qed

lemma constrain_fold:
  "cons_ok (p, cs) \<Longrightarrow> cons_result p cs (\<lambda>v. \<forall>e \<in> set es. tsat g v e) (res_fold (constrain_edge g) (p, cs) es)"
proof (induction es arbitrary: p cs)
  case Nil
  then show ?case by (simp add: cons_result_same)
next
  case (Cons e es)
  note step = constrain_edge_spec [OF Cons.prems, of g e]
  show ?case
  proof (cases "constrain_edge g (p, cs) e")
    case (Inl err)
    then show ?thesis using step by (simp add: cons_result_def)
  next
    case (Inr st)
    obtain p1 cs1 where st: "st = (p1, cs1)" by (rule prod.exhaust)
    have s: "cons_ok (p1, cs1)" "\<And>v. fit v p1 = fit v p" "\<And>v. fit v p \<Longrightarrow> csat v cs1 = (csat v cs \<and> tsat g v e)"
      "\<And>j. map_has p j \<Longrightarrow> map_has p1 j"
      using step Inr st by (auto simp: cons_result_def)
    have "res_fold (constrain_edge g) (p, cs) (e # es) = res_fold (constrain_edge g) (p1, cs1) es"
      by (simp add: Inr st)
    with Cons.IH [OF s(1)] show ?thesis
      using s by (auto simp: cons_result_def split: sum.splits)
  qed
qed

section \<open>Merging is right\<close>

lemma uniq_fold:
  "distinct acc \<Longrightarrow> distinct (fold (\<lambda>x acc. if x \<in> set acc then acc else acc @ [x]) xs acc)
    \<and> set (fold (\<lambda>x acc. if x \<in> set acc then acc else acc @ [x]) xs acc) = set acc \<union> set xs"
proof (induction xs arbitrary: acc)
  case (Cons x xs)
  have "distinct (if x \<in> set acc then acc else acc @ [x])" using Cons.prems by simp
  from Cons.IH [OF this] show ?case by auto
qed simp

lemma uniq_facts: "distinct (uniq xs)" "set (uniq xs) = set xs"
  using uniq_fold [of "[]" xs] by (simp_all add: uniq_def)

lemma uniq_single:
  assumes "\<not> length (uniq xs) > 1" and "x \<in> set xs"
  shows "x = uniq xs ! 0"
proof -
  have "x \<in> set (uniq xs)" using assms(2) by (simp add: uniq_facts)
  then show ?thesis using assms(1) by (cases "uniq xs") (auto simp: Suc_lessI)
qed

lemma uniq_many:
  assumes "length (uniq xs) > 1"
  shows "\<exists>x \<in> set xs. \<exists>y \<in> set xs. x \<noteq> y"
proof -
  have "uniq xs ! 0 \<noteq> uniq xs ! 1" using assms uniq_facts(1) [of xs] by (subst nth_eq_iff_index_eq) auto
  moreover have "uniq xs ! 0 \<in> set xs" "uniq xs ! 1 \<in> set xs"
    using assms uniq_facts(2) [of xs] by (metis nth_mem less_trans zero_less_one)+
  ultimately show ?thesis by blast
qed

lemma members_spec: "uf_ok p \<Longrightarrow> \<exists>ms p'. membersForRoot r ks p = Inr (ms, p')"
proof -
  have "\<exists>ms p'. res_fold (\<lambda>(ms, p) (key, u, v). res_bind (find_key key p) (\<lambda>(r', p').
      Inr (if r' = r then ms @ [(key, u, v)] else ms, p'))) (ms0, p) ks = Inr (ms, p')" if "uf_ok p" for ms0
    using that
  proof (induction ks arbitrary: ms0 p)
    case (Cons x ks)
    obtain key u v where x: "x = (key, u, v)" by (rule prod_cases3)
    obtain r' p' where "find_key key p = Inr (r', p')" "uf_ok p'" using find_key_spec [OF Cons.prems] by metis
    then show ?case using Cons.IH by (simp add: x)
  qed simp
  then show "uf_ok p \<Longrightarrow> \<exists>ms p'. membersForRoot r ks p = Inr (ms, p')" by (simp add: membersForRoot_def)
qed

lemma named_conflict:
  "(case m of Some (_, u, v) \<Rightarrow> TypeConflict u v s t | None \<Rightarrow> TypeConflict w ''T'' s t) \<noteq> NoReturn"
  by (cases m) auto

lemma type_conflict_error: "uf_ok p \<Longrightarrow> type_conflict cand ks p r es \<noteq> NoReturn"
  using members_spec [of p r ks] by (auto simp: type_conflict_def Let_def named_conflict simp del: option.case)

lemma merge_fold:
  assumes "map_ok cs" and "uf_ok p"
  shows "case res_fold (\<lambda>merged (r, es).
      if length (uniq (map fst es)) > 1 then Inl (type_conflict cand ks p r es)
      else Inr (AList.update r (uniq (map fst es) ! 0) merged)) m0 cs of
    Inl err \<Rightarrow> err \<noteq> NoReturn \<and> (\<exists>(r, es) \<in> set cs. length (uniq (map fst es)) > 1)
  | Inr m \<Rightarrow> (\<forall>(r, es) \<in> set cs. \<not> length (uniq (map fst es)) > 1)
      \<and> (\<forall>q. map_of m q = (case map_of cs q of Some es \<Rightarrow> Some (uniq (map fst es) ! 0) | None \<Rightarrow> map_of m0 q))"
  using assms(1)
proof (induction cs arbitrary: m0)
  case Nil
  then show ?case by simp
next
  case (Cons x cs)
  obtain r es where x: "x = (r, es)" by (rule prod.exhaust)
  have fresh: "map_of cs r = None" and ok: "map_ok cs"
    using Cons.prems by (simp_all add: x map_of_None_iff)
  show ?case
  proof (cases "length (uniq (map fst es)) > 1")
    case True
    then show ?thesis using type_conflict_error [OF assms(2)] by (simp add: x)
  next
    case False
    then show ?thesis using Cons.IH [OF ok, of "AList.update r (uniq (map fst es) ! 0) m0"] fresh
      by (auto simp: x update_conv' split: sum.splits option.splits if_splits)
  qed
qed

lemma merge_types_spec:
  assumes ok: "cons_ok (p, cs)"
  shows "case merge_types cand ks p cs of
      Inl err \<Rightarrow> err \<noteq> NoReturn \<and> (\<forall>v. \<not> csat v cs)
    | Inr m \<Rightarrow> (\<forall>v. csat v cs = (\<forall>r t. map_of m r = Some t \<longrightarrow> v r = t))
        \<and> (\<forall>r t. map_of m r = Some t \<longrightarrow> map_of p r = Some r \<and> isConcreteType t \<and> t \<noteq> REPEAT_REF_TYPE)"
proof (cases "merge_types cand ks p cs")
  case (Inl err)
  have uf: "map_ok cs" "uf_ok p" using ok by (simp_all add: cons_ok_def)
  from merge_fold [OF uf, where cand = cand and ks = ks and ?m0.0 = "[]"] Inl
  obtain r es where e: "err \<noteq> NoReturn" "(r, es) \<in> set cs" "length (uniq (map fst es)) > 1"
    by (auto simp: merge_types_def)
  have r: "map_of cs r = Some es" using e(2) uf(1) by (simp add: map_of_eq_Some_iff)
  obtain x y where "x \<in> set es" "y \<in> set es" "fst x \<noteq> fst y" using uniq_many [OF e(3)] by auto
  then have "\<not> csat v cs" for v using r unfolding csat_def by metis
  then show ?thesis using Inl e(1) by simp
next
  case (Inr m)
  have uf: "map_ok cs" "uf_ok p" using ok by (simp_all add: cons_ok_def)
  from merge_fold [OF uf, where cand = cand and ks = ks and ?m0.0 = "[]"] Inr
  have one: "\<And>r es. map_of cs r = Some es \<Longrightarrow> \<not> length (uniq (map fst es)) > 1"
    and m: "\<And>q. map_of m q = map_option (\<lambda>es. uniq (map fst es) ! 0) (map_of cs q)"
    using uf(1) by (auto simp: merge_types_def map_option_case split: option.splits)
  have all: "\<forall>x \<in> set es. fst x = uniq (map fst es) ! 0" if "map_of cs r = Some es" for r es
    using uniq_single [OF one [OF that]] by auto
  have ne: "\<exists>x. x \<in> set es" if "map_of cs r = Some es" for r es
  proof -
    have "es \<noteq> []" using ok that by (simp add: cons_ok_def)
    then show ?thesis by (cases es) auto
  qed
  have "csat v cs = (\<forall>r t. map_of m r = Some t \<longrightarrow> v r = t)" for v
  proof
    assume c: "csat v cs"
    show "\<forall>r t. map_of m r = Some t \<longrightarrow> v r = t"
    proof (intro allI impI)
      fix r t assume "map_of m r = Some t"
      then obtain es where es: "map_of cs r = Some es" "t = uniq (map fst es) ! 0" by (auto simp: m)
      then show "v r = t" using c all [OF es(1)] ne [OF es(1)] unfolding csat_def by metis
    qed
  next
    assume a: "\<forall>r t. map_of m r = Some t \<longrightarrow> v r = t"
    show "csat v cs" unfolding csat_def using a all by (simp add: m)
  qed
  moreover have "map_of p r = Some r \<and> isConcreteType t \<and> t \<noteq> REPEAT_REF_TYPE" if mt: "map_of m r = Some t" for r t
  proof -
    obtain es where es: "map_of cs r = Some es" "t = uniq (map fst es) ! 0" using mt by (auto simp: m)
    then show ?thesis using ok all [OF es(1)] ne [OF es(1)] unfolding cons_ok_def prod.case by metis
  qed
  ultimately show ?thesis using Inr by simp
qed

section \<open>Binding is right\<close>

lemma bindings_of_update:
  "bindings_of (AList.update u b bs) w = (if w = u then b else bindings_of bs w)"
  by (simp add: bindings_of_def update_conv')

lemma bind_vars_spec:
  assumes m: "\<And>r t. map_of m r = Some t \<Longrightarrow> isConcreteType t" and "uf_ok p" and "distinct (map snd ks)"
    and "\<forall>(key, u, v) \<in> set ks. map_has p key"
  shows "\<exists>bs p'. bind_vars m ks p = Inr (bs, p') \<and> uf_ok p' \<and> (\<forall>j s. reach p j s \<longrightarrow> reach p' j s)
    \<and> (\<forall>u v t. map_of (bindings_of bs u) v = Some t \<longleftrightarrow> (\<exists>key r. (key, u, v) \<in> set ks \<and> reach p key r \<and> map_of m r = Some t))"
  using assms(2-4)
proof (induction ks rule: rev_induct)
  case Nil
  then show ?case by (simp add: bind_vars_def bindings_of_def)
next
  case (snoc x ks)
  obtain key u v where x: "x = (key, u, v)" by (rule prod_cases3)
  from snoc obtain bs p1 where 1: "bind_vars m ks p = Inr (bs, p1)" "uf_ok p1" "\<And>j s. reach p j s \<Longrightarrow> reach p1 j s"
    "\<And>u v t. map_of (bindings_of bs u) v = Some t \<longleftrightarrow> (\<exists>key r. (key, u, v) \<in> set ks \<and> reach p key r \<and> map_of m r = Some t)"
    by auto
  obtain r p2 where 2: "find_key key p1 = Inr (r, p2)" "uf_ok p2" "reach p2 key r" "\<And>j s. reach p1 j s \<Longrightarrow> reach p2 j s"
    using find_key_spec [OF 1(2), of key] by metis
  obtain q where q: "reach p key q" using snoc.prems(1,3) by (auto simp: x uf_ok_def)
  then have r: "q = r" using reach_unique [OF 2(3)] 1(3) 2(4) by blast
  have root: "reach p key q' \<longleftrightarrow> q' = r" for q' using q r reach_unique by blast
  have fresh: "(k, u, v) \<notin> set ks" for k using snoc.prems(2) by (force simp: x)
  let ?bs = "case map_of m r of Some t \<Rightarrow> AList.update u (AList.update v t (bindings_of bs u)) bs | None \<Rightarrow> bs"
  have "bind_vars m (ks @ [x]) p = Inr (?bs, p2)"
    using 1(1) 2(1) m by (auto simp: bind_vars_def res_fold_append x split: option.split)
  moreover have "map_of (bindings_of ?bs a) b = Some t \<longleftrightarrow>
      (\<exists>key r. (key, a, b) \<in> set (ks @ [x]) \<and> reach p key r \<and> map_of m r = Some t)" for a b t
  proof (cases "(a, b) = (u, v)")
    case True
    then show ?thesis using fresh 1(4) by (auto simp: x root bindings_of_update update_conv' split: option.split)
  next
    case False
    have "map_of (bindings_of ?bs a) b = map_of (bindings_of bs a) b"
      using False by (auto simp: bindings_of_update update_conv' split: option.split)
    then show ?thesis using False 1(4) by (auto simp: x)
  qed
  ultimately show ?case using 2(2,4) 1(3) by blast
qed

section \<open>The plan is right\<close>

text \<open>
  The edges of a script have a consistent typing exactly when \<open>plan_bindings\<close> finds bindings, and
  the bindings are exactly what every consistent typing agrees on.
\<close>

definition forced :: "script \<Rightarrow> connection list \<Rightarrow> string \<Rightarrow> string \<Rightarrow> bool" where
  "forced g es key t \<longleftrightarrow> (\<forall>v. (\<forall>e \<in> set es. edge_sat g v e) \<longrightarrow> v key = t)"

lemma chosen:
  assumes m: "\<And>r t. map_of m r = Some t \<Longrightarrow> map_of p r = Some r"
  shows "\<exists>v. (\<forall>k r. reach p k r \<longrightarrow> v k = (case map_of m r of Some t \<Rightarrow> t | None \<Rightarrow> d))
    \<and> fit v p \<and> (\<forall>r t. map_of m r = Some t \<longrightarrow> v r = t)"
proof -
  let ?v = "\<lambda>k. case map_of m (THE r. reach p k r) of Some t \<Rightarrow> t | None \<Rightarrow> d"
  have v: "?v k = (case map_of m r of Some t \<Rightarrow> t | None \<Rightarrow> d)" if "reach p k r" for k r
  proof -
    have "(THE r. reach p k r) = r" using that reach_unique by (blast intro: the_equality)
    then show ?thesis by simp
  qed
  have "fit ?v p" unfolding fits_def
  proof (intro allI impI)
    fix k r assume k: "reach p k r"
    have "reach p r r" using reach_root [OF k] by (rule reach.root)
    then show "?v k = ?v r" using v [OF k] v [of r r] by simp
  qed
  moreover have "?v r = t" if "map_of m r = Some t" for r t
    using v [OF reach.root [OF m [OF that]]] that by simp
  ultimately show ?thesis using v by (intro exI [of _ ?v]) blast
qed

lemma plan_bindings_spec:
  "case plan_bindings g cand es of
     Inl err \<Rightarrow> err \<noteq> NoReturn \<and> \<not> satisfiable g es
   | Inr bs \<Rightarrow> satisfiable g es
       \<and> (\<forall>u v t. map_of (bindings_of bs u) v = Some t \<longrightarrow>
            isConcreteType t \<and> t \<noteq> REPEAT_REF_TYPE \<and> forced g es (var_key u v) t)
       \<and> (\<exists>ks. set ks \<subseteq> (\<Union>e \<in> set es. edge_entries g e) \<and> fst ` set ks = (\<Union>e \<in> set es. edge_keys g e)
            \<and> (\<forall>(key, u, v) \<in> set ks. \<forall>t. forced g es key t \<longrightarrow> map_of (bindings_of bs u) v = Some t))"
proof (cases "\<forall>e \<in> set es. declared_edge g e")
  case False
  have "vars_ok ([], [])" by (simp add: vars_ok_def uf_ok_def)
  from class_fold [OF this, of es g] False obtain err
    where "res_fold (class_edge g) ([], []) es = Inl err" "err \<noteq> NoReturn" by auto
  moreover have "\<not> satisfiable g es" using False by (auto simp: satisfiable_def edge_sat_def)
  ultimately show ?thesis by (simp add: plan_bindings_def)
next
  case decl: True
  have "vars_ok ([], [])" by (simp add: vars_ok_def uf_ok_def)
  from class_fold [OF this, of es g] decl obtain ks p where
    1: "res_fold (class_edge g) ([], []) es = Inr (ks, p)" "vars_ok (ks, p)"
      "\<And>v. fit v p \<longleftrightarrow> fit v [] \<and> (\<forall>e \<in> set es. vsat g v e)" "fst ` set ks = (\<Union>e \<in> set es. edge_keys g e)"
      "set ks \<subseteq> (\<Union>e \<in> set es. edge_entries g e)"
    by auto
  have "fit v []" for v by (auto simp: fits_def elim: reachE)
  then have fit: "fit v p \<longleftrightarrow> (\<forall>e \<in> set es. vsat g v e)" for v using 1(3) by simp
  have "cons_ok (p, [])" using 1(2) by (simp add: cons_ok_def vars_ok_def)
  note 2 = constrain_fold [OF this, of es g]
  have sat: "(\<forall>e \<in> set es. edge_sat g v e) \<longleftrightarrow> fit v p \<and> (\<forall>e \<in> set es. tsat g v e)" for v
    using decl by (auto simp: edge_sat_def fit)
  show ?thesis
  proof (cases "res_fold (constrain_edge g) (p, []) es")
    case (Inl err)
    then show ?thesis using 2 by (simp add: plan_bindings_def 1(1) cons_result_def satisfiable_def sat)
  next
    case (Inr st)
    obtain p2 cs where st: "st = (p2, cs)" by (rule prod.exhaust)
    have c: "cons_ok (p2, cs)" "\<And>v. fit v p2 = fit v p" "\<And>v. fit v p \<Longrightarrow> csat v cs = (\<forall>e \<in> set es. tsat g v e)"
      "\<And>j. map_has p j \<Longrightarrow> map_has p2 j"
      using 2 Inr st by (auto simp: cons_result_def csat_def)
    have sat2: "(\<forall>e \<in> set es. edge_sat g v e) \<longleftrightarrow> fit v p2 \<and> csat v cs" for v using sat c(2,3) by blast
    show ?thesis
    proof (cases "merge_types cand ks p2 cs")
      case (Inl err)
      then show ?thesis using merge_types_spec [OF c(1), of cand ks]
        by (simp add: plan_bindings_def 1(1) Inr st satisfiable_def sat2)
    next
      case m: (Inr m)
      from merge_types_spec [OF c(1), of cand ks] m
      have mm: "\<And>v. csat v cs = (\<forall>r t. map_of m r = Some t \<longrightarrow> v r = t)"
        "\<And>r t. map_of m r = Some t \<Longrightarrow> map_of p2 r = Some r \<and> isConcreteType t \<and> t \<noteq> REPEAT_REF_TYPE" by auto
      have keys: "\<forall>(key, u, v) \<in> set ks. key = var_key u v \<and> map_has p2 key"
        using 1(2) c(4) unfolding vars_ok_def by fastforce
      have "map fst ks = map (\<lambda>(u, v). var_key u v) (map snd ks)" using keys by (auto simp: comp_def)
      moreover have "distinct (map fst ks)" using 1(2) by (simp add: vars_ok_def)
      ultimately have "distinct (map (\<lambda>(u, v). var_key u v) (map snd ks))" by (simp only:)
      then have "distinct (map snd ks)" by (rule distinct_map [THEN iffD1, THEN conjunct1])
      moreover have "uf_ok p2" using c(1) by (simp add: cons_ok_def)
      ultimately obtain bs p3 where b: "bind_vars m ks p2 = Inr (bs, p3)"
        "\<And>u v t. map_of (bindings_of bs u) v = Some t \<longleftrightarrow> (\<exists>key r. (key, u, v) \<in> set ks \<and> reach p2 key r \<and> map_of m r = Some t)"
        using bind_vars_spec [of m p2 ks] mm(2) keys by blast
      have res: "plan_bindings g cand es = Inr bs" by (simp add: plan_bindings_def 1(1) Inr st m b(1))
      have w: "\<exists>v. (\<forall>e \<in> set es. edge_sat g v e)
          \<and> (\<forall>k r. reach p2 k r \<longrightarrow> v k = (case map_of m r of Some t \<Rightarrow> t | None \<Rightarrow> d))" for d
      proof -
        have "map_of m r = Some t \<Longrightarrow> map_of p2 r = Some r" for r t using mm(2) by blast
        then obtain v where v: "\<forall>k r. reach p2 k r \<longrightarrow> v k = (case map_of m r of Some t \<Rightarrow> t | None \<Rightarrow> d)"
          "fit v p2" "\<forall>r t. map_of m r = Some t \<longrightarrow> v r = t"
          using chosen [of m p2 d] by blast
        then have "\<forall>e \<in> set es. edge_sat g v e" unfolding sat2 mm(1) by simp
        then show ?thesis using v(1) by blast
      qed
      have bound: "v key = t" if "\<forall>e \<in> set es. edge_sat g v e" "reach p2 key r" "map_of m r = Some t" for v key r t
        using that mm(1) sat2 unfolding fits_def by metis
      have B: "isConcreteType t \<and> t \<noteq> REPEAT_REF_TYPE \<and> forced g es (var_key u v) t"
        if "map_of (bindings_of bs u) v = Some t" for u v t
      proof -
        from that b(2) obtain key r where k: "(key, u, v) \<in> set ks" "reach p2 key r" "map_of m r = Some t" by blast
        have "key = var_key u v" using bspec [OF keys k(1)] by simp
        moreover have "forced g es key t" unfolding forced_def using bound [OF _ k(2,3)] by blast
        ultimately show ?thesis using mm(2) [OF k(3)] by simp
      qed
      have D: "map_of (bindings_of bs u) v = Some t" if k: "(key, u, v) \<in> set ks" and f: "forced g es key t" for key u v t
      proof -
        have "map_has p2 key" using bspec [OF keys k] by auto
        then obtain r where r: "reach p2 key r" using \<open>uf_ok p2\<close> unfolding uf_ok_def by blast
        obtain v1 where v1: "\<forall>e \<in> set es. edge_sat g v1 e" "v1 key = (case map_of m r of Some t \<Rightarrow> t | None \<Rightarrow> CHR ''x'' # t)"
          using w [of "CHR ''x'' # t"] r by blast
        have "v1 key = t" using f v1(1) by (simp add: forced_def)
        then have "map_of m r = Some t" using v1(2) by (auto split: option.splits)
        then show ?thesis using b(2) k r by blast
      qed
      show ?thesis
        unfolding res sum.case
      proof (intro conjI exI [of _ ks])
        show "satisfiable g es" using w unfolding satisfiable_def by blast
        show "\<forall>u v t. map_of (bindings_of bs u) v = Some t \<longrightarrow>
            isConcreteType t \<and> t \<noteq> REPEAT_REF_TYPE \<and> forced g es (var_key u v) t"
          using B by blast
        show "set ks \<subseteq> (\<Union>e \<in> set es. edge_entries g e)" by (rule 1(5))
        show "fst ` set ks = (\<Union>e \<in> set es. edge_keys g e)" by (rule 1(4))
        show "\<forall>(key, u, v) \<in> set ks. \<forall>t. forced g es key t \<longrightarrow> map_of (bindings_of bs u) v = Some t"
          using D by auto
      qed
    qed
  qed
qed

text \<open>The edges a plan is for: those of the script and, if it can be resolved, the candidate.\<close>

definition plan_edges :: "script \<Rightarrow> connection option \<Rightarrow> connection list option" where
  "plan_edges g cand =
    (case cand of None \<Rightarrow> Some (collectExistingEdges g)
     | Some c \<Rightarrow> (case resolveCandidate g c of Inl _ \<Rightarrow> None | Inr c' \<Rightarrow> Some (collectExistingEdges g @ [c'])))"

lemma planUnify_edges:
  assumes "plan_edges g cand = Some es"
  obtains rc where "planUnify g cand = finish_plan g (plan_bindings g rc es)"
proof (cases cand)
  case None
  with assms show ?thesis by (intro that [of None]) (simp add: plan_edges_def planUnify_def)
next
  case (Some c)
  with assms obtain c' where "resolveCandidate g c = Inr c'" "es = collectExistingEdges g @ [c']"
    by (auto simp: plan_edges_def split: sum.splits)
  with Some show ?thesis by (intro that [of "Some c'"]) (simp add: planUnify_def)
qed

lemma first_rejected_error: "first_rejected g bs \<noteq> Some NoReturn"
  by (auto simp: first_rejected_def split: option.split)

lemma plan_hard:
  assumes "plan_edges g cand = Some es"
  shows "hardConflict (planUnify g cand) = (\<not> satisfiable g es)"
proof -
  obtain rc where p: "planUnify g cand = finish_plan g (plan_bindings g rc es)"
    using planUnify_edges [OF assms] .
  show ?thesis
    using plan_bindings_spec [where g = g and cand = rc and es = es] unfolding p finish_plan_def
    by (auto simp: hard_plan_def split: sum.splits option.split)
qed

text \<open>
  C6. Inference decides typability: a plan reports a hard conflict exactly when the candidate names
  no blocks or the edges have no consistent typing, and it always returns.
\<close>

theorem unify_decides_typability:
  "hardConflict (planUnify g cand) = (case plan_edges g cand of None \<Rightarrow> True | Some es \<Rightarrow> \<not> satisfiable g es)
    \<and> up_error (planUnify g cand) \<noteq> Some NoReturn"
proof (cases "plan_edges g cand")
  case None
  then obtain c e where "cand = Some c" "resolveCandidate g c = Inl e"
    by (auto simp: plan_edges_def split: option.splits sum.splits)
  moreover from this(2) have "e \<noteq> NoReturn"
    by (auto simp: resolveCandidate_def split: option.splits)
  ultimately show ?thesis using None by (simp add: planUnify_def hard_plan_def)
next
  case (Some es)
  obtain rc where p: "planUnify g cand = finish_plan g (plan_bindings g rc es)"
    using planUnify_edges [OF Some] .
  have "up_error (planUnify g cand) \<noteq> Some NoReturn"
    using plan_bindings_spec [where g = g and cand = rc and es = es] first_rejected_error [of g] unfolding p finish_plan_def
    by (auto simp: hard_plan_def split: sum.splits option.split)
  then show ?thesis using plan_hard [OF Some] Some by simp
qed

text \<open>Variables of different blocks have different keys when no \<open>uuid\<close> contains a colon.\<close>

definition colon_free :: "script \<Rightarrow> bool" where
  "colon_free g \<longleftrightarrow> (\<forall>b \<in> set (units g). CHR '':'' \<notin> set (uuid b))"

lemma var_key_inj:
  assumes "var_key u v = var_key w x" and "CHR '':'' \<notin> set u" and "CHR '':'' \<notin> set w"
  shows "u = w \<and> v = x"
proof -
  have split: "takeWhile (\<lambda>c. c \<noteq> CHR '':'') (var_key a b) = a" if "CHR '':'' \<notin> set a" for a b
    using that unfolding var_key_def by (subst takeWhile_append2) auto
  have "u = w" using split [OF assms(2), of v] split [OF assms(3), of x] assms(1) by simp
  then show ?thesis using assms(1) by (simp add: var_key_def)
qed

lemma unit_at_mem: "unit_at g u = Some b \<Longrightarrow> b \<in> set (units g) \<and> uuid b = u"
  by (auto simp: unit_at_def find_Some_iff)

lemma port_var_unit: "describePort g s w l = PVar u v \<Longrightarrow> u = w \<and> (\<exists>b \<in> set (units g). uuid b = u)"
  by (auto simp: describePort_def describe_block_def Let_def split: option.splits if_splits dest: unit_at_mem)

lemma bound_iff_forced:
  assumes es: "plan_edges g cand = Some es" and sat: "satisfiable g es" and cf: "colon_free g"
    and e: "e \<in> set es" and port: "out_port g e = PVar u v \<or> in_port g e = PVar u v"
  shows "map_of (bindings_of (up_bindings (planUnify g cand)) u) v = Some t \<longleftrightarrow> forced g es (var_key u v) t"
    and "map_of (bindings_of (up_bindings (planUnify g cand)) u) v = Some t \<Longrightarrow> isConcreteType t \<and> t \<noteq> REPEAT_REF_TYPE"
proof -
  obtain rc where p: "planUnify g cand = finish_plan g (plan_bindings g rc es)" using planUnify_edges [OF es] .
  obtain bs where bs: "plan_bindings g rc es = Inr bs"
    using plan_bindings_spec [where g = g and cand = rc and es = es] sat by (auto split: sum.splits)
  have up: "up_bindings (planUnify g cand) = bs" by (simp add: p bs finish_plan_def split: option.split)
  from plan_bindings_spec [where g = g and cand = rc and es = es] bs obtain ks where
    b: "\<And>u v t. map_of (bindings_of bs u) v = Some t \<Longrightarrow> isConcreteType t \<and> t \<noteq> REPEAT_REF_TYPE \<and> forced g es (var_key u v) t"
    and ks: "set ks \<subseteq> (\<Union>e \<in> set es. edge_entries g e)" "fst ` set ks = (\<Union>e \<in> set es. edge_keys g e)"
      "\<forall>(key, u, v) \<in> set ks. \<forall>t. forced g es key t \<longrightarrow> map_of (bindings_of bs u) v = Some t"
    by auto
  have "var_key u v \<in> fst ` set ks"
    unfolding ks(2) using e port by (force simp: edge_keys_def port_keys_def)
  then obtain w x where k: "(var_key u v, w, x) \<in> set ks" by force
  with ks(1) obtain e' where "(var_key u v, w, x) \<in> edge_entries g e'" by blast
  then have wx: "var_key u v = var_key w x" "out_port g e' = PVar w x \<or> in_port g e' = PVar w x"
    by (auto simp: edge_entries_def port_entries_def split: port_desc.splits)
  have free: "CHR '':'' \<notin> set a" if "out_port g e = PVar a c \<or> in_port g e = PVar a c" for e a c
  proof -
    have "\<exists>b \<in> set (units g). uuid b = a" using that port_var_unit by blast
    then show ?thesis using cf by (auto simp: colon_free_def)
  qed
  have "u = w \<and> v = x" by (rule var_key_inj [OF wx(1) free [OF port] free [OF wx(2)]])
  then have "w = u" "x = v" by simp_all
  with bspec [OF ks(3) k] have "forced g es (var_key u v) t \<Longrightarrow> map_of (bindings_of bs u) v = Some t" by simp
  then show "map_of (bindings_of (up_bindings (planUnify g cand)) u) v = Some t \<longleftrightarrow> forced g es (var_key u v) t"
    unfolding up using b [of u v t] by blast
  show "map_of (bindings_of (up_bindings (planUnify g cand)) u) v = Some t \<Longrightarrow> isConcreteType t \<and> t \<noteq> REPEAT_REF_TYPE"
    unfolding up using b [of u v t] by blast
qed

text \<open>
  C7. Inference is most general: when there is no hard conflict, a variable of a connected port is
  bound to a type exactly when every consistent typing of the script gives it that type.
\<close>

theorem unify_most_general:
  assumes "plan_edges g cand = Some es" and "\<not> hardConflict (planUnify g cand)" and "colon_free g"
    and "e \<in> set es" and "out_port g e = PVar u v \<or> in_port g e = PVar u v"
  shows "map_of (bindings_of (up_bindings (planUnify g cand)) u) v = Some t \<longleftrightarrow> forced g es (var_key u v) t"
  using bound_iff_forced(1) [OF assms(1) _ assms(3-5)] plan_hard [OF assms(1)] assms(2) by blast

theorem unify_most_general_witness:
  "forced \<lparr>units = [demo_source, demo_sink], head = None\<rparr> [demo_edge] (var_key ''b'' ''T'') ''float''"
proof -
  let ?g = "\<lparr>units = [demo_source, demo_sink], head = None\<rparr>"
  have "plan_edges ?g (Some demo_edge) = Some [demo_edge]" by code_simp
  moreover have "\<not> hardConflict (planUnify ?g (Some demo_edge))" by code_simp
  moreover have "colon_free ?g" by code_simp
  moreover have "in_port ?g demo_edge = PVar ''b'' ''T''" by code_simp
  moreover have "map_of (bindings_of (up_bindings (planUnify ?g (Some demo_edge))) ''b'') ''T'' = Some ''float''" by code_simp
  ultimately show ?thesis using unify_most_general [of ?g "Some demo_edge" "[demo_edge]" demo_edge "''b''" "''T''"] by simp
qed

section \<open>What ports resolve to under the bindings of a plan\<close>

lemma map_of_filter_all:
  "(\<And>t. map_of m v = Some t \<Longrightarrow> P t) \<Longrightarrow> map_of (filter (\<lambda>(_, t). P t) m) v = map_of m v"
proof (induction m)
  case (Cons x m)
  obtain k t where x: "x = (k, t)" by (rule prod.exhaust)
  show ?case using Cons by (cases "k = v") (auto simp: x)
qed simp

definition bound_type :: "(string, string) js_map \<Rightarrow> port_desc \<Rightarrow> string" where
  "bound_type bound d = (case d of PConcrete t \<Rightarrow> t
    | PVar _ v \<Rightarrow> (case map_of bound v of Some t \<Rightarrow> t | None \<Rightarrow> GENERIC_TYPE) | _ \<Rightarrow> GENERIC_TYPE)"

lemma resolved_bound:
  assumes ok: "block_ok b" and d: "describe_block b s l \<noteq> PMissing"
    and bound: "\<And>v t. map_of bound v = Some t \<Longrightarrow> isConcreteType t"
  shows "resolvedPortType (b\<lparr>typeBindings := bound\<rparr>) s l = Some (bound_type bound (describe_block b s l))"
proof -
  let ?r = "resolveLabel b s l"
  have idem: "resolveLabel b s ?r = ?r" using ok by (simp add: block_ok_def)
  have idem2: "resolveLabel (b\<lparr>typeBindings := bound\<rparr>) s ?r = ?r" "resolveLabel (b\<lparr>typeBindings := bound\<rparr>) s l = ?r"
    using idem by (simp_all add: resolveLabel_def split: port_side.splits)
  have same: "portMap (b\<lparr>typeBindings := bound\<rparr>) s = portMap b s"
    "getTypeVariable (b\<lparr>typeBindings := bound\<rparr>) s ?r = getTypeVariable b s ?r"
    by (simp_all add: portMap_def getTypeVariable_def resolveLabel_def split: port_side.splits)
  obtain t where t: "map_of (portMap b s) ?r = Some t"
    using d by (auto simp: describe_block_def hasDeclaredPort_def idem Let_def split: if_splits)
  then have ty: "isConcreteType t \<or> isGeneric t" "getTypeVariable b s ?r \<noteq> None \<Longrightarrow> isGeneric t"
    using ok by (auto simp: block_ok_def)
  show ?thesis
    using t ty bound d
    by (auto simp: resolvedPortType_def idem2 same describe_block_def hasDeclaredPort_def idem Let_def bound_type_def
      isGeneric_def concrete_not_generic isConcreteType_def split: option.splits if_splits)
qed

end
