(* ===== verification/ScriptGraph.thy ===== *)
theory ScriptGraph
  imports TypeUnify
begin

text \<open>
  Editing a script, \<open>app/scripting/ScriptManager.js\<close>: blocks are added, connected, disconnected and
  removed; every change infers the types again. A connection is kept at both ends, in the outputs
  of one block and the inputs of the other. Stored data, plugin locks and the list of restore errors
  are left out, as is reconfiguring a block.
\<close>

section \<open>Operations on a block\<close>

definition conns_out :: "block \<Rightarrow> string \<Rightarrow> connection list" where
  "conns_out b l = (case map_of (b_outputs b) l of None \<Rightarrow> [] | Some cs \<Rightarrow> cs)"

definition addOutput :: "string \<Rightarrow> connection \<Rightarrow> block \<Rightarrow> block" where
  "addOutput label c b =
    (let l = resolveOutputLabel b label
     in b\<lparr>b_outputs := AList.update l (conns_out b l @ [c]) (b_outputs b)\<rparr>)"

text \<open>\<open>addInput\<close> throws when the input is taken; \<open>connectUnitsDetailed\<close> has checked that it is not.\<close>

definition addInput :: "string \<Rightarrow> connection \<Rightarrow> block \<Rightarrow> block option" where
  "addInput label c b =
    (let l = resolveInputLabel b label
     in if map_has (b_inputs b) l then None else Some (b\<lparr>b_inputs := AList.update l c (b_inputs b)\<rparr>))"

definition removeInput :: "string \<Rightarrow> block \<Rightarrow> block" where
  "removeInput label b = b\<lparr>b_inputs := AList.delete (resolveInputLabel b label) (b_inputs b)\<rparr>"

definition removeOutputConnection :: "string \<Rightarrow> (connection \<Rightarrow> bool) \<Rightarrow> block \<Rightarrow> block" where
  "removeOutputConnection label P b =
    (let l = resolveOutputLabel b label in
     case map_of (b_outputs b) l of
       None \<Rightarrow> b
     | Some cs \<Rightarrow>
         let kept = filter (\<lambda>c. \<not> P c) cs
         in b\<lparr>b_outputs := (if kept = [] then AList.delete l (b_outputs b) else AList.update l kept (b_outputs b))\<rparr>)"

section \<open>Operations on a script\<close>

definition empty_script :: script where
  "empty_script = \<lparr>units = [], head = None\<rparr>"

definition update_unit :: "string \<Rightarrow> (block \<Rightarrow> block) \<Rightarrow> script \<Rightarrow> script" where
  "update_unit u f g = g\<lparr>units := map (\<lambda>b. if uuid b = u then f b else b) (units g)\<rparr>"

definition addUnit :: "block \<Rightarrow> script \<Rightarrow> script" where
  "addUnit b g = g\<lparr>units := units g @ [b]\<rparr>"

definition setHead :: "string option \<Rightarrow> script \<Rightarrow> script" where
  "setHead u g = g\<lparr>head := u\<rparr>"

datatype connect_error = Unify unify_error | InputTaken string string

definition connectUnitsDetailed ::
  "string \<Rightarrow> string \<Rightarrow> string \<Rightarrow> string \<Rightarrow> script \<Rightarrow> connect_error option \<times> script" where
  "connectUnitsDetailed ou ol iu il g =
    (case (unit_at g ou, unit_at g iu) of
       (Some a, Some b) \<Rightarrow>
         let ro = resolveOutputLabel a ol; ri = resolveInputLabel b il;
             c = \<lparr>outputUnit = ou, outputLabel = ro, inputUnit = iu, inputLabel = ri\<rparr>
         in if \<not> hasDeclaredPort a Outputs ro then (Some (Unify (MissingOutput ol ou)), g)
            else if \<not> hasDeclaredPort b Inputs ri then (Some (Unify (MissingInput il iu)), g)
            else if c \<in> set (conns_out a ro) then (None, g)
            else if map_has (b_inputs b) ri then (Some (InputTaken ri iu), g)
            else let plan = planUnify g (Some c) in
              if \<not> up_ok plan then (Some (Unify (the (up_error plan))), g)
              else let g1 = update_unit ou (addOutput ro c) g;
                       g2 = update_unit iu (\<lambda>b. the (addInput ri c b)) g1
                   in (None, applyBindings (up_bindings plan) g2)
     | _ \<Rightarrow> (Some (Unify (InvalidUuids ou iu)), g))"

definition connectUnits :: "string \<Rightarrow> string \<Rightarrow> string \<Rightarrow> string \<Rightarrow> script \<Rightarrow> bool" where
  "connectUnits ou ol iu il g = (fst (connectUnitsDetailed ou ol iu il g) = None)"

definition disconnectUnits :: "string \<Rightarrow> string \<Rightarrow> string \<Rightarrow> string \<Rightarrow> script \<Rightarrow> bool \<times> script" where
  "disconnectUnits ou ol iu il g =
    (case (unit_at g ou, unit_at g iu) of
       (Some a, Some b) \<Rightarrow>
         let ro = resolveOutputLabel a ol; ri = resolveInputLabel b il;
             c = \<lparr>outputUnit = ou, outputLabel = ro, inputUnit = iu, inputLabel = ri\<rparr>
         in if c \<notin> set (conns_out a (resolveOutputLabel a ro)) then (False, g)
            else let g1 = update_unit ou (removeOutputConnection ro (\<lambda>x. x = c)) g;
                     g2 = update_unit iu (\<lambda>b. if map_of (b_inputs b) ri = Some c then removeInput ri b else b) g1
                 in (True, snd (recomputeBindings g2))
     | _ \<Rightarrow> (False, g))"

definition drop_incoming :: "string \<Rightarrow> connection \<Rightarrow> script \<Rightarrow> script" where
  "drop_incoming u c g =
    update_unit u (removeInput (inputLabel c))
      (update_unit (outputUnit c) (removeOutputConnection (outputLabel c) (\<lambda>x. x = c)) g)"

definition drop_outgoing :: "string \<Rightarrow> connection \<Rightarrow> script \<Rightarrow> script" where
  "drop_outgoing u c g =
    update_unit u (removeOutputConnection (outputLabel c) (\<lambda>x. x = c))
      (update_unit (inputUnit c) (removeInput (inputLabel c)) g)"

definition outs_at :: "script \<Rightarrow> string \<Rightarrow> connection list" where
  "outs_at g u = (case unit_at g u of None \<Rightarrow> [] | Some b \<Rightarrow> concat (map snd (b_outputs b)))"

definition removeUnit :: "string \<Rightarrow> script \<Rightarrow> script" where
  "removeUnit u g =
    (case unit_at g u of
       None \<Rightarrow> g
     | Some b \<Rightarrow>
         let g1 = fold (drop_incoming u) (map snd (b_inputs b)) g;
             g2 = fold (drop_outgoing u) (outs_at g1 u) g1;
             g3 = g2\<lparr>units := filter (\<lambda>b. uuid b \<noteq> u) (units g2), head := if head g2 = Some u then None else head g2\<rparr>
         in snd (recomputeBindings g3))"

section \<open>Well-formed blocks\<close>

text \<open>A connection is stored under its own labels, which are resolved.\<close>

definition block_wf :: "block \<Rightarrow> bool" where
  "block_wf b \<longleftrightarrow> block_ok b \<and> CHR '':'' \<notin> set (uuid b) \<and> map_ok (b_inputs b) \<and> map_ok (b_outputs b)
    \<and> (\<forall>l c. map_of (b_inputs b) l = Some c \<longrightarrow> inputUnit c = uuid b \<and> inputLabel c = l \<and> resolveInputLabel b l = l)
    \<and> (\<forall>l cs. map_of (b_outputs b) l = Some cs \<longrightarrow> resolveOutputLabel b l = l
        \<and> (\<forall>c \<in> set cs. outputUnit c = uuid b \<and> outputLabel c = l))"

definition outs_of :: "block \<Rightarrow> connection set" where
  "outs_of b = {c. \<exists>l. c \<in> set (conns_out b l)}"

definition ins_of :: "block \<Rightarrow> connection set" where
  "ins_of b = {c. \<exists>l. map_of (b_inputs b) l = Some c}"

lemma outs_of_list: "map_ok (b_outputs b) \<Longrightarrow> set (concat (map snd (b_outputs b))) = outs_of b"
  by (force simp: outs_of_def conns_out_def split: option.splits)

lemma block_wfD:
  assumes "block_wf b"
  shows "block_ok b" and "CHR '':'' \<notin> set (uuid b)" and "map_ok (b_inputs b)" and "map_ok (b_outputs b)"
    and "map_of (b_inputs b) l = Some c \<Longrightarrow> inputUnit c = uuid b \<and> inputLabel c = l \<and> resolveInputLabel b l = l"
    and "c \<in> set (conns_out b l) \<Longrightarrow> outputUnit c = uuid b \<and> outputLabel c = l \<and> resolveOutputLabel b l = l"
  using assms by (auto simp: block_wf_def conns_out_def split: option.splits)

lemma outs_of_wf:
  "block_wf b \<Longrightarrow> c \<in> outs_of b \<Longrightarrow> outputUnit c = uuid b \<and> c \<in> set (conns_out b (outputLabel c))
    \<and> resolveOutputLabel b (outputLabel c) = outputLabel c"
  using block_wfD(6) by (force simp: outs_of_def)

lemma ins_of_wf:
  "block_wf b \<Longrightarrow> c \<in> ins_of b \<Longrightarrow> inputUnit c = uuid b \<and> map_of (b_inputs b) (inputLabel c) = Some c
    \<and> resolveInputLabel b (inputLabel c) = inputLabel c"
  using block_wfD(5) by (force simp: ins_of_def)

text \<open>What inference reads of a block.\<close>

definition static :: "block \<Rightarrow> block" where
  "static b = b\<lparr>typeBindings := [], b_inputs := [], b_outputs := []\<rparr>"

lemma static_parts [simp]:
  "resolveLabel (static b) = resolveLabel b" "portMap (static b) = portMap b" "scheme (static b) = scheme b"
  "uuid (static b) = uuid b" "resolveOutputLabel (static b) = resolveOutputLabel b"
  "resolveInputLabel (static b) = resolveInputLabel b"
  by (simp_all add: fun_eq_iff resolveLabel_def portMap_def static_def split: port_side.split)

lemma static_variable [simp]: "getTypeVariable (static b) s l = getTypeVariable b s l"
  by (simp add: getTypeVariable_def)

lemma describe_static: "describe_block (static b) s l = describe_block b s l"
  unfolding describe_block_def hasDeclaredPort_def Let_def static_parts static_variable ..

lemma static_updates [simp]:
  "static (b\<lparr>typeBindings := x\<rparr>) = static b" "static (b\<lparr>b_inputs := y\<rparr>) = static b" "static (b\<lparr>b_outputs := z\<rparr>) = static b"
  by (simp_all add: static_def)

lemma static_uuid: "static a = static b \<Longrightarrow> uuid a = uuid b"
  by (metis static_parts(4))

section \<open>What the block operations do\<close>

lemma block_wf_fields:
  assumes "block_wf b" and "static b' = static b" and "map_ok (b_inputs b')" and "map_ok (b_outputs b')"
    and "\<And>l c. map_of (b_inputs b') l = Some c \<Longrightarrow> inputUnit c = uuid b \<and> inputLabel c = l \<and> resolveInputLabel b l = l"
    and "\<And>l cs. map_of (b_outputs b') l = Some cs \<Longrightarrow> resolveOutputLabel b l = l \<and> (\<forall>c \<in> set cs. outputUnit c = uuid b \<and> outputLabel c = l)"
  shows "block_wf b'"
proof -
  have s: "uuid b' = uuid b" "resolveInputLabel b' = resolveInputLabel b" "resolveOutputLabel b' = resolveOutputLabel b"
    using assms(2) static_parts(4,5,6) by metis+
  have "resolveLabel b' = resolveLabel b" "portMap b' = portMap b" "scheme b' = scheme b"
    using assms(2) static_parts(1,2,3) by metis+
  then have "block_ok b' = block_ok b" by (simp add: block_ok_def getTypeVariable_def)
  then show ?thesis using assms(1,3-6) unfolding block_wf_def s by blast
qed

lemma removeInput_spec:
  assumes "block_wf b" and "resolveInputLabel b l = l"
  shows "block_wf (removeInput l b)" and "static (removeInput l b) = static b"
    and "ins_of (removeInput l b) = {c \<in> ins_of b. inputLabel c \<noteq> l}" and "outs_of (removeInput l b) = outs_of b"
proof -
  show st: "static (removeInput l b) = static b" by (simp add: removeInput_def)
  note D = block_wfD [OF assms(1)]
  show "block_wf (removeInput l b)"
    by (rule block_wf_fields [OF assms(1) st])
      (use D assms(2) in \<open>auto simp: removeInput_def distinct_delete delete_conv' conns_out_def split: if_splits,
        auto simp: block_wf_def assms(1) [unfolded block_wf_def]\<close>)
  show "ins_of (removeInput l b) = {c \<in> ins_of b. inputLabel c \<noteq> l}"
    using D(5) by (auto simp: removeInput_def ins_of_def assms(2) delete_conv')
  show "outs_of (removeInput l b) = outs_of b" by (simp add: removeInput_def outs_of_def conns_out_def)
qed

lemma removeOutput_spec:
  fixes b :: block and c :: connection and l :: string
  assumes "block_wf b" and "resolveOutputLabel b l = l"
  defines "b' \<equiv> removeOutputConnection l (\<lambda>x. x = c) b"
  shows "block_wf b'" and "static b' = static b" and "ins_of b' = ins_of b"
    and "outputLabel c = l \<Longrightarrow> outs_of b' = outs_of b - {c}"
proof -
  let ?keep = "filter (\<lambda>x. x \<noteq> c) (conns_out b l)"
  have b': "b' = (case map_of (b_outputs b) l of None \<Rightarrow> b
      | Some cs \<Rightarrow> b\<lparr>b_outputs := if ?keep = [] then AList.delete l (b_outputs b) else AList.update l ?keep (b_outputs b)\<rparr>)"
    by (simp add: b'_def removeOutputConnection_def assms(2) conns_out_def Let_def split: option.split)
  show st: "static b' = static b" by (simp add: b' split: option.split)
  show "ins_of b' = ins_of b" by (simp add: b' ins_of_def split: option.split)
  note D = block_wfD [OF assms(1)]
  have out: "conns_out b' k = (if k = l then ?keep else conns_out b k)" for k
    by (auto simp: b' conns_out_def delete_conv' update_conv' split: option.split)
  have at: "map_of (b_outputs b') k = Some cs \<Longrightarrow> \<exists>ds. map_of (b_outputs b) k = Some ds \<and> set cs \<subseteq> set ds" for k cs
    by (auto simp: b' delete_conv' update_conv' conns_out_def split: option.splits if_splits)
  show "block_wf b'"
  proof (rule block_wf_fields [OF assms(1) st])
    show "map_ok (b_inputs b')" using D(3) by (simp add: b' split: option.split)
    show "map_ok (b_outputs b')" using D(4) by (simp add: b' distinct_delete distinct_update split: option.split)
    show "inputUnit c = uuid b \<and> inputLabel c = l \<and> resolveInputLabel b l = l" if "map_of (b_inputs b') l = Some c" for l c
      using that D(5) by (auto simp: b' split: option.splits)
    show "resolveOutputLabel b l = l \<and> (\<forall>c \<in> set cs. outputUnit c = uuid b \<and> outputLabel c = l)"
      if "map_of (b_outputs b') l = Some cs" for l cs
      using at [OF that] assms(1) unfolding block_wf_def by blast
  qed
  show "outs_of b' = outs_of b - {c}" if "outputLabel c = l"
  proof -
    have "x \<in> outs_of b' \<longleftrightarrow> (\<exists>k. x \<in> set (conns_out b k) \<and> (k = l \<longrightarrow> x \<noteq> c))" for x
      unfolding outs_of_def mem_Collect_eq out by (rule iff_exI) simp
    moreover have "x \<in> set (conns_out b k) \<Longrightarrow> outputLabel x = k" for x k using D(6) by blast
    ultimately show ?thesis using that by (auto simp: outs_of_def)
  qed
qed

lemma addOutput_spec:
  fixes b :: block and c :: connection
  assumes "block_wf b" and "resolveOutputLabel b (outputLabel c) = outputLabel c" and "outputUnit c = uuid b"
  defines "b' \<equiv> addOutput (outputLabel c) c b"
  shows "block_wf b'" and "static b' = static b" and "ins_of b' = ins_of b" and "outs_of b' = insert c (outs_of b)"
proof -
  have b': "b' = b\<lparr>b_outputs := AList.update (outputLabel c) (conns_out b (outputLabel c) @ [c]) (b_outputs b)\<rparr>"
    by (simp add: b'_def addOutput_def assms(2) Let_def)
  show st: "static b' = static b" by (simp add: b')
  show "ins_of b' = ins_of b" by (simp add: b' ins_of_def)
  note D = block_wfD [OF assms(1)]
  have out: "conns_out b' k = (if k = outputLabel c then conns_out b k @ [c] else conns_out b k)" for k
    by (simp add: b' conns_out_def update_conv')
  have "x \<in> outs_of b' \<longleftrightarrow> (\<exists>k. x \<in> set (conns_out b k) \<or> k = outputLabel c \<and> x = c)" for x
    unfolding outs_of_def mem_Collect_eq out by (rule iff_exI) auto
  then show "outs_of b' = insert c (outs_of b)" by (auto simp: outs_of_def)
  show "block_wf b'"
  proof (rule block_wf_fields [OF assms(1) st])
    show "map_ok (b_inputs b')" using D(3) by (simp add: b')
    show "map_ok (b_outputs b')" using D(4) by (simp add: b' distinct_update)
    show "inputUnit c = uuid b \<and> inputLabel c = l \<and> resolveInputLabel b l = l" if "map_of (b_inputs b') l = Some c" for l c
      using that D(5) by (simp add: b')
    show "resolveOutputLabel b l = l \<and> (\<forall>c \<in> set cs. outputUnit c = uuid b \<and> outputLabel c = l)"
      if "map_of (b_outputs b') l = Some cs" for l cs
    proof (cases "l = outputLabel c")
      case True
      then have "cs = conns_out b l @ [c]" using that by (simp add: b' update_conv')
      then show ?thesis using D(6) assms(2,3) True by auto
    next
      case False
      then have "map_of (b_outputs b) l = Some cs" using that by (simp add: b' update_conv')
      then show ?thesis using assms(1) unfolding block_wf_def by blast
    qed
  qed
qed

lemma addInput_spec:
  fixes b :: block and c :: connection
  assumes "block_wf b" and "resolveInputLabel b (inputLabel c) = inputLabel c" and "inputUnit c = uuid b"
    and "map_of (b_inputs b) (inputLabel c) = None"
  shows "\<exists>b'. addInput (inputLabel c) c b = Some b' \<and> block_wf b' \<and> static b' = static b
    \<and> ins_of b' = insert c (ins_of b) \<and> outs_of b' = outs_of b"
proof -
  let ?b = "b\<lparr>b_inputs := AList.update (inputLabel c) c (b_inputs b)\<rparr>"
  note D = block_wfD [OF assms(1)]
  have at: "map_of (b_inputs ?b) l = (if l = inputLabel c then Some c else map_of (b_inputs b) l)" for l
    by (simp add: update_conv')
  have st: "static ?b = static b" by simp
  have "block_wf ?b"
  proof (rule block_wf_fields [OF assms(1) st])
    show "map_ok (b_inputs ?b)" using D(3) by (simp add: distinct_update)
    show "map_ok (b_outputs ?b)" using D(4) by simp
    show "inputUnit d = uuid b \<and> inputLabel d = l \<and> resolveInputLabel b l = l" if "map_of (b_inputs ?b) l = Some d" for l d
      using that D(5) assms(2,3) unfolding at by (auto split: if_splits)
    show "resolveOutputLabel b l = l \<and> (\<forall>c \<in> set cs. outputUnit c = uuid b \<and> outputLabel c = l)"
      if "map_of (b_outputs ?b) l = Some cs" for l cs
      using that assms(1) unfolding block_wf_def by simp
  qed
  moreover have "ins_of ?b = insert c (ins_of b)"
  proof -
    have "x \<in> ins_of ?b \<longleftrightarrow> (\<exists>l. map_of (b_inputs b) l = Some x \<or> l = inputLabel c \<and> x = c)" for x
      unfolding ins_of_def mem_Collect_eq at by (rule iff_exI) (use assms(4) in auto)
    then show ?thesis by (auto simp: ins_of_def)
  qed
  moreover have "outs_of ?b = outs_of b" by (simp add: outs_of_def conns_out_def)
  ultimately show ?thesis using st assms(2,4) by (intro exI [of _ ?b]) (simp add: addInput_def Let_def)
qed

end
