(* ===== verification/ScriptEdits.thy ===== *)
theory ScriptEdits
  imports ScriptGraph
begin

text \<open>
  What the operations of \<open>ScriptManager.js\<close> do to a script as a whole: the set of its connections,
  seen from the outputs and from the inputs, and the typing of every connection.
\<close>

definition blocks_wf :: "script \<Rightarrow> bool" where
  "blocks_wf g \<longleftrightarrow> distinct (map uuid (units g)) \<and> (\<forall>b \<in> set (units g). block_wf b)"

definition outs :: "script \<Rightarrow> connection set" where
  "outs g = (\<Union>b \<in> set (units g). outs_of b)"

definition ins :: "script \<Rightarrow> connection set" where
  "ins g = (\<Union>b \<in> set (units g). ins_of b)"

definition same_static :: "script \<Rightarrow> script \<Rightarrow> bool" where
  "same_static g g' \<longleftrightarrow> (\<forall>w. map_option static (unit_at g w) = map_option static (unit_at g' w))"

lemma edges_outs: "blocks_wf g \<Longrightarrow> set (collectExistingEdges g) = outs g"
  using outs_of_list block_wfD(4) by (force simp: collectExistingEdges_def outs_def blocks_wf_def)

lemma unit_at_iff:
  assumes "blocks_wf g"
  shows "unit_at g u = Some b \<longleftrightarrow> b \<in> set (units g) \<and> uuid b = u"
proof
  assume "b \<in> set (units g) \<and> uuid b = u"
  then obtain x where x: "unit_at g u = Some x"
    by (metis (mono_tags, lifting) find_None_iff option.exhaust unit_at_def)
  have "inj_on uuid (set (units g))" using assms by (simp add: blocks_wf_def distinct_map)
  moreover have "x \<in> set (units g) \<and> uuid x = u" by (rule unit_at_mem [OF x])
  ultimately show "unit_at g u = Some b" using x \<open>b \<in> set (units g) \<and> uuid b = u\<close> by (metis inj_onD)
qed (rule unit_at_mem)

lemma same_static_refl: "same_static g g"
  by (simp add: same_static_def)

lemma same_static_trans: "same_static g h \<Longrightarrow> same_static h k \<Longrightarrow> same_static g k"
  by (simp add: same_static_def)

lemma describePort_static: "same_static g g' \<Longrightarrow> describePort g' s u l = describePort g s u l"
proof -
  assume "same_static g g'"
  then have "map_option static (unit_at g u) = map_option static (unit_at g' u)" by (simp add: same_static_def)
  then show ?thesis
    using describe_static by (auto simp: describePort_def split: option.splits) metis
qed

lemma edge_sat_static: "same_static g g' \<Longrightarrow> edge_sat g' v e = edge_sat g v e"
  by (simp add: edge_sat_def declared_edge_def vsat_def tsat_def describePort_static)

lemma satisfiable_mono: "same_static g g' \<Longrightarrow> satisfiable g es \<Longrightarrow> set ds \<subseteq> set es \<Longrightarrow> satisfiable g' ds"
  by (auto simp: satisfiable_def edge_sat_static)

text \<open>Updating one block.\<close>

lemma update_unit_effect:
  assumes wf: "blocks_wf g" and u: "unit_at g u = Some b" and f: "block_wf (f b)" "static (f b) = static b"
  shows "blocks_wf (update_unit u f g)" and "same_static g (update_unit u f g)"
    and "unit_at (update_unit u f g) w = (if w = u then Some (f b) else unit_at g w)"
    and "outs (update_unit u f g) = {c \<in> outs g. outputUnit c \<noteq> u} \<union> outs_of (f b)"
    and "ins (update_unit u f g) = {c \<in> ins g. inputUnit c \<noteq> u} \<union> ins_of (f b)"
proof -
  let ?g = "update_unit u f g"
  have b: "b \<in> set (units g)" "uuid b = u" and id: "uuid (f b) = u" using unit_at_mem [OF u] static_uuid [OF f(2)] by auto
  have only: "x = b" if "x \<in> set (units g)" "uuid x = u" for x
    using that u unit_at_iff [OF wf, of u x] by simp
  have uuids: "map uuid (units ?g) = map uuid (units g)"
    using only id by (auto simp: update_unit_def)
  have set: "set (units ?g) = insert (f b) {x \<in> set (units g). uuid x \<noteq> u}"
  proof (intro equalityI subsetI)
    fix y assume "y \<in> set (units ?g)"
    then obtain x where x: "x \<in> set (units g)" "y = (if uuid x = u then f x else x)"
      by (auto simp: update_unit_def)
    then show "y \<in> insert (f b) {x \<in> set (units g). uuid x \<noteq> u}" using only [OF x(1)] by (cases "uuid x = u") simp_all
  next
    fix y assume "y \<in> insert (f b) {x \<in> set (units g). uuid x \<noteq> u}"
    then have "\<exists>x \<in> set (units g). y = (if uuid x = u then f x else x)" using b by auto
    then show "y \<in> set (units ?g)" by (auto simp: update_unit_def image_iff simp del: if_image_distrib)
  qed
  show wf': "blocks_wf ?g"
    unfolding blocks_wf_def uuids set using wf f(1) by (auto simp: blocks_wf_def)
  show at: "unit_at ?g w = (if w = u then Some (f b) else unit_at g w)" for w
  proof (cases "w = u")
    case True
    then show ?thesis using unit_at_iff [OF wf'] set id by simp
  next
    case False
    then have "unit_at ?g w = Some x \<longleftrightarrow> unit_at g w = Some x" for x
      unfolding unit_at_iff [OF wf'] unit_at_iff [OF wf] set using id by auto
    then have "unit_at ?g w = unit_at g w" by (metis option.exhaust)
    then show ?thesis using False by simp
  qed
  show "same_static g ?g" unfolding same_static_def at using u f(2) by simp
  have out: "outputUnit c = uuid x" if "x \<in> set (units g)" "c \<in> outs_of x" for x c
    using that wf outs_of_wf by (auto simp: blocks_wf_def)
  have inp: "inputUnit c = uuid x" if "x \<in> set (units g)" "c \<in> ins_of x" for x c
    using that wf ins_of_wf by (auto simp: blocks_wf_def)
  show "outs ?g = {c \<in> outs g. outputUnit c \<noteq> u} \<union> outs_of (f b)"
    unfolding outs_def set using out by auto
  show "ins ?g = {c \<in> ins g. inputUnit c \<noteq> u} \<union> ins_of (f b)"
    unfolding ins_def set using inp by auto
qed

lemma update_unit_cong:
  assumes "blocks_wf g" and "unit_at g u = Some b" and "f b = h b"
  shows "update_unit u f g = update_unit u h g"
proof -
  have "f x = h x" if "x \<in> set (units g)" "uuid x = u" for x
    using that assms unit_at_iff [OF assms(1), of u x] by simp
  then show ?thesis by (simp add: update_unit_def cong: map_cong)
qed

lemma outs_at_unit:
  assumes wf: "blocks_wf g" and u: "unit_at g u = Some b"
  shows "outs_of b = {c \<in> outs g. outputUnit c = u}"
proof -
  have "outputUnit c = uuid x" if "x \<in> set (units g)" "c \<in> outs_of x" for x c
    using that wf outs_of_wf by (auto simp: blocks_wf_def)
  note own = this
  have only: "x = b" if "x \<in> set (units g)" "uuid x = u" for x
    using that u unit_at_iff [OF wf, of u x] by simp
  have b: "b \<in> set (units g)" "uuid b = u" using unit_at_mem [OF u] by auto
  show ?thesis
  proof (intro equalityI subsetI)
    fix c assume c: "c \<in> outs_of b"
    then have "outputUnit c = u" using own [OF b(1)] b(2) by simp
    then show "c \<in> {c \<in> outs g. outputUnit c = u}" using b(1) c unfolding outs_def by simp (rule bexI)
  next
    fix c assume "c \<in> {c \<in> outs g. outputUnit c = u}"
    then obtain x where x: "x \<in> set (units g)" "c \<in> outs_of x" "outputUnit c = u" unfolding outs_def by auto
    then have "x = b" using only [OF x(1)] own [OF x(1,2)] by simp
    then show "c \<in> outs_of b" using x(2) by simp
  qed
qed

lemma ins_at_unit:
  assumes wf: "blocks_wf g" and u: "unit_at g u = Some b"
  shows "ins_of b = {c \<in> ins g. inputUnit c = u}"
proof -
  have "inputUnit c = uuid x" if "x \<in> set (units g)" "c \<in> ins_of x" for x c
    using that wf ins_of_wf by (auto simp: blocks_wf_def)
  note own = this
  have only: "x = b" if "x \<in> set (units g)" "uuid x = u" for x
    using that u unit_at_iff [OF wf, of u x] by simp
  have b: "b \<in> set (units g)" "uuid b = u" using unit_at_mem [OF u] by auto
  show ?thesis
  proof (intro equalityI subsetI)
    fix c assume c: "c \<in> ins_of b"
    then have "inputUnit c = u" using own [OF b(1)] b(2) by simp
    then show "c \<in> {c \<in> ins g. inputUnit c = u}" using b(1) c unfolding ins_def by simp (rule bexI)
  next
    fix c assume "c \<in> {c \<in> ins g. inputUnit c = u}"
    then obtain x where x: "x \<in> set (units g)" "c \<in> ins_of x" "inputUnit c = u" unfolding ins_def by auto
    then have "x = b" using only [OF x(1)] own [OF x(1,2)] by simp
    then show "c \<in> ins_of b" using x(2) by simp
  qed
qed

section \<open>Dropping connections\<close>

text \<open>Both blocks of a connection are there and resolve its labels to themselves.\<close>

definition linked :: "script \<Rightarrow> connection \<Rightarrow> bool" where
  "linked g c \<longleftrightarrow> (\<exists>a b. unit_at g (outputUnit c) = Some a \<and> resolveOutputLabel a (outputLabel c) = outputLabel c
    \<and> unit_at g (inputUnit c) = Some b \<and> resolveInputLabel b (inputLabel c) = inputLabel c)"

definition same_input :: "connection \<Rightarrow> connection \<Rightarrow> bool" where
  "same_input c d \<longleftrightarrow> inputUnit d = inputUnit c \<and> inputLabel d = inputLabel c"

lemma linked_static:
  assumes "same_static g g'" and "linked g c"
  shows "linked g' c"
proof -
  from assms(2) obtain a b where ab: "unit_at g (outputUnit c) = Some a" "resolveOutputLabel a (outputLabel c) = outputLabel c"
    "unit_at g (inputUnit c) = Some b" "resolveInputLabel b (inputLabel c) = inputLabel c" by (auto simp: linked_def)
  have "map_option static (unit_at g' w) = map_option static (unit_at g w)" for w
    using assms(1) by (simp add: same_static_def)
  from this [of "outputUnit c"] this [of "inputUnit c"] ab(1,3) obtain a' b' where
    "unit_at g' (outputUnit c) = Some a'" "static a' = static a" "unit_at g' (inputUnit c) = Some b'" "static b' = static b"
    by auto
  moreover from this have "resolveOutputLabel a' = resolveOutputLabel a" "resolveInputLabel b' = resolveInputLabel b"
    using static_parts(5,6) by metis+
  ultimately show ?thesis using ab unfolding linked_def by auto
qed

lemma drop_output:
  assumes wf: "blocks_wf g" and l: "linked g c"
  defines "g' \<equiv> update_unit (outputUnit c) (removeOutputConnection (outputLabel c) (\<lambda>x. x = c)) g"
  shows "blocks_wf g'" and "same_static g g'" and "outs g' = outs g - {c}" and "ins g' = ins g"
proof -
  from l obtain a where a: "unit_at g (outputUnit c) = Some a" "resolveOutputLabel a (outputLabel c) = outputLabel c"
    by (auto simp: linked_def)
  have "block_wf a" using unit_at_mem [OF a(1)] wf by (simp add: blocks_wf_def)
  note R = removeOutput_spec [OF this a(2), of c]
  note U = update_unit_effect [where f = "removeOutputConnection (outputLabel c) (\<lambda>x. x = c)", OF wf a(1) R(1,2), folded g'_def]
  show "blocks_wf g'" "same_static g g'" by (rule U(1), rule U(2))
  show "outs g' = outs g - {c}" unfolding U(4) R(4) [OF refl] outs_at_unit [OF wf a(1)] by auto
  show "ins g' = ins g" unfolding U(5) R(3) ins_at_unit [OF wf a(1)] by auto
qed

lemma drop_input:
  assumes wf: "blocks_wf g" and l: "linked g c"
  defines "g' \<equiv> update_unit (inputUnit c) (removeInput (inputLabel c)) g"
  shows "blocks_wf g'" and "same_static g g'" and "outs g' = outs g" and "ins g' = {d \<in> ins g. \<not> same_input c d}"
proof -
  from l obtain b where b: "unit_at g (inputUnit c) = Some b" "resolveInputLabel b (inputLabel c) = inputLabel c"
    by (auto simp: linked_def)
  have "block_wf b" using unit_at_mem [OF b(1)] wf by (simp add: blocks_wf_def)
  note R = removeInput_spec [OF this b(2)]
  note U = update_unit_effect [where f = "removeInput (inputLabel c)", OF wf b(1) R(1,2), folded g'_def]
  show "blocks_wf g'" "same_static g g'" by (rule U(1), rule U(2))
  show "outs g' = outs g" unfolding U(4) R(4) outs_at_unit [OF wf b(1)] by auto
  show "ins g' = {d \<in> ins g. \<not> same_input c d}" unfolding U(5) R(3) ins_at_unit [OF wf b(1)] same_input_def by auto
qed

text \<open>What dropping a connection at both ends does, in either order.\<close>

definition drops :: "(script \<Rightarrow> script) \<Rightarrow> connection \<Rightarrow> script \<Rightarrow> bool" where
  "drops f c g \<longleftrightarrow> blocks_wf (f g) \<and> same_static g (f g) \<and> outs (f g) = outs g - {c}
    \<and> ins (f g) = {d \<in> ins g. \<not> same_input c d}"

lemma drop_incoming_effect:
  assumes "blocks_wf g" and "linked g c"
  shows "drops (drop_incoming (inputUnit c) c) c g"
proof -
  note O = drop_output [OF assms]
  note I = drop_input [OF O(1) linked_static [OF O(2) assms(2)]]
  show ?thesis unfolding drops_def drop_incoming_def
    using I O same_static_trans [OF O(2) I(2)] by simp
qed

lemma drop_outgoing_effect:
  assumes "blocks_wf g" and "linked g c"
  shows "drops (drop_outgoing (outputUnit c) c) c g"
proof -
  note I = drop_input [OF assms]
  note O = drop_output [OF I(1) linked_static [OF I(2) assms(2)]]
  show ?thesis unfolding drops_def drop_outgoing_def
    using I O same_static_trans [OF I(2) O(2)] by simp
qed

lemma drop_fold:
  assumes step: "\<And>g c. c \<in> set cs \<Longrightarrow> blocks_wf g \<Longrightarrow> linked g c \<Longrightarrow> drops (f c) c g"
    and "blocks_wf g" and "\<forall>c \<in> set cs. linked g c"
  shows "blocks_wf (fold f cs g) \<and> same_static g (fold f cs g) \<and> outs (fold f cs g) = outs g - set cs
    \<and> ins (fold f cs g) = {d \<in> ins g. \<forall>c \<in> set cs. \<not> same_input c d}"
  using assms
proof (induction cs arbitrary: g)
  case Nil
  then show ?case by (simp add: same_static_refl)
next
  case (Cons c cs)
  have d: "drops (f c) c g" using Cons.prems by simp
  then have wf: "blocks_wf (f c g)" and st: "same_static g (f c g)" by (simp_all add: drops_def)
  have "\<forall>x \<in> set cs. linked (f c g) x" using Cons.prems(3) linked_static [OF st] by simp
  with Cons.IH [OF _ wf] Cons.prems(1) have IH: "blocks_wf (fold f cs (f c g)) \<and> same_static (f c g) (fold f cs (f c g))
    \<and> outs (fold f cs (f c g)) = outs (f c g) - set cs \<and> ins (fold f cs (f c g)) = {d \<in> ins (f c g). \<forall>c \<in> set cs. \<not> same_input c d}"
    by simp
  then have "same_static g (fold f (c # cs) g)" using same_static_trans [OF st] by simp
  then show ?case using IH d by (auto simp: drops_def)
qed

section \<open>Applying a plan\<close>

text \<open>A connection is typed when both its ports are declared and what they resolve to is compatible.\<close>

definition typed_edge :: "script \<Rightarrow> connection \<Rightarrow> bool" where
  "typed_edge g e \<longleftrightarrow> (\<exists>a b s t. unit_at g (outputUnit e) = Some a \<and> unit_at g (inputUnit e) = Some b
    \<and> resolvedPortType a Outputs (outputLabel e) = Some s \<and> resolvedPortType b Inputs (inputLabel e) = Some t
    \<and> portsCompatible s t)"

abbreviation bound_by :: "bindings \<Rightarrow> string \<Rightarrow> (string, string) js_map" where
  "bound_by bs u \<equiv> filter (\<lambda>(_, t). isConcreteType t) (bindings_of bs u)"

lemma find_map_uuid:
  "(\<And>b. uuid (h b) = uuid b) \<Longrightarrow> List.find (\<lambda>b. uuid b = u) (map h bs) = map_option h (List.find (\<lambda>b. uuid b = u) bs)"
  by (induction bs) auto

lemma unit_at_applied:
  "unit_at (applyBindings bs g) w = map_option (\<lambda>b. b\<lparr>typeBindings := bound_by bs (uuid b)\<rparr>) (unit_at g w)"
  unfolding unit_at_def applyBindings_def by (simp add: find_map_uuid)

lemma block_wf_bindings: "block_wf b \<Longrightarrow> block_wf (b\<lparr>typeBindings := x\<rparr>)"
  by (rule block_wf_fields [of b]) (auto simp: block_wf_def)

lemma applied_script:
  assumes wf: "blocks_wf g"
  shows "blocks_wf (applyBindings bs g)" and "same_static g (applyBindings bs g)"
    and "outs (applyBindings bs g) = outs g" and "ins (applyBindings bs g) = ins g"
proof -
  have u: "units (applyBindings bs g) = map (\<lambda>b. b\<lparr>typeBindings := bound_by bs (uuid b)\<rparr>) (units g)"
    by (simp add: applyBindings_def)
  show "blocks_wf (applyBindings bs g)"
    using wf block_wf_bindings unfolding blocks_wf_def u by (auto simp: comp_def)
  show "same_static g (applyBindings bs g)"
    by (simp add: same_static_def unit_at_applied option.map_comp comp_def)
  show "outs (applyBindings bs g) = outs g" by (auto simp: outs_def u outs_of_def conns_out_def)
  show "ins (applyBindings bs g) = ins g" by (auto simp: ins_def u ins_of_def)
qed

definition planned_type :: "bindings \<Rightarrow> port_desc \<Rightarrow> string" where
  "planned_type bs d = (case d of PConcrete t \<Rightarrow> t
    | PVar u v \<Rightarrow> (case map_of (bindings_of bs u) v of Some t \<Rightarrow> t | None \<Rightarrow> GENERIC_TYPE) | _ \<Rightarrow> GENERIC_TYPE)"

lemma applied_port:
  assumes wf: "blocks_wf h" and st: "same_static g h" and d: "describePort g s w l \<noteq> PMissing"
    and c: "\<And>u v t. describePort g s w l = PVar u v \<Longrightarrow> map_of (bindings_of bs u) v = Some t \<Longrightarrow> isConcreteType t"
  shows "\<exists>b. unit_at (applyBindings bs h) w = Some b \<and> resolvedPortType b s l = Some (planned_type bs (describePort g s w l))"
proof -
  have dh: "describePort h s w l = describePort g s w l" by (rule describePort_static [OF st])
  with d obtain b where b: "unit_at h w = Some b" by (auto simp: describePort_def split: option.splits)
  have db: "describe_block b s l = describePort g s w l" using dh b by (simp add: describePort_def)
  have id: "uuid b = w" and "block_ok b" using unit_at_mem [OF b] wf by (auto simp: blocks_wf_def block_wf_def)
  moreover have "map_of (bound_by bs w) v = Some t \<Longrightarrow> isConcreteType t" for v t
    by (drule map_of_SomeD) auto
  ultimately have "resolvedPortType (b\<lparr>typeBindings := bound_by bs w\<rparr>) s l = Some (bound_type (bound_by bs w) (describePort g s w l))"
    using resolved_bound [of b s l "bound_by bs w"] d by (simp add: db)
  moreover have "bound_type (bound_by bs w) (describePort g s w l) = planned_type bs (describePort g s w l)"
  proof (cases "describePort g s w l")
    case (PVar u v)
    have "u = w" using port_var_unit [OF PVar] by simp
    moreover have "map_of (bound_by bs u) v = map_of (bindings_of bs u) v"
      by (rule map_of_filter_all) (rule c [OF PVar])
    ultimately show ?thesis by (simp add: PVar bound_type_def planned_type_def)
  qed (simp_all add: bound_type_def planned_type_def)
  ultimately show ?thesis using b id by (simp add: unit_at_applied)
qed

lemma applied_typed:
  assumes wf: "blocks_wf g" and es: "plan_edges g cand = Some es" and sat: "satisfiable g es"
    and h: "same_static g h" "blocks_wf h" and e: "e \<in> set es"
  shows "typed_edge (applyBindings (up_bindings (planUnify g cand)) h) e"
proof -
  let ?bs = "up_bindings (planUnify g cand)"
  have cf: "colon_free g" using wf by (auto simp: colon_free_def blocks_wf_def block_wf_def)
  obtain v where v: "\<forall>e \<in> set es. edge_sat g v e" using sat by (auto simp: satisfiable_def)
  have sat_e: "declared_edge g e" "vsat g v e" "tsat g v e" using v e by (auto simp: edge_sat_def)
  note iff = bound_iff_forced(1) [OF es sat cf e] and conc = bound_iff_forced(2) [OF es sat cf e]
  from applied_port [OF h(2,1), of Outputs "outputUnit e" "outputLabel e" ?bs] sat_e(1) conc
  obtain a where a: "unit_at (applyBindings ?bs h) (outputUnit e) = Some a"
    "resolvedPortType a Outputs (outputLabel e) = Some (planned_type ?bs (out_port g e))"
    unfolding declared_edge_def by blast
  from applied_port [OF h(2,1), of Inputs "inputUnit e" "inputLabel e" ?bs] sat_e(1) conc
  obtain b where b: "unit_at (applyBindings ?bs h) (inputUnit e) = Some b"
    "resolvedPortType b Inputs (inputLabel e) = Some (planned_type ?bs (in_port g e))"
    unfolding declared_edge_def by blast
  have "portsCompatible (planned_type ?bs (out_port g e)) (planned_type ?bs (in_port g e))"
  proof -
    have all: "vsat g v e \<and> tsat g v e" if "\<forall>e \<in> set es. edge_sat g v e" for v using that e by (simp add: edge_sat_def)
    have con: "isConcreteType t" if "out_port g e = PConcrete t \<or> in_port g e = PConcrete t" for t
      using that concrete_port by blast
    have gen: "portsCompatible GENERIC_TYPE t \<and> portsCompatible t GENERIC_TYPE"
      if "isConcreteType t \<or> isGeneric t" "t \<noteq> REPEAT_REF_TYPE" for t using that by (rule compatible_generic)
    have var: "portsCompatible GENERIC_TYPE (planned_type ?bs d) \<and> portsCompatible (planned_type ?bs d) GENERIC_TYPE"
      if "d = out_port g e \<or> d = in_port g e" "d = PVar u v" for d u v
    proof (cases "map_of (bindings_of ?bs u) v")
      case None
      then show ?thesis using gen [of GENERIC_TYPE] by (simp add: that(2) planned_type_def)
    next
      case (Some t)
      have "out_port g e = PVar u v \<or> in_port g e = PVar u v" using that by auto
      then have "isConcreteType t \<and> t \<noteq> REPEAT_REF_TYPE" using Some by (rule conc)
      then show ?thesis using Some gen [of t] by (simp add: that(2) planned_type_def)
    qed
    have gg: "portsCompatible GENERIC_TYPE GENERIC_TYPE" by (simp add: portsCompatible_def)
    have vc: "planned_type ?bs (PVar u v) = t"
      if "out_port g e = PVar u v \<and> in_port g e = PConcrete t \<or> in_port g e = PVar u v \<and> out_port g e = PConcrete t" for u v t
    proof -
      have "forced g es (var_key u v) t" using all that by (fastforce simp: forced_def tsat_def)
      then have "map_of (bindings_of ?bs u) v = Some t" using iff that by blast
      then show ?thesis by (simp add: planned_type_def)
    qed
    have vv: "planned_type ?bs (PVar u v) = planned_type ?bs (PVar w x)"
      if "out_port g e = PVar u v" "in_port g e = PVar w x" for u v w x
    proof -
      have "f (var_key u v) = f (var_key w x)" if "\<forall>e \<in> set es. edge_sat g f e" for f
        using all [OF that] \<open>out_port g e = PVar u v\<close> \<open>in_port g e = PVar w x\<close> by (simp add: vsat_def)
      then have "forced g es (var_key u v) t = forced g es (var_key w x) t" for t
        unfolding forced_def by metis
      then have "map_of (bindings_of ?bs u) v = Some t \<longleftrightarrow> map_of (bindings_of ?bs w) x = Some t" for t
        using iff that by blast
      then have "map_of (bindings_of ?bs u) v = map_of (bindings_of ?bs w) x" by (metis option.exhaust)
      then show ?thesis by (simp add: planned_type_def)
    qed
    have self: "portsCompatible (planned_type ?bs (PVar u v)) (planned_type ?bs (PVar u v))" if "out_port g e = PVar u v" for u v
      using conc [of u v] that gg by (auto simp: planned_type_def compatible_same split: option.split)
    have w: "planned_type ?bs PWildcard = GENERIC_TYPE" "planned_type ?bs (PConcrete t) = t" for t
      by (simp_all add: planned_type_def)
    show ?thesis
    proof (cases "out_port g e")
      case PMissing
      then show ?thesis using sat_e(1) by (simp add: declared_edge_def)
    next
      case (PVar u v)
      then show ?thesis
        using sat_e(1) self [OF PVar] vv [OF PVar] vc var [of "out_port g e"] compatible_same con
        by (cases "in_port g e") (auto simp: declared_edge_def w)
    next
      case PWildcard
      then show ?thesis using sat_e(1,3) gg con gen var [of "in_port g e"]
        by (cases "in_port g e") (auto simp: declared_edge_def w tsat_def)
    next
      case (PConcrete t)
      then show ?thesis using sat_e(1,3) con gen vc compatible_same
        by (cases "in_port g e") (auto simp: declared_edge_def w tsat_def)
    qed
  qed
  then show ?thesis using a b by (auto simp: typed_edge_def)
qed

section \<open>Editing keeps a script well typed\<close>

definition script_inv :: "script \<Rightarrow> bool" where
  "script_inv g \<longleftrightarrow> blocks_wf g \<and> outs g = ins g \<and> satisfiable g (collectExistingEdges g)
    \<and> (\<forall>e \<in> outs g. typed_edge g e)"

text \<open>The scripts that editing can build. A new block is unconnected and has an id of its own.\<close>

definition fresh_block :: "script \<Rightarrow> block \<Rightarrow> bool" where
  "fresh_block g b \<longleftrightarrow> unit_at g (uuid b) = None \<and> block_ok b \<and> CHR '':'' \<notin> set (uuid b)
    \<and> b_inputs b = [] \<and> b_outputs b = []"

inductive edited :: "script \<Rightarrow> bool" where
  start: "edited empty_script"
| added: "edited g \<Longrightarrow> fresh_block g b \<Longrightarrow> edited (addUnit b g)"
| connected: "edited g \<Longrightarrow> edited (snd (connectUnitsDetailed ou ol iu il g))"
| disconnected: "edited g \<Longrightarrow> edited (snd (disconnectUnits ou ol iu il g))"
| removed: "edited g \<Longrightarrow> edited (removeUnit u g)"
| headed: "edited g \<Longrightarrow> edited (setHead u g)"

lemma start_inv: "script_inv empty_script"
  by (simp add: script_inv_def empty_script_def blocks_wf_def outs_def ins_def satisfiable_def collectExistingEdges_def)

lemma head_inv: "script_inv g \<Longrightarrow> script_inv (setHead u g)"
proof -
  have at: "unit_at (setHead u g) = unit_at g" by (simp add: fun_eq_iff unit_at_def setHead_def)
  have st: "same_static g (setHead u g)" by (simp add: same_static_def at)
  have same: "blocks_wf (setHead u g) = blocks_wf g" "outs (setHead u g) = outs g" "ins (setHead u g) = ins g"
    "collectExistingEdges (setHead u g) = collectExistingEdges g" "typed_edge (setHead u g) = typed_edge g"
    by (simp_all add: fun_eq_iff blocks_wf_def outs_def ins_def collectExistingEdges_def typed_edge_def at)
      (simp_all add: setHead_def)
  show "script_inv g \<Longrightarrow> script_inv (setHead u g)"
    using satisfiable_mono [OF st _ subset_refl] by (simp add: script_inv_def same)
qed

lemma linked_inv:
  assumes "blocks_wf g" and "outs g = ins g" and "c \<in> outs g"
  shows "linked g c"
proof -
  from assms(3) obtain a where a: "a \<in> set (units g)" "c \<in> outs_of a" by (auto simp: outs_def)
  from assms(2,3) obtain b where b: "b \<in> set (units g)" "c \<in> ins_of b" by (auto simp: ins_def)
  have "block_wf a" "block_wf b" using a(1) b(1) assms(1) by (auto simp: blocks_wf_def)
  note A = outs_of_wf [OF this(1) a(2)] and B = ins_of_wf [OF this(2) b(2)]
  have "unit_at g (outputUnit c) = Some a" "unit_at g (inputUnit c) = Some b"
    using a(1) b(1) A B unit_at_iff [OF assms(1)] by auto
  then show ?thesis using A B unfolding linked_def by blast
qed

lemma same_input_eq:
  assumes "blocks_wf g" and "c \<in> ins g" and "d \<in> ins g" and "same_input c d"
  shows "c = d"
proof -
  from assms(2) obtain a where a: "a \<in> set (units g)" "c \<in> ins_of a" by (auto simp: ins_def)
  from assms(3) obtain b where b: "b \<in> set (units g)" "d \<in> ins_of b" by (auto simp: ins_def)
  have wf: "block_wf a" "block_wf b" using a(1) b(1) assms(1) by (auto simp: blocks_wf_def)
  have "uuid a = uuid b"
    using assms(4) ins_of_wf [OF wf(1) a(2)] ins_of_wf [OF wf(2) b(2)] by (simp add: same_input_def)
  then have "unit_at g (uuid b) = Some a" "unit_at g (uuid b) = Some b"
    using unit_at_iff [OF assms(1)] a(1) b(1) by auto
  then have "a = b" by simp
  then show ?thesis using assms(4) ins_of_wf [OF wf(1) a(2)] ins_of_wf [OF wf(2) b(2)] by (simp add: same_input_def)
qed

text \<open>Inferring the types again after connections have gone.\<close>

lemma recompute_inv:
  assumes "blocks_wf g" and "outs g = ins g" and "satisfiable g (collectExistingEdges g)"
  shows "script_inv (snd (recomputeBindings g))"
proof -
  have es: "plan_edges g None = Some (collectExistingEdges g)" by (simp add: plan_edges_def)
  let ?g = "applyBindings (up_bindings (planUnify g None)) g"
  have r: "snd (recomputeBindings g) = ?g"
    using plan_hard [OF es] assms(3) by (simp add: recomputeBindings_def Let_def)
  note A = applied_script [OF assms(1), of "up_bindings (planUnify g None)"]
  have "set (collectExistingEdges ?g) \<subseteq> set (collectExistingEdges g)"
    using A(3) by (simp add: edges_outs assms(1) A(1))
  then have "satisfiable ?g (collectExistingEdges ?g)" using satisfiable_mono [OF A(2) assms(3)] by simp
  moreover have "typed_edge ?g e" if "e \<in> outs ?g" for e
    using applied_typed [OF assms(1) es assms(3) same_static_refl assms(1)] that A(3) edges_outs [OF assms(1)] by simp
  ultimately show ?thesis unfolding r script_inv_def using A assms(2) by simp
qed

lemma find_append: "List.find P (xs @ ys) = (case List.find P xs of None \<Rightarrow> List.find P ys | Some x \<Rightarrow> Some x)"
  by (induction xs) auto

lemma add_inv:
  assumes inv: "script_inv g" and f: "fresh_block g b"
  shows "script_inv (addUnit b g)"
proof -
  let ?g = "addUnit b g"
  have wf: "blocks_wf g" using inv by (simp add: script_inv_def)
  have none: "outs_of b = {}" "ins_of b = {}" "block_wf b"
    using f by (auto simp: fresh_block_def outs_of_def ins_of_def conns_out_def block_wf_def)
  have "uuid b \<noteq> uuid x" if "x \<in> set (units g)" for x
    using f that unit_at_iff [OF wf, of "uuid b" x] by (auto simp: fresh_block_def)
  then have wf': "blocks_wf ?g" using wf none(3) by (auto simp: blocks_wf_def addUnit_def)
  have sets: "outs ?g = outs g" "ins ?g = ins g" using none by (auto simp: outs_def ins_def addUnit_def)
  have edges: "collectExistingEdges ?g = collectExistingEdges g"
    using f by (simp add: collectExistingEdges_def addUnit_def fresh_block_def)
  have at: "unit_at ?g w = (if unit_at g w = None \<and> w = uuid b then Some b else unit_at g w)" for w
    by (auto simp: unit_at_def addUnit_def find_append split: option.split)
  have port: "describePort ?g s w l = describePort g s w l" if "describePort g s w l \<noteq> PMissing" for s w l
    using that by (auto simp: describePort_def at split: option.splits)
  have "edge_sat ?g v e = edge_sat g v e" if "edge_sat g v e" for v e
    using that port [of Outputs "outputUnit e" "outputLabel e"] port [of Inputs "inputUnit e" "inputLabel e"]
    by (simp add: edge_sat_def declared_edge_def vsat_def tsat_def)
  then have "satisfiable ?g (collectExistingEdges ?g)"
    using inv unfolding edges script_inv_def satisfiable_def by blast
  moreover have "typed_edge ?g e" if "typed_edge g e" for e
  proof -
    have "unit_at ?g w = unit_at g w" if "unit_at g w \<noteq> None" for w using that by (auto simp: at)
    then show ?thesis using that unfolding typed_edge_def by force
  qed
  ultimately show ?thesis using inv wf' sets by (simp add: script_inv_def)
qed

lemma disconnect_inv:
  assumes inv: "script_inv g"
  shows "script_inv (snd (disconnectUnits ou ol iu il g))"
proof (cases "unit_at g ou = None \<or> unit_at g iu = None")
  case True
  then show ?thesis using inv by (auto simp: disconnectUnits_def split: option.split)
next
  case False
  then obtain a b where ab: "unit_at g ou = Some a" "unit_at g iu = Some b" by auto
  have wf: "blocks_wf g" and mirror: "outs g = ins g" and sat: "satisfiable g (collectExistingEdges g)"
    using inv by (simp_all add: script_inv_def)
  let ?ro = "resolveOutputLabel a ol" and ?ri = "resolveInputLabel b il"
  let ?c = "\<lparr>outputUnit = ou, outputLabel = ?ro, inputUnit = iu, inputLabel = ?ri\<rparr>"
  let ?g1 = "update_unit ou (removeOutputConnection ?ro (\<lambda>x. x = ?c)) g"
  let ?g2 = "update_unit iu (\<lambda>b. if map_of (b_inputs b) ?ri = Some ?c then removeInput ?ri b else b) ?g1"
  show ?thesis
  proof (cases "?c \<in> set (conns_out a (resolveOutputLabel a ?ro))")
    case False
    then show ?thesis using inv by (simp add: disconnectUnits_def ab Let_def)
  next
    case True
    then have "?c \<in> outs_of a" by (auto simp: outs_of_def)
    then have c: "?c \<in> outs g" using outs_at_unit [OF wf ab(1)] by blast
    then have l: "linked g ?c" by (rule linked_inv [OF wf mirror])
    note O = drop_output [OF wf l, simplified]
    have l1: "linked ?g1 ?c" using linked_static [OF O(2) l] by simp
    have ci: "?c \<in> ins ?g1" using c mirror O(4) by simp
    obtain b1 where b1: "unit_at ?g1 iu = Some b1" using l1 by (auto simp: linked_def)
    have "block_wf b1" using unit_at_mem [OF b1] O(1) by (auto simp: blocks_wf_def)
    then have "map_of (b_inputs b1) ?ri = Some ?c"
      using ci ins_at_unit [OF O(1) b1] ins_of_wf [of b1 ?c] by simp
    then have g2: "?g2 = update_unit iu (removeInput ?ri) ?g1"
      by (intro update_unit_cong [OF O(1) b1]) simp
    note I = drop_input [OF O(1) l1, simplified, folded g2]
    have "same_input ?c d \<longleftrightarrow> d = ?c" if "d \<in> ins ?g1" for d
      using same_input_eq [OF O(1) ci that] by (auto simp: same_input_def)
    then have "ins ?g2 = ins ?g1 - {?c}" unfolding I(4) by blast
    then have mirror2: "outs ?g2 = ins ?g2" using I(3) O(3,4) mirror by simp
    have st: "same_static g ?g2" using same_static_trans [OF O(2) I(2)] .
    have "set (collectExistingEdges ?g2) \<subseteq> set (collectExistingEdges g)"
      using edges_outs [OF I(1)] edges_outs [OF wf] I(3) O(3) by auto
    then have "script_inv (snd (recomputeBindings ?g2))"
      using recompute_inv [OF I(1) mirror2] satisfiable_mono [OF st sat] by blast
    then show ?thesis using True by (simp add: disconnectUnits_def ab Let_def)
  qed
qed

lemma connect_inv:
  assumes inv: "script_inv g"
  shows "script_inv (snd (connectUnitsDetailed ou ol iu il g))"
proof (cases "unit_at g ou = None \<or> unit_at g iu = None")
  case True
  then show ?thesis using inv by (auto simp: connectUnitsDetailed_def split: option.split)
next
  case False
  then obtain a b where ab: "unit_at g ou = Some a" "unit_at g iu = Some b" by auto
  have wf: "blocks_wf g" and mirror: "outs g = ins g" using inv by (simp_all add: script_inv_def)
  let ?ro = "resolveOutputLabel a ol" and ?ri = "resolveInputLabel b il"
  let ?c = "\<lparr>outputUnit = ou, outputLabel = ?ro, inputUnit = iu, inputLabel = ?ri\<rparr>"
  let ?plan = "planUnify g (Some ?c)"
  let ?g1 = "update_unit ou (addOutput ?ro ?c) g"
  let ?g2 = "update_unit iu (\<lambda>b. the (addInput ?ri ?c b)) ?g1"
  let ?g3 = "applyBindings (up_bindings ?plan) ?g2"
  show ?thesis
  proof (cases "hasDeclaredPort a Outputs ?ro \<and> hasDeclaredPort b Inputs ?ri \<and> ?c \<notin> set (conns_out a ?ro)
      \<and> map_of (b_inputs b) ?ri = None \<and> up_ok ?plan")
    case False
    then show ?thesis using inv by (auto simp: connectUnitsDetailed_def ab Let_def)
  next
    case True
    then have step: "snd (connectUnitsDetailed ou ol iu il g) = ?g3"
      by (simp add: connectUnitsDetailed_def ab Let_def)
    have wfs: "block_wf a" "block_wf b" and id: "uuid a = ou" "uuid b = iu"
      using unit_at_mem [OF ab(1)] unit_at_mem [OF ab(2)] wf by (auto simp: blocks_wf_def)
    have idem: "resolveOutputLabel a ?ro = ?ro" "resolveInputLabel b ?ri = ?ri"
      using wfs by (auto simp: block_wf_def block_ok_def resolveLabel_def split: port_side.splits)
    let ?a = "addOutput ?ro ?c a"
    have A: "block_wf ?a" "static ?a = static a" "ins_of ?a = ins_of a" "outs_of ?a = insert ?c (outs_of a)"
      using addOutput_spec [of a ?c] wfs(1) idem(1) id(1) by simp_all
    note U1 = update_unit_effect [where f = "addOutput ?ro ?c", OF wf ab(1) A(1,2)]
    obtain b1 where b1: "unit_at ?g1 iu = Some b1" "block_wf b1" "uuid b1 = iu" "resolveInputLabel b1 = resolveInputLabel b"
      "b_inputs b1 = b_inputs b"
    proof (cases "iu = ou")
      case True
      have ba: "b = a" using True ab by simp
      have "unit_at ?g1 iu = Some ?a" unfolding U1(3) using True by simp
      moreover have "uuid ?a = iu" using static_uuid [OF A(2)] id ba by simp
      moreover have "resolveInputLabel ?a = resolveInputLabel b" "b_inputs ?a = b_inputs b"
        by (simp_all add: addOutput_def Let_def ba)
      ultimately show ?thesis using A(1) by (intro that [of ?a])
    next
      case False
      have "unit_at ?g1 iu = Some b" unfolding U1(3) using False ab(2) by simp
      then show ?thesis using wfs(2) id(2) by (intro that [of b]) simp_all
    qed
    from addInput_spec [of b1 ?c] b1 True idem(2) obtain b2 where
      b2: "addInput ?ri ?c b1 = Some b2" "block_wf b2" "static b2 = static b1" "ins_of b2 = insert ?c (ins_of b1)" "outs_of b2 = outs_of b1"
      by auto
    note U2 = update_unit_effect [where f = "\<lambda>b. the (addInput ?ri ?c b)", OF U1(1) b1(1), unfolded b2(1) option.sel, OF b2(2,3)]
    have outs: "outs ?g2 = insert ?c (outs g)"
      unfolding U2(4) b2(5) outs_at_unit [OF U1(1) b1(1)]
      unfolding U1(4) A(4) outs_at_unit [OF wf ab(1)] by auto
    have ins: "ins ?g2 = insert ?c (ins g)"
      unfolding U2(5) b2(4) ins_at_unit [OF U1(1) b1(1)]
      unfolding U1(5) A(3) ins_at_unit [OF wf ab(1)] by auto
    have st: "same_static g ?g2" using same_static_trans [OF U1(2) U2(2)] .
    have es: "plan_edges g (Some ?c) = Some (collectExistingEdges g @ [?c])"
      by (simp add: plan_edges_def resolveCandidate_def ab idem)
    have "\<not> hardConflict ?plan"
      using True by (auto simp: planUnify_def hard_plan_def finish_plan_def split: sum.splits option.splits)
    then have sat: "satisfiable g (collectExistingEdges g @ [?c])" using plan_hard [OF es] by simp
    note P = applied_script [OF U2(1), of "up_bindings ?plan"]
    have set: "set (collectExistingEdges ?g3) = set (collectExistingEdges g @ [?c])"
      using edges_outs [OF P(1)] edges_outs [OF wf] P(3) outs by simp
    have "satisfiable ?g3 (collectExistingEdges ?g3)"
      using satisfiable_mono [OF same_static_trans [OF st P(2)] sat] set by simp
    moreover have "typed_edge ?g3 e" if "e \<in> outs ?g3" for e
      using applied_typed [OF wf es sat st U2(1)] that P(3) outs edges_outs [OF wf] by simp
    ultimately show ?thesis unfolding step script_inv_def using P outs ins mirror by simp
  qed
qed

text \<open>Dropping all connections of one block, in either direction.\<close>

lemma drop_all:
  assumes wf: "blocks_wf g" and mirror: "outs g = ins g" and cs: "set cs \<subseteq> outs g"
    and step: "\<And>g c. c \<in> set cs \<Longrightarrow> blocks_wf g \<Longrightarrow> linked g c \<Longrightarrow> drops (f c) c g"
  shows "blocks_wf (fold f cs g)" and "same_static g (fold f cs g)"
    and "outs (fold f cs g) = outs g - set cs" and "ins (fold f cs g) = outs g - set cs"
proof -
  have "\<forall>c \<in> set cs. linked g c" using linked_inv [OF wf mirror] cs by blast
  note D = drop_fold [OF step wf this]
  have "(\<forall>c \<in> set cs. \<not> same_input c d) \<longleftrightarrow> d \<notin> set cs" if d: "d \<in> ins g" for d
  proof -
    have "same_input c d \<longleftrightarrow> c = d" if "c \<in> set cs" for c
      using same_input_eq [OF wf _ d, of c] that cs mirror by (auto simp: same_input_def)
    then show ?thesis by blast
  qed
  then show "ins (fold f cs g) = outs g - set cs" using D mirror by auto
  show "blocks_wf (fold f cs g)" "same_static g (fold f cs g)" "outs (fold f cs g) = outs g - set cs"
    using D by blast+
qed

lemma isolated_removal:
  fixes g :: script and h :: "string option"
  assumes wf: "blocks_wf g" and iso: "\<And>c. c \<in> outs g \<union> ins g \<Longrightarrow> outputUnit c \<noteq> u \<and> inputUnit c \<noteq> u"
  defines "g' \<equiv> g\<lparr>units := filter (\<lambda>b. uuid b \<noteq> u) (units g), head := h\<rparr>"
  shows "blocks_wf g'" and "outs g' = outs g" and "ins g' = ins g"
    and "\<And>w. w \<noteq> u \<Longrightarrow> unit_at g' w = unit_at g w"
proof -
  have u: "units g' = filter (\<lambda>b. uuid b \<noteq> u) (units g)" by (simp add: g'_def)
  show wf': "blocks_wf g'" using wf unfolding blocks_wf_def u by (auto simp: distinct_map_filter)
  have keep: "uuid b \<noteq> u" if "b \<in> set (units g)" "c \<in> outs_of b \<or> c \<in> ins_of b" for b c
  proof -
    have "block_wf b" using that(1) wf by (simp add: blocks_wf_def)
    moreover have "c \<in> outs g \<union> ins g" using that by (auto simp: outs_def ins_def)
    ultimately show ?thesis using that(2) iso [of c] outs_of_wf [of b c] ins_of_wf [of b c] by auto
  qed
  show "outs g' = outs g" unfolding outs_def u using keep by auto
  show "ins g' = ins g" unfolding ins_def u using keep by auto
  show "unit_at g' w = unit_at g w" if "w \<noteq> u" for w
  proof -
    have "unit_at g' w = Some b \<longleftrightarrow> unit_at g w = Some b" for b
      unfolding unit_at_iff [OF wf] unit_at_iff [OF wf'] u using that by auto
    then show ?thesis by (metis option.exhaust)
  qed
qed

lemma isolated_inv:
  fixes g :: script and h :: "string option"
  assumes wf: "blocks_wf g" and mirror: "outs g = ins g" and sat: "satisfiable g (collectExistingEdges g)"
    and iso: "\<And>c. c \<in> outs g \<Longrightarrow> outputUnit c \<noteq> u \<and> inputUnit c \<noteq> u"
  shows "script_inv (snd (recomputeBindings (g\<lparr>units := filter (\<lambda>b. uuid b \<noteq> u) (units g), head := h\<rparr>)))"
proof -
  obtain g' where g': "g' = g\<lparr>units := filter (\<lambda>b. uuid b \<noteq> u) (units g), head := h\<rparr>" by simp
  have iso2: "outputUnit c \<noteq> u \<and> inputUnit c \<noteq> u" if "c \<in> outs g \<union> ins g" for c
    using iso [of c] that mirror by simp
  have D: "blocks_wf g'" "outs g' = outs g" "ins g' = ins g" "\<And>w. w \<noteq> u \<Longrightarrow> unit_at g' w = unit_at g w"
    unfolding g' by (rule isolated_removal [OF wf], rule iso2, assumption)+
  have edges: "set (collectExistingEdges g') = outs g" "set (collectExistingEdges g) = outs g"
    using edges_outs [OF D(1)] edges_outs [OF wf] D(2) by simp_all
  have "edge_sat g' v e = edge_sat g v e" if "e \<in> outs g" for v e
  proof -
    have "describePort g' s w l = describePort g s w l" if "w \<noteq> u" for s w l
      using D(4) [OF that] by (simp add: describePort_def)
    then show ?thesis using iso [OF that] by (simp add: edge_sat_def declared_edge_def vsat_def tsat_def)
  qed
  then have "satisfiable g' (collectExistingEdges g')"
    using sat unfolding satisfiable_def edges by metis
  moreover have "outs g' = ins g'" using D(2,3) mirror by simp
  ultimately show ?thesis using recompute_inv [OF D(1)] g' by simp
qed

lemma remove_inv:
  assumes inv: "script_inv g"
  shows "script_inv (removeUnit u g)"
proof (cases "unit_at g u")
  case None
  then show ?thesis using inv by (simp add: removeUnit_def)
next
  case (Some b)
  have wf: "blocks_wf g" and mirror: "outs g = ins g" and sat: "satisfiable g (collectExistingEdges g)"
    using inv by (simp_all add: script_inv_def)
  have "block_wf b" using unit_at_mem [OF Some] wf by (auto simp: blocks_wf_def)
  then have "set (map snd (b_inputs b)) = ins_of b" by (force simp: ins_of_def block_wf_def)
  then have cs: "set (map snd (b_inputs b)) = {c \<in> outs g. inputUnit c = u}"
    using ins_at_unit [OF wf Some] mirror by simp
  have step: "drops (drop_incoming u c) c h" if "c \<in> set (map snd (b_inputs b))" "blocks_wf h" "linked h c" for h c
    using drop_incoming_effect [OF that(2,3)] that(1) unfolding cs by simp
  have sub: "set (map snd (b_inputs b)) \<subseteq> outs g" unfolding cs by blast
  obtain g1 where g1: "g1 = fold (drop_incoming u) (map snd (b_inputs b)) g" by simp
  note D1 = drop_all [OF wf mirror sub step, folded g1]
  have o1: "outs g1 = {c \<in> outs g. inputUnit c \<noteq> u}" and mirror1: "outs g1 = ins g1"
    using D1(3,4) unfolding cs by auto
  obtain b1 where b1: "unit_at g1 u = Some b1"
    using D1(2) Some unfolding same_static_def by (metis map_option_eq_Some)
  then have "block_wf b1" using unit_at_mem [OF b1] D1(1) by (auto simp: blocks_wf_def)
  then have cs2: "set (outs_at g1 u) = {c \<in> outs g1. outputUnit c = u}"
    using outs_at_unit [OF D1(1) b1] b1 outs_of_list [of b1] by (simp add: outs_at_def block_wf_def)
  have step2: "drops (drop_outgoing u c) c h" if "c \<in> set (outs_at g1 u)" "blocks_wf h" "linked h c" for h c
    using drop_outgoing_effect [OF that(2,3)] that(1) unfolding cs2 by simp
  have sub2: "set (outs_at g1 u) \<subseteq> outs g1" unfolding cs2 by blast
  obtain g2 where g2: "g2 = fold (drop_outgoing u) (outs_at g1 u) g1" by simp
  note D2 = drop_all [OF D1(1) mirror1 sub2 step2, folded g2]
  have o2: "outs g2 = {c \<in> outs g. inputUnit c \<noteq> u \<and> outputUnit c \<noteq> u}" and mirror2: "outs g2 = ins g2"
    using D2(3,4) o1 unfolding cs2 by auto
  have wf2: "blocks_wf g2" by (rule D2(1))
  have st2: "same_static g1 g2" by (rule D2(2))
  have st: "same_static g g2" by (rule same_static_trans [OF D1(2) st2])
  have "set (collectExistingEdges g2) \<subseteq> set (collectExistingEdges g)"
    unfolding edges_outs [OF wf] edges_outs [OF wf2] o2 by blast
  then have "satisfiable g2 (collectExistingEdges g2)" by (rule satisfiable_mono [OF st sat])
  then have "script_inv (snd (recomputeBindings (g2\<lparr>units := filter (\<lambda>b. uuid b \<noteq> u) (units g2), head := h\<rparr>)))" for h
    using isolated_inv [OF wf2 mirror2] o2 by simp
  then show ?thesis by (simp add: removeUnit_def Some Let_def g1 [symmetric] g2 [symmetric])
qed

lemma edited_inv: "edited g \<Longrightarrow> script_inv g"
  by (induction rule: edited.induct)
    (auto intro: start_inv add_inv connect_inv disconnect_inv remove_inv head_inv)

text \<open>
  C5. Scripts stay well typed. However a script is edited, every connection is kept at both of its
  ends, feeds an input that has no other connection, joins declared ports of blocks of the script,
  and what its two ports resolve to under the inferred bindings is compatible.
\<close>

theorem edited_scripts_well_typed:
  assumes "edited g"
  shows "outs g = ins g \<and> (\<forall>e \<in> outs g. typed_edge g e)
    \<and> (\<forall>c \<in> outs g. \<forall>d \<in> outs g. inputUnit c = inputUnit d \<and> inputLabel c = inputLabel d \<longrightarrow> c = d)"
proof -
  have inv: "script_inv g" using assms by (rule edited_inv)
  then have "c = d" if "c \<in> outs g" "d \<in> outs g" "same_input c d" for c d
    using same_input_eq that by (auto simp: script_inv_def)
  then show ?thesis using inv by (auto simp: script_inv_def same_input_def)
qed

definition demo_script :: script where
  "demo_script = snd (connectUnitsDetailed ''a'' ''value'' ''b'' ''x'' (addUnit demo_sink (addUnit demo_source empty_script)))"

lemma demo_fresh:
  "fresh_block empty_script demo_source" "fresh_block empty_script demo_sink"
  "fresh_block (addUnit demo_source empty_script) demo_sink"
  using demo_ok by (simp_all add: fresh_block_def unit_at_def empty_script_def addUnit_def)
    (simp_all add: demo_source_def demo_sink_def)

lemma demo_edited: "edited demo_script"
  unfolding demo_script_def by (intro edited.intros demo_fresh)

theorem edited_scripts_well_typed_witness:
  "edited demo_script \<and> demo_edge \<in> outs demo_script \<and> demo_edge \<in> ins demo_script \<and> typed_edge demo_script demo_edge"
proof -
  have wf: "blocks_wf demo_script" using edited_inv [OF demo_edited] by (simp add: script_inv_def)
  have "collectExistingEdges demo_script = [demo_edge]" by code_simp
  then have "demo_edge \<in> outs demo_script" using edges_outs [OF wf] by auto
  then show ?thesis using edited_scripts_well_typed [OF demo_edited] demo_edited by simp
qed

end
