(* ===== verification/LoopFrames.thy ===== *)
theory LoopFrames
  imports ScriptEdits
begin

text \<open>
  \<open>app/scripting/runtime/LoopFrames.js\<close>: the blocks a Repeat runs. The edges of a script are read from
  the inputs of its blocks; the region of a loop is everything upstream of its \<open>body\<close> input, found
  by a worklist. A worklist that does not end is the value \<open>None\<close>; it is shown to end, with exactly
  the blocks that can be reached.
\<close>

record graph_edge =
  e_from :: string
  e_output :: string
  e_to :: string
  e_input :: string
  e_type :: "string option"

definition REPEAT_BODY_INPUT :: string where
  "REPEAT_BODY_INPUT = ''body''"

definition outputType :: "script \<Rightarrow> string \<Rightarrow> string \<Rightarrow> string option" where
  "outputType g u l = (case unit_at g u of None \<Rightarrow> None | Some b \<Rightarrow> resolvedPortType b Outputs l)"

definition inputType :: "script \<Rightarrow> string \<Rightarrow> string \<Rightarrow> string option" where
  "inputType g u l = (case unit_at g u of None \<Rightarrow> None | Some b \<Rightarrow> resolvedPortType b Inputs l)"

definition block_edges :: "script \<Rightarrow> block \<Rightarrow> graph_edge list" where
  "block_edges g b = map (\<lambda>(input, c). \<lparr>e_from = outputUnit c, e_output = outputLabel c, e_to = uuid b,
     e_input = input, e_type = outputType g (outputUnit c) (outputLabel c)\<rparr>) (b_inputs b)"

definition graphEdges :: "script \<Rightarrow> graph_edge list" where
  "graphEdges g = concat (map (block_edges g) (units g))"

record edge_index =
  incoming :: "(string, graph_edge list) js_map"
  outgoing :: "(string, graph_edge list) js_map"

definition bucket :: "(string, graph_edge list) js_map \<Rightarrow> string \<Rightarrow> graph_edge list" where
  "bucket m u = (case map_of m u of None \<Rightarrow> [] | Some es \<Rightarrow> es)"

definition index_edge :: "graph_edge \<Rightarrow> edge_index \<Rightarrow> edge_index" where
  "index_edge e ix =
    \<lparr>incoming = AList.update (e_to e) (bucket (incoming ix) (e_to e) @ [e]) (incoming ix),
     outgoing = AList.update (e_from e) (bucket (outgoing ix) (e_from e) @ [e]) (outgoing ix)\<rparr>"

definition indexEdges :: "graph_edge list \<Rightarrow> edge_index" where
  "indexEdges es = fold index_edge es \<lparr>incoming = [], outgoing = []\<rparr>"

text \<open>The stack's top is the head of the list; neighbours are pushed in order.\<close>

partial_function (option) walk_loop :: "(string \<Rightarrow> string list) \<Rightarrow> string list \<Rightarrow> string list \<Rightarrow> string list option" where
  "walk_loop nxt stack seen =
    (case stack of
       [] \<Rightarrow> Some seen
     | u # rest \<Rightarrow>
         if u \<in> set seen then walk_loop nxt rest seen
         else walk_loop nxt (rev (filter (\<lambda>v. v \<notin> set (seen @ [u])) (nxt u)) @ rest) (seen @ [u]))"

declare walk_loop.simps [code]

definition walk :: "string list \<Rightarrow> (string \<Rightarrow> string list) \<Rightarrow> string list option" where
  "walk starts nxt = walk_loop nxt (rev starts) []"

definition body_edge :: "edge_index \<Rightarrow> string \<Rightarrow> graph_edge option" where
  "body_edge ix r =
    (case List.find (\<lambda>e. e_input e = REPEAT_BODY_INPUT) (bucket (incoming ix) r) of
       None \<Rightarrow> None
     | Some e \<Rightarrow> if e_from e = r then None else Some e)"

definition bodyRegion :: "edge_index \<Rightarrow> string \<Rightarrow> (graph_edge option \<times> string list) option" where
  "bodyRegion ix r =
    (case body_edge ix r of
       None \<Rightarrow> Some (None, [])
     | Some e \<Rightarrow>
         map_option (Pair (Some e)) (walk [e_from e] (\<lambda>u. map e_from
           (filter (\<lambda>d. e_type d \<noteq> Some REPEAT_REF_TYPE \<and> e_from d \<noteq> r) (bucket (incoming ix) u)))))"

definition loopBodyRegion :: "graph_edge list \<Rightarrow> string \<Rightarrow> string list option" where
  "loopBodyRegion es r = map_option snd (bodyRegion (indexEdges es) r)"

definition loopPassUnits :: "graph_edge list \<Rightarrow> string \<Rightarrow> string list option" where
  "loopPassUnits es r =
    (let ix = indexEdges es in
     case bodyRegion ix r of
       None \<Rightarrow> None
     | Some (None, _) \<Rightarrow> Some []
     | Some (Some be, region) \<Rightarrow>
         (let indexBlocks = map e_to (filter (\<lambda>e. e_type e = Some REPEAT_REF_TYPE \<and> e_to e \<in> set region) (bucket (outgoing ix) r))
          in case walk indexBlocks (\<lambda>u. map e_to
                (filter (\<lambda>e. e_type e \<noteq> Some REPEAT_REF_TYPE \<and> e_to e \<in> set region) (bucket (outgoing ix) u))) of
               None \<Rightarrow> None
             | Some dependents \<Rightarrow>
                 map_option (\<lambda>chain. uniq (dependents @ chain)) (walk [e_from be] (\<lambda>u. map e_from
                   (filter (\<lambda>e. e_type e = Some UNIT_TYPE \<and> e_from e \<in> set region) (bucket (incoming ix) u))))))"

section \<open>The worklist\<close>

definition steps :: "(string \<Rightarrow> string list) \<Rightarrow> string rel" where
  "steps nxt = {(u, v). v \<in> set (nxt u)}"

text \<open>
  Started from blocks of a finite set that the neighbours do not leave, the worklist ends, and what
  it has seen is what can be reached.
\<close>

lemma closed_reach:
  assumes "\<And>x y. x \<in> S \<Longrightarrow> (x, y) \<in> R \<Longrightarrow> y \<in> S" and "A \<subseteq> S"
  shows "R\<^sup>* `` A \<subseteq> S"
proof
  fix y assume "y \<in> R\<^sup>* `` A"
  then obtain x where "x \<in> A" "(x, y) \<in> R\<^sup>*" by auto
  from this(2,1) show "y \<in> S" using assms by (induction) auto
qed

lemma walk_loop_spec:
  assumes fin: "finite U" and clo: "\<And>u. u \<in> U \<Longrightarrow> set (nxt u) \<subseteq> U"
    and "set stack \<subseteq> U" and "set seen \<subseteq> U"
    and "\<And>u v. u \<in> set seen \<Longrightarrow> v \<in> set (nxt u) \<Longrightarrow> v \<in> set seen \<union> set stack"
  shows "\<exists>out. walk_loop nxt stack seen = Some out \<and> set out = set seen \<union> (steps nxt)\<^sup>* `` set stack"
  using assms(3-5)
proof (induction "(stack, seen)" arbitrary: stack seen
    rule: wf_induct_rule [OF wf_measures [of "[\<lambda>(stack, seen). card (U - set seen), \<lambda>(stack, seen). length stack]"]])
  case 1
  note IH = "1.hyps" and sub = "1.prems"
  show ?case
  proof (cases stack)
    case Nil
    then show ?thesis by (simp add: walk_loop.simps [of nxt "[]"])
  next
    case (Cons u rest)
    show ?thesis
    proof (cases "u \<in> set seen")
      case True
      have "\<exists>out. walk_loop nxt rest seen = Some out \<and> set out = set seen \<union> (steps nxt)\<^sup>* `` set rest"
        by (rule IH) (use sub Cons True in auto)
      moreover have "(steps nxt)\<^sup>* `` set stack \<subseteq> set seen \<union> (steps nxt)\<^sup>* `` set rest"
        by (rule closed_reach) (use sub(3) Cons True in \<open>auto simp: steps_def intro: rtrancl_into_rtrancl\<close>)
      moreover have "(steps nxt)\<^sup>* `` set rest \<subseteq> (steps nxt)\<^sup>* `` set stack" using Cons by (intro Image_mono) auto
      ultimately have "\<exists>out. walk_loop nxt rest seen = Some out \<and> set out = set seen \<union> (steps nxt)\<^sup>* `` set stack"
        by blast
      then show ?thesis using Cons True by (simp add: walk_loop.simps [of nxt "u # rest"])
    next
      case False
      let ?new = "rev (filter (\<lambda>v. v \<notin> set (seen @ [u])) (nxt u))"
      have u: "u \<in> U" "set rest \<subseteq> U" using sub Cons by auto
      have "card (U - set (seen @ [u])) < card (U - set seen)"
        by (rule psubset_card_mono) (use fin u False in auto)
      then have "\<exists>out. walk_loop nxt (?new @ rest) (seen @ [u]) = Some out
          \<and> set out = set (seen @ [u]) \<union> (steps nxt)\<^sup>* `` set (?new @ rest)"
        by (intro IH) (use sub Cons clo [OF u(1)] u in auto)
      then obtain out where out: "walk_loop nxt (?new @ rest) (seen @ [u]) = Some out"
        "set out = set (seen @ [u]) \<union> (steps nxt)\<^sup>* `` set (?new @ rest)" by blast
      have "(steps nxt)\<^sup>* `` set stack \<subseteq> set out"
        unfolding out(2)
        by (rule closed_reach) (use sub(3) Cons in \<open>auto simp: steps_def intro: rtrancl_into_rtrancl\<close>)
      moreover have "(steps nxt)\<^sup>* `` set ?new \<subseteq> (steps nxt)\<^sup>* `` {u}"
        by (auto simp: steps_def intro: converse_rtrancl_into_rtrancl)
      ultimately have "set out = set seen \<union> (steps nxt)\<^sup>* `` set stack"
        using Cons unfolding out(2) by auto
      then show ?thesis using out(1) Cons False by (simp add: walk_loop.simps [of nxt "u # rest"])
    qed
  qed
qed

lemma walk_spec:
  assumes "finite U" and "\<And>u. u \<in> U \<Longrightarrow> set (nxt u) \<subseteq> U" and "set starts \<subseteq> U"
  shows "\<exists>out. walk starts nxt = Some out \<and> set out = (steps nxt)\<^sup>* `` set starts"
  using walk_loop_spec [where stack = "rev starts" and seen = "[]", OF assms(1,2)] assms(3) by (simp add: walk_def)

section \<open>The index\<close>

lemma bucket_update: "bucket (AList.update k es m) u = (if u = k then es else bucket m u)"
  by (simp add: bucket_def js_map_simps)

lemma index_fold:
  "bucket (incoming (fold index_edge es ix)) u = bucket (incoming ix) u @ filter (\<lambda>e. e_to e = u) es"
  "bucket (outgoing (fold index_edge es ix)) u = bucket (outgoing ix) u @ filter (\<lambda>e. e_from e = u) es"
  by (induction es arbitrary: ix) (auto simp: index_edge_def bucket_update)

lemma index_buckets:
  "bucket (incoming (indexEdges es)) u = filter (\<lambda>e. e_to e = u) es"
  "bucket (outgoing (indexEdges es)) u = filter (\<lambda>e. e_from e = u) es"
  by (simp_all add: indexEdges_def index_fold) (simp_all add: bucket_def)

lemma find_filter: "List.find P (filter Q xs) = List.find (\<lambda>x. Q x \<and> P x) xs"
  by (induction xs) auto

section \<open>Loop regions\<close>

text \<open>The edge that feeds the body of a Repeat, if it comes from another block.\<close>

definition body_feed :: "graph_edge list \<Rightarrow> string \<Rightarrow> graph_edge option" where
  "body_feed es r =
    (case List.find (\<lambda>e. e_to e = r \<and> e_input e = REPEAT_BODY_INPUT) es of
       None \<Rightarrow> None
     | Some e \<Rightarrow> if e_from e = r then None else Some e)"

definition pulls_data :: "graph_edge list \<Rightarrow> string \<Rightarrow> string rel" where
  "pulls_data es r = {(e_to e, e_from e) |e. e \<in> set es \<and> e_type e \<noteq> Some REPEAT_REF_TYPE \<and> e_from e \<noteq> r}"

definition feeds_in :: "string set \<Rightarrow> graph_edge list \<Rightarrow> string rel" where
  "feeds_in R es = {(e_from e, e_to e) |e. e \<in> set es \<and> e_type e \<noteq> Some REPEAT_REF_TYPE \<and> e_to e \<in> R}"

definition sequenced_in :: "string set \<Rightarrow> graph_edge list \<Rightarrow> string rel" where
  "sequenced_in R es = {(e_to e, e_from e) |e. e \<in> set es \<and> e_type e = Some UNIT_TYPE \<and> e_from e \<in> R}"

definition body_region :: "graph_edge list \<Rightarrow> string \<Rightarrow> string set" where
  "body_region es r = (case body_feed es r of None \<Rightarrow> {} | Some be \<Rightarrow> (pulls_data es r)\<^sup>* `` {e_from be})"

definition index_blocks :: "graph_edge list \<Rightarrow> string \<Rightarrow> string set" where
  "index_blocks es r = {e_to e |e. e \<in> set es \<and> e_from e = r \<and> e_type e = Some REPEAT_REF_TYPE \<and> e_to e \<in> body_region es r}"

definition pass_region :: "graph_edge list \<Rightarrow> string \<Rightarrow> string set" where
  "pass_region es r =
    (case body_feed es r of
       None \<Rightarrow> {}
     | Some be \<Rightarrow> (feeds_in (body_region es r) es)\<^sup>* `` index_blocks es r
         \<union> (sequenced_in (body_region es r) es)\<^sup>* `` {e_from be})"

lemma body_edge_feed: "body_edge (indexEdges es) r = body_feed es r"
  by (simp add: body_edge_def body_feed_def index_buckets find_filter)

lemma body_feed_mem: "body_feed es r = Some e \<Longrightarrow> e \<in> set es"
  by (auto simp: body_feed_def find_Some_iff split: option.splits if_splits)

lemma bodyRegion_spec:
  "\<exists>region. bodyRegion (indexEdges es) r = Some (body_feed es r, region) \<and> set region = body_region es r"
proof (cases "body_feed es r")
  case None
  then show ?thesis by (simp add: bodyRegion_def body_edge_feed body_region_def)
next
  case (Some be)
  let ?nxt = "\<lambda>u. map e_from (filter (\<lambda>d. e_type d \<noteq> Some REPEAT_REF_TYPE \<and> e_from d \<noteq> r) (bucket (incoming (indexEdges es)) u))"
  have "\<exists>out. walk [e_from be] ?nxt = Some out \<and> set out = (steps ?nxt)\<^sup>* `` set [e_from be]"
    by (rule walk_spec [of "e_from ` set es"]) (use body_feed_mem [OF Some] in \<open>auto simp: index_buckets\<close>)
  moreover have "steps ?nxt = pulls_data es r" by (auto simp: steps_def pulls_data_def index_buckets)
  ultimately show ?thesis using Some by (auto simp: bodyRegion_def body_edge_feed body_region_def)
qed

lemma loop_regions_body: "\<exists>region. loopBodyRegion es r = Some region \<and> set region = body_region es r"
  using bodyRegion_spec [of es r] by (auto simp: loopBodyRegion_def)

text \<open>
  C34. The regions of a loop are computed: the worklists end on every list of edges, the body region
  is exactly what the body input pulls without crossing a loop reference, and the blocks run in
  every pass are those of the region that follow an Index block or the chain that ends at the body.
\<close>

theorem loop_regions_computed:
  "\<exists>region passes. loopBodyRegion es r = Some region \<and> set region = body_region es r
    \<and> loopPassUnits es r = Some passes \<and> set passes = pass_region es r \<and> set passes \<subseteq> set region"
proof -
  obtain region where region: "bodyRegion (indexEdges es) r = Some (body_feed es r, region)" "set region = body_region es r"
    using bodyRegion_spec by blast
  show ?thesis
  proof (cases "body_feed es r")
    case None
    then show ?thesis using region by (simp add: loopBodyRegion_def loopPassUnits_def Let_def pass_region_def body_region_def)
  next
    case (Some be)
    let ?in = "\<lambda>u. map e_from (filter (\<lambda>e. e_type e = Some UNIT_TYPE \<and> e_from e \<in> set region) (bucket (incoming (indexEdges es)) u))"
    let ?out = "\<lambda>u. map e_to (filter (\<lambda>e. e_type e \<noteq> Some REPEAT_REF_TYPE \<and> e_to e \<in> set region) (bucket (outgoing (indexEdges es)) u))"
    let ?start = "map e_to (filter (\<lambda>e. e_type e = Some REPEAT_REF_TYPE \<and> e_to e \<in> set region) (bucket (outgoing (indexEdges es)) r))"
    have start: "set ?start = index_blocks es r" by (auto simp: index_blocks_def index_buckets region(2))
    have src: "e_from be \<in> set region" using Some by (auto simp: region(2) body_region_def)
    have "\<exists>dep. walk ?start ?out = Some dep \<and> set dep = (steps ?out)\<^sup>* `` set ?start"
      by (rule walk_spec [of "set region"]) auto
    moreover have "\<exists>chain. walk [e_from be] ?in = Some chain \<and> set chain = (steps ?in)\<^sup>* `` set [e_from be]"
      by (rule walk_spec [of "set region"]) (use src in auto)
    ultimately obtain dep chain where walks: "walk ?start ?out = Some dep" "walk [e_from be] ?in = Some chain"
      and sets: "set dep = (steps ?out)\<^sup>* `` set ?start" "set chain = (steps ?in)\<^sup>* `` {e_from be}" by auto
    have "steps ?out = feeds_in (body_region es r) es" "steps ?in = sequenced_in (body_region es r) es"
      by (auto simp: steps_def feeds_in_def sequenced_in_def index_buckets region(2))
    then have "set (uniq (dep @ chain)) = pass_region es r"
      using Some sets start by (simp add: uniq_facts pass_region_def)
    moreover have "set dep \<subseteq> set region" "set chain \<subseteq> set region"
      unfolding sets by (rule closed_reach; use src in \<open>auto simp: steps_def\<close>)+
    moreover have "loopPassUnits es r = Some (uniq (dep @ chain))"
      using region Some walks by (simp add: loopPassUnits_def Let_def)
    moreover have "set (uniq (dep @ chain)) \<subseteq> set region"
      unfolding uniq_facts(2) set_append using \<open>set dep \<subseteq> set region\<close> \<open>set chain \<subseteq> set region\<close> by blast
    ultimately show ?thesis using region by (auto simp: loopBodyRegion_def)
  qed
qed

end
