(* ===== verification/ScriptCompiler.thy ===== *)
theory ScriptCompiler
  imports LoopFrames JsSort
begin

text \<open>
  \<open>app/scripting/runtime/Compiler.js\<close>: a script is compiled into the nodes its outputs pull and the
  transitions between them. What the class of a block decides (whether its type is registered,
  whether the block is valid, which ports it gives the program) is the parameter
  \<open>classes\<close>; states, stored data, plugin requirements, bindings and entry points are left out.
  The search for reachable blocks is given fuel, one more than there are blocks, which is shown to
  be enough.
\<close>

datatype compile_error = NoOutputNode | MissingUnit string | CycleDetected "string list" | CompileStuck
  | UnknownType string | InvalidBlock string | UnboundGeneric string string | RejectedType string string string
  | GenericPorts string | LoopNeverRuns string string | LoopOutsideBody string string
  | NoOutputPort string string | NoInputPort string string
  | CompileMismatch string string string string string string | DuplicateInput string string
  | DuplicateLabel string string

record program_port =
  pp_role :: string
  pp_label :: string
  pp_type :: string
  pp_portId :: string
  pp_sceneType :: string
  pp_sceneTypes :: "string list"

record classes =
  registered :: "string \<Rightarrow> bool"
  valid :: "script \<Rightarrow> block \<Rightarrow> bool"
  programPorts :: "block \<Rightarrow> program_port list"

section \<open>Looking up blocks\<close>

definition unitById :: "script \<Rightarrow> (string, block) js_map" where
  "unitById g = fold (\<lambda>b. AList.update (uuid b) b) (units g) []"

definition positions :: "string list \<Rightarrow> (string, nat) js_map" where
  "positions us = fold (\<lambda>(i, u). AList.update u i) (enumerate 0 us) []"

definition unitOrder :: "script \<Rightarrow> (string, nat) js_map" where
  "unitOrder g = positions (map uuid (units g))"

definition order_of :: "(string, nat) js_map \<Rightarrow> string \<Rightarrow> int" where
  "order_of m u = (case map_of m u of None \<Rightarrow> 2 ^ 53 - 1 | Some i \<Rightarrow> int i)"

definition byUnitOrder :: "(string, nat) js_map \<Rightarrow> string \<Rightarrow> string \<Rightarrow> int" where
  "byUnitOrder m a b = order_of m a - order_of m b"

definition set_add :: "string \<Rightarrow> string list \<Rightarrow> string list" where
  "set_add x xs = (if x \<in> set xs then xs else xs @ [x])"

section \<open>Reachable blocks\<close>

record visit_state =
  reachable :: "string list"
  visiting :: "string list"
  visited :: "string list"

fun visit :: "nat \<Rightarrow> script \<Rightarrow> string \<Rightarrow> string list \<Rightarrow> visit_state \<Rightarrow> (compile_error, visit_state) result" where
  "visit 0 g u path st = Inl CompileStuck"
| "visit (Suc n) g u path st =
    (case map_of (unitById g) u of
       None \<Rightarrow> Inl (MissingUnit u)
     | Some b \<Rightarrow>
         if u \<in> set (visiting st) then Inl (CycleDetected (path @ [u]))
         else if u \<in> set (visited st) then Inr st
         else res_bind
           (res_fold (\<lambda>st c.
              if outputType g (outputUnit c) (outputLabel c) = Some REPEAT_REF_TYPE then Inr st
              else visit n g (outputUnit c) (path @ [u]) st)
            (st\<lparr>visiting := set_add u (visiting st), reachable := set_add u (reachable st)\<rparr>) (map snd (b_inputs b)))
           (\<lambda>st. Inr (st\<lparr>visiting := removeAll u (visiting st), visited := set_add u (visited st)\<rparr>)))"

definition collectReachableUnits :: "script \<Rightarrow> string list \<Rightarrow> (compile_error, string list) result" where
  "collectReachableUnits g finals =
    res_bind (res_fold (\<lambda>st u. visit (Suc (length (units g))) g u [] st)
        \<lparr>reachable = [], visiting = [], visited = []\<rparr> finals)
      (\<lambda>st. Inr (reachable st))"

section \<open>Validation\<close>

definition validateReachableUnit :: "classes \<Rightarrow> script \<Rightarrow> block \<Rightarrow> (compile_error, unit) result" where
  "validateReachableUnit cl g b =
    (if \<not> registered cl (blockType b) then Inl (UnknownType (blockType b))
     else if \<not> valid cl g b then Inl (InvalidBlock (uuid b))
     else case findUnboundGeneric b of
         Some v \<Rightarrow> Inl (UnboundGeneric (uuid b) v)
       | None \<Rightarrow>
           (case findRejectedBinding b of
              Some (v, t) \<Rightarrow> Inl (RejectedType (uuid b) v t)
            | None \<Rightarrow> Inr ()))"

text \<open>The regions already computed are kept in a map; the region of a loop is computed once.\<close>

definition loop_reference ::
  "graph_edge list \<Rightarrow> string list \<Rightarrow> (string, string list) js_map \<Rightarrow> graph_edge \<Rightarrow> (compile_error, (string, string list) js_map) result" where
  "loop_reference es rs regions e =
    (if e_type e \<noteq> Some REPEAT_REF_TYPE \<or> e_to e \<notin> set rs then Inr regions
     else if e_from e \<notin> set rs then Inl (LoopNeverRuns (e_to e) (e_from e))
     else case (if map_has regions (e_from e) then Some regions
                else map_option (\<lambda>r. AList.update (e_from e) r regions) (loopBodyRegion es (e_from e))) of
         None \<Rightarrow> Inl CompileStuck
       | Some regions' \<Rightarrow>
           if e_to e \<in> set (the (map_of regions' (e_from e))) then Inr regions'
           else Inl (LoopOutsideBody (e_to e) (e_from e)))"

definition validateLoopReferences :: "script \<Rightarrow> string list \<Rightarrow> (compile_error, (string, string list) js_map) result" where
  "validateLoopReferences g rs = res_fold (loop_reference (graphEdges g) rs) [] (graphEdges g)"

section \<open>Nodes and transitions\<close>

record node_def =
  n_uuid :: string
  n_type :: string
  n_inputs :: "(string, string) js_map"
  n_outputs :: "(string, string) js_map"

definition createNodeDefinition :: "block \<Rightarrow> (compile_error, node_def) result" where
  "createNodeDefinition b =
    (let ins = collectResolvedPortMap b Inputs; outs = collectResolvedPortMap b Outputs in
     if \<exists>t \<in> set (map snd ins @ map snd outs). t = GENERIC_TYPE \<or> isGeneric t
     then case findUnboundGeneric b of
         Some v \<Rightarrow> Inl (UnboundGeneric (uuid b) v)
       | None \<Rightarrow> Inl (GenericPorts (uuid b))
     else Inr \<lparr>n_uuid = uuid b, n_type = blockType b, n_inputs = ins, n_outputs = outs\<rparr>)"

record transition =
  t_from :: string
  t_fromIndex :: "nat option"
  t_output :: string
  t_to :: string
  t_toIndex :: "nat option"
  t_input :: string
  t_type :: string

definition transitionKey :: "transition \<Rightarrow> string" where
  "transitionKey t = t_from t @ ''|'' @ t_output t @ ''|'' @ t_to t @ ''|'' @ t_input t"

definition createTransition :: "script \<Rightarrow> (string, nat) js_map \<Rightarrow> connection \<Rightarrow> (compile_error, transition) result" where
  "createTransition g index c =
    (let ot = outputType g (outputUnit c) (outputLabel c); it = inputType g (inputUnit c) (inputLabel c) in
     if ot = None \<or> ot = Some [] then Inl (NoOutputPort (outputLabel c) (outputUnit c))
     else if it = None \<or> it = Some [] then Inl (NoInputPort (inputLabel c) (inputUnit c))
     else if isGeneric (the ot) \<or> isGeneric (the it) \<or> the ot \<noteq> the it
     then Inl (CompileMismatch (outputUnit c) (outputLabel c) (the ot) (inputUnit c) (inputLabel c) (the it))
     else Inr \<lparr>t_from = outputUnit c, t_fromIndex = map_of index (outputUnit c), t_output = outputLabel c,
       t_to = inputUnit c, t_toIndex = map_of index (inputUnit c), t_input = inputLabel c, t_type = the ot\<rparr>)"

definition add_transition ::
  "script \<Rightarrow> string list \<Rightarrow> (string, nat) js_map \<Rightarrow> string list \<times> transition list \<Rightarrow> connection
    \<Rightarrow> (compile_error, string list \<times> transition list) result" where
  "add_transition g rs index = (\<lambda>(seen, ts) c.
    if inputUnit c \<notin> set rs then Inr (seen, ts)
    else res_bind (createTransition g index c) (\<lambda>t.
      Inr (if transitionKey t \<in> set seen then (seen, ts) else (seen @ [transitionKey t], ts @ [t]))))"

definition collectSuccessTransitions ::
  "script \<Rightarrow> string list \<Rightarrow> (string, nat) js_map \<Rightarrow> (compile_error, transition list) result" where
  "collectSuccessTransitions g rs index =
    res_bind (res_fold (\<lambda>st b. if uuid b \<in> set rs
        then res_fold (add_transition g rs index) st (concat (map snd (b_outputs b))) else Inr st)
      ([], []) (units g)) (\<lambda>(seen, ts). Inr ts)"

record rev_edge =
  r_from :: string
  r_output :: string
  r_type :: string

type_synonym rev_map = "(string, (string, rev_edge) js_map) js_map"

definition rev_at :: "rev_map \<Rightarrow> string \<Rightarrow> (string, rev_edge) js_map" where
  "rev_at m u = (case map_of m u of None \<Rightarrow> [] | Some x \<Rightarrow> x)"

definition reverse_step :: "rev_map \<Rightarrow> transition \<Rightarrow> (compile_error, rev_map) result" where
  "reverse_step m t =
    (if map_has (rev_at m (t_to t)) (t_input t) then Inl (DuplicateInput (t_to t) (t_input t))
     else Inr (AList.update (t_to t)
       (AList.update (t_input t) \<lparr>r_from = t_from t, r_output = t_output t, r_type = t_type t\<rparr> (rev_at m (t_to t))) m))"

definition createReverseSuccess :: "transition list \<Rightarrow> (compile_error, rev_map) result" where
  "createReverseSuccess ts = res_fold reverse_step [] ts"

section \<open>The interface of the program\<close>

record port_def =
  pd_uuid :: string
  pd_label :: string
  pd_type :: string
  pd_portId :: "string option"
  pd_sceneType :: "string option"
  pd_sceneTypes :: "string list"

record interface_state =
  in_labels :: "string list"
  out_labels :: "string list"
  in_ports :: "port_def list"
  out_ports :: "port_def list"

definition ensureUniqueProgramLabel :: "interface_state \<Rightarrow> program_port \<Rightarrow> (compile_error, interface_state) result" where
  "ensureUniqueProgramLabel st p =
    (let label = pp_label p in
     if pp_role p = [] \<or> label = [] then Inr st
     else if pp_role p = ''input''
     then if label \<in> set (in_labels st) then Inl (DuplicateLabel (pp_role p) label)
          else Inr (st\<lparr>in_labels := in_labels st @ [label]\<rparr>)
     else if pp_role p = ''output''
     then if label \<in> set (out_labels st) then Inl (DuplicateLabel (pp_role p) label)
          else Inr (st\<lparr>out_labels := out_labels st @ [label]\<rparr>)
     else Inr st)"

definition non_empty :: "string \<Rightarrow> string option" where
  "non_empty s = (if s = [] then None else Some s)"

definition interface_port :: "block \<Rightarrow> interface_state \<Rightarrow> program_port \<Rightarrow> (compile_error, interface_state) result" where
  "interface_port b st p =
    res_bind (ensureUniqueProgramLabel st p) (\<lambda>st.
      (let d = \<lparr>pd_uuid = uuid b, pd_label = pp_label p, pd_type = pp_type p, pd_portId = non_empty (pp_portId p),
             pd_sceneType = non_empty (pp_sceneType p), pd_sceneTypes = pp_sceneTypes p\<rparr>
       in Inr (if pp_role p = ''input'' then st\<lparr>in_ports := in_ports st @ [d]\<rparr>
               else if pp_role p = ''output'' then st\<lparr>out_ports := out_ports st @ [d]\<rparr> else st)))"

definition collectInterface :: "classes \<Rightarrow> script \<Rightarrow> string list \<Rightarrow> (compile_error, port_def list \<times> port_def list) result" where
  "collectInterface cl g rs =
    res_bind (res_fold (\<lambda>st b. if uuid b \<in> set rs then res_fold (interface_port b) st (programPorts cl b) else Inr st)
        \<lparr>in_labels = [], out_labels = [], in_ports = [], out_ports = []\<rparr> (units g))
      (\<lambda>st. Inr (in_ports st, out_ports st))"

section \<open>Compiling\<close>

record program =
  p_head :: "string option"
  finalStates :: "string list"
  startStates :: "string list"
  p_Q :: "string list"
  nodeIndex :: "(string, nat) js_map"
  nodes :: "node_def list"
  success :: "transition list"
  reverseSuccess :: rev_map
  p_inputs :: "port_def list"
  p_outputs :: "port_def list"

definition final_states :: "script \<Rightarrow> string list" where
  "final_states g =
    (let outs = filter outputRole (units g) in
     if outs \<noteq> [] then sort_by (byUnitOrder (unitOrder g)) (map uuid outs)
     else case head g of None \<Rightarrow> [] | Some h \<Rightarrow> if h = [] then [] else [h])"

text \<open>What \<open>compileVisualScript\<close> makes of the reachable blocks once they are validated.\<close>

definition assemble :: "classes \<Rightarrow> script \<Rightarrow> string list \<Rightarrow> string list \<Rightarrow> (compile_error, program) result" where
  "assemble cl g finals rs =
    (let Q = map uuid (filter (\<lambda>b. uuid b \<in> set rs) (units g)); index = positions Q in
     res_bind (res_fold (\<lambda>ns u. res_bind (createNodeDefinition (the (map_of (unitById g) u))) (\<lambda>n. Inr (ns @ [n]))) [] Q) (\<lambda>ns.
     res_bind (collectSuccessTransitions g rs index) (\<lambda>ts.
     res_bind (createReverseSuccess ts) (\<lambda>rv.
     res_bind (collectInterface cl g rs) (\<lambda>(ins, outs).
       Inr \<lparr>p_head = (if filter outputRole (units g) \<noteq> [] then None else head g), finalStates = finals,
         startStates = filter (\<lambda>u. \<not> map_has rv u) Q, p_Q = Q, nodeIndex = index, nodes = ns,
         success = ts, reverseSuccess = rv, p_inputs = ins, p_outputs = outs\<rparr>)))))"

definition compileVisualScript :: "classes \<Rightarrow> script \<Rightarrow> (compile_error, program) result" where
  "compileVisualScript cl g =
    (let finals = final_states g in
     if finals = [] then Inl NoOutputNode
     else res_bind (collectReachableUnits g finals) (\<lambda>rs.
       res_bind (res_fold (\<lambda>_ b. if uuid b \<in> set rs then validateReachableUnit cl g b else Inr ()) () (units g)) (\<lambda>_.
       res_bind (validateLoopReferences g rs) (\<lambda>_. assemble cl g finals rs))))"

end
