(* ===== verification/CompilerReach.thy ===== *)
theory CompilerReach
  imports ScriptCompiler
begin

text \<open>
  The depth-first search of the compiler: it succeeds exactly when everything the outputs pull
  exists and no block pulls itself, and then finds exactly what is pulled.
\<close>

definition pulls :: "script \<Rightarrow> string rel" where
  "pulls g = {(u, outputUnit c) |u b c. map_of (unitById g) u = Some b \<and> c \<in> snd ` set (b_inputs b)
    \<and> outputType g (outputUnit c) (outputLabel c) \<noteq> Some REPEAT_REF_TYPE}"

definition known :: "script \<Rightarrow> string set" where
  "known g = set (map_keys (unitById g))"

text \<open>What cannot be compiled: a block that is missing, or one that pulls itself.\<close>

definition defects :: "script \<Rightarrow> string set" where
  "defects g = {u. u \<notin> known g \<or> (u, u) \<in> (pulls g)\<^sup>+}"

definition dfs_ok :: "script \<Rightarrow> visit_state \<Rightarrow> bool" where
  "dfs_ok g st \<longleftrightarrow> distinct (visiting st) \<and> set (visiting st) \<union> set (visited st) \<subseteq> known g
    \<and> set (reachable st) = set (visited st) \<union> set (visiting st) \<and> set (visited st) \<inter> set (visiting st) = {}
    \<and> pulls g `` set (visited st) \<subseteq> set (visited st) \<and> set (visited st) \<inter> defects g = {}"

text \<open>
  What a visit of the blocks \<open>T\<close> may return: everything they pull, or an error that names a block
  they pull that is missing or ends in one that pulls itself.
\<close>

definition blames :: "script \<Rightarrow> string set \<Rightarrow> compile_error \<Rightarrow> bool" where
  "blames g T e \<longleftrightarrow>
    (case e of
       MissingUnit u \<Rightarrow> u \<in> (pulls g)\<^sup>* `` T \<and> u \<notin> known g
     | CycleDetected p \<Rightarrow> p \<noteq> [] \<and> last p \<in> (pulls g)\<^sup>* `` T \<and> (last p, last p) \<in> (pulls g)\<^sup>+
     | _ \<Rightarrow> False)"

lemma blames_mono: "blames g T e \<Longrightarrow> (pulls g)\<^sup>* `` T \<subseteq> (pulls g)\<^sup>* `` U \<Longrightarrow> blames g U e"
  by (auto simp: blames_def split: compile_error.splits)

definition visit_result :: "script \<Rightarrow> string set \<Rightarrow> visit_state \<Rightarrow> (compile_error, visit_state) result \<Rightarrow> bool" where
  "visit_result g T st res \<longleftrightarrow>
    (case res of
       Inr st' \<Rightarrow> dfs_ok g st' \<and> visiting st' = visiting st \<and> set (visited st) \<union> T \<subseteq> set (visited st')
         \<and> set (visited st') \<subseteq> set (visited st) \<union> (pulls g)\<^sup>* `` T
     | Inl e \<Rightarrow> blames g T e)"

lemma known_iff: "u \<in> known g \<longleftrightarrow> (\<exists>b. map_of (unitById g) u = Some b)"
  unfolding known_def by (metis map_of_None_iff option.exhaust option.distinct(1))

lemma pulls_known: "(u, v) \<in> pulls g \<Longrightarrow> u \<in> known g"
  by (auto simp: pulls_def known_iff)

text \<open>Visits in sequence.\<close>

lemma visit_fold:
  assumes "\<And>st c. c \<in> set cs \<Longrightarrow> dfs_ok g st \<Longrightarrow> visiting st = V \<Longrightarrow> visit_result g (T c) st (f st c)"
    and "dfs_ok g st" and "visiting st = V"
  shows "visit_result g (\<Union> (T ` set cs)) st (res_fold f st cs)"
  using assms
proof (induction cs arbitrary: st)
  case Nil
  then show ?case by (simp add: visit_result_def)
next
  case (Cons c cs)
  have one: "visit_result g (T c) st (f st c)" by (rule Cons.prems(1)) (use Cons.prems in auto)
  show ?case
  proof (cases "f st c")
    case (Inl e)
    then show ?thesis using one by (auto simp: visit_result_def intro: blames_mono)
  next
    case (Inr st1)
    then have st1: "dfs_ok g st1" "visiting st1 = V" "set (visited st) \<union> T c \<subseteq> set (visited st1)"
      "set (visited st1) \<subseteq> set (visited st) \<union> (pulls g)\<^sup>* `` T c"
      using one Cons.prems(3) by (auto simp: visit_result_def)
    have r: "visit_result g (\<Union> (T ` set cs)) st1 (res_fold f st1 cs)"
      by (rule Cons.IH) (use Cons.prems(1) st1 in auto)
    have im: "(pulls g)\<^sup>* `` \<Union> (T ` set (c # cs)) = (pulls g)\<^sup>* `` T c \<union> (pulls g)\<^sup>* `` \<Union> (T ` set cs)" by auto
    show ?thesis
    proof (cases "res_fold f st1 cs")
      case (Inl e)
      then show ?thesis using r Inr im by (auto simp: visit_result_def intro: blames_mono)
    next
      case (Inr st2)
      then have "dfs_ok g st2" "visiting st2 = visiting st1" "set (visited st1) \<union> \<Union> (T ` set cs) \<subseteq> set (visited st2)"
        "set (visited st2) \<subseteq> set (visited st1) \<union> (pulls g)\<^sup>* `` \<Union> (T ` set cs)"
        using r by (simp_all add: visit_result_def)
      moreover have "set (visited st) \<union> \<Union> (T ` set (c # cs)) \<subseteq> set (visited st2)" using calculation(3) st1(3) by auto
      moreover have "set (visited st2) \<subseteq> set (visited st) \<union> (pulls g)\<^sup>* `` \<Union> (T ` set (c # cs))"
        unfolding im using calculation(4) st1(4) by blast
      ultimately show ?thesis using Inr \<open>f st c = Inr st1\<close> st1(2) Cons.prems(3) by (simp add: visit_result_def)
    qed
  qed
qed

lemma set_add_new: "x \<notin> set xs \<Longrightarrow> set_add x xs = xs @ [x]"
  by (simp add: set_add_def)

lemma visit_enter_ok:
  assumes "dfs_ok g st" and "u \<in> known g" and "u \<notin> set (visiting st)" and "u \<notin> set (visited st)"
  shows "dfs_ok g (st\<lparr>visiting := set_add u (visiting st), reachable := set_add u (reachable st)\<rparr>)"
  using assms by (auto simp: dfs_ok_def set_add_def)

lemma leave_ok:
  assumes ok: "dfs_ok g st" and V: "visiting st = V @ [u]" and T: "pulls g `` {u} \<subseteq> set (visited st)"
  shows "dfs_ok g (st\<lparr>visiting := removeAll u (visiting st), visited := set_add u (visited st)\<rparr>)"
proof -
  have u: "u \<notin> set (visited st)" "u \<notin> set V" "u \<in> known g" using ok V by (auto simp: dfs_ok_def)
  have "(u, u) \<notin> (pulls g)\<^sup>+"
  proof
    assume "(u, u) \<in> (pulls g)\<^sup>+"
    then obtain v where v: "(u, v) \<in> pulls g" "(v, u) \<in> (pulls g)\<^sup>*" by (meson tranclD)
    have "(pulls g)\<^sup>* `` {v} \<subseteq> set (visited st)"
      by (rule closed_reach) (use ok T v(1) in \<open>auto simp: dfs_ok_def\<close>)
    then show False using v(2) u(1) by auto
  qed
  then have "u \<notin> defects g" using u(3) by (simp add: defects_def)
  then show ?thesis using ok u T V by (auto simp: dfs_ok_def set_add_def)
qed

lemma visit_spec:
  assumes "dfs_ok g st" and "\<And>w. w \<in> set (visiting st) \<Longrightarrow> (w, u) \<in> (pulls g)\<^sup>+"
    and "card (known g) < n + length (visiting st)"
  shows "visit_result g {u} st (visit n g u path st)"
  using assms
proof (induction n arbitrary: u path st)
  case 0
  have "length (visiting st) = card (set (visiting st))" using 0(1) by (simp add: dfs_ok_def distinct_card)
  also have "\<dots> \<le> card (known g)" by (rule card_mono) (use 0(1) in \<open>auto simp: dfs_ok_def known_def\<close>)
  finally show ?case using 0(3) by simp
next
  case (Suc n)
  note ok = Suc.prems(1)
  show ?case
  proof (cases "map_of (unitById g) u")
    case None
    then show ?thesis by (auto simp: visit_result_def blames_def known_iff)
  next
    case (Some b)
    then have u: "u \<in> known g" by (simp add: known_iff)
    consider (grey) "u \<in> set (visiting st)" | (black) "u \<notin> set (visiting st)" "u \<in> set (visited st)"
      | (white) "u \<notin> set (visiting st)" "u \<notin> set (visited st)" by blast
    then show ?thesis
    proof cases
      case grey
      then show ?thesis using Some Suc.prems(2) by (auto simp: visit_result_def blames_def)
    next
      case black
      then show ?thesis using Some ok by (auto simp: visit_result_def)
    next
      case white
      let ?in = "st\<lparr>visiting := set_add u (visiting st), reachable := set_add u (reachable st)\<rparr>"
      let ?live = "\<lambda>c. outputType g (outputUnit c) (outputLabel c) \<noteq> Some REPEAT_REF_TYPE"
      let ?f = "\<lambda>st c. if outputType g (outputUnit c) (outputLabel c) = Some REPEAT_REF_TYPE then Inr st
        else visit n g (outputUnit c) (path @ [u]) st"
      let ?T = "\<lambda>c. if ?live c then {outputUnit c} else {}"
      have V: "visiting ?in = visiting st @ [u]" using white by (simp add: set_add_new)
      have "visit_result g (\<Union> (?T ` set (map snd (b_inputs b)))) ?in (res_fold ?f ?in (map snd (b_inputs b)))"
      proof (rule visit_fold [OF _ visit_enter_ok [OF ok u white] V])
        fix st' c assume c: "c \<in> set (map snd (b_inputs b))" and st': "dfs_ok g st'" "visiting st' = visiting st @ [u]"
        show "visit_result g (?T c) st' (?f st' c)"
        proof (cases "?live c")
          case True
          have e: "(u, outputUnit c) \<in> pulls g" using Some c True by (auto simp: pulls_def)
          have "visit_result g {outputUnit c} st' (visit n g (outputUnit c) (path @ [u]) st')"
            by (rule Suc.IH [OF st'(1)])
              (use e st'(2) Suc.prems(2,3) in \<open>auto intro: trancl_into_trancl\<close>)
          then show ?thesis using True by simp
        next
          case False
          then show ?thesis using st' by (simp add: visit_result_def)
        qed
      qed
      moreover have "\<Union> (?T ` set (map snd (b_inputs b))) = pulls g `` {u}"
        using Some by (force simp: pulls_def)
      ultimately have r: "visit_result g (pulls g `` {u}) ?in (res_fold ?f ?in (map snd (b_inputs b)))" by simp
      have step: "(pulls g)\<^sup>* `` (pulls g `` {u}) \<subseteq> (pulls g)\<^sup>* `` {u}"
        by (auto intro: converse_rtrancl_into_rtrancl)
      show ?thesis
      proof (cases "res_fold ?f ?in (map snd (b_inputs b))")
        case (Inl e)
        then show ?thesis using r step Some white by (auto simp: visit_result_def intro: blames_mono)
      next
        case (Inr st2)
        then have st2: "dfs_ok g st2" "visiting st2 = visiting st @ [u]" "pulls g `` {u} \<subseteq> set (visited st2)"
          "set (visited st) \<subseteq> set (visited st2)" "set (visited st2) \<subseteq> set (visited st) \<union> (pulls g)\<^sup>* `` {u}"
          using r step V by (auto simp: visit_result_def)
        have "removeAll u (visiting st2) = visiting st" using st2(2) white by simp
        then show ?thesis
          using Inr Some white leave_ok [OF st2(1,2,3)] st2(4,5) by (auto simp: visit_result_def set_add_def)
      qed
    qed
  qed
qed

lemma known_uuids: "known g = uuid ` set (units g)"
proof -
  have "set (map_keys (fold (\<lambda>b. AList.update (uuid b) b) bs m)) = set (map_keys m) \<union> uuid ` set bs" for bs m
    by (induction bs arbitrary: m) (auto simp: set_keys_update simp del: set_map)
  from this [of "units g" "[]"] show ?thesis by (simp add: known_def unitById_def)
qed

lemma collect_spec:
  "case collectReachableUnits g fs of
     Inr R \<Rightarrow> set R = (pulls g)\<^sup>* `` set fs \<and> set R \<subseteq> known g \<and> set R \<inter> defects g = {}
   | Inl e \<Rightarrow> blames g (set fs) e"
proof -
  let ?st = "\<lparr>reachable = [], visiting = [], visited = []\<rparr>"
  let ?f = "\<lambda>st u. visit (Suc (length (units g))) g u [] st"
  have card: "card (known g) < Suc (length (units g))"
    unfolding known_uuids by (metis card_length le_imp_less_Suc length_map list.set_map)
  have "visit_result g (\<Union> ((\<lambda>u. {u}) ` set fs)) ?st (res_fold ?f ?st fs)"
    by (rule visit_fold [where V = "[]"]) (use card in \<open>auto intro!: visit_spec simp: dfs_ok_def simp del: visit.simps\<close>)
  then have r: "visit_result g (set fs) ?st (res_fold ?f ?st fs)" by simp
  show ?thesis
  proof (cases "res_fold ?f ?st fs")
    case (Inl e)
    then show ?thesis using r by (simp add: collectReachableUnits_def visit_result_def del: visit.simps)
  next
    case (Inr st)
    then have st: "dfs_ok g st" "visiting st = []" "set fs \<subseteq> set (visited st)" "set (visited st) \<subseteq> (pulls g)\<^sup>* `` set fs"
      using r by (simp_all add: visit_result_def)
    have "(pulls g)\<^sup>* `` set fs \<subseteq> set (visited st)"
      by (rule closed_reach) (use st(1,3) in \<open>auto simp: dfs_ok_def\<close>)
    then show ?thesis using Inr st by (auto simp: collectReachableUnits_def dfs_ok_def simp del: visit.simps)
  qed
qed

text \<open>
  C33. The search for reachable blocks is exact: it always returns; it succeeds exactly when nothing
  the final states pull is missing or pulls itself, and then returns everything they pull and
  nothing else.
\<close>

theorem reachable_blocks_exact:
  "case collectReachableUnits g fs of
     Inr R \<Rightarrow> set R = (pulls g)\<^sup>* `` set fs \<and> set R \<inter> defects g = {}
   | Inl e \<Rightarrow> e \<noteq> CompileStuck \<and> (pulls g)\<^sup>* `` set fs \<inter> defects g \<noteq> {}"
  using collect_spec [of g fs]
  by (auto simp: blames_def defects_def split: sum.splits compile_error.splits)

end
