(* ===== verification/CompiledScripts.thy ===== *)
theory CompiledScripts
  imports CompilerReach
begin

text \<open>
  What the compiler makes of a script that was built by editing: which errors it can report, and
  that the transitions of the program are the connections between the blocks its outputs pull.
\<close>

section \<open>Looking up blocks of well-formed scripts\<close>

lemma unitById_at:
  assumes "blocks_wf g"
  shows "map_of (unitById g) u = unit_at g u"
proof -
  have fold: "map_of (fold (\<lambda>b. AList.update (uuid b) b) bs m) u
      = (case List.find (\<lambda>b. uuid b = u) bs of None \<Rightarrow> map_of m u | Some b \<Rightarrow> Some b)"
    if "distinct (map uuid bs)" for bs m
    using that
  proof (induction bs arbitrary: m)
    case (Cons b bs)
    have "List.find (\<lambda>c. uuid c = u) bs = None" if "uuid b = u"
      unfolding find_None_iff using that Cons.prems by (metis distinct.simps(2) image_eqI list.set_map list.simps(9))
    then show ?case using Cons by (auto simp: js_map_simps split: option.split)
  qed simp
  show ?thesis using fold [of "units g" "[]"] assms by (simp add: unitById_def unit_at_def blocks_wf_def split: option.split)
qed

lemma positions_at:
  assumes "u \<in> set us"
  shows "\<exists>i. map_of (positions us) u = Some i \<and> i < length us \<and> us ! i = u"
proof -
  have "map_of (fold (\<lambda>(i, u). AList.update u i) (enumerate k us) m) u
      = (if u \<in> set us then map_of (fold (\<lambda>(i, u). AList.update u i) (enumerate k us) []) u else map_of m u)
    \<and> (u \<in> set us \<longrightarrow> (\<exists>i. map_of (fold (\<lambda>(i, u). AList.update u i) (enumerate k us) []) u = Some (k + i)
        \<and> i < length us \<and> us ! i = u))" for k us m
  proof (induction us arbitrary: k m)
    case (Cons v us)
    show ?case
    proof (cases "u \<in> set us")
      case True
      then show ?thesis using Cons.IH [of "Suc k"] Cons.IH [of "Suc k" "[(v, k)]"] by force
    next
      case False
      then show ?thesis using Cons.IH [of "Suc k"] by (auto simp: js_map_simps)
    qed
  qed simp
  from this [of 0 us "[]"] show ?thesis using assms by (simp add: positions_def)
qed

section \<open>Valid blocks\<close>

definition no_generic :: "block \<Rightarrow> bool" where
  "no_generic b \<longleftrightarrow> (\<forall>s. \<forall>l \<in> set (map_keys (portMap b s)). resolvedPortType b s l \<noteq> Some GENERIC_TYPE)"

lemma validated:
  assumes "validateReachableUnit cl g b = Inr x"
  shows "no_generic b"
proof -
  have "findUnboundGeneric b = None"
    using assms by (auto simp: validateReachableUnit_def split: if_splits option.splits)
  then have "unbound_at b Inputs = None" "unbound_at b Outputs = None"
    by (auto simp: findUnboundGeneric_def split: option.splits)
  then have none: "unbound_at b s = None" for s by (cases s) simp_all
  have "List.find (\<lambda>l. resolvedPortType b s l = Some GENERIC_TYPE) (map_keys (portMap b s)) = None" for s
    using none [of s] by (simp add: unbound_at_def split: option.splits)
  then show ?thesis unfolding no_generic_def find_None_iff by blast
qed

lemma resolved_no_generic:
  assumes "no_generic b" and "block_ok b" and "resolveLabel b s l = l" and "resolvedPortType b s l = Some t"
  shows "isConcreteType t"
proof -
  from assms(4) obtain d where d: "map_of (portMap b s) (resolveLabel b s l) = Some d"
    by (auto simp: resolvedPortType_def Let_def split: option.splits)
  then have key: "l \<in> set (map_keys (portMap b s))" using assms(3) by (force dest: map_of_SomeD)
  then have "t \<noteq> GENERIC_TYPE" using assms(1,4) unfolding no_generic_def by blast
  moreover have "isConcreteType d \<or> isGeneric d" using assms(2) d unfolding block_ok_def by blast
  moreover have "t = d \<or> isConcreteType t \<or> t = GENERIC_TYPE"
    using assms(4) d by (auto simp: resolvedPortType_def Let_def split: option.splits if_splits)
  ultimately show ?thesis by (auto simp: isGeneric_def)
qed

lemma no_generic_ports:
  assumes "no_generic b" and "t \<in> snd ` set (collectResolvedPortMap b s)"
  shows "t \<noteq> GENERIC_TYPE"
proof -
  from assms(2) obtain l where l: "l \<in> set (map_keys (portMap b s))" "t = (case resolvedPortType b s l of Some t \<Rightarrow> t | None \<Rightarrow> [])"
    unfolding collectResolvedPortMap_def by force
  then have "resolvedPortType b s l \<noteq> Some GENERIC_TYPE" using assms(1) unfolding no_generic_def by blast
  then show ?thesis using l(2) by (auto simp: GENERIC_TYPE_def split: option.splits)
qed

lemma node_defined:
  assumes "no_generic b"
  shows "createNodeDefinition b = Inr \<lparr>n_uuid = uuid b, n_type = blockType b,
    n_inputs = collectResolvedPortMap b Inputs, n_outputs = collectResolvedPortMap b Outputs\<rparr>"
proof -
  have "t \<noteq> GENERIC_TYPE" if "t \<in> snd ` set (collectResolvedPortMap b s)" for s t
    using no_generic_ports [OF assms that] .
  then have "\<not> (\<exists>t \<in> set (map snd (collectResolvedPortMap b Inputs) @ map snd (collectResolvedPortMap b Outputs)).
      t = GENERIC_TYPE \<or> isGeneric t)"
    by (auto simp: isGeneric_def)
  then show ?thesis unfolding createNodeDefinition_def Let_def by (simp only: if_False)
qed

section \<open>Transitions\<close>

definition transition_of :: "script \<Rightarrow> (string, nat) js_map \<Rightarrow> connection \<Rightarrow> transition" where
  "transition_of g index c = \<lparr>t_from = outputUnit c, t_fromIndex = map_of index (outputUnit c), t_output = outputLabel c,
     t_to = inputUnit c, t_toIndex = map_of index (inputUnit c), t_input = inputLabel c,
     t_type = the (outputType g (outputUnit c) (outputLabel c))\<rparr>"

text \<open>Between valid blocks of a well-typed script the two ends of a connection have the same concrete type.\<close>

lemma transition_typed:
  assumes inv: "script_inv g" and c: "c \<in> outs g"
    and valid: "\<And>b. b \<in> set (units g) \<Longrightarrow> uuid b \<in> rs \<Longrightarrow> no_generic b"
    and ends: "outputUnit c \<in> rs" "inputUnit c \<in> rs"
  obtains t where "isConcreteType t" and "outputType g (outputUnit c) (outputLabel c) = Some t"
    and "inputType g (inputUnit c) (inputLabel c) = Some t"
    and "createTransition g index c = Inr (transition_of g index c)"
proof -
  have wf: "blocks_wf g" and mirror: "outs g = ins g" using inv by (simp_all add: script_inv_def)
  have "typed_edge g c" using inv c by (auto simp: script_inv_def)
  then obtain a b s t where ab: "unit_at g (outputUnit c) = Some a" "unit_at g (inputUnit c) = Some b"
    "resolvedPortType a Outputs (outputLabel c) = Some s" "resolvedPortType b Inputs (inputLabel c) = Some t"
    "portsCompatible s t" unfolding typed_edge_def by blast
  have mem: "a \<in> set (units g)" "uuid a = outputUnit c" "b \<in> set (units g)" "uuid b = inputUnit c"
    using unit_at_mem [OF ab(1)] unit_at_mem [OF ab(2)] by auto
  then have w: "block_wf a" "block_wf b" using wf by (auto simp: blocks_wf_def)
  have "resolveOutputLabel a (outputLabel c) = outputLabel c" "resolveInputLabel b (inputLabel c) = inputLabel c"
    using linked_inv [OF wf mirror c] ab(1,2) outs_of_wf [OF w(1), of c] ins_of_wf [OF w(2), of c] by (auto simp: linked_def)
  then have res: "resolveLabel a Outputs (outputLabel c) = outputLabel c" "resolveLabel b Inputs (inputLabel c) = inputLabel c"
    by (simp_all add: resolveLabel_def)
  have conc: "isConcreteType s" "isConcreteType t"
    using resolved_no_generic [OF _ block_wfD(1) [OF w(1)] res(1) ab(3)] valid [OF mem(1)]
      resolved_no_generic [OF _ block_wfD(1) [OF w(2)] res(2) ab(4)] valid [OF mem(3)] mem(2,4) ends by simp_all
  then have "s = t" using portsCompatible_concrete [OF ab(5)] by simp
  then have types: "outputType g (outputUnit c) (outputLabel c) = Some t" "inputType g (inputUnit c) (inputLabel c) = Some t"
    using ab by (simp_all add: outputType_def inputType_def)
  moreover have "createTransition g index c = Inr (transition_of g index c)"
    using conc(2) concrete_not_generic [OF conc(2)] by (simp add: createTransition_def transition_of_def types isConcreteType_def)
  ultimately show ?thesis using conc(2) that by blast
qed

text \<open>Collecting keeps one transition for every key.\<close>

lemma add_fold:
  assumes "\<And>c. c \<in> set cs \<Longrightarrow> inputUnit c \<in> set rs \<Longrightarrow> createTransition g index c = Inr (mk c)"
    and "seen = map transitionKey ts" and "distinct seen"
  shows "\<exists>ts'. res_fold (add_transition g rs index) (seen, ts) cs = Inr (map transitionKey ts', ts')
    \<and> distinct (map transitionKey ts') \<and> set ts' \<subseteq> set ts \<union> mk ` {c \<in> set cs. inputUnit c \<in> set rs}
    \<and> transitionKey ` set ts' = transitionKey ` set ts \<union> (transitionKey \<circ> mk) ` {c \<in> set cs. inputUnit c \<in> set rs}"
  using assms
proof (induction cs arbitrary: seen ts)
  case (Cons c cs)
  have rest: "createTransition g index d = Inr (mk d)" if "d \<in> set cs" "inputUnit d \<in> set rs" for d
    using Cons.prems(1) that by simp
  show ?case
  proof (cases "inputUnit c \<in> set rs")
    case False
    then have "{d \<in> set (c # cs). inputUnit d \<in> set rs} = {d \<in> set cs. inputUnit d \<in> set rs}" by auto
    then show ?thesis using Cons.IH [OF rest Cons.prems(2,3)] False by (simp add: add_transition_def)
  next
    case True
    then have one: "createTransition g index c = Inr (mk c)" using Cons.prems(1) by simp
    have cs: "{d \<in> set (c # cs). inputUnit d \<in> set rs} = insert c {d \<in> set cs. inputUnit d \<in> set rs}" using True by auto
    show ?thesis
    proof (cases "transitionKey (mk c) \<in> set seen")
      case key: True
      then show ?thesis unfolding cs
        using Cons.IH [OF rest Cons.prems(2,3)] True one Cons.prems(2) by (auto simp: add_transition_def)
    next
      case new: False
      have d: "seen @ [transitionKey (mk c)] = map transitionKey (ts @ [mk c])" "distinct (seen @ [transitionKey (mk c)])"
        using Cons.prems(2,3) new by simp_all
      show ?thesis unfolding cs
        using Cons.IH [OF rest d] True one new by (auto simp: add_transition_def)
    qed
  qed
qed simp

text \<open>The reverse map of transitions that feed distinct inputs.\<close>

definition rev_of :: "transition \<Rightarrow> rev_edge" where
  "rev_of t = \<lparr>r_from = t_from t, r_output = t_output t, r_type = t_type t\<rparr>"

definition feeds :: "transition \<Rightarrow> string \<times> string" where
  "feeds t = (t_to t, t_input t)"

lemma rev_at_update: "rev_at (AList.update k x m) u = (if u = k then x else rev_at m u)"
  by (simp add: rev_at_def js_map_simps)

lemma reverse_fold:
  assumes "distinct (map feeds ts)" and "\<And>t. t \<in> set ts \<Longrightarrow> map_of (rev_at m (t_to t)) (t_input t) = None"
  shows "\<exists>m'. res_fold reverse_step m ts = Inr m'
    \<and> (\<forall>u l r. map_of (rev_at m' u) l = Some r \<longleftrightarrow>
        map_of (rev_at m u) l = Some r \<or> (\<exists>t \<in> set ts. feeds t = (u, l) \<and> rev_of t = r))
    \<and> (\<forall>u. map_of m' u \<noteq> None \<longleftrightarrow> map_of m u \<noteq> None \<or> (\<exists>t \<in> set ts. t_to t = u))"
  using assms
proof (induction ts arbitrary: m)
  case (Cons t ts)
  let ?m = "AList.update (t_to t) (AList.update (t_input t) (rev_of t) (rev_at m (t_to t))) m"
  have step: "reverse_step m t = Inr ?m" using Cons.prems(2) [of t] by (simp add: reverse_step_def rev_of_def)
  have at: "map_of (rev_at ?m u) l = (if (u, l) = feeds t then Some (rev_of t) else map_of (rev_at m u) l)" for u l
    by (simp add: rev_at_update js_map_simps feeds_def)
  have "map_of (rev_at ?m (t_to x)) (t_input x) = None" if "x \<in> set ts" for x
  proof -
    have "feeds x \<noteq> feeds t"
      using that Cons.prems(1) by (metis distinct.simps(2) image_eqI list.set_map list.simps(9))
    then show ?thesis unfolding at using that Cons.prems(2) [of x] by (auto simp: feeds_def)
  qed
  then obtain m' where m': "res_fold reverse_step ?m ts = Inr m'"
    "\<forall>u l r. map_of (rev_at m' u) l = Some r \<longleftrightarrow>
        map_of (rev_at ?m u) l = Some r \<or> (\<exists>t \<in> set ts. feeds t = (u, l) \<and> rev_of t = r)"
    "\<forall>u. map_of m' u \<noteq> None \<longleftrightarrow> map_of ?m u \<noteq> None \<or> (\<exists>t \<in> set ts. t_to t = u)"
    using Cons.IH [of ?m] Cons.prems(1) by auto
  have "map_of (rev_at m' u) l = Some r \<longleftrightarrow>
      map_of (rev_at m u) l = Some r \<or> (\<exists>x \<in> set (t # ts). feeds x = (u, l) \<and> rev_of x = r)" for u l r
    unfolding m'(2) [rule_format] at using Cons.prems(2) [of t] by (auto simp: feeds_def)
  moreover have "map_of m' u \<noteq> None \<longleftrightarrow> map_of m u \<noteq> None \<or> (\<exists>x \<in> set (t # ts). t_to x = u)" for u
    unfolding m'(3) [rule_format] by (auto simp: js_map_simps)
  ultimately show ?case using m'(1) step by auto
qed simp

section \<open>The stages of the compiler\<close>

lemma collect_transitions:
  assumes inv: "script_inv g" and valid: "\<And>b. b \<in> set (units g) \<Longrightarrow> uuid b \<in> set rs \<Longrightarrow> no_generic b"
  defines "C \<equiv> {c \<in> outs g. outputUnit c \<in> set rs \<and> inputUnit c \<in> set rs}"
  shows "\<exists>ts. collectSuccessTransitions g rs index = Inr ts \<and> distinct (map transitionKey ts)
    \<and> set ts \<subseteq> transition_of g index ` C \<and> transitionKey ` set ts = (transitionKey \<circ> transition_of g index) ` C"
proof -
  have wf: "blocks_wf g" using inv by (simp add: script_inv_def)
  let ?cs = "concat (map (\<lambda>b. concat (map snd (b_outputs b))) (filter (\<lambda>b. uuid b \<in> set rs) (units g)))"
  have own: "set (concat (map snd (b_outputs b))) = {c \<in> outs g. outputUnit c = uuid b}" if "b \<in> set (units g)" for b
  proof -
    have "block_wf b" and "unit_at g (uuid b) = Some b" using that wf unit_at_iff [OF wf] by (auto simp: blocks_wf_def)
    then show ?thesis using outs_of_list [OF block_wfD(4)] outs_at_unit [OF wf] by simp
  qed
  have "set ?cs = {c \<in> outs g. outputUnit c \<in> set rs}"
  proof -
    have ex: "\<exists>b \<in> set (units g). uuid b = outputUnit c" if "c \<in> outs g" for c
      using that wf outs_of_wf by (force simp: outs_def blocks_wf_def)
    have "set ?cs = (\<Union>b \<in> {b \<in> set (units g). uuid b \<in> set rs}. set (concat (map snd (b_outputs b))))" by simp
    also have "\<dots> = (\<Union>b \<in> {b \<in> set (units g). uuid b \<in> set rs}. {c \<in> outs g. outputUnit c = uuid b})"
      by (rule SUP_cong [OF refl], rule own) simp
    also have "\<dots> = {c \<in> outs g. outputUnit c \<in> set rs}" by (rule set_eqI, simp) (metis ex)
    finally show ?thesis .
  qed
  then have C: "{c \<in> set ?cs. inputUnit c \<in> set rs} = C" by (auto simp: C_def)
  have mk: "createTransition g index c = Inr (transition_of g index c)" if "c \<in> set ?cs" "inputUnit c \<in> set rs" for c
  proof -
    have "c \<in> outs g" "outputUnit c \<in> set rs" using \<open>set ?cs = _\<close> that(1) by auto
    then show ?thesis using transition_typed [OF inv _ valid, of c "set rs" index] that(2) by blast
  qed
  show ?thesis
    unfolding collectSuccessTransitions_def res_fold_concat
    using add_fold [of ?cs rs g index "transition_of g index" "[]" "[]", OF mk] unfolding C by auto
qed

lemma loops_checked:
  assumes "validateLoopReferences g rs = Inr m" and "e \<in> set (graphEdges g)"
    and "e_type e = Some REPEAT_REF_TYPE" and "e_to e \<in> set rs"
  shows "e_from e \<in> set rs \<and> e_to e \<in> body_region (graphEdges g) (e_from e)"
proof -
  let ?es = "graphEdges g"
  let ?P = "\<lambda>regions. \<forall>r R. map_of regions r = Some R \<longrightarrow> set R = body_region ?es r"
  let ?Q = "\<lambda>e. e_type e = Some REPEAT_REF_TYPE \<and> e_to e \<in> set rs
    \<longrightarrow> e_from e \<in> set rs \<and> e_to e \<in> body_region ?es (e_from e)"
  have region: "\<exists>R. loopBodyRegion ?es r = Some R \<and> set R = body_region ?es r" for r
    using loop_regions_body [of ?es r] by blast
  have "?P m \<and> (\<forall>e \<in> set ?es. ?Q e)"
  proof (rule res_fold_all [OF assms(1) [unfolded validateLoopReferences_def]])
    fix regions e regions' assume "?P regions" "loop_reference ?es rs regions e = Inr regions'"
    then show "?P regions' \<and> ?Q e"
      using region [of "e_from e"]
      by (auto simp: loop_reference_def js_map.lookup_put split: if_splits option.splits)
  qed simp
  then show ?thesis using assms(2-4) by blast
qed

lemma loop_errors:
  assumes "validateLoopReferences g rs = Inl x"
  shows "\<exists>u v. x = LoopNeverRuns u v \<or> x = LoopOutsideBody u v"
proof -
  from res_fold_error [OF assms [unfolded validateLoopReferences_def]] obtain m e where
    "loop_reference (graphEdges g) rs m e = Inl x" by blast
  moreover obtain R where "loopBodyRegion (graphEdges g) (e_from e) = Some R" using loop_regions_body by blast
  ultimately show ?thesis by (auto simp: loop_reference_def split: if_splits option.splits)
qed

definition node_of :: "block \<Rightarrow> node_def" where
  "node_of b = \<lparr>n_uuid = uuid b, n_type = blockType b,
    n_inputs = collectResolvedPortMap b Inputs, n_outputs = collectResolvedPortMap b Outputs\<rparr>"

lemma nodes_created:
  assumes "\<And>u. u \<in> set us \<Longrightarrow> no_generic (f u)"
  shows "res_fold (\<lambda>ns u. res_bind (createNodeDefinition (f u)) (\<lambda>n. Inr (ns @ [n]))) ns us = Inr (ns @ map (node_of \<circ> f) us)"
  using assms by (induction us arbitrary: ns) (simp_all add: node_defined node_of_def)

lemma interface_errors:
  assumes "collectInterface cl g rs = Inl e"
  shows "\<exists>r l. e = DuplicateLabel r l"
proof -
  from assms obtain st b where b: "res_fold (interface_port b) st (programPorts cl b) = Inl e"
    by (auto simp: collectInterface_def res_bind_Inl_iff dest!: res_fold_error split: if_splits)
  from res_fold_error [OF this] obtain st' p where "interface_port b st' p = Inl e" by blast
  then show ?thesis by (auto simp: interface_port_def res_bind_Inl_iff ensureUniqueProgramLabel_def Let_def split: if_splits)
qed

lemma validation:
  assumes "res_fold (\<lambda>_ b. if uuid b \<in> set rs then validateReachableUnit cl g b else Inr ()) () (units g) = res"
  shows "case res of Inl e \<Rightarrow> (\<exists>t u v w. e \<in> {UnknownType t, InvalidBlock u, UnboundGeneric u v, RejectedType u v w})
    | Inr _ \<Rightarrow> (\<forall>b \<in> set (units g). uuid b \<in> set rs \<longrightarrow> no_generic b)"
proof (cases res)
  case (Inl e)
  from res_fold_error [OF assms [unfolded Inl]] obtain b where "validateReachableUnit cl g b = Inl e"
    by (auto split: if_splits)
  then show ?thesis unfolding Inl by (auto simp: validateReachableUnit_def split: if_splits option.splits)
next
  case (Inr x)
  have "True \<and> (\<forall>b \<in> set (units g). uuid b \<in> set rs \<longrightarrow> no_generic b)"
    by (rule res_fold_all [OF assms [unfolded Inr]]) (auto dest: validated split: if_splits)
  then show ?thesis unfolding Inr by simp
qed

section \<open>Compiling a well-typed script\<close>

text \<open>The errors a script that was built by editing can have.\<close>

definition explained :: "script \<Rightarrow> compile_error \<Rightarrow> bool" where
  "explained g e \<longleftrightarrow>
    (case e of
       NoOutputNode \<Rightarrow> final_states g = []
     | MissingUnit u \<Rightarrow> head g = Some u \<and> unit_at g u = None
     | CycleDetected p \<Rightarrow> p \<noteq> [] \<and> last p \<in> (pulls g)\<^sup>* `` set (final_states g) \<and> (last p, last p) \<in> (pulls g)\<^sup>+
     | UnknownType _ \<Rightarrow> True | InvalidBlock _ \<Rightarrow> True | UnboundGeneric _ _ \<Rightarrow> True | RejectedType _ _ _ \<Rightarrow> True
     | LoopNeverRuns _ _ \<Rightarrow> True | LoopOutsideBody _ _ \<Rightarrow> True | DuplicateLabel _ _ \<Rightarrow> True
     | _ \<Rightarrow> False)"

definition joined :: "script \<Rightarrow> string list \<Rightarrow> connection set" where
  "joined g rs = {c \<in> outs g. outputUnit c \<in> set rs \<and> inputUnit c \<in> set rs}"

definition rev_spec :: "transition list \<Rightarrow> rev_map \<Rightarrow> bool" where
  "rev_spec ts m \<longleftrightarrow>
    (\<forall>u l r. map_of (rev_at m u) l = Some r \<longleftrightarrow> (\<exists>t \<in> set ts. feeds t = (u, l) \<and> rev_of t = r))
    \<and> (\<forall>u. map_of m u \<noteq> None \<longleftrightarrow> (\<exists>t \<in> set ts. t_to t = u))"

definition compiled :: "script \<Rightarrow> program \<Rightarrow> bool" where
  "compiled g p \<longleftrightarrow>
    finalStates p = final_states g \<and> p_head p = (if filter outputRole (units g) \<noteq> [] then None else head g)
    \<and> set (p_Q p) = (pulls g)\<^sup>* `` set (final_states g)
    \<and> set (p_Q p) \<inter> defects g = {} \<and> nodeIndex p = positions (p_Q p)
    \<and> nodes p = map (node_of \<circ> (\<lambda>u. the (unit_at g u))) (p_Q p)
    \<and> (\<forall>b \<in> set (units g). uuid b \<in> set (p_Q p) \<longrightarrow> no_generic b)
    \<and> (\<forall>e \<in> set (graphEdges g). e_type e = Some REPEAT_REF_TYPE \<and> e_to e \<in> set (p_Q p)
        \<longrightarrow> e_from e \<in> set (p_Q p) \<and> e_to e \<in> body_region (graphEdges g) (e_from e))
    \<and> distinct (map transitionKey (success p))
    \<and> set (success p) \<subseteq> transition_of g (nodeIndex p) ` joined g (p_Q p)
    \<and> transitionKey ` set (success p) = (transitionKey \<circ> transition_of g (nodeIndex p)) ` joined g (p_Q p)
    \<and> rev_spec (success p) (reverseSuccess p)
    \<and> startStates p = filter (\<lambda>u. map_of (reverseSuccess p) u = None) (p_Q p)"

lemma pulls_inv:
  assumes inv: "script_inv g" and "(u, v) \<in> pulls g"
  shows "unit_at g v \<noteq> None"
proof -
  have wf: "blocks_wf g" and mirror: "outs g = ins g" using inv by (simp_all add: script_inv_def)
  from assms(2) obtain b l c where b: "unit_at g u = Some b" "(l, c) \<in> set (b_inputs b)" "v = outputUnit c"
    by (auto simp: pulls_def unitById_at [OF wf])
  have mem: "b \<in> set (units g)" using unit_at_mem [OF b(1)] by simp
  then have "map_of (b_inputs b) l = Some c" using b(2) wf block_wfD(3) [of b] by (auto simp: blocks_wf_def)
  then have "c \<in> ins g" using mem unfolding ins_def ins_of_def by blast
  then show ?thesis using linked_inv [OF wf mirror] mirror b(3) by (auto simp: linked_def)
qed

lemma blames_explained:
  assumes inv: "script_inv g" and "blames g (set (final_states g)) e"
  shows "explained g e"
proof (cases e)
  case (MissingUnit u)
  have wf: "blocks_wf g" using inv by (simp add: script_inv_def)
  have u: "u \<in> (pulls g)\<^sup>* `` set (final_states g)" "unit_at g u = None"
    using assms(2) MissingUnit by (auto simp: blames_def known_iff unitById_at [OF wf])
  then have "u \<in> set (final_states g)" using pulls_inv [OF inv] by (blast elim: rtranclE)
  then have "(\<exists>b \<in> set (units g). uuid b = u) \<or> head g = Some u"
    by (auto simp: final_states_def Let_def split: if_splits option.splits)
  moreover have "uuid b \<noteq> u" if "b \<in> set (units g)" for b
    using u(2) that unit_at_iff [OF wf, of u b] by auto
  ultimately show ?thesis using u(2) MissingUnit by (auto simp: explained_def)
qed (use assms(2) in \<open>auto simp: blames_def explained_def\<close>)

lemma assembled:
  assumes inv: "script_inv g" and sub: "set rs \<subseteq> known g"
    and r: "set rs = (pulls g)\<^sup>* `` set (final_states g)" "set rs \<inter> defects g = {}"
    and valid: "\<And>b. b \<in> set (units g) \<Longrightarrow> uuid b \<in> set rs \<Longrightarrow> no_generic b"
    and loops: "\<And>e. e \<in> set (graphEdges g) \<Longrightarrow> e_type e = Some REPEAT_REF_TYPE \<Longrightarrow> e_to e \<in> set rs
      \<Longrightarrow> e_from e \<in> set rs \<and> e_to e \<in> body_region (graphEdges g) (e_from e)"
  shows "case assemble cl g (final_states g) rs of Inl e \<Rightarrow> explained g e | Inr p \<Rightarrow> compiled g p"
proof -
  have wf: "blocks_wf g" and mirror: "outs g = ins g" using inv by (simp_all add: script_inv_def)
  obtain Q where Q: "Q = map uuid (filter (\<lambda>b. uuid b \<in> set rs) (units g))" by simp
  have setQ: "set Q = set rs" using sub unfolding Q known_uuids by auto
  have ok: "no_generic (the (map_of (unitById g) u))" if "u \<in> set Q" for u
  proof -
    from that obtain b where b: "b \<in> set (units g)" "uuid b = u" "uuid b \<in> set rs" unfolding Q by auto
    then have "unit_at g u = Some b" using unit_at_iff [OF wf] by simp
    then show ?thesis using valid [OF b(1,3)] by (simp add: unitById_at [OF wf])
  qed
  obtain ts where ts: "collectSuccessTransitions g rs (positions Q) = Inr ts" "distinct (map transitionKey ts)"
    "set ts \<subseteq> transition_of g (positions Q) ` joined g rs"
    "transitionKey ` set ts = (transitionKey \<circ> transition_of g (positions Q)) ` joined g rs"
    using collect_transitions [OF inv valid, of rs "positions Q"] unfolding joined_def by auto
  have "inj_on feeds (set ts)"
  proof (rule inj_onI)
    fix t t' assume t: "t \<in> set ts" "t' \<in> set ts" "feeds t = feeds t'"
    then obtain c d where c: "c \<in> outs g" "t = transition_of g (positions Q) c"
      and d: "d \<in> outs g" "t' = transition_of g (positions Q) d" using ts(3) unfolding joined_def by blast
    have "same_input c d" using t(3) by (simp add: c d same_input_def feeds_def transition_of_def)
    then have "c = d" using same_input_eq [OF wf, of c d] c(1) d(1) mirror by simp
    then show "t = t'" using c(2) d(2) by simp
  qed
  moreover have "distinct ts" using ts(2) by (simp add: distinct_map)
  ultimately have "distinct (map feeds ts)" by (simp add: distinct_map)
  from reverse_fold [OF this, of "[]"] obtain rv where rv: "createReverseSuccess ts = Inr rv" "rev_spec ts rv"
    by (auto simp: createReverseSuccess_def rev_spec_def rev_at_def)
  have ns: "map (node_of \<circ> (\<lambda>u. the (map_of (unitById g) u))) Q = map (node_of \<circ> (\<lambda>u. the (unit_at g u))) Q"
    by (simp add: unitById_at [OF wf])
  show ?thesis
  proof (cases "collectInterface cl g rs")
    case (Inl e)
    then show ?thesis using ts(1) rv(1) interface_errors [OF Inl]
      by (auto simp: assemble_def Let_def Q [symmetric] nodes_created [OF ok] explained_def)
  next
    case (Inr x)
    then obtain ins outs where io: "collectInterface cl g rs = Inr (ins, outs)" by (cases x) simp
    have "assemble cl g (final_states g) rs = Inr \<lparr>p_head = (if filter outputRole (units g) \<noteq> [] then None else head g),
        finalStates = final_states g, startStates = filter (\<lambda>u. \<not> map_has rv u) Q, p_Q = Q, nodeIndex = positions Q,
        nodes = map (node_of \<circ> (\<lambda>u. the (map_of (unitById g) u))) Q, success = ts, reverseSuccess = rv,
        p_inputs = ins, p_outputs = outs\<rparr>" (is "_ = Inr ?p")
      by (simp add: assemble_def Let_def Q [symmetric] nodes_created [OF ok] io ts(1) rv(1))
    moreover have "compiled g ?p"
      unfolding compiled_def program.simps setQ ns joined_def
      by (intro conjI refl r rv(2) ts(2,3,4) [unfolded joined_def]) (use valid loops in auto)
    ultimately show ?thesis by simp
  qed
qed

lemma compile_result:
  assumes inv: "script_inv g"
  shows "case compileVisualScript cl g of Inl e \<Rightarrow> explained g e | Inr p \<Rightarrow> compiled g p"
proof (cases "final_states g = []")
  case True
  then show ?thesis by (simp add: compileVisualScript_def explained_def)
next
  case finals: False
  let ?v = "\<lambda>rs. res_fold (\<lambda>_ b. if uuid b \<in> set rs then validateReachableUnit cl g b else Inr ()) () (units g)"
  consider (dfs) e where "collectReachableUnits g (final_states g) = Inl e"
    | (valid) rs e where "collectReachableUnits g (final_states g) = Inr rs" "?v rs = Inl e"
    | (loops) rs e where "collectReachableUnits g (final_states g) = Inr rs" "?v rs = Inr ()" "validateLoopReferences g rs = Inl e"
    | (rest) rs m where "collectReachableUnits g (final_states g) = Inr rs" "?v rs = Inr ()" "validateLoopReferences g rs = Inr m"
  proof (cases "collectReachableUnits g (final_states g)")
    case (Inr rs)
    note c = Inr
    show ?thesis
    proof (cases "?v rs")
      case (Inr x)
      then have v: "?v rs = Inr ()" by simp
      show ?thesis by (cases "validateLoopReferences g rs") (rule that(3) [OF c v], assumption, rule that(4) [OF c v])
    qed (rule that(2) [OF c])
  qed (rule that(1))
  then show ?thesis
  proof cases
    case dfs
    then show ?thesis using finals blames_explained [OF inv] collect_spec [of g "final_states g"]
      by (simp add: compileVisualScript_def)
  next
    case valid
    then show ?thesis using finals validation [OF valid(2)] by (auto simp: compileVisualScript_def explained_def)
  next
    case loops
    then show ?thesis using finals loop_errors [OF loops(3)] by (auto simp: compileVisualScript_def explained_def)
  next
    case rest
    note r = collect_spec [of g "final_states g", unfolded rest(1) sum.case]
    have "case assemble cl g (final_states g) rs of Inl e \<Rightarrow> explained g e | Inr p \<Rightarrow> compiled g p"
      by (rule assembled [OF inv r [THEN conjunct2, THEN conjunct1] r [THEN conjunct1] r [THEN conjunct2, THEN conjunct2]
        _ loops_checked [OF rest(3)]]) (use validation [OF rest(2)] in simp_all)
    moreover have "compileVisualScript cl g = assemble cl g (final_states g) rs"
      using finals rest by (simp add: compileVisualScript_def)
    ultimately show ?thesis by simp
  qed
qed

lemma compiledD:
  assumes "compiled g p"
  shows "finalStates p = final_states g"
    and "p_head p = (if filter outputRole (units g) \<noteq> [] then None else head g)"
    and "set (p_Q p) = (pulls g)\<^sup>* `` set (final_states g)"
    and "set (p_Q p) \<inter> defects g = {}"
    and "nodeIndex p = positions (p_Q p)"
    and "nodes p = map (node_of \<circ> (\<lambda>u. the (unit_at g u))) (p_Q p)"
    and "b \<in> set (units g) \<Longrightarrow> uuid b \<in> set (p_Q p) \<Longrightarrow> no_generic b"
    and "e \<in> set (graphEdges g) \<Longrightarrow> e_type e = Some REPEAT_REF_TYPE \<Longrightarrow> e_to e \<in> set (p_Q p)
      \<Longrightarrow> e_from e \<in> set (p_Q p) \<and> e_to e \<in> body_region (graphEdges g) (e_from e)"
    and "distinct (map transitionKey (success p))"
    and "set (success p) \<subseteq> transition_of g (nodeIndex p) ` joined g (p_Q p)"
    and "transitionKey ` set (success p) = (transitionKey \<circ> transition_of g (nodeIndex p)) ` joined g (p_Q p)"
    and "rev_spec (success p) (reverseSuccess p)"
    and "startStates p = filter (\<lambda>u. map_of (reverseSuccess p) u = None) (p_Q p)"
proof -
  note D = assms [unfolded compiled_def]
  show "finalStates p = final_states g" by (rule D [THEN conjunct1])
  show "p_head p = (if filter outputRole (units g) \<noteq> [] then None else head g)" by (rule D [THEN conjunct2, THEN conjunct1])
  show "set (p_Q p) = (pulls g)\<^sup>* `` set (final_states g)" by (rule D [THEN conjunct2, THEN conjunct2, THEN conjunct1])
  show "set (p_Q p) \<inter> defects g = {}" by (rule D [THEN conjunct2, THEN conjunct2, THEN conjunct2, THEN conjunct1])
  show "nodeIndex p = positions (p_Q p)" by (rule D [THEN conjunct2, THEN conjunct2, THEN conjunct2, THEN conjunct2, THEN conjunct1])
  show "nodes p = map (node_of \<circ> (\<lambda>u. the (unit_at g u))) (p_Q p)" by (rule D [THEN conjunct2, THEN conjunct2, THEN conjunct2, THEN conjunct2, THEN conjunct2, THEN conjunct1])
  show "b \<in> set (units g) \<Longrightarrow> uuid b \<in> set (p_Q p) \<Longrightarrow> no_generic b" by (rule D [THEN conjunct2, THEN conjunct2, THEN conjunct2, THEN conjunct2, THEN conjunct2, THEN conjunct2, THEN conjunct1, rule_format])
  show "e \<in> set (graphEdges g) \<Longrightarrow> e_type e = Some REPEAT_REF_TYPE \<Longrightarrow> e_to e \<in> set (p_Q p)
      \<Longrightarrow> e_from e \<in> set (p_Q p) \<and> e_to e \<in> body_region (graphEdges g) (e_from e)"
    by (rule D [THEN conjunct2, THEN conjunct2, THEN conjunct2, THEN conjunct2, THEN conjunct2, THEN conjunct2, THEN conjunct2, THEN conjunct1, rule_format]) simp_all
  show "distinct (map transitionKey (success p))" by (rule D [THEN conjunct2, THEN conjunct2, THEN conjunct2, THEN conjunct2, THEN conjunct2, THEN conjunct2, THEN conjunct2, THEN conjunct2, THEN conjunct1])
  show "set (success p) \<subseteq> transition_of g (nodeIndex p) ` joined g (p_Q p)" by (rule D [THEN conjunct2, THEN conjunct2, THEN conjunct2, THEN conjunct2, THEN conjunct2, THEN conjunct2, THEN conjunct2, THEN conjunct2, THEN conjunct2, THEN conjunct1])
  show "transitionKey ` set (success p) = (transitionKey \<circ> transition_of g (nodeIndex p)) ` joined g (p_Q p)" by (rule D [THEN conjunct2, THEN conjunct2, THEN conjunct2, THEN conjunct2, THEN conjunct2, THEN conjunct2, THEN conjunct2, THEN conjunct2, THEN conjunct2, THEN conjunct2, THEN conjunct1])
  show "rev_spec (success p) (reverseSuccess p)" by (rule D [THEN conjunct2, THEN conjunct2, THEN conjunct2, THEN conjunct2, THEN conjunct2, THEN conjunct2, THEN conjunct2, THEN conjunct2, THEN conjunct2, THEN conjunct2, THEN conjunct2, THEN conjunct1])
  show "startStates p = filter (\<lambda>u. map_of (reverseSuccess p) u = None) (p_Q p)" by (rule D [THEN conjunct2, THEN conjunct2, THEN conjunct2, THEN conjunct2, THEN conjunct2, THEN conjunct2, THEN conjunct2, THEN conjunct2, THEN conjunct2, THEN conjunct2, THEN conjunct2, THEN conjunct2])
qed

lemma compiled_unit:
  assumes wf: "blocks_wf g" and c: "compiled g p" and u: "u \<in> set (p_Q p)"
  shows "\<exists>b. unit_at g u = Some b \<and> uuid b = u \<and> no_generic b"
proof -
  have "set (p_Q p) \<inter> defects g = {}" using c unfolding compiled_def by blast
  then have "u \<in> known g" using u by (auto simp: defects_def)
  then obtain b where b: "unit_at g u = Some b" by (auto simp: known_iff unitById_at [OF wf])
  then show ?thesis using unit_at_mem [OF b] c u by (auto simp: compiled_def)
qed

lemma compiled_nodes:
  assumes "blocks_wf g" and "compiled g p"
  shows "map n_uuid (nodes p) = p_Q p"
proof -
  have "nodes p = map (node_of \<circ> (\<lambda>u. the (unit_at g u))) (p_Q p)" using assms(2) by (simp add: compiled_def)
  moreover have "n_uuid (node_of (the (unit_at g u))) = u" if "u \<in> set (p_Q p)" for u
    using compiled_unit [OF assms that] by (auto simp: node_of_def)
  ultimately show ?thesis by (simp add: map_idI)
qed

section \<open>Compiled programs\<close>


text \<open>
  C32. A compiled program is sound: its states are exactly the blocks its final states pull, none of
  them pulls itself, no port of a node is generic, a state is a start state when no transition feeds
  it, and every Index block of a loop feeds the body of that loop.
\<close>

theorem compiled_program_sound:
  assumes "edited g" and "compileVisualScript cl g = Inr p"
  shows "set (p_Q p) = (pulls g)\<^sup>* `` set (finalStates p)
    \<and> (\<forall>u \<in> set (p_Q p). (u, u) \<notin> (pulls g)\<^sup>+)
    \<and> map n_uuid (nodes p) = p_Q p
    \<and> (\<forall>n \<in> set (nodes p). GENERIC_TYPE \<notin> snd ` set (n_inputs n) \<union> snd ` set (n_outputs n))
    \<and> set (startStates p) = set (p_Q p) - t_to ` set (success p)
    \<and> (\<forall>e \<in> set (graphEdges g). e_type e = Some REPEAT_REF_TYPE \<and> e_to e \<in> set (p_Q p)
        \<longrightarrow> e_from e \<in> set (p_Q p) \<and> e_to e \<in> body_region (graphEdges g) (e_from e))"
proof -
  have inv: "script_inv g" by (rule edited_inv [OF assms(1)])
  then have wf: "blocks_wf g" by (simp add: script_inv_def)
  have c: "compiled g p" using compile_result [OF inv, of cl] assms(2) by simp
  then have Q: "set (p_Q p) = (pulls g)\<^sup>* `` set (finalStates p)" "set (p_Q p) \<inter> defects g = {}"
    unfolding compiled_def by auto
  note at = compiled_unit [OF wf c]
  have nodes: "nodes p = map (node_of \<circ> (\<lambda>u. the (unit_at g u))) (p_Q p)" using c by (simp add: compiled_def)
  have "map n_uuid (nodes p) = p_Q p" by (rule compiled_nodes [OF wf c])
  moreover have "GENERIC_TYPE \<notin> snd ` set (n_inputs n) \<union> snd ` set (n_outputs n)" if "n \<in> set (nodes p)" for n
    using that at no_generic_ports unfolding nodes by (force simp: node_of_def)
  moreover have "set (startStates p) = set (p_Q p) - t_to ` set (success p)"
  proof -
    have st: "startStates p = filter (\<lambda>u. map_of (reverseSuccess p) u = None) (p_Q p)"
      using c unfolding compiled_def by blast
    have "rev_spec (success p) (reverseSuccess p)" using c unfolding compiled_def by blast
    then have "map_of (reverseSuccess p) u = None \<longleftrightarrow> u \<notin> t_to ` set (success p)" for u
      unfolding rev_spec_def by (metis imageE imageI)
    then show ?thesis unfolding st by auto
  qed
  moreover have "(u, u) \<notin> (pulls g)\<^sup>+" if "u \<in> set (p_Q p)" for u using that Q(2) by (auto simp: defects_def)
  moreover have "e_from e \<in> set (p_Q p) \<and> e_to e \<in> body_region (graphEdges g) (e_from e)"
    if "e \<in> set (graphEdges g)" "e_type e = Some REPEAT_REF_TYPE" "e_to e \<in> set (p_Q p)" for e
    using that c unfolding compiled_def by blast
  ultimately show ?thesis using Q(1) by blast
qed

definition conn_of :: "transition \<Rightarrow> connection" where
  "conn_of t = \<lparr>outputUnit = t_from t, outputLabel = t_output t, inputUnit = t_to t, inputLabel = t_input t\<rparr>"

text \<open>Keys of transitions are joined by bars, so names with bars could make two of them equal.\<close>

definition bar_free :: "script \<Rightarrow> bool" where
  "bar_free g \<longleftrightarrow> (\<forall>c \<in> outs g. \<forall>x \<in> {outputUnit c, outputLabel c, inputUnit c}. CHR 0x7C \<notin> set x)"

lemma split_bar: "CHR 0x7C \<notin> set a \<Longrightarrow> CHR 0x7C \<notin> set b \<Longrightarrow> a @ ''|'' @ x = b @ ''|'' @ y \<Longrightarrow> a = b \<and> x = y"
proof (induction a arbitrary: b)
  case Nil
  then show ?case by (cases b) auto
next
  case (Cons c a)
  then show ?case by (cases b) auto
qed

lemma conn_of_transition: "conn_of (transition_of g index c) = c"
  by (simp add: conn_of_def transition_of_def)

lemma key_inj:
  assumes "bar_free g" and "c \<in> outs g" and "d \<in> outs g"
    and "transitionKey (transition_of g index c) = transitionKey (transition_of g index d)"
  shows "c = d"
proof -
  have "\<forall>x \<in> {outputUnit e, outputLabel e, inputUnit e}. CHR 0x7C \<notin> set x" if "e \<in> {c, d}" for e
    using assms(1-3) that unfolding bar_free_def by auto
  then have f: "CHR 0x7C \<notin> set (outputUnit e)" "CHR 0x7C \<notin> set (outputLabel e)" "CHR 0x7C \<notin> set (inputUnit e)"
    if "e \<in> {c, d}" for e using that by auto
  have k: "outputUnit c @ ''|'' @ outputLabel c @ ''|'' @ inputUnit c @ ''|'' @ inputLabel c
      = outputUnit d @ ''|'' @ outputLabel d @ ''|'' @ inputUnit d @ ''|'' @ inputLabel d"
    using assms(4) by (simp add: transitionKey_def transition_of_def)
  from split_bar [OF f(1) f(1) k] have 1: "outputUnit c = outputUnit d"
    "outputLabel c @ ''|'' @ inputUnit c @ ''|'' @ inputLabel c = outputLabel d @ ''|'' @ inputUnit d @ ''|'' @ inputLabel d"
    by simp_all
  from split_bar [OF f(2) f(2) 1(2)] have 2: "outputLabel c = outputLabel d"
    "inputUnit c @ ''|'' @ inputLabel c = inputUnit d @ ''|'' @ inputLabel d" by simp_all
  from split_bar [OF f(3) f(3) 2(2)] show ?thesis using 1(1) 2(1) by simp
qed

definition transition_ok :: "script \<Rightarrow> program \<Rightarrow> transition \<Rightarrow> bool" where
  "transition_ok g p t \<longleftrightarrow>
    (\<exists>i j. t_fromIndex t = Some i \<and> i < length (p_Q p) \<and> p_Q p ! i = t_from t
       \<and> t_toIndex t = Some j \<and> j < length (p_Q p) \<and> p_Q p ! j = t_to t)
    \<and> isConcreteType (t_type t) \<and> outputType g (t_from t) (t_output t) = Some (t_type t)
    \<and> inputType g (t_to t) (t_input t) = Some (t_type t)
    \<and> map_of (rev_at (reverseSuccess p) (t_to t)) (t_input t) = Some (rev_of t)"

text \<open>
  C4. A compiled program is complete: its transitions are exactly the connections between its
  states, each with the positions of its two states and the concrete type both ports resolve to, and
  the reverse map leads from every input back to the one transition that feeds it.
\<close>

theorem compiled_program_complete:
  assumes "edited g" and "bar_free g" and "compileVisualScript cl g = Inr p"
  shows "conn_of ` set (success p) = joined g (p_Q p) \<and> (\<forall>t \<in> set (success p). transition_ok g p t)"
proof -
  have inv: "script_inv g" by (rule edited_inv [OF assms(1)])
  have c: "compiled g p" using compile_result [OF inv, of cl] assms(3) by simp
  have valid: "no_generic b" if "b \<in> set (units g)" "uuid b \<in> set (p_Q p)" for b
    using c that unfolding compiled_def by blast
  have sub: "set (success p) \<subseteq> transition_of g (nodeIndex p) ` joined g (p_Q p)"
    and keys: "transitionKey ` set (success p) = (transitionKey \<circ> transition_of g (nodeIndex p)) ` joined g (p_Q p)"
    and idx: "nodeIndex p = positions (p_Q p)" and rv: "rev_spec (success p) (reverseSuccess p)"
    using c unfolding compiled_def by auto
  have "d \<in> conn_of ` set (success p)" if d: "d \<in> joined g (p_Q p)" for d
  proof -
    have "transitionKey (transition_of g (nodeIndex p) d) \<in> transitionKey ` set (success p)" unfolding keys using d by auto
    then obtain t where t: "t \<in> set (success p)" "transitionKey (transition_of g (nodeIndex p) d) = transitionKey t" by auto
    then obtain e where e: "e \<in> joined g (p_Q p)" "t = transition_of g (nodeIndex p) e" using sub by auto
    then have "d = e" using key_inj [OF assms(2), of d e] t(2) d by (simp add: joined_def)
    then have "conn_of t = d" using e(2) by (simp add: conn_of_transition)
    then show ?thesis using t(1) by blast
  qed
  moreover have "conn_of ` set (success p) \<subseteq> joined g (p_Q p)"
    using sub by (auto simp: conn_of_transition dest!: subsetD)
  moreover have "transition_ok g p t" if t: "t \<in> set (success p)" for t
  proof -
    obtain d where d: "d \<in> joined g (p_Q p)" "t = transition_of g (positions (p_Q p)) d" using sub t unfolding idx by auto
    have "d \<in> outs g" "outputUnit d \<in> set (p_Q p)" "inputUnit d \<in> set (p_Q p)" using d(1) by (simp_all add: joined_def)
    moreover from transition_typed [OF inv this(1) valid this(2,3)] obtain ty where "isConcreteType ty"
      "outputType g (outputUnit d) (outputLabel d) = Some ty" "inputType g (inputUnit d) (inputLabel d) = Some ty" by metis
    moreover have "map_of (rev_at (reverseSuccess p) (t_to t)) (t_input t) = Some (rev_of t)"
      using rv t by (auto simp: rev_spec_def feeds_def)
    ultimately show ?thesis
      using positions_at [of "outputUnit d" "p_Q p"] positions_at [of "inputUnit d" "p_Q p"]
      by (auto simp: transition_ok_def d(2) transition_of_def)
  qed
  ultimately show ?thesis by blast
qed

section \<open>Witnesses\<close>

definition demo_classes :: classes where
  "demo_classes = \<lparr>registered = (\<lambda>_. True), valid = (\<lambda>_ _. True), programPorts = (\<lambda>_. [])\<rparr>"

lemma demo_stages:
  "final_states demo_script = [''b'']"
  "collectReachableUnits demo_script [''b''] = Inr [''b'', ''a'']"
  "res_fold (\<lambda>_ b. if uuid b \<in> set [''b'', ''a''] then validateReachableUnit demo_classes demo_script b else Inr ()) ()
     (units demo_script) = Inr ()"
  "validateLoopReferences demo_script [''b'', ''a''] = Inr []"
  "map uuid (filter (\<lambda>b. uuid b \<in> set [''b'', ''a'']) (units demo_script)) = [''a'', ''b'']"
  "collectSuccessTransitions demo_script [''b'', ''a''] (positions [''a'', ''b'']) = Inr [\<lparr>t_from = ''a'', t_fromIndex = Some 0,
     t_output = ''value'', t_to = ''b'', t_toIndex = Some 1, t_input = ''x'', t_type = ''float''\<rparr>]"
  "collectInterface demo_classes demo_script [''b'', ''a''] = Inr ([], [])"
  by code_simp+

lemma demo_compiled:
  "\<exists>p. compileVisualScript demo_classes demo_script = Inr p \<and> p_Q p = [''a'', ''b''] \<and> map conn_of (success p) = [demo_edge]"
proof -
  have "\<not> isl (res_fold (\<lambda>ns u. res_bind (createNodeDefinition (the (map_of (unitById demo_script) u))) (\<lambda>n. Inr (ns @ [n])))
      [] [''a'', ''b''])" by code_simp
  then obtain ns where ns: "res_fold (\<lambda>ns u. res_bind (createNodeDefinition (the (map_of (unitById demo_script) u))) (\<lambda>n. Inr (ns @ [n])))
      [] [''a'', ''b''] = Inr ns"
    by (metis (no_types, lifting) obj_sumE isl_def)
  show ?thesis
    unfolding compileVisualScript_def Let_def demo_stages assemble_def res_bind.simps ns
    by (auto simp: createReverseSuccess_def reverse_step_def rev_at_def conn_of_def demo_edge_def)
qed

theorem compiled_program_sound_witness:
  "\<exists>p. compileVisualScript demo_classes demo_script = Inr p \<and> set (startStates p) = {''a'', ''b''} - t_to ` set (success p)"
proof -
  obtain p where p: "compileVisualScript demo_classes demo_script = Inr p" "p_Q p = [''a'', ''b'']"
    using demo_compiled by (elim exE conjE)
  show ?thesis using compiled_program_sound [OF demo_edited p(1)] p by auto
qed

theorem compiled_program_complete_witness:
  "\<exists>p. compileVisualScript demo_classes demo_script = Inr p \<and> joined demo_script (p_Q p) = {demo_edge}"
proof -
  obtain p where p: "compileVisualScript demo_classes demo_script = Inr p" "map conn_of (success p) = [demo_edge]"
    using demo_compiled by (elim exE conjE)
  have "blocks_wf demo_script" using edited_inv [OF demo_edited] by (simp add: script_inv_def)
  moreover have "collectExistingEdges demo_script = [demo_edge]" by code_simp
  ultimately have "outs demo_script = {demo_edge}" using edges_outs by (metis empty_set list.simps(15))
  then have "bar_free demo_script" by (simp add: bar_free_def demo_edge_def)
  moreover have "conn_of ` set (success p) = {demo_edge}" using p(2) by (metis empty_set list.simps(15) list.set_map)
  ultimately show ?thesis using compiled_program_complete [OF demo_edited _ p(1)] p(1) by auto
qed


end
