(* ===== verification/ScriptRunner.thy ===== *)
theory ScriptRunner
  imports CompiledScripts
begin

text \<open>
  \<open>app/scripting/runtime/Runner.js\<close>: running a compiled program. A node is evaluated on demand; its
  block executes and asks for inputs, which evaluates the nodes that feed them; outputs are kept
  until they are invalidated. What a block does when it executes is a parameter: a tree of its
  requests to the runner, which may depend on the values it was given. Signals, stored data, plugins
  and state that a block keeps between runs are left out.
\<close>

datatype 'v exec = Return "(string, 'v) js_map" | NoReturn | Throw string
  | GetInput string "'v \<Rightarrow> 'v exec"
  | SetExternalOutput string 'v "'v exec"
  | InvalidateOutputs "string list" "'v exec"
  | SetLoopFrame "(nat \<times> nat) option" "'v exec"
  | GetLoopFrame string "(nat \<times> nat) option \<Rightarrow> 'v exec"

datatype run_error = NotConnected string string | NotProduced string string | RuntimeCycle string
  | NodeMissing string | NoBlockOutput string | BlockThrew string string | RunStuck

record 'v run_state =
  outputMemo :: "(string, (string, 'v) js_map) js_map"
  evaluating :: "string list"
  loopFrames :: "(string, nat \<times> nat) js_map"
  externalOutputs :: "(string, 'v) js_map"

definition start_run :: "'v run_state" where
  "start_run = \<lparr>outputMemo = [], evaluating = [], loopFrames = [], externalOutputs = []\<rparr>"

definition has_node :: "program \<Rightarrow> string \<Rightarrow> bool" where
  "has_node p u = (u \<in> n_uuid ` set (nodes p))"

definition resolveInput ::
  "(string \<Rightarrow> 'v run_state \<Rightarrow> (run_error, (string, 'v) js_map \<times> 'v run_state) result)
    \<Rightarrow> program \<Rightarrow> string \<Rightarrow> string \<Rightarrow> 'v run_state \<Rightarrow> (run_error, 'v \<times> 'v run_state) result" where
  "resolveInput ev p u l st =
    (case map_of (rev_at (reverseSuccess p) u) l of
       None \<Rightarrow> Inl (NotConnected u l)
     | Some r \<Rightarrow> res_bind (ev (r_from r) st) (\<lambda>(m, st).
         (case map_of m (r_output r) of
            None \<Rightarrow> Inl (NotProduced (r_from r) (r_output r))
          | Some v \<Rightarrow> Inr (v, st))))"

text \<open>The runner answers the requests of the block \<open>u\<close>.\<close>

primrec execute_block ::
  "(string \<Rightarrow> 'v run_state \<Rightarrow> (run_error, 'v \<times> 'v run_state) result) \<Rightarrow> string \<Rightarrow> 'v exec \<Rightarrow> 'v run_state
    \<Rightarrow> (run_error, (string, 'v) js_map option \<times> 'v run_state) result" where
  "execute_block input u (Return m) st = Inr (Some m, st)"
| "execute_block input u NoReturn st = Inr (None, st)"
| "execute_block input u (Throw e) st = Inl (BlockThrew u e)"
| "execute_block input u (GetInput l k) st = res_bind (input l st) (\<lambda>(v, st). execute_block input u (k v) st)"
| "execute_block input u (SetExternalOutput l v e) st =
    execute_block input u e (st\<lparr>externalOutputs := AList.update l v (externalOutputs st)\<rparr>)"
| "execute_block input u (InvalidateOutputs us e) st =
    execute_block input u e (st\<lparr>outputMemo := fold AList.delete us (outputMemo st)\<rparr>)"
| "execute_block input u (SetLoopFrame f e) st =
    execute_block input u e (st\<lparr>loopFrames := (case f of Some x \<Rightarrow> AList.update u x (loopFrames st)
      | None \<Rightarrow> AList.delete u (loopFrames st))\<rparr>)"
| "execute_block input u (GetLoopFrame w k) st = execute_block input u (k (map_of (loopFrames st) w)) st"

fun evaluateNode ::
  "nat \<Rightarrow> program \<Rightarrow> (string \<Rightarrow> 'v exec) \<Rightarrow> string \<Rightarrow> 'v run_state
    \<Rightarrow> (run_error, (string, 'v) js_map \<times> 'v run_state) result" where
  "evaluateNode 0 p beh u st = Inl RunStuck"
| "evaluateNode (Suc n) p beh u st =
    (case map_of (outputMemo st) u of
       Some m \<Rightarrow> Inr (m, st)
     | None \<Rightarrow>
         if u \<in> set (evaluating st) then Inl (RuntimeCycle u)
         else if \<not> has_node p u then Inl (NodeMissing u)
         else res_bind (execute_block (resolveInput (evaluateNode n p beh) p u) u (beh u)
             (st\<lparr>evaluating := evaluating st @ [u]\<rparr>)) (\<lambda>(out, st).
           (case out of
              None \<Rightarrow> Inl (NoBlockOutput u)
            | Some m \<Rightarrow> Inr (m, st\<lparr>evaluating := removeAll u (evaluating st), outputMemo := AList.update u m (outputMemo st)\<rparr>))))"

text \<open>The fuel of a run: one more than there are nodes.\<close>

definition run_fuel :: "program \<Rightarrow> nat" where
  "run_fuel p = Suc (length (nodes p))"

definition run_program :: "program \<Rightarrow> (string \<Rightarrow> 'v exec)
    \<Rightarrow> (run_error, (string, 'v) js_map option \<times> 'v run_state) result" where
  "run_program p beh =
    (if p_outputs p \<noteq> []
     then res_bind (res_fold (\<lambda>st u. res_bind (evaluateNode (run_fuel p) p beh u st) (\<lambda>(_, st). Inr st)) start_run (finalStates p))
       (\<lambda>st. Inr (None, st))
     else res_bind (evaluateNode (run_fuel p) p beh
         (case p_head p of Some h \<Rightarrow> if h = [] then hd (finalStates p) else h | None \<Rightarrow> hd (finalStates p)) start_run)
       (\<lambda>(m, st). Inr (Some m, st)))"

section \<open>What a node yields\<close>

text \<open>
  The meaning of a program whose blocks only read inputs and set external outputs: no memory of
  earlier results, no bookkeeping of what is being evaluated.
\<close>

inductive yields :: "program \<Rightarrow> (string \<Rightarrow> 'v exec) \<Rightarrow> string \<Rightarrow> (string, 'v) js_map \<Rightarrow> bool"
  and returns :: "program \<Rightarrow> (string \<Rightarrow> 'v exec) \<Rightarrow> string \<Rightarrow> 'v exec \<Rightarrow> (string, 'v) js_map \<Rightarrow> bool"
  for p beh where
  node: "has_node p u \<Longrightarrow> returns p beh u (beh u) m \<Longrightarrow> yields p beh u m"
| ret: "returns p beh u (Return m) m"
| input: "map_of (rev_at (reverseSuccess p) u) l = Some r \<Longrightarrow> yields p beh (r_from r) m'
    \<Longrightarrow> map_of m' (r_output r) = Some v \<Longrightarrow> returns p beh u (k v) m \<Longrightarrow> returns p beh u (GetInput l k) m"
| emit: "returns p beh u e m \<Longrightarrow> returns p beh u (SetExternalOutput l v e) m"

inductive_cases yieldsE: "yields p beh u m"
inductive_cases returns_ReturnE: "returns p beh u (Return n) m"
inductive_cases returns_NoReturnE: "returns p beh u NoReturn m"
inductive_cases returns_ThrowE: "returns p beh u (Throw x) m"
inductive_cases returns_GetE: "returns p beh u (GetInput l k) m"
inductive_cases returns_SetE: "returns p beh u (SetExternalOutput l v e) m"

text \<open>Blocks that keep to inputs, and inputs a block may ask for: not the loop it refers to.\<close>

primrec plain :: "'v exec \<Rightarrow> bool" where
  "plain (Return m) = True"
| "plain NoReturn = True"
| "plain (Throw e) = True"
| "plain (GetInput l k) = (\<forall>v. plain (k v))"
| "plain (SetExternalOutput l v e) = plain e"
| "plain (InvalidateOutputs us e) = False"
| "plain (SetLoopFrame f e) = False"
| "plain (GetLoopFrame w k) = False"

primrec asks_only :: "(string \<Rightarrow> bool) \<Rightarrow> 'v exec \<Rightarrow> bool" where
  "asks_only P (Return m) = True"
| "asks_only P NoReturn = True"
| "asks_only P (Throw e) = True"
| "asks_only P (GetInput l k) = (P l \<and> (\<forall>v. asks_only P (k v)))"
| "asks_only P (SetExternalOutput l v e) = asks_only P e"
| "asks_only P (InvalidateOutputs us e) = asks_only P e"
| "asks_only P (SetLoopFrame f e) = asks_only P e"
| "asks_only P (GetLoopFrame w k) = (\<forall>f. asks_only P (k f))"

definition data_input :: "program \<Rightarrow> string \<Rightarrow> string \<Rightarrow> bool" where
  "data_input p u l = (case map_of (rev_at (reverseSuccess p) u) l of None \<Rightarrow> True | Some r \<Rightarrow> r_type r \<noteq> REPEAT_REF_TYPE)"

definition keeps_off_loops :: "program \<Rightarrow> (string \<Rightarrow> 'v exec) \<Rightarrow> bool" where
  "keeps_off_loops p beh \<longleftrightarrow> (\<forall>u. asks_only (data_input p u) (beh u))"

text \<open>Deterministic: a node yields at most one set of outputs.\<close>

lemma yields_unique:
  "yields p beh u m \<Longrightarrow> yields p beh u m' \<Longrightarrow> m = m'"
  "returns p beh u e m \<Longrightarrow> returns p beh u e m' \<Longrightarrow> m = m'"
proof (induction arbitrary: m' and m' rule: yields_returns.inducts)
  case (input u l r n v k m)
  from \<open>returns p beh u (GetInput l k) m'\<close> obtain r' n' v' where r': "map_of (rev_at (reverseSuccess p) u) l = Some r'"
    "yields p beh (r_from r') n'" "map_of n' (r_output r') = Some v'" "returns p beh u (k v') m'" by (rule returns_GetE)
  have "r' = r" using r'(1) \<open>map_of (rev_at (reverseSuccess p) u) l = Some r\<close> by simp
  moreover from this have "n = n'" using r'(2) \<open>\<And>m'. yields p beh (r_from r) m' \<Longrightarrow> n = m'\<close> by simp
  ultimately have "v' = v" using r'(3) \<open>map_of n (r_output r) = Some v\<close> by simp
  then show ?case using r'(4) \<open>\<And>m'. returns p beh u (k v) m' \<Longrightarrow> m = m'\<close> by simp
next
  case (node u m)
  from \<open>yields p beh u m'\<close> have "returns p beh u (beh u) m'" by (rule yieldsE)
  then show ?case using \<open>\<And>m'. returns p beh u (beh u) m' \<Longrightarrow> m = m'\<close> by simp
next
  case (ret u m)
  from \<open>returns p beh u (Return m) m'\<close> show ?case by (rule returns_ReturnE) simp
next
  case (emit u e m l v)
  from \<open>returns p beh u (SetExternalOutput l v e) m'\<close> have "returns p beh u e m'" by (rule returns_SetE)
  then show ?case using \<open>\<And>m'. returns p beh u e m' \<Longrightarrow> m = m'\<close> by simp
qed

section \<open>Programs without cycles\<close>

definition pulls_in :: "program \<Rightarrow> string rel" where
  "pulls_in p = {(u, r_from r) |u l r. map_of (rev_at (reverseSuccess p) u) l = Some r \<and> r_type r \<noteq> REPEAT_REF_TYPE}"

text \<open>Every node's inputs are nodes, and no node pulls itself.\<close>

definition runnable :: "program \<Rightarrow> bool" where
  "runnable p \<longleftrightarrow> (\<forall>u v. (u, v) \<in> pulls_in p \<longrightarrow> has_node p u \<longrightarrow> has_node p v)
    \<and> (\<forall>u. has_node p u \<longrightarrow> (u, u) \<notin> (pulls_in p)\<^sup>+)"

definition harmless :: "run_error \<Rightarrow> bool" where
  "harmless e \<longleftrightarrow> (case e of RunStuck \<Rightarrow> False | RuntimeCycle _ \<Rightarrow> False | NodeMissing _ \<Rightarrow> False | _ \<Rightarrow> True)"

text \<open>A request that is answered leaves what is being evaluated as it was.\<close>

definition calm :: "string list \<Rightarrow> (run_error, 'x \<times> 'v run_state) result \<Rightarrow> bool" where
  "calm E res \<longleftrightarrow> (case res of Inl e \<Rightarrow> harmless e | Inr (x, st) \<Rightarrow> evaluating st = E)"

lemma calm_bind:
  assumes "calm E res" and "\<And>x st. res = Inr (x, st) \<Longrightarrow> evaluating st = E \<Longrightarrow> calm F (f (x, st))"
  shows "calm F (res_bind res f)"
  using assms by (cases res) (auto simp: calm_def)

lemma execute_calm:
  assumes "asks_only P e" and "evaluating st = E"
    and "\<And>l st. P l \<Longrightarrow> evaluating st = E \<Longrightarrow> calm E (input l st)"
  shows "calm E (execute_block input u e st)"
  using assms(1,2)
proof (induction e arbitrary: st)
  case (GetInput l k)
  show ?case unfolding execute_block.simps
  proof (rule calm_bind)
    show "calm E (input l st)" using assms(3) GetInput.prems by simp
    show "calm E (case (v, st') of (v, st) \<Rightarrow> execute_block input u (k v) st)" if "evaluating st' = E" for v st'
      using GetInput.IH [of "k v" st'] GetInput.prems that by simp
  qed
qed (auto simp: calm_def harmless_def)

lemma evaluate_calm:
  fixes st :: "'v run_state" and beh :: "string \<Rightarrow> 'v exec"
  assumes run: "runnable p" and off: "keeps_off_loops p beh"
    and "has_node p u" and "distinct (evaluating st)" and "\<And>w. w \<in> set (evaluating st) \<Longrightarrow> has_node p w \<and> (w, u) \<in> (pulls_in p)\<^sup>+"
    and "length (nodes p) < n + length (evaluating st)"
  shows "calm (evaluating st) (evaluateNode n p beh u st)"
  using assms(3-6)
proof (induction n arbitrary: u st)
  case 0
  have "length (evaluating st) = card (set (evaluating st))" using 0(2) by (simp add: distinct_card)
  also have "\<dots> \<le> card (n_uuid ` set (nodes p))" by (rule card_mono) (use 0(3) in \<open>auto simp: has_node_def\<close>)
  also have "\<dots> \<le> length (nodes p)" by (meson card_image_le card_length finite_set le_trans)
  finally show ?case using 0(4) by simp
next
  case (Suc n)
  show ?case
  proof (cases "map_of (outputMemo st) u")
    case (Some m)
    then show ?thesis by (simp add: calm_def)
  next
    case None
    have u: "u \<notin> set (evaluating st)" using Suc.prems(1,3) run by (auto simp: runnable_def)
    let ?st = "st\<lparr>evaluating := evaluating st @ [u]\<rparr>"
    have "calm (evaluating st @ [u]) (execute_block (resolveInput (evaluateNode n p beh) p u) u (beh u) ?st)"
    proof (rule execute_calm)
      show "asks_only (data_input p u) (beh u)" using off by (simp add: keeps_off_loops_def)
      fix l and st' :: "'v run_state"
      assume l: "data_input p u l" and st': "evaluating st' = evaluating st @ [u]"
      show "calm (evaluating st @ [u]) (resolveInput (evaluateNode n p beh) p u l st')"
      proof (cases "map_of (rev_at (reverseSuccess p) u) l")
        case None
        then show ?thesis by (simp add: resolveInput_def calm_def harmless_def)
      next
        case (Some r)
        then have e: "(u, r_from r) \<in> pulls_in p" using l by (auto simp: pulls_in_def data_input_def)
        have "calm (evaluating st') (evaluateNode n p beh (r_from r) st')"
        proof (rule Suc.IH)
          show "has_node p (r_from r)" using run e Suc.prems(1) by (auto simp: runnable_def)
          show "distinct (evaluating st')" using Suc.prems(2) u by (simp add: st')
          show "has_node p w \<and> (w, r_from r) \<in> (pulls_in p)\<^sup>+" if "w \<in> set (evaluating st')" for w
            using that e Suc.prems(1,3) by (auto simp: st' intro: trancl_into_trancl)
          show "length (nodes p) < n + length (evaluating st')" using Suc.prems(4) by (simp add: st')
        qed
        then show ?thesis using Some unfolding resolveInput_def
          by (auto simp: st' calm_def harmless_def split: sum.splits option.splits elim!: calm_bind intro!: calm_bind)
      qed
    qed simp
    then show ?thesis
      using None u Suc.prems(1) by (auto simp: calm_def harmless_def split: sum.splits option.splits)
  qed
qed

section \<open>Compiled programs can be run\<close>

lemma pulls_in_pulls:
  assumes inv: "script_inv g" and c: "compiled g p"
  shows "pulls_in p \<subseteq> pulls g \<inter> (UNIV \<times> set (p_Q p))"
proof
  fix x assume "x \<in> pulls_in p"
  then obtain u l r where x: "x = (u, r_from r)" "map_of (rev_at (reverseSuccess p) u) l = Some r" "r_type r \<noteq> REPEAT_REF_TYPE"
    by (auto simp: pulls_in_def)
  have wf: "blocks_wf g" and mirror: "outs g = ins g" using inv by (simp_all add: script_inv_def)
  note rv = compiledD(12) [OF c] and sub = compiledD(10) [OF c] and valid = compiledD(7) [OF c]
  obtain t where t: "t \<in> set (success p)" "feeds t = (u, l)" "rev_of t = r" using rv x(2) unfolding rev_spec_def by blast
  then obtain d where d: "d \<in> joined g (p_Q p)" "t = transition_of g (nodeIndex p) d" using sub by blast
  then have d': "d \<in> outs g" "outputUnit d \<in> set (p_Q p)" "inputUnit d \<in> set (p_Q p)" by (simp_all add: joined_def)
  obtain ty where ty: "outputType g (outputUnit d) (outputLabel d) = Some ty"
    by (rule transition_typed [OF inv d'(1) valid d'(2,3)])
  have r: "u = inputUnit d" "r_from r = outputUnit d" "r_type r = ty"
    using t(2,3) by (auto simp: d(2) feeds_def rev_of_def transition_of_def ty)
  obtain b where b: "unit_at g u = Some b" using linked_inv [OF wf mirror d'(1)] r(1) by (auto simp: linked_def)
  then have "d \<in> ins_of b" using ins_at_unit [OF wf b] d'(1) mirror r(1) by simp
  then have "d \<in> snd ` set (b_inputs b)" by (force simp: ins_of_def dest: map_of_SomeD)
  moreover have "map_of (unitById g) u = Some b" using b by (simp add: unitById_at [OF wf])
  moreover have "outputType g (outputUnit d) (outputLabel d) \<noteq> Some REPEAT_REF_TYPE" using ty r(3) x(3) by simp
  ultimately have "(u, outputUnit d) \<in> pulls g" unfolding pulls_def by blast
  then show "x \<in> pulls g \<inter> (UNIV \<times> set (p_Q p))" using x(1) r(2) d'(2) by simp
qed

lemma compiled_runnable:
  assumes inv: "script_inv g" and c: "compiled g p"
  shows "runnable p" and "has_node p u \<longleftrightarrow> u \<in> set (p_Q p)"
proof -
  have wf: "blocks_wf g" using inv by (simp add: script_inv_def)
  have node: "has_node p u \<longleftrightarrow> u \<in> set (p_Q p)" for u
    unfolding has_node_def compiled_nodes [OF wf c, symmetric] by simp
  then show "has_node p u \<longleftrightarrow> u \<in> set (p_Q p)" .
  have sub: "pulls_in p \<subseteq> pulls g \<inter> (UNIV \<times> set (p_Q p))" by (rule pulls_in_pulls [OF inv c])
  have "(u, u) \<notin> (pulls_in p)\<^sup>+" if "has_node p u" for u
  proof -
    have "(u, u) \<notin> (pulls g)\<^sup>+" using compiledD(4) [OF c] that unfolding node defects_def by blast
    moreover have "pulls_in p \<subseteq> pulls g" using sub by (rule order_trans) (rule Int_lower1)
    ultimately show ?thesis using trancl_mono [of "(u, u)" "pulls_in p" "pulls g"] by auto
  qed
  then have acyclic: "\<forall>u. has_node p u \<longrightarrow> (u, u) \<notin> (pulls_in p)\<^sup>+" by (intro allI impI)
  have "has_node p v" if "(u, v) \<in> pulls_in p" for u v using subsetD [OF sub that] by (simp add: node)
  then show "runnable p" using acyclic unfolding runnable_def by simp
qed

lemma final_states_set:
  assumes "compiled g p" and "final_states g \<noteq> []"
  shows "set (finalStates p) \<subseteq> set (p_Q p)" and "finalStates p \<noteq> []"
    and "p_head p = Some h \<Longrightarrow> h \<noteq> [] \<and> finalStates p = [h]"
proof -
  note f = compiledD(1,3,2) [OF assms(1)]
  show "set (finalStates p) \<subseteq> set (p_Q p)" unfolding f(1,2) by auto
  show "finalStates p \<noteq> []" using assms(2) f(1) by simp
  show "p_head p = Some h \<Longrightarrow> h \<noteq> [] \<and> finalStates p = [h]"
    using assms(2) unfolding f(1,3) by (auto simp: final_states_def Let_def split: if_splits)
qed

lemma compile_final: "compileVisualScript cl g = Inr p \<Longrightarrow> final_states g \<noteq> []"
  by (auto simp: compileVisualScript_def)

lemma start_calm:
  assumes "runnable p" and "keeps_off_loops p beh" and "has_node p u" and "evaluating st = []"
  shows "calm [] (evaluateNode (run_fuel p) p beh u st)"
  using evaluate_calm [OF assms(1-3), of st "run_fuel p"] assms(4) by (simp add: run_fuel_def del: evaluateNode.simps)

text \<open>
  C35. A compiled program always runs to an end: a run of the program of an edited script returns,
  whatever its blocks do (loops included), as long as no block asks for the value of a loop reference;
  it never finds a cycle or a missing node, so it fails only by an error of a block or of its inputs,
  and a run that succeeds leaves nothing half evaluated.
\<close>

theorem compiled_program_runs:
  assumes "edited g" and "compileVisualScript cl g = Inr p" and "keeps_off_loops p beh"
  shows "case run_program p beh of Inl e \<Rightarrow> harmless e | Inr (_, st) \<Rightarrow> evaluating st = []"
proof -
  have inv: "script_inv g" by (rule edited_inv [OF assms(1)])
  have c: "compiled g p" using compile_result [OF inv, of cl] assms(2) by simp
  note fin = final_states_set [OF c compile_final [OF assms(2)]]
  have ev: "calm [] (evaluateNode (run_fuel p) p beh u st)" if "u \<in> set (finalStates p)" "evaluating st = []" for u st
    by (rule start_calm [OF compiled_runnable(1) [OF inv c] assms(3)])
      (use that fin(1) compiled_runnable(2) [OF inv c] in auto)
  have fold: "calm [] (res_bind (res_fold (\<lambda>st u. res_bind (evaluateNode (run_fuel p) p beh u st) (\<lambda>(_, st). Inr st)) st us)
      (\<lambda>st. Inr (None, st)))" if "set us \<subseteq> set (finalStates p)" "evaluating st = []" for us st
    using that
  proof (induction us arbitrary: st)
    case (Cons u us)
    then show ?case using ev [of u st]
      by (cases "evaluateNode (run_fuel p) p beh u st") (auto simp: calm_def)
  qed (simp add: calm_def)
  have first: "(case p_head p of Some h \<Rightarrow> if h = [] then hd (finalStates p) else h | None \<Rightarrow> hd (finalStates p)) \<in> set (finalStates p)"
    using fin(2,3) by (auto split: option.split)
  have "evaluating start_run = []" by (simp add: start_run_def)
  then have "calm [] (run_program p beh)"
    unfolding run_program_def using fold [OF subset_refl]
    by (auto intro!: calm_bind [OF ev [OF first]] simp del: evaluateNode.simps) (simp add: calm_def)
  then show ?thesis by (simp add: calm_def)
qed

section \<open>Memory does not change the meaning\<close>

definition memo_ok :: "program \<Rightarrow> (string \<Rightarrow> 'v exec) \<Rightarrow> 'v run_state \<Rightarrow> bool" where
  "memo_ok p beh st \<longleftrightarrow> (\<forall>u m. map_of (outputMemo st) u = Some m \<longrightarrow> yields p beh u m)"

text \<open>An answer is exact: it is what \<open>P\<close> describes, and an error of a block means that nothing is.\<close>

definition exact :: "program \<Rightarrow> (string \<Rightarrow> 'v exec) \<Rightarrow> ('x \<Rightarrow> bool) \<Rightarrow> (run_error, 'x \<times> 'v run_state) result \<Rightarrow> bool" where
  "exact p beh P res \<longleftrightarrow> (case res of Inr (x, st) \<Rightarrow> P x \<and> memo_ok p beh st | Inl e \<Rightarrow> harmless e \<longrightarrow> (\<forall>x. \<not> P x))"

definition input_value :: "program \<Rightarrow> (string \<Rightarrow> 'v exec) \<Rightarrow> string \<Rightarrow> string \<Rightarrow> 'v \<Rightarrow> bool" where
  "input_value p beh u l v \<longleftrightarrow> (\<exists>r m. map_of (rev_at (reverseSuccess p) u) l = Some r \<and> yields p beh (r_from r) m
    \<and> map_of m (r_output r) = Some v)"

definition answer :: "program \<Rightarrow> (string \<Rightarrow> 'v exec) \<Rightarrow> string \<Rightarrow> 'v exec \<Rightarrow> (string, 'v) js_map option \<Rightarrow> bool" where
  "answer p beh u e out \<longleftrightarrow> (case out of Some m \<Rightarrow> returns p beh u e m | None \<Rightarrow> \<forall>m. \<not> returns p beh u e m)"

lemma returns_Get_iff:
  "returns p beh u (GetInput l k) m \<longleftrightarrow> (\<exists>v. input_value p beh u l v \<and> returns p beh u (k v) m)"
proof
  assume "returns p beh u (GetInput l k) m"
  then show "\<exists>v. input_value p beh u l v \<and> returns p beh u (k v) m"
    by (rule returns_GetE) (auto simp: input_value_def)
next
  assume "\<exists>v. input_value p beh u l v \<and> returns p beh u (k v) m"
  then show "returns p beh u (GetInput l k) m"
    by (auto simp: input_value_def intro: yields_returns.input)
qed

lemma input_value_unique: "input_value p beh u l v \<Longrightarrow> input_value p beh u l w \<Longrightarrow> v = w"
  unfolding input_value_def by (metis option.inject yields_unique(1))

lemma returns_Set_iff: "returns p beh u (SetExternalOutput l v e) m \<longleftrightarrow> returns p beh u e m"
  by (rule iffI) (erule returns_SetE, assumption, rule yields_returns.emit)

lemma returns_nothing: "\<not> returns p beh u NoReturn m" "\<not> returns p beh u (Throw x) m"
  by (rule notI, erule returns_NoReturnE) (rule notI, erule returns_ThrowE)

lemma execute_exact:
  fixes e :: "'v exec"
  assumes input: "\<And>l st. memo_ok p beh st \<Longrightarrow> exact p beh (input_value p beh u l) (input l st)"
  shows "plain e \<Longrightarrow> memo_ok p beh st \<Longrightarrow>
    (case execute_block input u e st of
       Inr (out, st') \<Rightarrow> answer p beh u e out \<and> memo_ok p beh st'
     | Inl err \<Rightarrow> harmless err \<longrightarrow> (\<forall>m. \<not> returns p beh u e m))"
proof (induction e arbitrary: st)
  case (Return m)
  then show ?case by (simp add: answer_def yields_returns.ret)
next
  case NoReturn
  have "\<not> returns p beh u NoReturn m" for m using returns_nothing(1) .
  then show ?case using NoReturn by (simp add: answer_def)
next
  case (Throw x)
  have "\<not> returns p beh u (Throw x) m" for m using returns_nothing(2) .
  then show ?case by simp
next
  case (GetInput l k)
  show ?case
  proof (cases "input l st")
    case (Inl err)
    then show ?thesis using input [OF GetInput.prems(2), of l] by (auto simp: exact_def returns_Get_iff)
  next
    case (Inr y)
    then obtain v st' where y: "input l st = Inr (v, st')" by (cases y) simp
    then have v: "input_value p beh u l v" "memo_ok p beh st'"
      using input [OF GetInput.prems(2), of l] by (simp_all add: exact_def)
    have "input_value p beh u l w \<longleftrightarrow> w = v" for w
      using v(1) input_value_unique [of p beh u l v w] by (rule_tac iffI) simp_all
    then have "returns p beh u (GetInput l k) m = returns p beh u (k v) m" for m
      unfolding returns_Get_iff by simp
    note same = this
    have ans: "answer p beh u (GetInput l k) = answer p beh u (k v)"
      by (simp add: fun_eq_iff answer_def same split: option.split)
    show ?thesis unfolding execute_block.simps y res_bind.simps prod.case same ans
      by (rule GetInput.IH) (use GetInput.prems(1) v(2) in auto)
  qed
next
  case (SetExternalOutput l v e)
  have ans: "answer p beh u (SetExternalOutput l v e) = answer p beh u e"
    by (simp add: fun_eq_iff answer_def returns_Set_iff split: option.split)
  show ?case unfolding execute_block.simps returns_Set_iff ans
    by (rule SetExternalOutput.IH) (use SetExternalOutput.prems in \<open>simp_all add: memo_ok_def\<close>)
qed simp_all

lemma evaluate_exact:
  fixes st :: "'v run_state" and beh :: "string \<Rightarrow> 'v exec"
  assumes "\<And>u. plain (beh u)" and "memo_ok p beh st"
  shows "exact p beh (yields p beh u) (evaluateNode n p beh u st)"
  using assms(2)
proof (induction n arbitrary: u st)
  case 0
  then show ?case by (simp add: exact_def harmless_def)
next
  case (Suc n)
  show ?case
  proof (cases "map_of (outputMemo st) u")
    case (Some m)
    then show ?thesis using Suc.prems by (simp add: exact_def) (simp add: memo_ok_def)
  next
    case None
    have input: "exact p beh (input_value p beh u l) (resolveInput (evaluateNode n p beh) p u l st')"
      if "memo_ok p beh st'" for l st'
    proof (cases "map_of (rev_at (reverseSuccess p) u) l")
      case None
      then show ?thesis by (simp add: resolveInput_def exact_def input_value_def)
    next
      case (Some r)
      have iv: "input_value p beh u l v \<longleftrightarrow> (\<exists>m. yields p beh (r_from r) m \<and> map_of m (r_output r) = Some v)" for v
        using Some by (simp add: input_value_def)
      have ev: "exact p beh (yields p beh (r_from r)) (evaluateNode n p beh (r_from r) st')" by (rule Suc.IH [OF that])
      show ?thesis
      proof (cases "evaluateNode n p beh (r_from r) st'")
        case (Inl e)
        then show ?thesis using Some ev by (simp add: resolveInput_def exact_def iv)
      next
        case (Inr y)
        then obtain m st2 where y: "evaluateNode n p beh (r_from r) st' = Inr (m, st2)" by (cases y) simp
        then have m: "yields p beh (r_from r) m" "memo_ok p beh st2" using ev by (simp_all add: exact_def)
        then have "input_value p beh u l v \<longleftrightarrow> map_of m (r_output r) = Some v" for v
          unfolding iv using yields_unique(1) [OF m(1)] by blast
        then show ?thesis using Some y m(2) by (simp add: resolveInput_def exact_def split: option.split)
      qed
    qed
    have node: "yields p beh u m \<longleftrightarrow> has_node p u \<and> returns p beh u (beh u) m" for m
      by (rule iffI, erule yieldsE, rule conjI, assumption, assumption) (auto intro: yields_returns.node)
    let ?st = "st\<lparr>evaluating := evaluating st @ [u]\<rparr>"
    have ok: "memo_ok p beh ?st" using Suc.prems by (simp add: memo_ok_def)
    have run: "case execute_block (resolveInput (evaluateNode n p beh) p u) u (beh u) ?st of
        Inr (out, st') \<Rightarrow> answer p beh u (beh u) out \<and> memo_ok p beh st'
      | Inl err \<Rightarrow> harmless err \<longrightarrow> (\<forall>m. \<not> returns p beh u (beh u) m)"
      by (rule execute_exact [OF _ assms(1) ok]) (rule input)
    show ?thesis
    proof (cases "u \<in> set (evaluating st) \<or> \<not> has_node p u")
      case True
      then show ?thesis using None by (auto simp: exact_def harmless_def)
    next
      case False
      show ?thesis
      proof (cases "execute_block (resolveInput (evaluateNode n p beh) p u) u (beh u) ?st")
        case (Inl e)
        then show ?thesis using None False run by (simp add: exact_def node)
      next
        case (Inr y)
        then obtain out st' where y: "execute_block (resolveInput (evaluateNode n p beh) p u) u (beh u) ?st = Inr (out, st')"
          by (cases y) simp
        then have "answer p beh u (beh u) out" "memo_ok p beh st'" using run by simp_all
        then show ?thesis using None False y
          by (auto simp: exact_def node answer_def memo_ok_def js_map.lookup_put split: option.splits)
      qed
    qed
  qed
qed

text \<open>
  C3. The runner refines the meaning of the program: for a compiled program whose blocks only read
  inputs and set outputs, evaluating a node with remembered results returns a set of outputs exactly
  when that is what the node yields by the equations of the program.
\<close>

theorem runner_refines_meaning:
  assumes "edited g" and "compileVisualScript cl g = Inr p" and "keeps_off_loops p beh"
    and "\<And>u. plain (beh u)" and "u \<in> set (p_Q p)"
  shows "(\<exists>st. evaluateNode (run_fuel p) p beh u start_run = Inr (m, st)) \<longleftrightarrow> yields p beh u m"
proof -
  have inv: "script_inv g" by (rule edited_inv [OF assms(1)])
  have c: "compiled g p" using compile_result [OF inv, of cl] assms(2) by simp
  have "calm [] (evaluateNode (run_fuel p) p beh u start_run)"
    by (rule start_calm [OF compiled_runnable(1) [OF inv c] assms(3)])
      (use assms(5) compiled_runnable(2) [OF inv c] in \<open>simp_all add: start_run_def\<close>)
  moreover have "exact p beh (yields p beh u) (evaluateNode (run_fuel p) p beh u start_run)"
    by (rule evaluate_exact [OF assms(4)]) (simp add: memo_ok_def start_run_def)
  ultimately show ?thesis
    using yields_unique(1) [of p beh u] by (auto simp: calm_def exact_def split: sum.splits)
qed

section \<open>A run\<close>

definition demo_behaviour :: "string \<Rightarrow> nat exec" where
  "demo_behaviour u = (if u = ''a'' then Return [(''value'', 7)]
    else if u = ''b'' then GetInput ''x'' (\<lambda>v. SetExternalOutput ''shown'' v (Return [])) else NoReturn)"

lemma demo_plain: "plain (demo_behaviour u)"
  by (simp add: demo_behaviour_def)

lemma demo_program:
  obtains p where "compileVisualScript demo_classes demo_script = Inr p" and "keeps_off_loops p demo_behaviour"
    and "''b'' \<in> set (p_Q p)"
proof -
  obtain p where p: "compileVisualScript demo_classes demo_script = Inr p" "p_Q p = [''a'', ''b'']"
    "map conn_of (success p) = [demo_edge]"
    using demo_compiled by (elim exE conjE)
  have inv: "script_inv demo_script" by (rule edited_inv [OF demo_edited])
  have c: "compiled demo_script p" using compile_result [OF inv, of demo_classes] p(1) by simp
  have types: "outputType demo_script ''a'' ''value'' = Some ''float''" by code_simp
  have "data_input p u l" for u l
  proof (cases "map_of (rev_at (reverseSuccess p) u) l")
    case (Some r)
    then obtain t where t: "t \<in> set (success p)" "rev_of t = r"
      using compiledD(12) [OF c] unfolding rev_spec_def by blast
    obtain d where d: "t = transition_of demo_script (nodeIndex p) d" using t(1) compiledD(10) [OF c] by blast
    then have "conn_of t = d" by (simp add: conn_of_transition)
    moreover have "conn_of t = demo_edge" using t(1) p(3) by (cases "success p") auto
    ultimately have "r_type r = ''float''" using t(2) d types by (auto simp: rev_of_def transition_of_def demo_edge_def)
    then show ?thesis using Some by (simp add: data_input_def REPEAT_REF_TYPE_def)
  qed (simp add: data_input_def)
  then have "keeps_off_loops p demo_behaviour" by (simp add: keeps_off_loops_def demo_behaviour_def)
  then show ?thesis using p that by simp
qed

theorem compiled_program_runs_witness:
  "\<exists>p. compileVisualScript demo_classes demo_script = Inr p
    \<and> (case run_program p demo_behaviour of Inl e \<Rightarrow> harmless e | Inr (_, st) \<Rightarrow> evaluating st = [])"
proof -
  obtain p where p: "compileVisualScript demo_classes demo_script = Inr p" "keeps_off_loops p demo_behaviour"
    by (rule demo_program)
  show ?thesis using compiled_program_runs [OF demo_edited p] p(1) by blast
qed

theorem runner_refines_meaning_witness:
  "\<exists>p. compileVisualScript demo_classes demo_script = Inr p
    \<and> (\<forall>m. (\<exists>st. evaluateNode (run_fuel p) p demo_behaviour ''b'' start_run = Inr (m, st)) = yields p demo_behaviour ''b'' m)"
proof -
  obtain p where p: "compileVisualScript demo_classes demo_script = Inr p" "keeps_off_loops p demo_behaviour"
    "''b'' \<in> set (p_Q p)" by (rule demo_program)
  show ?thesis using runner_refines_meaning [OF demo_edited p(1,2) demo_plain p(3)] p(1) by blast
qed

end
