(* ===== verification/TensorArena.thy ===== *)
theory TensorArena
  imports PcapEncoder JsSort
begin

text \<open>
  \<open>server/headless/SharedTensorArena.js\<close>: tensors are handed to another process through a region of
  bytes. The arena allocates space for a header and a payload, retires what is three generations old,
  and counts references to what is retained; a reader validates a reference against the header. The
  hash of \<open>node:crypto\<close> is the parameter \<open>sha\<close>; names of regions, the privacy checks of the file
  system, the asynchronous queue and the textual form of references are left out. A tensor's
  specification is given as the bytes of its identity.
\<close>

section \<open>Bytes of a region\<close>

definition le64 :: "nat \<Rightarrow> byte list" where
  "le64 n = le32 (n mod 2 ^ 32) @ le32 (n div 2 ^ 32)"

definition from_le64 :: "byte list \<Rightarrow> nat" where
  "from_le64 bs = from_le32 (take 4 bs) + 2 ^ 32 * from_le32 (drop 4 bs)"

text \<open>Writing at a position, as a file does: a gap before it is filled with zeros.\<close>

definition write_at :: "nat \<Rightarrow> byte list \<Rightarrow> byte list \<Rightarrow> byte list" where
  "write_at off bs f = take off f @ replicate (off - length f) 0 @ bs @ drop (off + length bs) f"

definition SHARED_TENSOR_MAGIC :: "byte list" where
  "SHARED_TENSOR_MAGIC = [67, 69, 86, 83, 72, 77, 49, 0]"

definition HEADER_VERSION :: nat where "HEADER_VERSION = 1"

definition HEADER_BYTES :: nat where "HEADER_BYTES = 192"

definition ALIGNMENT :: nat where "ALIGNMENT = 64"

definition GENERATIONS :: nat where "GENERATIONS = 3"

definition align :: "nat \<Rightarrow> nat" where
  "align n = (n + (ALIGNMENT - 1)) div ALIGNMENT * ALIGNMENT"

section \<open>The arena\<close>

record allocation =
  headerOffset :: nat
  allocationBytes :: nat
  al_generation :: nat
  retained :: bool
  refCount :: nat

record arena =
  sizeBytes :: nat
  environmentToken :: "byte list"
  arena_closed :: bool
  allocations :: "(nat, allocation) js_map"
  region :: "byte list"

record tensor_ref =
  offsetBytes :: int
  lengthBytes :: int
  ref_generation :: nat
  ref_sequence :: nat

datatype arena_error = TokenRequired | ArenaTooSmall | ArenaClosed | NotUint64 string
  | AllocationExhausted nat nat | HeaderTruncated | BadMagic | BadVersion | BadBounds | RegionTruncated
  | HeaderChanged | BadToken | BadIdentity | BadSpec | BadDigest

definition uint64 :: "int \<Rightarrow> string \<Rightarrow> (arena_error, nat) result" where
  "uint64 v name = (if v < 0 \<or> v > 0xFFFFFFFFFFFFFFFF then Inl (NotUint64 name) else Inr (nat v))"

text \<open>Creating an arena checks the token it is asked for; the region's own name then becomes the token.\<close>

definition create_arena :: "byte list \<Rightarrow> byte list \<Rightarrow> nat \<Rightarrow> (arena_error, arena) result" where
  "create_arena asked name requested =
    (let sz = align requested in
     if asked = [] then Inl TokenRequired
     else if \<not> sz < 2 ^ 53 \<or> sz < GENERATIONS * (HEADER_BYTES + ALIGNMENT) then Inl ArenaTooSmall
     else Inr \<lparr>sizeBytes = sz, environmentToken = name, arena_closed = False, allocations = [],
       region = replicate sz 0\<rparr>)"

definition buildHeader ::
  "(byte list \<Rightarrow> byte list) \<Rightarrow> byte list \<Rightarrow> nat \<Rightarrow> nat \<Rightarrow> byte list \<Rightarrow> byte list \<Rightarrow> byte list" where
  "buildHeader sha tok generation sequence payload spec =
    fold (\<lambda>(off, bs). write_at off bs)
      [(0, SHARED_TENSOR_MAGIC), (8, le32 HEADER_VERSION), (12, le32 HEADER_BYTES), (16, sha tok), (48, le64 generation),
       (56, le64 sequence), (64, le64 (length payload)), (72, sha spec), (104, sha payload)] (replicate HEADER_BYTES 0)"

definition retireTransientAllocations :: "nat \<Rightarrow> (nat, allocation) js_map \<Rightarrow> (nat, allocation) js_map" where
  "retireTransientAllocations g as = filter (\<lambda>(_, a). \<not> (\<not> retained a \<and> al_generation a + GENERATIONS \<le> g)) as"

fun find_gap :: "nat \<Rightarrow> nat \<Rightarrow> nat \<Rightarrow> allocation list \<Rightarrow> nat option" where
  "find_gap sz need cursor [] = (if cursor + need \<le> sz then Some cursor else None)"
| "find_gap sz need cursor (a # as) =
    (if int (headerOffset a) - int cursor \<ge> int need then Some cursor
     else find_gap sz need (max cursor (headerOffset a + allocationBytes a)) as)"

definition by_offset :: "allocation \<Rightarrow> allocation \<Rightarrow> int" where
  "by_offset l r = int (headerOffset l) - int (headerOffset r)"

definition allocate :: "nat \<Rightarrow> nat \<Rightarrow> (nat, allocation) js_map \<Rightarrow> nat option" where
  "allocate sz need as = find_gap sz need 0 (sort_by by_offset (map snd as))"

definition publishTensor ::
  "(byte list \<Rightarrow> byte list) \<Rightarrow> byte list \<Rightarrow> byte list \<Rightarrow> int \<Rightarrow> int \<Rightarrow> bool \<Rightarrow> arena
    \<Rightarrow> (arena_error, tensor_ref) result \<times> arena" where
  "publishTensor sha payload spec generation sequence keep s =
    (if arena_closed s then (Inl ArenaClosed, s)
     else case (uint64 generation ''generation'', uint64 sequence ''sequence'') of
         (Inl e, _) \<Rightarrow> (Inl e, s)
       | (_, Inl e) \<Rightarrow> (Inl e, s)
       | (Inr g, Inr q) \<Rightarrow>
           (let as = retireTransientAllocations g (allocations s); need = align (HEADER_BYTES + length payload) in
            case allocate (sizeBytes s) need as of
              None \<Rightarrow> (Inl (AllocationExhausted need (sizeBytes s)), s\<lparr>allocations := as\<rparr>)
            | Some off \<Rightarrow>
                (Inr \<lparr>offsetBytes = int (off + HEADER_BYTES), lengthBytes = int (length payload),
                   ref_generation = g, ref_sequence = q\<rparr>,
                 s\<lparr>allocations := AList.update off \<lparr>headerOffset = off, allocationBytes = need, al_generation = g,
                     retained = keep, refCount = (if keep then 1 else 0)\<rparr> as,
                   region := write_at off (buildHeader sha (environmentToken s) g q payload spec)
                     (write_at (off + HEADER_BYTES) payload (region s))\<rparr>)))"

text \<open>The header offset a reference leads to, if there can be one.\<close>

definition header_of :: "int \<Rightarrow> nat option" where
  "header_of po = (if po < int HEADER_BYTES \<or> po \<ge> 2 ^ 53 then None else Some (nat po - HEADER_BYTES))"

definition retain :: "tensor_ref \<Rightarrow> arena \<Rightarrow> bool \<times> arena" where
  "retain po s =
    (case Option.bind (header_of (offsetBytes po)) (map_of (allocations s)) of
       None \<Rightarrow> (False, s)
     | Some a \<Rightarrow>
         if \<not> retained a then (False, s)
         else (True, s\<lparr>allocations := AList.update (headerOffset a) (a\<lparr>refCount := refCount a + 1\<rparr>) (allocations s)\<rparr>))"

definition release :: "tensor_ref \<Rightarrow> arena \<Rightarrow> bool \<times> arena" where
  "release po s =
    (if arena_closed s then (False, s)
     else case header_of (offsetBytes po) of
         None \<Rightarrow> (False, s)
       | Some off \<Rightarrow>
           (case map_of (allocations s) off of
              None \<Rightarrow> (False, s)
            | Some a \<Rightarrow>
                if refCount a > 1
                then (True, s\<lparr>allocations := AList.update off (a\<lparr>refCount := refCount a - 1\<rparr>) (allocations s)\<rparr>)
                else (True, s\<lparr>allocations := AList.delete off (allocations s),
                  region := write_at off (replicate (length SHARED_TENSOR_MAGIC) 0) (region s)\<rparr>)))"

definition invalidate :: "arena \<Rightarrow> arena" where
  "invalidate s = (if arena_closed s then s else s\<lparr>region := replicate (sizeBytes s) 0, allocations := []\<rparr>)"

text \<open>Closing removes the region; the allocations stay in memory.\<close>

definition close_arena :: "arena \<Rightarrow> arena" where
  "close_arena s = (if arena_closed s then s else s\<lparr>arena_closed := True, region := []\<rparr>)"

section \<open>Reading\<close>

record header =
  h_token :: "byte list"
  h_generation :: nat
  h_sequence :: nat
  h_length :: nat
  h_spec :: "byte list"
  h_digest :: "byte list"

definition sub_bytes :: "nat \<Rightarrow> nat \<Rightarrow> byte list \<Rightarrow> byte list" where
  "sub_bytes off n bs = take n (drop off bs)"

definition parseSharedTensorHeader :: "byte list \<Rightarrow> (arena_error, header) result" where
  "parseSharedTensorHeader bs =
    (if length bs < HEADER_BYTES then Inl HeaderTruncated
     else if sub_bytes 0 8 bs \<noteq> SHARED_TENSOR_MAGIC then Inl BadMagic
     else if from_le32 (sub_bytes 8 4 bs) \<noteq> HEADER_VERSION \<or> from_le32 (sub_bytes 12 4 bs) \<noteq> HEADER_BYTES then Inl BadVersion
     else Inr \<lparr>h_token = sub_bytes 16 32 bs, h_generation = from_le64 (sub_bytes 48 8 bs),
       h_sequence = from_le64 (sub_bytes 56 8 bs), h_length = from_le64 (sub_bytes 64 8 bs),
       h_spec = sub_bytes 72 32 bs, h_digest = sub_bytes 104 32 bs\<rparr>)"

definition readExact :: "nat \<Rightarrow> nat \<Rightarrow> byte list \<Rightarrow> (arena_error, byte list) result" where
  "readExact n pos f = (if n > 0 \<and> length f < pos + n then Inl RegionTruncated else Inr (sub_bytes pos n f))"

text \<open>
  The region is read three times: the header, the payload, and the header again. A writer may run
  in between, so the three reads may see three different contents.
\<close>

definition validateSharedTensorReference ::
  "(byte list \<Rightarrow> byte list) \<Rightarrow> byte list \<Rightarrow> byte list \<Rightarrow> byte list \<Rightarrow> byte list \<Rightarrow> byte list \<Rightarrow> tensor_ref
    \<Rightarrow> (arena_error, byte list) result" where
  "validateSharedTensorReference sha tok spec f1 f2 f3 r =
    (if offsetBytes r < int HEADER_BYTES \<or> offsetBytes r \<ge> 2 ^ 53 \<or> lengthBytes r < 0 \<or> lengthBytes r \<ge> 2 ^ 53 then Inl BadBounds
     else if offsetBytes r + lengthBytes r > int (length f1) then Inl BadBounds
     else
       (let off = nat (offsetBytes r); n = nat (lengthBytes r) in
        res_bind (readExact HEADER_BYTES (off - HEADER_BYTES) f1) (\<lambda>before.
        res_bind (readExact n off f2) (\<lambda>payload.
        res_bind (readExact HEADER_BYTES (off - HEADER_BYTES) f3) (\<lambda>after.
          if before \<noteq> after then Inl HeaderChanged
          else res_bind (parseSharedTensorHeader before) (\<lambda>h.
            if h_token h \<noteq> sha tok then Inl BadToken
            else if h_generation h \<noteq> ref_generation r \<or> h_sequence h \<noteq> ref_sequence r \<or> h_length h \<noteq> n then Inl BadIdentity
            else if h_spec h \<noteq> sha spec then Inl BadSpec
            else if h_digest h \<noteq> sha payload then Inl BadDigest
            else Inr payload))))))"

section \<open>Driving an arena\<close>

datatype arena_op = Publish "byte list" "byte list" int int bool | Retain tensor_ref | Release tensor_ref | Invalidate | Close

fun arena_exec :: "(byte list \<Rightarrow> byte list) \<Rightarrow> arena \<Rightarrow> arena_op \<Rightarrow> arena" where
  "arena_exec sha s (Publish payload spec g q keep) = snd (publishTensor sha payload spec g q keep s)"
| "arena_exec sha s (Retain po) = snd (retain po s)"
| "arena_exec sha s (Release po) = snd (release po s)"
| "arena_exec sha s Invalidate = invalidate s"
| "arena_exec sha s Close = close_arena s"

section \<open>What is written is read back\<close>

lemma length_le64 [simp]: "length (le64 n) = 8"
  by (simp add: le64_def)

lemma from_le64_le64: "n < 2 ^ 64 \<Longrightarrow> from_le64 (le64 n) = n"
  by (simp add: from_le64_def le64_def from_le32_le32 less_mult_imp_div_less)

lemma length_write_at: "off + length bs \<le> length f \<Longrightarrow> length (write_at off bs f) = length f"
  by (simp add: write_at_def)

lemma nth_write_at:
  "off + length bs \<le> length f \<Longrightarrow> i < length f \<Longrightarrow>
    write_at off bs f ! i = (if off \<le> i \<and> i < off + length bs then bs ! (i - off) else f ! i)"
  by (auto simp: write_at_def nth_append min_def)

lemma sub_bytes_write_at:
  assumes "off + length bs \<le> length f"
  shows "sub_bytes off (length bs) (write_at off bs f) = bs"
    and "pos + n \<le> off \<or> off + length bs \<le> pos \<Longrightarrow> pos + n \<le> length f \<Longrightarrow> sub_bytes pos n (write_at off bs f) = sub_bytes pos n f"
  using assms by (auto simp: sub_bytes_def length_write_at nth_write_at intro!: nth_equalityI)

lemma sub_bytes_cong:
  assumes "\<And>i. pos \<le> i \<Longrightarrow> i < pos + n \<Longrightarrow> f ! i = g ! i" and "length f = length g"
  shows "sub_bytes pos n f = sub_bytes pos n g"
  using assms by (auto simp: sub_bytes_def intro!: nth_equalityI)

text \<open>Filling a zeroed buffer field by field, each right after the one before.\<close>

fun at_offsets :: "nat \<Rightarrow> byte list list \<Rightarrow> (nat \<times> byte list) list" where
  "at_offsets off [] = []"
| "at_offsets off (bs # bss) = (off, bs) # at_offsets (off + length bs) bss"

lemma write_fields:
  "length (concat bss) \<le> m \<Longrightarrow> fold (\<lambda>(off, bs). write_at off bs) (at_offsets (length pre) bss) (pre @ replicate m 0)
    = pre @ concat bss @ replicate (m - length (concat bss)) 0"
proof (induction bss arbitrary: pre m)
  case (Cons bs bss)
  have "write_at (length pre) bs (pre @ replicate m 0) = (pre @ bs) @ replicate (m - length bs) 0"
    using Cons.prems by (simp add: write_at_def)
  then show ?case
    using Cons.IH [of "m - length bs" "pre @ bs"] Cons.prems by (simp add: algebra_simps)
qed simp

text \<open>A hash of 32 bytes is all the layout needs.\<close>

definition digest32 :: "(byte list \<Rightarrow> byte list) \<Rightarrow> bool" where
  "digest32 sha \<longleftrightarrow> (\<forall>x. length (sha x) = 32)"

definition header_bytes ::
  "(byte list \<Rightarrow> byte list) \<Rightarrow> byte list \<Rightarrow> nat \<Rightarrow> nat \<Rightarrow> byte list \<Rightarrow> byte list \<Rightarrow> byte list" where
  "header_bytes sha tok g q payload spec = SHARED_TENSOR_MAGIC @ le32 HEADER_VERSION @ le32 HEADER_BYTES @ sha tok
    @ le64 g @ le64 q @ le64 (length payload) @ sha spec @ sha payload @ replicate 56 0"

lemma length_magic [simp]: "length SHARED_TENSOR_MAGIC = 8"
  by (simp add: SHARED_TENSOR_MAGIC_def)

lemma header_layout:
  assumes "digest32 sha"
  shows "buildHeader sha tok g q payload spec = header_bytes sha tok g q payload spec"
proof -
  have sha: "length (sha x) = 32" for x using assms by (simp add: digest32_def)
  let ?fields = "[SHARED_TENSOR_MAGIC, le32 HEADER_VERSION, le32 HEADER_BYTES, sha tok, le64 g, le64 q,
    le64 (length payload), sha spec, sha payload]"
  have len: "length (concat ?fields) = 136" by (simp add: sha)
  have "at_offsets 0 ?fields = [(0, SHARED_TENSOR_MAGIC), (8, le32 HEADER_VERSION), (12, le32 HEADER_BYTES), (16, sha tok),
    (48, le64 g), (56, le64 q), (64, le64 (length payload)), (72, sha spec), (104, sha payload)]"
    by (simp add: sha)
  moreover have "fold (\<lambda>(off, bs). write_at off bs) (at_offsets 0 ?fields) (replicate 192 0) = concat ?fields @ replicate (192 - 136) 0"
    using write_fields [of ?fields 192 "[]"] unfolding len by (simp del: concat.simps at_offsets.simps fold.simps)
  ultimately have "buildHeader sha tok g q payload spec = concat ?fields @ replicate (192 - 136) 0"
    unfolding buildHeader_def HEADER_BYTES_def by (simp only:)
  then show ?thesis unfolding header_bytes_def by simp
qed

lemma length_header: "digest32 sha \<Longrightarrow> length (header_bytes sha tok g q payload spec) = HEADER_BYTES"
  by (simp add: digest32_def header_bytes_def SHARED_TENSOR_MAGIC_def HEADER_BYTES_def)

lemma parse_header:
  assumes digest: "digest32 sha" and "g < 2 ^ 64" "q < 2 ^ 64" "length payload < 2 ^ 64"
  shows "parseSharedTensorHeader (header_bytes sha tok g q payload spec) = Inr \<lparr>h_token = sha tok, h_generation = g,
    h_sequence = q, h_length = length payload, h_spec = sha spec, h_digest = sha payload\<rparr>"
proof -
  have sha: "length (sha x) = 32" for x using digest by (simp add: digest32_def)
  have nums: "from_le32 (le32 HEADER_VERSION) = HEADER_VERSION" "from_le32 (le32 HEADER_BYTES) = HEADER_BYTES"
    by (simp_all add: from_le32_le32 HEADER_VERSION_def HEADER_BYTES_def)
  show ?thesis
    using length_header [of sha tok g q payload spec, OF digest] assms(2-4)
    by (simp add: parseSharedTensorHeader_def) (simp add: header_bytes_def sub_bytes_def sha nums from_le64_le64)
qed

section \<open>The layout of an arena\<close>

text \<open>Allocations lie in the region, each large enough for a header, and no two overlap.\<close>

definition laid_out :: "nat \<Rightarrow> (nat, allocation) js_map \<Rightarrow> bool" where
  "laid_out sz as \<longleftrightarrow> map_ok as \<and>
    (\<forall>i a. map_of as i = Some a \<longrightarrow> headerOffset a = i \<and> HEADER_BYTES \<le> allocationBytes a \<and> i + allocationBytes a \<le> sz) \<and>
    (\<forall>i j a b. map_of as i = Some a \<longrightarrow> map_of as j = Some b \<longrightarrow> i < j \<longrightarrow> i + allocationBytes a \<le> j)"

definition arena_inv :: "arena \<Rightarrow> bool" where
  "arena_inv s \<longleftrightarrow> sizeBytes s < 2 ^ 53 \<and> length (region s) = (if arena_closed s then 0 else sizeBytes s)
    \<and> laid_out (sizeBytes s) (allocations s)"

lemma align_ge: "n \<le> align n"
  unfolding align_def ALIGNMENT_def by linarith

interpretation offset_order: comparator_laws by_offset
  by unfold_locales (auto simp: by_offset_def)

lemma laid_out_sub:
  assumes "laid_out sz as" and "map_ok bs"
    and "\<And>i b. map_of bs i = Some b \<Longrightarrow>
      \<exists>a. map_of as i = Some a \<and> headerOffset b = headerOffset a \<and> allocationBytes b = allocationBytes a"
  shows "laid_out sz bs"
  using assms(2) unfolding laid_out_def
proof (intro conjI allI impI)
  fix i b assume "map_of bs i = Some b"
  then show "headerOffset b = i" "HEADER_BYTES \<le> allocationBytes b" "i + allocationBytes b \<le> sz"
    using assms(1,3) unfolding laid_out_def by fastforce+
next
  fix i j a b assume "map_of bs i = Some a" "map_of bs j = Some b" "i < j"
  then show "i + allocationBytes a \<le> j"
    using assms(1,3) unfolding laid_out_def by metis
qed

lemma map_of_retire:
  "map_ok as \<Longrightarrow> map_of (retireTransientAllocations g as) i =
    (case map_of as i of None \<Rightarrow> None | Some a \<Rightarrow> if retained a \<or> g < al_generation a + GENERATIONS then Some a else None)"
  unfolding retireTransientAllocations_def
proof (induction as)
  case (Cons p as)
  then have "i = fst p \<Longrightarrow> map_of as i = None" by (auto simp: map_of_eq_None_iff)
  with Cons show ?case by (cases p) (auto split: option.splits)
qed simp

lemma laid_out_retire:
  assumes "laid_out sz as"
  shows "laid_out sz (retireTransientAllocations g as)"
proof (rule laid_out_sub [OF assms])
  have ok: "map_ok as" using assms by (simp add: laid_out_def)
  then show "map_ok (retireTransientAllocations g as)"
    by (simp add: retireTransientAllocations_def distinct_map inj_on_def)
  show "\<exists>a. map_of as i = Some a \<and> headerOffset b = headerOffset a \<and> allocationBytes b = allocationBytes a"
    if "map_of (retireTransientAllocations g as) i = Some b" for i b
    using that by (auto simp: map_of_retire [OF ok] split: option.splits if_splits)
qed

text \<open>The first gap that is found lies beside every allocation; if none is found there is none.\<close>

lemma find_gap_sound:
  "find_gap sz need cursor as = Some off \<Longrightarrow> sorted_wrt (\<lambda>a b. headerOffset a \<le> headerOffset b) as \<Longrightarrow>
    \<forall>a \<in> set as. headerOffset a + allocationBytes a \<le> sz \<Longrightarrow>
    cursor \<le> off \<and> off + need \<le> sz \<and> (\<forall>a \<in> set as. off + need \<le> headerOffset a \<or> headerOffset a + allocationBytes a \<le> off)"
proof (induction as arbitrary: cursor)
  case (Cons a as)
  show ?case
  proof (cases "int need \<le> int (headerOffset a) - int cursor")
    case True
    with Cons.prems have "off = cursor" "cursor + need \<le> headerOffset a" by simp_all
    with Cons.prems show ?thesis by fastforce
  next
    case False
    with Cons.prems have "find_gap sz need (max cursor (headerOffset a + allocationBytes a)) as = Some off" by simp
    from Cons.IH [OF this] Cons.prems show ?thesis by simp
  qed
qed (simp split: if_splits)

lemma find_gap_complete:
  "find_gap sz need cursor as = None \<Longrightarrow> 0 < need \<Longrightarrow> \<forall>a \<in> set as. 0 < allocationBytes a \<Longrightarrow> cursor \<le> off \<Longrightarrow> off + need \<le> sz \<Longrightarrow>
    \<exists>a \<in> set as. headerOffset a < off + need \<and> off < headerOffset a + allocationBytes a"
proof (induction as arbitrary: cursor)
  case (Cons a as)
  show ?case
  proof (cases "headerOffset a + allocationBytes a \<le> off")
    case True
    have "find_gap sz need (max cursor (headerOffset a + allocationBytes a)) as = None"
      using Cons.prems(1) by (simp split: if_splits)
    from Cons.IH [OF this] Cons.prems True show ?thesis by simp
  next
    case False
    have "int (headerOffset a) - int cursor < int need"
      using Cons.prems(1) by (simp split: if_splits)
    with False Cons.prems(4) show ?thesis by simp
  qed
qed simp

lemma allocations_sorted:
  assumes "laid_out sz as"
  shows "sorted_wrt (\<lambda>a b. headerOffset a \<le> headerOffset b) (sort_by by_offset (map snd as))"
    and "a \<in> set (sort_by by_offset (map snd as)) \<longleftrightarrow> map_of as (headerOffset a) = Some a"
proof -
  show "sorted_wrt (\<lambda>a b. headerOffset a \<le> headerOffset b) (sort_by by_offset (map snd as))"
    using offset_order.sorted_sort_by [of "map snd as"] by (simp add: by_offset_def)
  show "a \<in> set (sort_by by_offset (map snd as)) \<longleftrightarrow> map_of as (headerOffset a) = Some a"
  proof
    assume "a \<in> set (sort_by by_offset (map snd as))"
    then obtain i where "(i, a) \<in> set as" by auto
    then have "map_of as i = Some a" using assms by (simp add: laid_out_def)
    with assms show "map_of as (headerOffset a) = Some a" by (simp add: laid_out_def)
  qed (force dest: map_of_SomeD)
qed

lemma allocate_sound:
  assumes lay: "laid_out sz as" and "allocate sz need as = Some off"
  shows "off + need \<le> sz" and "map_of as i = Some a \<Longrightarrow> off + need \<le> i \<or> i + allocationBytes a \<le> off"
proof -
  let ?as = "sort_by by_offset (map snd as)"
  have fits: "\<forall>a \<in> set ?as. headerOffset a + allocationBytes a \<le> sz"
  proof
    fix a assume "a \<in> set ?as"
    then have "map_of as (headerOffset a) = Some a" using allocations_sorted(2) [OF lay] by (simp del: set_sort_by)
    with lay show "headerOffset a + allocationBytes a \<le> sz" unfolding laid_out_def by blast
  qed
  note found = find_gap_sound [OF assms(2) [unfolded allocate_def] allocations_sorted(1) [OF lay] fits]
  show "off + need \<le> sz" using found by blast
  show "off + need \<le> i \<or> i + allocationBytes a \<le> off" if "map_of as i = Some a"
  proof -
    from that lay have "headerOffset a = i" by (simp add: laid_out_def)
    with that found allocations_sorted(2) [OF lay, of a] show ?thesis by auto
  qed
qed

lemma allocate_complete:
  assumes lay: "laid_out sz as" and "allocate sz need as = None" and "0 < need" and "off + need \<le> sz"
  shows "\<exists>i a. map_of as i = Some a \<and> i < off + need \<and> off < i + allocationBytes a"
proof -
  let ?as = "sort_by by_offset (map snd as)"
  have pos: "\<forall>a \<in> set ?as. 0 < allocationBytes a"
  proof
    fix a assume "a \<in> set ?as"
    then have "map_of as (headerOffset a) = Some a" using allocations_sorted(2) [OF lay] by (simp del: set_sort_by)
    with lay have "HEADER_BYTES \<le> allocationBytes a" unfolding laid_out_def by blast
    then show "0 < allocationBytes a" by (simp add: HEADER_BYTES_def)
  qed
  from find_gap_complete [OF assms(2) [unfolded allocate_def] assms(3) pos _ assms(4)]
  obtain a where "a \<in> set ?as" "headerOffset a < off + need" "off < headerOffset a + allocationBytes a" by blast
  then show ?thesis using allocations_sorted(2) [OF lay, of a] by (auto simp del: set_sort_by)
qed

lemma laid_out_insert:
  assumes lay: "laid_out sz as" and "off + need \<le> sz" and "HEADER_BYTES \<le> need"
    and "\<And>i a. map_of as i = Some a \<Longrightarrow> off + need \<le> i \<or> i + allocationBytes a \<le> off"
    and "headerOffset b = off" and "allocationBytes b = need"
  shows "laid_out sz (AList.update off b as)"
proof -
  have apart: "i + allocationBytes a \<le> off" if "map_of as i = Some a" "i < off" for i a
    using assms(4) [OF that(1)] that(2) by simp
  have above: "off + need \<le> i" if "map_of as i = Some a" "off < i" for i a
    using assms(4) [OF that(1)] that(2) by simp
  show ?thesis
    using lay apart above assms(2,3,5,6) unfolding laid_out_def
    by (simp add: distinct_update update_conv') blast
qed

lemma laid_out_refs:
  assumes "laid_out sz as" and "map_of as off = Some a"
  shows "laid_out sz (AList.update off (a\<lparr>refCount := n\<rparr>) as)"
  by (rule laid_out_sub [OF assms(1)])
    (use assms in \<open>auto simp: laid_out_def distinct_update update_conv' split: if_splits\<close>)

lemma laid_out_delete: "laid_out sz as \<Longrightarrow> laid_out sz (AList.delete off as)"
  by (rule laid_out_sub) (auto simp: laid_out_def distinct_delete delete_conv' split: if_splits)

text \<open>What a successful publication does, in one statement.\<close>

lemma publish_cases:
  assumes "publishTensor sha payload spec g q keep s = (Inr r, s')"
  obtains off as where "\<not> arena_closed s" and "0 \<le> g" "g < 2 ^ 64" "0 \<le> q" "q < 2 ^ 64"
    and "as = retireTransientAllocations (nat g) (allocations s)"
    and "allocate (sizeBytes s) (align (HEADER_BYTES + length payload)) as = Some off"
    and "r = \<lparr>offsetBytes = int (off + HEADER_BYTES), lengthBytes = int (length payload), ref_generation = nat g, ref_sequence = nat q\<rparr>"
    and "s' = s\<lparr>allocations := AList.update off \<lparr>headerOffset = off, allocationBytes = align (HEADER_BYTES + length payload),
        al_generation = nat g, retained = keep, refCount = (if keep then 1 else 0)\<rparr> as,
      region := write_at off (buildHeader sha (environmentToken s) (nat g) (nat q) payload spec)
        (write_at (off + HEADER_BYTES) payload (region s))\<rparr>"
  using assms unfolding publishTensor_def uint64_def by (auto simp: Let_def split: if_splits option.splits)

lemma publish_fails:
  assumes "publishTensor sha payload spec g q keep s = (Inl e, s')"
  shows "s' = s \<or> (s' = s\<lparr>allocations := retireTransientAllocations (nat g) (allocations s)\<rparr>
    \<and> e = AllocationExhausted (align (HEADER_BYTES + length payload)) (sizeBytes s)
    \<and> allocate (sizeBytes s) (align (HEADER_BYTES + length payload)) (allocations s') = None)"
  using assms unfolding publishTensor_def uint64_def by (auto simp: Let_def split: if_splits option.splits)

lemma laid_out_at:
  assumes "laid_out sz as" and "map_of as i = Some a"
  shows "headerOffset a = i" "HEADER_BYTES \<le> allocationBytes a" "i + allocationBytes a \<le> sz"
  using assms unfolding laid_out_def by blast+

lemma laid_out_apart:
  assumes "laid_out sz as" and "map_of as i = Some a" and "map_of as j = Some b" and "i \<noteq> j"
  shows "i + allocationBytes a \<le> j \<or> j + allocationBytes b \<le> i"
  using assms(4)
proof (rule linorder_neqE_nat)
  assume "i < j" with assms show ?thesis unfolding laid_out_def by blast
next
  assume "j < i" with assms show ?thesis unfolding laid_out_def by blast
qed

lemma retain_state:
  assumes "laid_out sz (allocations s)"
  shows "snd (retain po s) = s \<or> (\<exists>off a. header_of (offsetBytes po) = Some off \<and> map_of (allocations s) off = Some a \<and> retained a
    \<and> snd (retain po s) = s\<lparr>allocations := AList.update off (a\<lparr>refCount := refCount a + 1\<rparr>) (allocations s)\<rparr>)"
  unfolding retain_def
  by (cases "header_of (offsetBytes po)") (auto split: option.splits simp: laid_out_at(1) [OF assms])

lemma release_state:
  "snd (release po s) = s \<or> (\<exists>off a. \<not> arena_closed s \<and> header_of (offsetBytes po) = Some off \<and> map_of (allocations s) off = Some a \<and>
    snd (release po s) = (if refCount a > 1
      then s\<lparr>allocations := AList.update off (a\<lparr>refCount := refCount a - 1\<rparr>) (allocations s)\<rparr>
      else s\<lparr>allocations := AList.delete off (allocations s),
        region := write_at off (replicate (length SHARED_TENSOR_MAGIC) 0) (region s)\<rparr>))"
  unfolding release_def by (auto split: option.splits)

lemma length_region_publish:
  assumes "off + align (HEADER_BYTES + length payload) \<le> length f" and "digest32 sha"
  shows "length (write_at off (buildHeader sha tok g q payload spec) (write_at (off + HEADER_BYTES) payload f)) = length f"
proof -
  have "off + HEADER_BYTES + length payload \<le> length f" using assms(1) align_ge [of "HEADER_BYTES + length payload"] by linarith
  then show ?thesis by (simp add: length_write_at header_layout length_header assms(2))
qed

lemma arena_exec_inv:
  assumes sha: "digest32 sha" and inv: "arena_inv s"
  shows "arena_inv (arena_exec sha s x)"
proof (cases x)
  case (Publish payload spec g q keep)
  obtain res s' where pub: "publishTensor sha payload spec g q keep s = (res, s')" by fastforce
  show ?thesis
  proof (cases res)
    case (Inl e)
    with publish_fails [of sha payload spec g q keep s e s'] pub inv Publish show ?thesis
      by (auto simp: arena_inv_def laid_out_retire)
  next
    case (Inr r)
    show ?thesis
    proof (rule publish_cases [OF pub [unfolded Inr]])
      fix off as
      let ?need = "align (HEADER_BYTES + length payload)"
      assume op: "\<not> arena_closed s" and as: "as = retireTransientAllocations (nat g) (allocations s)"
        and found: "allocate (sizeBytes s) ?need as = Some off"
        and s': "s' = s\<lparr>allocations := AList.update off \<lparr>headerOffset = off, allocationBytes = ?need,
          al_generation = nat g, retained = keep, refCount = (if keep then 1 else 0)\<rparr> as,
          region := write_at off (buildHeader sha (environmentToken s) (nat g) (nat q) payload spec)
            (write_at (off + HEADER_BYTES) payload (region s))\<rparr>"
      have lay: "laid_out (sizeBytes s) as" using inv as by (simp add: arena_inv_def laid_out_retire)
      have size: "length (region s) = sizeBytes s" using inv op by (simp add: arena_inv_def)
      have need: "HEADER_BYTES \<le> ?need" using align_ge [of "HEADER_BYTES + length payload"] by simp
      show ?thesis
        using inv op allocate_sound [OF lay found] laid_out_insert [OF lay allocate_sound(1) [OF lay found] need]
          length_region_publish [OF allocate_sound(1) [OF lay found, folded size] sha]
        by (simp add: Publish pub s' arena_inv_def)
    qed
  qed
next
  case (Retain po)
  have lay: "laid_out (sizeBytes s) (allocations s)" using inv by (simp add: arena_inv_def)
  from retain_state [OF lay, of po] show ?thesis
  proof (elim disjE exE conjE)
    fix off a assume a: "map_of (allocations s) off = Some a"
      and s': "snd (retain po s) = s\<lparr>allocations := AList.update off (a\<lparr>refCount := refCount a + 1\<rparr>) (allocations s)\<rparr>"
    show ?thesis using inv laid_out_refs [OF lay a, of "refCount a + 1"] unfolding Retain arena_exec.simps s' by (simp add: arena_inv_def)
  qed (use inv Retain in simp)
next
  case (Release po)
  have lay: "laid_out (sizeBytes s) (allocations s)" using inv by (simp add: arena_inv_def)
  from release_state [of po s] show ?thesis
  proof (elim disjE exE conjE)
    fix off a assume op: "\<not> arena_closed s" and a: "map_of (allocations s) off = Some a"
      and s': "snd (release po s) = (if refCount a > 1
        then s\<lparr>allocations := AList.update off (a\<lparr>refCount := refCount a - 1\<rparr>) (allocations s)\<rparr>
        else s\<lparr>allocations := AList.delete off (allocations s),
          region := write_at off (replicate (length SHARED_TENSOR_MAGIC) 0) (region s)\<rparr>)"
    have "off + 8 \<le> length (region s)"
      using laid_out_at(2,3) [OF lay a] inv op by (simp add: arena_inv_def HEADER_BYTES_def)
    then have len: "length (write_at off (replicate (length SHARED_TENSOR_MAGIC) 0) (region s)) = length (region s)"
      by (simp add: length_write_at)
    show ?thesis
      using inv op laid_out_refs [OF lay a, of "refCount a - 1"] laid_out_delete [OF lay, of off] len
      unfolding Release arena_exec.simps s' by (simp add: arena_inv_def)
  qed (use inv Release in simp)
next
  case Invalidate
  with inv show ?thesis by (auto simp: invalidate_def arena_inv_def laid_out_def)
next
  case Close
  with inv show ?thesis by (auto simp: close_arena_def arena_inv_def)
qed

lemma create_arena_inv:
  assumes "create_arena asked name requested = Inr s"
  shows "arena_inv s" "environmentToken s = name"
  using assms by (auto simp: create_arena_def arena_inv_def laid_out_def Let_def split: if_splits)

interpretation tensor_arena: driven "arena_exec sha" "\<lambda>s. arena_inv s \<and> digest32 sha" for sha
  by unfold_locales (simp add: arena_exec_inv)

lemma arena_exec_token [simp]: "environmentToken (arena_exec sha s x) = environmentToken s"
proof (cases x)
  case (Publish payload spec g q keep)
  then show ?thesis by (auto simp: publishTensor_def Let_def split: sum.splits option.splits)
next
  case (Retain po)
  then show ?thesis by (auto simp: retain_def split: option.splits)
next
  case (Release po)
  then show ?thesis by (auto simp: release_def split: option.splits)
qed (simp_all add: invalidate_def close_arena_def)

lemma arena_run_token [simp]: "environmentToken (foldl (arena_exec sha) s xs) = environmentToken s"
  by (induction xs arbitrary: s) auto

section \<open>How long a tensor stays readable\<close>

text \<open>
  A tensor with \<open>n\<close> references at \<open>off\<close>: a transient one (\<open>n = 0\<close>) until a publication three
  generations on, a retained one as long as it is released fewer times than it is held.
\<close>

fun kept :: "nat \<Rightarrow> nat \<Rightarrow> bool \<Rightarrow> nat \<Rightarrow> arena_op list \<Rightarrow> bool" where
  "kept off g held n [] \<longleftrightarrow> True"
| "kept off g held n (Publish payload spec g' q keep # xs) \<longleftrightarrow> (held \<or> nat g' < g + GENERATIONS) \<and> kept off g held n xs"
| "kept off g held n (Retain po # xs) \<longleftrightarrow> kept off g held (if held \<and> header_of (offsetBytes po) = Some off then n + 1 else n) xs"
| "kept off g held n (Release po # xs) \<longleftrightarrow>
    (if header_of (offsetBytes po) = Some off then 1 < n \<and> kept off g held (n - 1) xs else kept off g held n xs)"
| "kept off g held n (Invalidate # xs) \<longleftrightarrow> False"
| "kept off g held n (Close # xs) \<longleftrightarrow> False"

definition holds :: "nat \<Rightarrow> allocation \<Rightarrow> byte list \<Rightarrow> arena \<Rightarrow> bool" where
  "holds off a bs s \<longleftrightarrow> \<not> arena_closed s \<and> map_of (allocations s) off = Some a \<and> length bs \<le> allocationBytes a
    \<and> sub_bytes off (length bs) (region s) = bs"

lemma holds_write_beside:
  assumes inv: "arena_inv s" and holds: "holds off a bs s"
    and beside: "off' + length new \<le> off \<or> off + allocationBytes a \<le> off'" and fits: "off' + length new \<le> length f"
    and f: "length f = sizeBytes s" "sub_bytes off (length bs) f = bs"
  shows "sub_bytes off (length bs) (write_at off' new f) = bs"
proof -
  have lay: "laid_out (sizeBytes s) (allocations s)" using inv by (simp add: arena_inv_def)
  have a: "map_of (allocations s) off = Some a" and len: "length bs \<le> allocationBytes a"
    using holds by (auto simp: holds_def)
  have "off + length bs \<le> length f" using laid_out_at(3) [OF lay a] len f(1) by linarith
  moreover have "off + length bs \<le> off' \<or> off' + length new \<le> off" using beside len by linarith
  ultimately show ?thesis using sub_bytes_write_at(2) [OF fits] f(2) by simp
qed

lemma holds_retire:
  assumes "arena_inv s" and "holds off a bs s" and "retained a \<or> g < al_generation a + GENERATIONS"
  shows "map_of (retireTransientAllocations g (allocations s)) off = Some a"
  using assms map_of_retire [of "allocations s" g off] by (auto simp: arena_inv_def laid_out_def holds_def)

lemma publish_beside:
  assumes sha: "digest32 sha" and inv: "arena_inv s" and holds: "holds off a bs s"
    and alive: "retained a \<or> nat g < al_generation a + GENERATIONS"
    and pub: "publishTensor sha payload spec g q keep s = (Inr r, s')"
  shows "holds off a bs s'"
proof (rule publish_cases [OF pub])
  fix new as
  let ?need = "align (HEADER_BYTES + length payload)"
  let ?head = "buildHeader sha (environmentToken s) (nat g) (nat q) payload spec"
  assume op: "\<not> arena_closed s" and as: "as = retireTransientAllocations (nat g) (allocations s)"
    and found: "allocate (sizeBytes s) ?need as = Some new"
    and s': "s' = s\<lparr>allocations := AList.update new \<lparr>headerOffset = new, allocationBytes = ?need,
      al_generation = nat g, retained = keep, refCount = (if keep then 1 else 0)\<rparr> as,
      region := write_at new ?head (write_at (new + HEADER_BYTES) payload (region s))\<rparr>"
  have lay: "laid_out (sizeBytes s) as" using inv as by (simp add: arena_inv_def laid_out_retire)
  have size: "length (region s) = sizeBytes s" using inv op by (simp add: arena_inv_def)
  have a: "map_of as off = Some a" using holds_retire [OF inv holds alive] as by simp
  have need: "HEADER_BYTES + length payload \<le> ?need" by (rule align_ge)
  have apart: "new + ?need \<le> off \<or> off + allocationBytes a \<le> new" using allocate_sound(2) [OF lay found a] .
  have fits: "new + ?need \<le> sizeBytes s" using allocate_sound(1) [OF lay found] .
  have same: "sub_bytes off (length bs) (region s) = bs" using holds by (simp add: holds_def)
  have len1: "length (write_at (new + HEADER_BYTES) payload (region s)) = sizeBytes s"
    using need fits size by (subst length_write_at) auto
  have one: "sub_bytes off (length bs) (write_at (new + HEADER_BYTES) payload (region s)) = bs"
    by (rule holds_write_beside [OF inv holds]) (use apart need fits size same in auto)
  have "sub_bytes off (length bs) (region s') = bs"
    unfolding s' by simp (rule holds_write_beside [OF inv holds],
      use apart need fits len1 one in \<open>auto simp: header_layout length_header sha\<close>)
  moreover have "new \<noteq> off" using apart need laid_out_at(2) [OF lay a] by (auto simp: HEADER_BYTES_def)
  ultimately show ?thesis using holds op a by (auto simp: holds_def s' update_conv')
qed

lemma holds_refs:
  "holds off a bs s \<Longrightarrow> holds off (a\<lparr>refCount := n\<rparr>) bs (s\<lparr>allocations := AList.update off (a\<lparr>refCount := n\<rparr>) (allocations s)\<rparr>)"
  by (simp add: holds_def update_conv')

lemma holds_other:
  "holds off a bs s \<Longrightarrow> i \<noteq> off \<Longrightarrow> holds off a bs (s\<lparr>allocations := AList.update i b (allocations s)\<rparr>)"
  by (simp add: holds_def update_conv')

lemma refs_same: "a\<lparr>refCount := refCount a\<rparr> = a"
  by simp

lemma kept_step:
  assumes sha: "digest32 sha" and inv: "arena_inv s" and holds: "holds off a bs s"
    and kept: "kept off (al_generation a) (retained a) (refCount a) (x # xs)"
  shows "\<exists>n. holds off (a\<lparr>refCount := n\<rparr>) bs (arena_exec sha s x) \<and> kept off (al_generation a) (retained a) n xs"
proof (cases x)
  case (Publish payload spec g q keep)
  have alive: "retained a \<or> nat g < al_generation a + GENERATIONS" and rest: "kept off (al_generation a) (retained a) (refCount a) xs"
    using kept Publish by auto
  obtain res s' where pub: "publishTensor sha payload spec g q keep s = (res, s')" by fastforce
  have "holds off a bs s'"
  proof (cases res)
    case (Inl e)
    with publish_fails [OF pub [unfolded Inl]] holds holds_retire [OF inv holds alive] show ?thesis
      by (auto simp: holds_def)
  next
    case (Inr r)
    show ?thesis by (rule publish_beside [OF sha inv holds alive pub [unfolded Inr]])
  qed
  then show ?thesis using rest by (intro exI [of _ "refCount a"]) (simp add: Publish pub)
next
  case (Retain po)
  have lay: "laid_out (sizeBytes s) (allocations s)" using inv by (simp add: arena_inv_def)
  have here: "map_of (allocations s) off = Some a" using holds by (simp add: holds_def)
  show ?thesis
  proof (cases "header_of (offsetBytes po) = Some off")
    case True
    then show ?thesis using kept holds here holds_refs [OF holds] laid_out_at(1) [OF lay here]
      by (cases "retained a") (auto simp: Retain retain_def intro: exI [of _ "refCount a"])
  next
    case False
    have "holds off a bs (snd (retain po s))"
      using retain_state [OF lay, of po] holds False by (auto intro: holds_other)
    then show ?thesis using kept False by (intro exI [of _ "refCount a"]) (simp add: Retain)
  qed
next
  case (Release po)
  have lay: "laid_out (sizeBytes s) (allocations s)" using inv by (simp add: arena_inv_def)
  have here: "map_of (allocations s) off = Some a" using holds by (simp add: holds_def)
  show ?thesis
  proof (cases "header_of (offsetBytes po) = Some off")
    case True
    then show ?thesis using kept holds here holds_refs [OF holds, of "refCount a - 1"]
      by (intro exI [of _ "refCount a - 1"]) (auto simp: Release release_def holds_def)
  next
    case False
    have "holds off a bs (snd (release po s))"
      using release_state [of po s]
    proof (elim disjE exE conjE)
      fix i b
      assume i: "header_of (offsetBytes po) = Some i" and b: "map_of (allocations s) i = Some b" and op: "\<not> arena_closed s"
        and s': "snd (release po s) = (if refCount b > 1
          then s\<lparr>allocations := AList.update i (b\<lparr>refCount := refCount b - 1\<rparr>) (allocations s)\<rparr>
          else s\<lparr>allocations := AList.delete i (allocations s),
            region := write_at i (replicate (length SHARED_TENSOR_MAGIC) 0) (region s)\<rparr>)"
      have other: "i \<noteq> off" using i False by auto
      have "i + 8 \<le> off \<or> off + allocationBytes a \<le> i"
        using laid_out_apart [OF lay b here other] laid_out_at(2) [OF lay b] unfolding HEADER_BYTES_def by linarith
      then have "sub_bytes off (length bs) (write_at i (replicate (length SHARED_TENSOR_MAGIC) 0) (region s)) = bs"
        using laid_out_at(2,3) [OF lay b] inv op holds
        by (intro holds_write_beside [OF inv holds]) (auto simp: arena_inv_def HEADER_BYTES_def holds_def)
      then show ?thesis using holds other by (auto simp: s' holds_def update_conv' delete_conv')
    qed (use holds in simp)
    then show ?thesis using kept False by (intro exI [of _ "refCount a"]) (simp add: Release)
  qed
qed (use kept in simp_all)

lemma kept_run:
  "digest32 sha \<Longrightarrow> arena_inv s \<Longrightarrow> holds off a bs s \<Longrightarrow> kept off (al_generation a) (retained a) (refCount a) xs \<Longrightarrow>
    \<exists>n. holds off (a\<lparr>refCount := n\<rparr>) bs (foldl (arena_exec sha) s xs)"
proof (induction xs arbitrary: s a)
  case Nil
  then show ?case by (intro exI [of _ "refCount a"]) simp
next
  case (Cons x xs)
  from kept_step [OF Cons.prems] obtain n where held: "holds off (a\<lparr>refCount := n\<rparr>) bs (arena_exec sha s x)"
    and rest: "kept off (al_generation a) (retained a) n xs" by blast
  from Cons.IH [OF Cons.prems(1) arena_exec_inv [OF Cons.prems(1,2)] held] rest show ?case by simp
qed

lemma sub_bytes_append:
  assumes "sub_bytes off (length (xs @ ys)) f = xs @ ys"
  shows "sub_bytes off (length xs) f = xs" and "sub_bytes (off + length xs) (length ys) f = ys"
    and "off + length (xs @ ys) \<le> length f \<or> xs @ ys = []"
proof -
  have eq: "take (length xs) (drop off f) @ take (length ys) (drop (off + length xs) f) = xs @ ys"
    using assms by (simp add: sub_bytes_def take_add drop_drop add.commute)
  have len: "length (xs @ ys) \<le> length f - off"
    using arg_cong [OF assms, of length] by (simp add: sub_bytes_def)
  then have short: "length (take (length xs) (drop off f)) = length xs" by simp
  from eq short show "sub_bytes off (length xs) f = xs" "sub_bytes (off + length xs) (length ys) f = ys"
    by (simp_all add: sub_bytes_def append_eq_append_conv)
  show "off + length (xs @ ys) \<le> length f \<or> xs @ ys = []"
    using len by (cases "off \<le> length f") auto
qed

text \<open>What a publication leaves at its place, and what a reader makes of it.\<close>

lemma publish_holds:
  assumes sha: "digest32 sha" and inv: "arena_inv s"
    and pub: "publishTensor sha payload spec g q keep s = (Inr r, s')"
  obtains off where "holds off \<lparr>headerOffset = off, allocationBytes = align (HEADER_BYTES + length payload),
      al_generation = nat g, retained = keep, refCount = (if keep then 1 else 0)\<rparr>
      (header_bytes sha (environmentToken s) (nat g) (nat q) payload spec @ payload) s'"
    and "r = \<lparr>offsetBytes = int (off + HEADER_BYTES), lengthBytes = int (length payload), ref_generation = nat g, ref_sequence = nat q\<rparr>"
    and "off + HEADER_BYTES + length payload < 2 ^ 53" and "nat g < 2 ^ 64" and "nat q < 2 ^ 64"
proof (rule publish_cases [OF pub])
  fix off as
  let ?need = "align (HEADER_BYTES + length payload)" and ?head = "header_bytes sha (environmentToken s) (nat g) (nat q) payload spec"
  let ?f = "write_at (off + HEADER_BYTES) payload (region s)"
  assume op: "\<not> arena_closed s" and num: "0 \<le> g" "g < 2 ^ 64" "0 \<le> q" "q < 2 ^ 64"
    and as: "as = retireTransientAllocations (nat g) (allocations s)"
    and found: "allocate (sizeBytes s) ?need as = Some off"
    and r: "r = \<lparr>offsetBytes = int (off + HEADER_BYTES), lengthBytes = int (length payload), ref_generation = nat g, ref_sequence = nat q\<rparr>"
    and s': "s' = s\<lparr>allocations := AList.update off \<lparr>headerOffset = off, allocationBytes = ?need,
      al_generation = nat g, retained = keep, refCount = (if keep then 1 else 0)\<rparr> as,
      region := write_at off (buildHeader sha (environmentToken s) (nat g) (nat q) payload spec) ?f\<rparr>"
  have lay: "laid_out (sizeBytes s) as" using inv as by (simp add: arena_inv_def laid_out_retire)
  have size: "length (region s) = sizeBytes s" "sizeBytes s < 2 ^ 53" using inv op by (simp_all add: arena_inv_def)
  have need: "HEADER_BYTES + length payload \<le> ?need" by (rule align_ge)
  have fits: "off + HEADER_BYTES + length payload \<le> length (region s)"
    using need allocate_sound(1) [OF lay found] size by linarith
  have head: "length ?head = HEADER_BYTES" by (rule length_header [OF sha])
  have len: "length ?f = length (region s)" using fits by (simp add: length_write_at)
  have fit_head: "off + length ?head \<le> length ?f" using fits head len by simp
  have top: "sub_bytes off HEADER_BYTES (write_at off ?head ?f) = ?head"
    using sub_bytes_write_at(1) [OF fit_head] head by simp
  have "sub_bytes (off + HEADER_BYTES) (length payload) (write_at off ?head ?f) = sub_bytes (off + HEADER_BYTES) (length payload) ?f"
    by (rule sub_bytes_write_at(2) [OF fit_head]) (use fits head len in simp_all)
  also have "\<dots> = payload" by (rule sub_bytes_write_at(1) [OF fits])
  finally have low: "sub_bytes (off + HEADER_BYTES) (length payload) (write_at off ?head ?f) = payload" .
  have both: "sub_bytes off (length (?head @ payload)) (write_at off ?head ?f) = ?head @ payload"
    using top low head by (simp add: sub_bytes_def take_add drop_drop add.commute)
  show thesis
  proof (rule that [OF _ r])
    show "holds off \<lparr>headerOffset = off, allocationBytes = ?need, al_generation = nat g, retained = keep,
        refCount = (if keep then 1 else 0)\<rparr> (?head @ payload) s'"
      using op both need head by (simp add: holds_def s' update_conv' header_layout [OF sha])
    show "off + HEADER_BYTES + length payload < 2 ^ 53" using fits size by simp
    show "nat g < 2 ^ 64" "nat q < 2 ^ 64" using num by simp_all
  qed
qed

lemma holds_validates:
  assumes sha: "digest32 sha" and held: "holds off a (header_bytes sha tok g q payload spec @ payload) s"
    and nums: "off + HEADER_BYTES + length payload < 2 ^ 53" "g < 2 ^ 64" "q < 2 ^ 64"
  shows "validateSharedTensorReference sha tok spec (region s) (region s) (region s)
    \<lparr>offsetBytes = int (off + HEADER_BYTES), lengthBytes = int (length payload), ref_generation = g, ref_sequence = q\<rparr> = Inr payload"
proof -
  let ?head = "header_bytes sha tok g q payload spec"
  have head: "length ?head = HEADER_BYTES" by (rule length_header [OF sha])
  have "sub_bytes off (length (?head @ payload)) (region s) = ?head @ payload" using held by (simp add: holds_def)
  from sub_bytes_append [OF this] have parts: "sub_bytes off HEADER_BYTES (region s) = ?head"
      "sub_bytes (off + HEADER_BYTES) (length payload) (region s) = payload" "off + HEADER_BYTES + length payload \<le> length (region s)"
    using head by (auto simp: HEADER_BYTES_def)
  have parse: "parseSharedTensorHeader ?head = Inr \<lparr>h_token = sha tok, h_generation = g, h_sequence = q,
      h_length = length payload, h_spec = sha spec, h_digest = sha payload\<rparr>"
    by (rule parse_header [OF sha]) (use nums in simp_all)
  have reads: "readExact HEADER_BYTES off (region s) = Inr ?head"
      "readExact (length payload) (off + HEADER_BYTES) (region s) = Inr payload"
    using parts by (auto simp: readExact_def)
  have "nat (int (off + HEADER_BYTES)) = off + HEADER_BYTES" "off + HEADER_BYTES - HEADER_BYTES = off" by simp_all
  then show ?thesis
    using nums(1) parts(3) unfolding validateSharedTensorReference_def Let_def
    by (simp add: reads parse)
qed

section \<open>Properties\<close>

text \<open>
  C13. What is published in a reachable arena is read back by its reference: after any further
  operations that leave it its place (a transient tensor until a publication three generations on, a retained
  one as long as it is released fewer times than it is held), validation returns the payload.
\<close>

theorem published_tensor_reads_back:
  assumes "\<And>x. length (sha x) = 32"
    and "create_arena asked name requested = Inr s0"
    and "publishTensor sha payload spec g q keep (foldl (arena_exec sha) s0 before) = (Inr r, s)"
    and "kept (nat (offsetBytes r) - HEADER_BYTES) (nat g) keep (if keep then 1 else 0) after"
    and "f = region (foldl (arena_exec sha) s after)"
  shows "validateSharedTensorReference sha name spec f f f r = Inr payload"
proof -
  have sha: "digest32 sha" using assms(1) by (simp add: digest32_def)
  let ?s = "foldl (arena_exec sha) s0 before"
  have inv: "arena_inv ?s" using tensor_arena.run_inv [of s0 sha before] create_arena_inv(1) [OF assms(2)] sha by simp
  have tok: "environmentToken ?s = name" using create_arena_inv(2) [OF assms(2)] by simp
  have "arena_inv s" using arena_exec_inv [OF sha inv, of "Publish payload spec g q keep"] assms(3) by simp
  show ?thesis
  proof (rule publish_holds [OF sha inv assms(3)])
    fix off
    assume held: "holds off \<lparr>headerOffset = off, allocationBytes = align (HEADER_BYTES + length payload), al_generation = nat g,
        retained = keep, refCount = (if keep then 1 else 0)\<rparr> (header_bytes sha (environmentToken ?s) (nat g) (nat q) payload spec @ payload) s"
      and r: "r = \<lparr>offsetBytes = int (off + HEADER_BYTES), lengthBytes = int (length payload), ref_generation = nat g, ref_sequence = nat q\<rparr>"
      and nums: "off + HEADER_BYTES + length payload < 2 ^ 53" "nat g < 2 ^ 64" "nat q < 2 ^ 64"
    from kept_run [OF sha \<open>arena_inv s\<close> held] assms(4) r obtain a where
      "holds off a (header_bytes sha name (nat g) (nat q) payload spec @ payload) (foldl (arena_exec sha) s after)"
      using tok by (auto simp: nat_int_add)
    from holds_validates [OF sha this nums] show ?thesis by (simp add: r assms(5))
  qed
qed

text \<open>A concrete hash for the demonstration: the first 32 bytes, padded with the length.\<close>

definition pad_hash :: "byte list \<Rightarrow> byte list" where
  "pad_hash x = take 32 (x @ replicate 32 (of_nat (length x)))"

definition demo_start :: arena where
  "demo_start = \<lparr>sizeBytes = 832, environmentToken = [65], arena_closed = False, allocations = [], region = replicate 832 0\<rparr>"

definition demo_ref :: tensor_ref where
  "demo_ref = \<lparr>offsetBytes = 192, lengthBytes = 3, ref_generation = 3, ref_sequence = 1\<rparr>"

definition demo_before :: "arena_op list" where
  "demo_before = [Publish [9] [1] 0 0 False]"

definition demo_after :: "arena_op list" where
  "demo_after = [Publish [8, 8] [1] 9 2 False, Retain demo_ref, Release demo_ref, Publish [] [1] 12 3 False]"

lemma demo_created: "create_arena [1] [65] 770 = Inr demo_start"
  by (simp add: create_arena_def align_def ALIGNMENT_def GENERATIONS_def HEADER_BYTES_def demo_start_def)

lemma demo_published:
  "fst (publishTensor pad_hash [5, 6, 7] [2] 3 1 True (foldl (arena_exec pad_hash) demo_start demo_before)) = Inr demo_ref"
  unfolding demo_before_def demo_start_def
  by (simp add: publishTensor_def uint64_def allocate_def retireTransientAllocations_def align_def ALIGNMENT_def
      GENERATIONS_def HEADER_BYTES_def demo_ref_def)

theorem published_tensor_reads_back_witness:
  "let s = snd (publishTensor pad_hash [5, 6, 7] [2] 3 1 True (foldl (arena_exec pad_hash) demo_start demo_before));
       f = region (foldl (arena_exec pad_hash) s demo_after)
   in validateSharedTensorReference pad_hash [65] [2] f f f demo_ref = Inr [5, 6, 7]"
proof -
  let ?pub = "publishTensor pad_hash [5, 6, 7] [2] 3 1 True (foldl (arena_exec pad_hash) demo_start demo_before)"
  have hash: "length (pad_hash x) = 32" for x by (simp add: pad_hash_def)
  have pub: "?pub = (Inr demo_ref, snd ?pub)" using demo_published by (metis prod.collapse)
  have kept: "kept (nat (offsetBytes demo_ref) - HEADER_BYTES) (nat 3) True (if True then 1 else 0) demo_after"
    by (simp add: demo_ref_def demo_after_def HEADER_BYTES_def header_of_def)
  show ?thesis
    unfolding Let_def by (rule published_tensor_reads_back [OF hash demo_created pub kept refl])
qed

lemma zeros_not_magic: "replicate 8 0 \<noteq> SHARED_TENSOR_MAGIC"
proof
  assume "replicate 8 0 = SHARED_TENSOR_MAGIC"
  then have "hd (replicate 8 (0 :: byte)) = 67" by (simp add: SHARED_TENSOR_MAGIC_def)
  then show False by simp
qed

text \<open>
  C36. An allocation is found by its offset alone: whatever reference is released, a newer tensor that now lies at that
  offset and is not held more than once becomes unreadable.
\<close>

theorem release_matches_offset_only:
  assumes "\<And>x. length (sha x) = 32"
    and "create_arena asked name requested = Inr s0"
    and "publishTensor sha payload spec g q keep (foldl (arena_exec sha) s0 before) = (Inr r, s)"
    and "offsetBytes stale = offsetBytes r"
    and "f = region (snd (release stale s))"
  shows "fst (release stale s) \<and> validateSharedTensorReference sha tok sp f f f r = Inl BadMagic"
proof -
  have sha: "digest32 sha" using assms(1) by (simp add: digest32_def)
  let ?s = "foldl (arena_exec sha) s0 before"
  have inv: "arena_inv ?s" using tensor_arena.run_inv [of s0 sha before] create_arena_inv(1) [OF assms(2)] sha by simp
  show ?thesis
  proof (rule publish_holds [OF sha inv assms(3)])
    fix off
    let ?a = "\<lparr>headerOffset = off, allocationBytes = align (HEADER_BYTES + length payload), al_generation = nat g,
        retained = keep, refCount = (if keep then 1 else 0)\<rparr>"
      and ?head = "header_bytes sha (environmentToken ?s) (nat g) (nat q) payload spec"
    assume held: "holds off ?a (?head @ payload) s"
      and r: "r = \<lparr>offsetBytes = int (off + HEADER_BYTES), lengthBytes = int (length payload), ref_generation = nat g, ref_sequence = nat q\<rparr>"
      and bound: "off + HEADER_BYTES + length payload < 2 ^ 53"
    have "header_of (offsetBytes stale) = Some off" using bound assms(4) r by (simp add: header_of_def nat_int_add)
    then have freed: "release stale s = (True, s\<lparr>allocations := AList.delete off (allocations s),
        region := write_at off (replicate 8 0) (region s)\<rparr>)"
      using held by (simp add: release_def holds_def)
    have head: "length ?head = HEADER_BYTES" by (rule length_header [OF sha])
    have size: "off + HEADER_BYTES + length payload \<le> length (region s)"
      using sub_bytes_append(3) [of off ?head payload "region s"] held head by (auto simp: holds_def HEADER_BYTES_def)
    then have fit: "off + length (replicate 8 (0 :: byte)) \<le> length (region s)" by (simp add: HEADER_BYTES_def)
    have f: "f = write_at off (replicate 8 0) (region s)" by (simp add: assms(5) freed)
    have len: "length f = length (region s)" unfolding f by (rule length_write_at [OF fit])
    have "sub_bytes 0 8 (sub_bytes off HEADER_BYTES f) = sub_bytes off (length (replicate 8 (0 :: byte))) f"
      by (simp add: sub_bytes_def HEADER_BYTES_def min_def)
    also have "\<dots> = replicate 8 0" unfolding f by (rule sub_bytes_write_at(1) [OF fit])
    finally have "sub_bytes 0 8 (sub_bytes off HEADER_BYTES f) \<noteq> SHARED_TENSOR_MAGIC"
      using zeros_not_magic by simp
    then have "parseSharedTensorHeader (sub_bytes off HEADER_BYTES f) = Inl BadMagic"
      using size len by (simp add: parseSharedTensorHeader_def sub_bytes_def)
    then have "validateSharedTensorReference sha tok sp f f f r = Inl BadMagic"
      using size len bound by (simp add: validateSharedTensorReference_def readExact_def r Let_def nat_int_add)
    then show ?thesis by (simp add: freed)
  qed
qed

theorem release_matches_offset_only_witness:
  "let s = snd (publishTensor pad_hash [5, 6, 7] [2] 3 1 True (foldl (arena_exec pad_hash) demo_start demo_before));
       stale = demo_ref\<lparr>ref_generation := 0, ref_sequence := 0, lengthBytes := 1\<rparr>;
       f = region (snd (release stale s))
   in fst (release stale s) \<and> validateSharedTensorReference pad_hash [65] [2] f f f demo_ref = Inl BadMagic"
proof -
  let ?pub = "publishTensor pad_hash [5, 6, 7] [2] 3 1 True (foldl (arena_exec pad_hash) demo_start demo_before)"
  have hash: "length (pad_hash x) = 32" for x by (simp add: pad_hash_def)
  have pub: "?pub = (Inr demo_ref, snd ?pub)" using demo_published by (metis prod.collapse)
  have same: "offsetBytes (demo_ref\<lparr>ref_generation := 0, ref_sequence := 0, lengthBytes := 1\<rparr>) = offsetBytes demo_ref" by simp
  show ?thesis
    unfolding Let_def by (rule release_matches_offset_only [OF hash demo_created pub same refl])
qed

end
