(* ===== verification/RoadLanes.thy ===== *)
theory RoadLanes
  imports Prelude
begin

text \<open>
  \<open>app/roads/RoadLaneModel.js\<close>: the lanes of a road, either implicit (a count, a width, a direction) or explicit
  records, their validation and canonical form, the directions and offsets of lanes, and which turns are allowed.
  Numbers are exact reals; a field that does not convert to a finite number is \<open>Num None\<close>. The texts of
  issues are left out.
\<close>

section \<open>Fields and records\<close>

datatype js_field = Absent | IsNull | Num "real option"

definition number_of :: "js_field \<Rightarrow> real option" where
  "number_of v = (case v of Absent \<Rightarrow> None | IsNull \<Rightarrow> Some 0 | Num x \<Rightarrow> x)"

definition finite_field :: "js_field \<Rightarrow> real \<Rightarrow> real" where
  "finite_field v fallback = (case number_of v of None \<Rightarrow> fallback | Some x \<Rightarrow> x)"

definition js_round :: "real \<Rightarrow> int" where
  "js_round x = \<lfloor>x + 1 / 2\<rfloor>"

datatype dir_mark = DirNone | DirNumber real | DirText string

record road_lane =
  lane_id :: "string option"
  lane_direction :: js_field
  lane_width :: js_field
  markingLeft :: "string option"

record road_edge =
  edge_id :: string
  startNodeId :: string
  endNodeId :: string
  edge_width :: js_field
  laneCount :: js_field
  bidirectional :: "bool option"
  oneWay :: "bool option"
  edge_direction :: dir_mark
  oneWayDirection :: dir_mark
  road_lanes :: "road_lane list option"

definition DEFAULT_ROAD_WIDTH :: real where "DEFAULT_ROAD_WIDTH = 7"

definition DEFAULT_LANE_COUNT :: real where "DEFAULT_LANE_COUNT = 2"

definition EPSILON :: real where "EPSILON = 1 / 10 ^ 9"

definition WIDTH_SUM_TOLERANCE :: real where "WIDTH_SUM_TOLERANCE = 1 / 10 ^ 5"

definition ROAD_MARKINGS :: "string list" where
  "ROAD_MARKINGS = [''none'', ''solid_white'', ''solid_yellow'', ''dashed_white'', ''dashed_yellow'']"

definition LANE_DIRECTIONS :: "real list" where "LANE_DIRECTIONS = [1, -1, 0]"

section \<open>Reading lanes\<close>

definition roadIsBidirectional :: "road_edge \<Rightarrow> bool" where
  "roadIsBidirectional e \<longleftrightarrow> bidirectional e \<noteq> Some False \<and> oneWay e \<noteq> Some True"

definition roadIsReversed :: "road_edge \<Rightarrow> bool" where
  "roadIsReversed e \<longleftrightarrow> edge_direction e = DirNumber (-1) \<or> edge_direction e = DirText ''reverse''
    \<or> oneWayDirection e = DirNumber (-1) \<or> oneWayDirection e = DirText ''reverse''"

definition hasExplicitRoadLanes :: "road_edge \<Rightarrow> bool" where
  "hasExplicitRoadLanes e \<longleftrightarrow> road_lanes e \<noteq> None"

definition legacyLaneCount :: "road_edge \<Rightarrow> nat" where
  "legacyLaneCount e = nat (max 1 (js_round (finite_field (laneCount e) DEFAULT_LANE_COUNT)))"

definition legacyLaneDirection :: "road_edge \<Rightarrow> nat \<Rightarrow> nat \<Rightarrow> int" where
  "legacyLaneDirection e index count =
    (if \<not> roadIsBidirectional e then (if roadIsReversed e then -1 else 1)
     else if count = 1 then 0
     else if real index < real count / 2 then 1 else -1)"

definition roadLaneCount :: "road_edge \<Rightarrow> nat" where
  "roadLaneCount e = (case road_lanes e of Some ls \<Rightarrow> max 1 (length ls) | None \<Rightarrow> legacyLaneCount e)"

definition roadWidth :: "road_edge \<Rightarrow> real" where
  "roadWidth e = max 0 (finite_field (edge_width e) DEFAULT_ROAD_WIDTH)"

text \<open>An index is first brought between \<open>0\<close> and \<open>count - 1\<close>.\<close>

definition clamp_index :: "nat \<Rightarrow> int \<Rightarrow> nat" where
  "clamp_index count index = nat (max 0 (min (int count - 1) index))"

definition roadLaneWidth :: "road_edge \<Rightarrow> int option \<Rightarrow> real" where
  "roadLaneWidth e laneIndex =
    (case (road_lanes e, laneIndex) of
       (Some ls, Some i) \<Rightarrow>
         (let j = clamp_index (length ls) i
          in max 0 (finite_field (if j < length ls then lane_width (ls ! j) else Absent) 0))
     | _ \<Rightarrow> roadWidth e / real (roadLaneCount e))"

fun decimal :: "nat \<Rightarrow> string" where
  "decimal n = (if n < 10 then [char_of (48 + n)] else decimal (n div 10) @ [char_of (48 + n mod 10)])"

declare decimal.simps [simp del]

definition laneIdForIndex :: "nat \<Rightarrow> string" where
  "laneIdForIndex i = ''lane-'' @ decimal i"

text \<open>The smallest unused id: a loop that tries one index after the other.\<close>

partial_function (option) unused_index :: "string list \<Rightarrow> nat \<Rightarrow> nat option" where
  "unused_index used i = (if laneIdForIndex i \<in> set used then unused_index used (i + 1) else Some i)"

definition id_text :: "road_lane \<Rightarrow> string" where
  "id_text l = (case lane_id l of None \<Rightarrow> [] | Some i \<Rightarrow> i)"

definition nextLaneId :: "road_lane list \<Rightarrow> string option" where
  "nextLaneId ls = map_option laneIdForIndex (unused_index (map id_text ls) 0)"

definition derivedRoadLanes :: "road_edge \<Rightarrow> road_lane list" where
  "derivedRoadLanes e =
    (let count = legacyLaneCount e; laneWidth = roadWidth e / real count
     in map (\<lambda>i. \<lparr>lane_id = Some (laneIdForIndex i), lane_direction = Num (Some (of_int (legacyLaneDirection e i count))),
          lane_width = Num (Some laneWidth), markingLeft = None\<rparr>) [0..<count])"

definition cloneRoadLane :: "road_lane \<Rightarrow> road_lane" where
  "cloneRoadLane l = \<lparr>lane_id = Some (id_text l), lane_direction = Num (number_of (lane_direction l)),
    lane_width = Num (number_of (lane_width l)), markingLeft = markingLeft l\<rparr>"

definition cloneRoadLanes :: "road_lane list \<Rightarrow> road_lane list" where
  "cloneRoadLanes ls = map cloneRoadLane ls"

definition roadLanes :: "road_edge \<Rightarrow> road_lane list" where
  "roadLanes e = (case road_lanes e of Some ls \<Rightarrow> cloneRoadLanes ls | None \<Rightarrow> derivedRoadLanes e)"

definition roadLaneId :: "road_edge \<Rightarrow> int option \<Rightarrow> string option" where
  "roadLaneId e laneIndex =
    (case laneIndex of None \<Rightarrow> None
     | Some i \<Rightarrow> if 0 \<le> i \<and> i < int (length (roadLanes e)) then lane_id (roadLanes e ! nat i) else None)"

definition roadLaneIndexOf :: "road_edge \<Rightarrow> string option \<Rightarrow> int" where
  "roadLaneIndexOf e laneId =
    (case laneId of None \<Rightarrow> -1
     | Some i \<Rightarrow> (case find (\<lambda>j. lane_id (roadLanes e ! j) = Some i) [0..<length (roadLanes e)] of None \<Rightarrow> -1 | Some j \<Rightarrow> int j))"

section \<open>Validation\<close>

datatype lane_code = LEGACY | VERSION_REQUIRED | EMPTY | ID_INVALID | DIRECTION_INVALID | SHARED_REQUIRES_SINGLE
  | DIRECTION_INTERLEAVED | WIDTH_INVALID | WIDTH_MISMATCH | COUNT_MISMATCH | BIDIRECTIONAL_MISMATCH
  | DIRECTION_MISMATCH | MARKING_INVALID | MARKING_OUTER_FORBIDDEN

datatype path_step = PathKey string | PathIndex nat

type_synonym lane_issue = "path_step list \<times> lane_code"

definition sense_forward :: "road_lane list \<Rightarrow> bool" where
  "sense_forward ls \<longleftrightarrow> (\<exists>l \<in> set ls. number_of (lane_direction l) \<in> {Some 1, Some 0})"

definition sense_backward :: "road_lane list \<Rightarrow> bool" where
  "sense_backward ls \<longleftrightarrow> (\<exists>l \<in> set ls. number_of (lane_direction l) \<in> {Some (-1), Some 0})"

definition sumLaneWidths :: "road_lane list \<Rightarrow> real" where
  "sumLaneWidths ls = foldl (\<lambda>total l. total + finite_field (lane_width l) 0) 0 ls"

definition direction_ok :: "road_lane \<Rightarrow> bool" where
  "direction_ok l \<longleftrightarrow> (case number_of (lane_direction l) of None \<Rightarrow> False | Some d \<Rightarrow> d \<in> set LANE_DIRECTIONS)"

definition one_lane_issues :: "nat \<Rightarrow> nat \<Rightarrow> string list \<Rightarrow> road_lane \<Rightarrow> lane_issue list" where
  "one_lane_issues n i ids l =
    (let here = \<lambda>k. [PathKey ''lanes'', PathIndex i, PathKey k] in
     (if id_text l = [] \<or> id_text l \<in> set ids then [(here ''id'', ID_INVALID)] else [])
     @ (if \<not> direction_ok l then [(here ''direction'', DIRECTION_INVALID)]
        else if number_of (lane_direction l) = Some 0 \<and> n > 1 then [(here ''direction'', SHARED_REQUIRES_SINGLE)] else [])
     @ (case number_of (lane_width l) of None \<Rightarrow> [(here ''width'', WIDTH_INVALID)]
        | Some w \<Rightarrow> if w \<le> EPSILON then [(here ''width'', WIDTH_INVALID)] else [])
     @ (case markingLeft l of None \<Rightarrow> []
        | Some m \<Rightarrow> (if m \<notin> set ROAD_MARKINGS then [(here ''markingLeft'', MARKING_INVALID)] else [])
            @ (if i + 1 = n then [(here ''markingLeft'', MARKING_OUTER_FORBIDDEN)] else [])))"

fun lane_issues :: "nat \<Rightarrow> nat \<Rightarrow> string list \<Rightarrow> road_lane list \<Rightarrow> lane_issue list" where
  "lane_issues n i ids [] = []"
| "lane_issues n i ids (l # ls) = one_lane_issues n i ids l @ lane_issues n (i + 1) (id_text l # ids) ls"

fun direction_changes :: "road_lane list \<Rightarrow> nat" where
  "direction_changes (k # l # ls) =
    (if number_of (lane_direction l) \<noteq> number_of (lane_direction k) then 1 else 0) + direction_changes (l # ls)"
| "direction_changes _ = 0"

definition validateExplicitLanes :: "road_edge \<Rightarrow> road_lane list \<Rightarrow> nat option \<Rightarrow> lane_issue list" where
  "validateExplicitLanes e ls geometryVersion =
    (let version = (case geometryVersion of None \<Rightarrow> [] | Some v \<Rightarrow> if v \<noteq> 2 then [([PathKey ''lanes''], VERSION_REQUIRED)] else []) in
     if ls = [] then version @ [([PathKey ''lanes''], EMPTY)]
     else
       let issues = version @ lane_issues (length ls) 0 [] ls
           @ (if list_all direction_ok ls \<and> direction_changes ls > 1 then [([PathKey ''lanes''], DIRECTION_INTERLEAVED)] else [])
       in if issues \<noteq> [] then issues
          else
            (if \<bar>roadWidth e - sumLaneWidths ls\<bar> > WIDTH_SUM_TOLERANCE then [([PathKey ''width''], WIDTH_MISMATCH)] else [])
            @ (case laneCount e of Absent \<Rightarrow> [] | IsNull \<Rightarrow> []
               | Num x \<Rightarrow> if map_option js_round x \<noteq> Some (int (length ls)) then [([PathKey ''laneCount''], COUNT_MISMATCH)] else [])
            @ (let both = sense_forward (cloneRoadLanes ls) \<and> sense_backward (cloneRoadLanes ls) in
               if roadIsBidirectional e \<noteq> both then [([PathKey ''bidirectional''], BIDIRECTIONAL_MISMATCH)]
               else if \<not> both \<and> roadIsReversed e = sense_forward (cloneRoadLanes ls)
               then [([PathKey ''direction''], DIRECTION_MISMATCH)] else []))"

definition is_integer :: "real \<Rightarrow> bool" where
  "is_integer x \<longleftrightarrow> of_int \<lfloor>x\<rfloor> = x"

definition validateRoadLaneLayout :: "road_edge \<Rightarrow> nat option \<Rightarrow> lane_issue list" where
  "validateRoadLaneLayout e geometryVersion =
    (case road_lanes e of
       Some ls \<Rightarrow> validateExplicitLanes e ls geometryVersion
     | None \<Rightarrow>
         (let rawCount = finite_field (laneCount e) DEFAULT_LANE_COUNT in
          (if \<not> is_integer rawCount \<or> rawCount < 1 then [([], LEGACY)]
           else if roadIsBidirectional e \<and> rawCount > 1 \<and> \<lfloor>rawCount\<rfloor> mod 2 \<noteq> 0 then [([], LEGACY)] else [])
          @ (if roadWidth e \<le> EPSILON then [([], LEGACY)] else [])))"

section \<open>Canonical form\<close>

definition lanesEqualDerived :: "road_edge \<Rightarrow> road_lane list \<Rightarrow> bool" where
  "lanesEqualDerived e ls \<longleftrightarrow>
    (let derived = derivedRoadLanes e in
     length ls = length derived \<and>
     list_all2 (\<lambda>l d. id_text l = id_text d \<and> number_of (lane_direction l) \<noteq> None
         \<and> number_of (lane_direction l) = number_of (lane_direction d)
         \<and> (case number_of (lane_width l) of None \<Rightarrow> False | Some w \<Rightarrow> \<bar>w - finite_field (lane_width d) 0\<bar> \<le> EPSILON)
         \<and> markingLeft l = None) ls derived)"

definition normalizeRoadLanes :: "road_edge \<Rightarrow> road_edge" where
  "normalizeRoadLanes e =
    (case road_lanes e of None \<Rightarrow> e
     | Some stored \<Rightarrow>
         (let ls = cloneRoadLanes stored; e1 = e\<lparr>road_lanes := Some ls\<rparr> in
          if ls = [] then e1
          else
            let e2 = e1\<lparr>edge_width := Num (Some (sumLaneWidths ls)), laneCount := Num (Some (real (length ls)))\<rparr>;
                e3 = (if sense_forward ls \<and> sense_backward ls
                  then e2\<lparr>bidirectional := Some True, oneWay := None, edge_direction := DirNone, oneWayDirection := DirNone\<rparr>
                  else e2\<lparr>bidirectional := Some False, edge_direction := DirNumber (if sense_forward ls then 1 else -1),
                    oneWay := None, oneWayDirection := DirNone\<rparr>)
            in if lanesEqualDerived e3 ls then e3\<lparr>road_lanes := None\<rparr> else e3))"

definition num_diff :: "real \<Rightarrow> real option \<Rightarrow> real option" where
  "num_diff x y = map_option (\<lambda>z. x - z) y"

definition num_sum :: "real option \<Rightarrow> real option \<Rightarrow> real option" where
  "num_sum x y = (case (x, y) of (Some a, Some b) \<Rightarrow> Some (a + b) | _ \<Rightarrow> None)"

fun scale_lanes :: "real \<Rightarrow> real \<Rightarrow> real option \<Rightarrow> road_lane list \<Rightarrow> road_lane list" where
  "scale_lanes factor target running [] = []"
| "scale_lanes factor target running [l] = [l\<lparr>lane_width := Num (num_diff target running)\<rparr>]"
| "scale_lanes factor target running (l # k # ls) =
    (let w = map_option (\<lambda>x. x * factor) (number_of (lane_width l))
     in l\<lparr>lane_width := Num w\<rparr> # scale_lanes factor target (num_sum running w) (k # ls))"

definition scaleRoadLanesToWidth :: "road_lane list \<Rightarrow> js_field \<Rightarrow> road_lane list" where
  "scaleRoadLanesToWidth ls targetWidth =
    (let source = cloneRoadLanes ls; sum = sumLaneWidths source; target = max 0 (finite_field targetWidth sum) in
     if source = [] \<or> sum \<le> EPSILON then source else scale_lanes (target / sum) target (Some 0) source)"

section \<open>Offsets, directions and turns\<close>

definition laneCenterRightOffset :: "road_edge \<Rightarrow> int \<Rightarrow> real" where
  "laneCenterRightOffset e laneIndex =
    (let index = clamp_index (roadLaneCount e) laneIndex in
     if hasExplicitRoadLanes e
     then foldl (\<lambda>offset lane. offset - roadLaneWidth e (Some (int lane))) (roadWidth e * (1 / 2)) [0..<index]
       - roadLaneWidth e (Some (int index)) * (1 / 2)
     else roadWidth e * (1 / 2) - roadLaneWidth e None * (real index + 1 / 2))"

definition laneDirections :: "road_edge \<Rightarrow> int \<Rightarrow> int list" where
  "laneDirections e laneIndex =
    (let index = clamp_index (roadLaneCount e) laneIndex in
     case road_lanes e of
       Some ls \<Rightarrow>
         (let d = (if index < length ls then number_of (lane_direction (ls ! index)) else None) in
          if d = Some 0 then [1, -1] else if d = Some (-1) then [-1] else [1])
     | None \<Rightarrow>
         if \<not> roadIsBidirectional e then [if roadIsReversed e then -1 else 1]
         else if roadLaneCount e = 1 then [1, -1]
         else [if real index < real (roadLaneCount e) / 2 then 1 else -1])"

definition legalLaneIndices :: "road_edge \<Rightarrow> int \<Rightarrow> nat list" where
  "legalLaneIndices e direction =
    (let d = (if direction = -1 then -1 else 1)
     in filter (\<lambda>i. d \<in> set (laneDirections e (int i))) [0..<roadLaneCount e])"

definition edgeAllowsArrivalAtNode :: "road_edge \<Rightarrow> string \<Rightarrow> bool" where
  "edgeAllowsArrivalAtNode e v \<longleftrightarrow>
    (if startNodeId e \<noteq> v \<and> endNodeId e \<noteq> v then False
     else legalLaneIndices e (if endNodeId e = v then 1 else -1) \<noteq> [])"

definition edgeAllowsDepartureFromNode :: "road_edge \<Rightarrow> string \<Rightarrow> bool" where
  "edgeAllowsDepartureFromNode e v \<longleftrightarrow>
    (if startNodeId e \<noteq> v \<and> endNodeId e \<noteq> v then False
     else legalLaneIndices e (if startNodeId e = v then 1 else -1) \<noteq> [])"

definition rightmostLegalLaneIndex :: "road_edge \<Rightarrow> int \<Rightarrow> nat option" where
  "rightmostLegalLaneIndex e direction =
    (let ls = legalLaneIndices e direction in
     if ls = [] then None else if direction = -1 then Some (last ls) else Some (hd ls))"

definition nearest_step :: "road_edge \<Rightarrow> real \<Rightarrow> (nat \<times> real) option \<Rightarrow> nat \<Rightarrow> (nat \<times> real) option" where
  "nearest_step e desired best i =
    (let d = \<bar>laneCenterRightOffset e (int i) - desired\<bar> in
     case best of None \<Rightarrow> Some (i, d)
     | Some (j, dj) \<Rightarrow> if d < dj - EPSILON \<or> (\<bar>d - dj\<bar> \<le> EPSILON \<and> i < j) then Some (i, d) else best)"

definition nearestLaneIndexForOffset :: "road_edge \<Rightarrow> js_field \<Rightarrow> nat list option \<Rightarrow> nat option" where
  "nearestLaneIndexForOffset e rightOffset candidates =
    map_option fst (foldl (nearest_step e (finite_field rightOffset 0)) None
      (case candidates of Some ls \<Rightarrow> ls | None \<Rightarrow> [0..<roadLaneCount e]))"

definition nearestLegalLaneIndex :: "road_edge \<Rightarrow> int \<Rightarrow> int option \<Rightarrow> js_field \<Rightarrow> nat option" where
  "nearestLegalLaneIndex e direction preferredLaneIndex preferredRightOffset =
    (let legal = legalLaneIndices e direction in
     if legal = [] then None
     else case preferredLaneIndex of
         Some i \<Rightarrow> if i \<in> int ` set legal then Some (nat i)
           else nearestLaneIndexForOffset e (Num (Some (laneCenterRightOffset e i))) (Some legal)
       | None \<Rightarrow> nearestLaneIndexForOffset e
           (Num (Some (finite_field preferredRightOffset
             (laneCenterRightOffset e (int (the (rightmostLegalLaneIndex e direction))))))) (Some legal))"

record point3 =
  px :: real
  py :: real
  pz :: real

definition rightNormalXZ :: "point3 \<Rightarrow> point3 \<Rightarrow> real \<times> real" where
  "rightNormalXZ a b =
    (let dx = px b - px a; dz = pz b - pz a; len = sqrt (dx ^ 2 + dz ^ 2)
     in if len \<le> EPSILON then (0, 0) else (- dz / len, dx / len))"

definition signedRightOffset :: "point3 \<Rightarrow> point3 \<Rightarrow> point3 \<Rightarrow> real" where
  "signedRightOffset p a b = (let n = rightNormalXZ a b in (px p - px a) * fst n + (pz p - pz a) * snd n)"

definition offsetRoadPoint :: "point3 \<Rightarrow> point3 \<Rightarrow> point3 \<Rightarrow> real \<Rightarrow> point3" where
  "offsetRoadPoint p a b rightOffset =
    (let n = rightNormalXZ a b in \<lparr>px = px p + fst n * rightOffset, py = py p, pz = pz p + snd n * rightOffset\<rparr>)"

definition laneCenterPoint :: "point3 \<Rightarrow> point3 \<Rightarrow> point3 \<Rightarrow> road_edge \<Rightarrow> int \<Rightarrow> point3" where
  "laneCenterPoint p a b e laneIndex = offsetRoadPoint p a b (laneCenterRightOffset e laneIndex)"

record lane_divider =
  dividerIndex :: nat
  rightOffset :: real
  opposing :: bool
  rightLaneId :: string
  leftLaneId :: string
  divider_marking :: "string option"

definition lane_name :: "road_edge \<Rightarrow> nat \<Rightarrow> string" where
  "lane_name e i =
    (case road_lanes e of
       Some ls \<Rightarrow> if i < length ls then id_text (ls ! i) else laneIdForIndex i
     | None \<Rightarrow> laneIdForIndex i)"

fun divider_loop :: "road_edge \<Rightarrow> real \<Rightarrow> nat list \<Rightarrow> lane_divider list" where
  "divider_loop e cumulative [] = []"
| "divider_loop e cumulative (d # ds) =
    (let right = laneDirections e (int d - 1); left = laneDirections e (int d);
         cumulative' = cumulative + (if hasExplicitRoadLanes e then roadLaneWidth e (Some (int d - 1)) else 0)
     in \<lparr>dividerIndex = d,
          rightOffset = (if hasExplicitRoadLanes e then roadWidth e * (1 / 2) - cumulative'
            else roadWidth e * (1 / 2) - roadLaneWidth e None * real d),
          opposing = \<not> list_ex (\<lambda>x. x \<in> set left) right,
          rightLaneId = lane_name e (d - 1), leftLaneId = lane_name e d,
          divider_marking = (case road_lanes e of
            Some ls \<Rightarrow> if d - 1 < length ls then markingLeft (ls ! (d - 1)) else None | None \<Rightarrow> None)\<rparr>
        # divider_loop e cumulative' ds)"

definition laneDividerDescriptors :: "road_edge \<Rightarrow> lane_divider list" where
  "laneDividerDescriptors e = divider_loop e 0 [1..<roadLaneCount e]"

text \<open>Turns: a rule for the movement decides, otherwise only a turn back needs a dead end.\<close>

record turn_rule =
  r_node :: string
  r_from :: string
  r_to :: string
  r_allowed :: bool

definition movementDefaultAllowed :: "nat \<Rightarrow> string option \<Rightarrow> string option \<Rightarrow> bool" where
  "movementDefaultAllowed nodeDegree fromEdgeId toEdgeId =
    (if fromEdgeId \<in> {None, Some []} \<or> toEdgeId \<in> {None, Some []} then True
     else if fromEdgeId \<noteq> toEdgeId then True else nodeDegree \<le> 1)"

definition movementRuleKey :: "string \<Rightarrow> string \<Rightarrow> string \<Rightarrow> string" where
  "movementRuleKey v a b = v @ [CHR 0x00] @ a @ [CHR 0x00] @ b"

definition movementAllowed :: "string \<Rightarrow> string option \<Rightarrow> string option \<Rightarrow> nat \<Rightarrow> turn_rule list \<Rightarrow> bool" where
  "movementAllowed v fromEdgeId toEdgeId nodeDegree rules =
    (if fromEdgeId \<in> {None, Some []} \<or> toEdgeId \<in> {None, Some []} then True
     else case find (\<lambda>r. r_node r = v \<and> Some (r_from r) = fromEdgeId \<and> Some (r_to r) = toEdgeId) rules of
         Some r \<Rightarrow> r_allowed r
       | None \<Rightarrow> movementDefaultAllowed nodeDegree fromEdgeId toEdgeId)"

section \<open>Facts about lanes\<close>

lemma number_of_Num [simp]: "number_of (Num x) = x"
  by (simp add: number_of_def)

lemma finite_field_Num [simp]: "finite_field (Num (Some x)) d = x"
  by (simp add: finite_field_def)

lemma js_round_nat [simp]: "js_round (real n) = int n"
  by (simp add: js_round_def floor_eq_iff)

lemma clamp_index_in [simp]: "i < n \<Longrightarrow> clamp_index n (int i) = i"
  by (simp add: clamp_index_def)

lemma clone_fields [simp]:
  "id_text (cloneRoadLane l) = id_text l" "number_of (lane_direction (cloneRoadLane l)) = number_of (lane_direction l)"
  "number_of (lane_width (cloneRoadLane l)) = number_of (lane_width l)" "markingLeft (cloneRoadLane l) = markingLeft l"
  by (simp_all add: cloneRoadLane_def id_text_def)

lemma clone_direction_ok [simp]: "direction_ok (cloneRoadLane l) = direction_ok l"
  by (simp add: direction_ok_def)

lemma lane_issues_clone [simp]: "lane_issues n i ids (cloneRoadLanes ls) = lane_issues n i ids ls"
  by (induction ls arbitrary: i ids) (simp_all add: cloneRoadLanes_def one_lane_issues_def)

lemma direction_changes_clone [simp]: "direction_changes (cloneRoadLanes ls) = direction_changes ls"
  by (induction ls rule: direction_changes.induct) (simp_all add: cloneRoadLanes_def)

lemma senses_clone [simp]:
  "sense_forward (cloneRoadLanes ls) = sense_forward ls" "sense_backward (cloneRoadLanes ls) = sense_backward ls"
  by (simp_all add: sense_forward_def sense_backward_def cloneRoadLanes_def)

lemma clone_list [simp]: "length (cloneRoadLanes ls) = length ls" "cloneRoadLanes ls = [] \<longleftrightarrow> ls = []"
  "i < length ls \<Longrightarrow> cloneRoadLanes ls ! i = cloneRoadLane (ls ! i)" "list_all direction_ok (cloneRoadLanes ls) = list_all direction_ok ls"
  by (simp_all add: cloneRoadLanes_def list_all_iff)

lemma sumLaneWidths_sum: "sumLaneWidths ls = sum_list (map (\<lambda>l. finite_field (lane_width l) 0) ls)"
proof -
  have "foldl (\<lambda>total l. total + finite_field (lane_width l) 0) a ls = a + sum_list (map (\<lambda>l. finite_field (lane_width l) 0) ls)" for a
    by (induction ls arbitrary: a) simp_all
  then show ?thesis by (simp add: sumLaneWidths_def)
qed

text \<open>What a layout without lane issues says of every lane.\<close>

lemma one_lane_fine:
  assumes "one_lane_issues n i ids l = []"
  shows "direction_ok l" and "\<exists>w. number_of (lane_width l) = Some w \<and> EPSILON < w"
    and "1 < n \<Longrightarrow> number_of (lane_direction l) \<noteq> Some 0"
  using assms by (auto simp: one_lane_issues_def Let_def split: if_splits option.splits)

lemma lanes_fine:
  assumes "lane_issues n i ids ls = []" and "l \<in> set ls"
  shows "direction_ok l" and "\<exists>w. number_of (lane_width l) = Some w \<and> EPSILON < w"
    and "1 < n \<Longrightarrow> number_of (lane_direction l) \<noteq> Some 0"
proof -
  have "\<exists>i ids. one_lane_issues n i ids l = []"
    using assms by (induction ls arbitrary: i ids) auto
  then show "direction_ok l" "\<exists>w. number_of (lane_width l) = Some w \<and> EPSILON < w"
    "1 < n \<Longrightarrow> number_of (lane_direction l) \<noteq> Some 0"
    using one_lane_fine by blast+
qed

lemma sum_widths_large:
  assumes "lane_issues n i ids ls = []" and "ls \<noteq> []"
  shows "EPSILON < sumLaneWidths (cloneRoadLanes ls)"
proof -
  have each: "EPSILON < finite_field (lane_width l) 0" if "l \<in> set (cloneRoadLanes ls)" for l
    using that lanes_fine(2) [OF assms(1)] by (fastforce simp: cloneRoadLanes_def finite_field_def)
  have pos: "0 < EPSILON" by (simp add: EPSILON_def)
  obtain k ks where ks: "cloneRoadLanes ls = k # ks" using assms(2) by (cases "cloneRoadLanes ls") auto
  have "0 \<le> sum_list (map (\<lambda>l. finite_field (lane_width l) 0) ks)"
    using each pos ks by (intro sum_list_nonneg) force
  moreover have "EPSILON < finite_field (lane_width k) 0" using each ks by simp
  ultimately show ?thesis by (simp add: sumLaneWidths_sum ks)
qed

text \<open>The canonical form, before it is decided whether the records can be dropped.\<close>

definition explicit_form :: "road_edge \<Rightarrow> road_lane list \<Rightarrow> road_edge" where
  "explicit_form e ls =
    (let e2 = e\<lparr>road_lanes := Some ls, edge_width := Num (Some (sumLaneWidths ls)), laneCount := Num (Some (real (length ls)))\<rparr>
     in if sense_forward ls \<and> sense_backward ls
        then e2\<lparr>bidirectional := Some True, oneWay := None, edge_direction := DirNone, oneWayDirection := DirNone\<rparr>
        else e2\<lparr>bidirectional := Some False, edge_direction := DirNumber (if sense_forward ls then 1 else -1),
          oneWay := None, oneWayDirection := DirNone\<rparr>)"

lemma normalize_cases:
  assumes "road_lanes e = Some ls" and "ls \<noteq> []"
  shows "normalizeRoadLanes e = (let e3 = explicit_form e (cloneRoadLanes ls)
    in if lanesEqualDerived e3 (cloneRoadLanes ls) then e3\<lparr>road_lanes := None\<rparr> else e3)"
  using assms by (simp add: normalizeRoadLanes_def explicit_form_def Let_def)

lemma explicit_form_fields [simp]:
  "road_lanes (explicit_form e ls) = Some ls" "edge_width (explicit_form e ls) = Num (Some (sumLaneWidths ls))"
  "laneCount (explicit_form e ls) = Num (Some (real (length ls)))"
  "roadIsBidirectional (explicit_form e ls) \<longleftrightarrow> sense_forward ls \<and> sense_backward ls"
  "roadIsReversed (explicit_form e ls) \<longleftrightarrow> \<not> sense_forward ls"
  by (auto simp: explicit_form_def Let_def roadIsBidirectional_def roadIsReversed_def)

lemma explicit_form_valid:
  assumes "ls \<noteq> []" and fine: "lane_issues (length ls) 0 [] ls = []" and "direction_changes ls \<le> 1"
  shows "validateRoadLaneLayout (explicit_form e (cloneRoadLanes ls)) None = []"
proof -
  have "EPSILON < sumLaneWidths (cloneRoadLanes ls)" using sum_widths_large [OF fine assms(1)] .
  then have pos: "0 < sumLaneWidths (cloneRoadLanes ls)" by (simp add: EPSILON_def)
  have clone2: "cloneRoadLanes (cloneRoadLanes ls) = cloneRoadLanes ls"
    by (simp add: cloneRoadLanes_def) (simp add: cloneRoadLane_def id_text_def)
  have "roadWidth (explicit_form e (cloneRoadLanes ls)) = sumLaneWidths (cloneRoadLanes ls)"
    using pos by (simp add: roadWidth_def)
  then show ?thesis
    using assms by (simp add: validateRoadLaneLayout_def validateExplicitLanes_def clone2 WIDTH_SUM_TOLERANCE_def Let_def)
qed

lemma directions_explicit:
  "road_lanes e = Some ls \<Longrightarrow> i < length ls \<Longrightarrow> laneDirections e (int i) =
    (if number_of (lane_direction (ls ! i)) = Some 0 then [1, -1]
     else if number_of (lane_direction (ls ! i)) = Some (-1) then [-1] else [1])"
  using clamp_index_in [of i "length ls"] by (auto simp: laneDirections_def roadLaneCount_def Let_def max_def)

lemma directions_implicit:
  "road_lanes e = None \<Longrightarrow> i < legacyLaneCount e \<Longrightarrow> laneDirections e (int i) =
    (if legacyLaneDirection e i (legacyLaneCount e) = 0 then [1, -1]
     else if legacyLaneDirection e i (legacyLaneCount e) = -1 then [-1] else [1])"
  by (simp add: laneDirections_def roadLaneCount_def legacyLaneDirection_def Let_def)

lemma legacy_direction_cong:
  "roadIsBidirectional e = roadIsBidirectional e' \<Longrightarrow> roadIsReversed e = roadIsReversed e' \<Longrightarrow>
    legacyLaneDirection e i n = legacyLaneDirection e' i n"
  by (simp add: legacyLaneDirection_def)

lemma lanesEqualDerivedD:
  assumes "lanesEqualDerived e ls" and "i < length ls"
  shows "length ls = legacyLaneCount e"
    and "number_of (lane_direction (ls ! i)) = Some (of_int (legacyLaneDirection e i (legacyLaneCount e)))"
proof -
  show len: "length ls = legacyLaneCount e"
    using assms(1) by (simp add: lanesEqualDerived_def derivedRoadLanes_def Let_def)
  show "number_of (lane_direction (ls ! i)) = Some (of_int (legacyLaneDirection e i (legacyLaneCount e)))"
    using assms by (auto simp: lanesEqualDerived_def derivedRoadLanes_def Let_def list_all2_conv_all_nth)
qed

lemma legal_lanes_cong:
  assumes "roadLaneCount e = roadLaneCount e'" and "\<And>i. i < roadLaneCount e \<Longrightarrow> laneDirections e (int i) = laneDirections e' (int i)"
  shows "legalLaneIndices e d = legalLaneIndices e' d"
  using assms by (auto simp: legalLaneIndices_def Let_def intro!: filter_cong)

lemma normalized_legal_lanes:
  assumes some: "road_lanes e = Some ls" and ne: "ls \<noteq> []"
  shows "legalLaneIndices (normalizeRoadLanes e) d = legalLaneIndices e d"
proof -
  let ?c = "cloneRoadLanes ls" and ?e = "explicit_form e (cloneRoadLanes ls)"
  have len: "0 < length ls" using ne by simp
  show ?thesis
  proof (cases "lanesEqualDerived ?e ?c")
    case False
    then have n: "normalizeRoadLanes e = ?e" using normalize_cases [OF some ne] by (simp add: Let_def)
    show ?thesis unfolding n
      by (rule legal_lanes_cong) (use some len in \<open>auto simp: roadLaneCount_def directions_explicit max_def split: if_splits\<close>)
  next
    case True
    let ?n = "?e\<lparr>road_lanes := None\<rparr>"
    have n: "normalizeRoadLanes e = ?n" using True normalize_cases [OF some ne] by (simp add: Let_def)
    have count: "legacyLaneCount ?n = length ls" "legacyLaneCount ?e = length ls"
      using len by (simp_all add: legacyLaneCount_def max_def Suc_le_eq)
    have same: "roadIsBidirectional ?n = roadIsBidirectional ?e" "roadIsReversed ?n = roadIsReversed ?e"
      by (simp_all add: roadIsBidirectional_def roadIsReversed_def)
    show ?thesis unfolding n
    proof (rule legal_lanes_cong)
      show "roadLaneCount ?n = roadLaneCount e" using some len count by (simp add: roadLaneCount_def max_def Suc_le_eq)
      fix i assume "i < roadLaneCount ?n"
      then have i: "i < length ls" using count by (simp add: roadLaneCount_def)
      have "number_of (lane_direction (ls ! i)) = Some (of_int (legacyLaneDirection ?n i (length ls)))"
        using lanesEqualDerivedD(2) [OF True, of i] i count legacy_direction_cong [OF same] by simp
      then show "laneDirections ?n (int i) = laneDirections e (int i)"
        using directions_explicit [OF some i] directions_implicit [of ?n i] i count by simp
    qed
  qed
qed

lemma implicit_form_valid:
  assumes ne: "ls \<noteq> []" and fine: "lane_issues (length ls) 0 [] ls = []"
  shows "validateRoadLaneLayout ((explicit_form e (cloneRoadLanes ls))\<lparr>road_lanes := None\<rparr>) None = [] \<longleftrightarrow>
    \<not> (sense_forward ls \<and> sense_backward ls \<and> 1 < length ls \<and> odd (length ls))"
proof -
  let ?n = "(explicit_form e (cloneRoadLanes ls))\<lparr>road_lanes := None\<rparr>"
  have large: "EPSILON < sumLaneWidths (cloneRoadLanes ls)" using sum_widths_large [OF fine ne] .
  then have "\<not> roadWidth ?n \<le> EPSILON" by (simp add: roadWidth_def)
  moreover have "roadIsBidirectional ?n \<longleftrightarrow> sense_forward ls \<and> sense_backward ls"
    using explicit_form_fields(4) [of e "cloneRoadLanes ls"] by (simp add: roadIsBidirectional_def)
  moreover have "1 \<le> length ls" using ne by (cases ls) auto
  moreover have "\<lfloor>real (length ls)\<rfloor> mod 2 \<noteq> 0 \<longleftrightarrow> odd (length ls)"
    unfolding floor_of_nat by presburger
  moreover have "is_integer (real (length ls))" by (simp add: is_integer_def)
  ultimately show ?thesis
    using ne by (simp add: validateRoadLaneLayout_def Let_def del: floor_of_nat)
qed

lemma normalized_layout_iff:
  assumes "road_lanes e = Some ls" and "ls \<noteq> []"
    and "lane_issues (length ls) 0 [] ls = []" and "direction_changes ls \<le> 1"
  shows "validateRoadLaneLayout (normalizeRoadLanes e) None = [] \<longleftrightarrow>
    \<not> (road_lanes (normalizeRoadLanes e) = None \<and> sense_forward ls \<and> sense_backward ls \<and> 1 < length ls \<and> odd (length ls))"
  using implicit_form_valid [OF assms(2,3), of e] explicit_form_valid [OF assms(2-4), of e] normalize_cases [OF assms(1,2)]
  by (cases "lanesEqualDerived (explicit_form e (cloneRoadLanes ls)) (cloneRoadLanes ls)") (simp_all add: Let_def)

section \<open>Fresh ids\<close>

lemma decimal_value: "foldl (\<lambda>a c. 10 * a + (of_char c - 48)) 0 (decimal n) = (n :: nat)"
proof (induction n rule: decimal.induct)
  case (1 n)
  show ?case
  proof (cases "n < 10")
    case True
    then show ?thesis by (simp add: decimal.simps [of n] of_char_of)
  next
    case False
    with 1 show ?thesis by (simp add: decimal.simps [of n] of_char_of)
  qed
qed

lemma laneIdForIndex_inj: "inj laneIdForIndex"
  by (rule injI) (metis decimal_value laneIdForIndex_def same_append_eq)

lemma unused_index_finds:
  "i \<le> m \<Longrightarrow> laneIdForIndex m \<notin> set used \<Longrightarrow> (\<And>j. i \<le> j \<Longrightarrow> j < m \<Longrightarrow> laneIdForIndex j \<in> set used) \<Longrightarrow>
    unused_index used i = Some m"
proof (induction "m - i" arbitrary: i)
  case 0
  then show ?case by (subst unused_index.simps) simp
next
  case (Suc d)
  then have "laneIdForIndex i \<in> set used" "unused_index used (i + 1) = Some m" by (auto intro: Suc.hyps(1))
  then show ?case by (subst unused_index.simps) simp
qed

text \<open>The loop over ids ends, at the smallest index whose id is not used.\<close>

lemma nextLaneId_fresh:
  obtains m where "nextLaneId ls = Some (laneIdForIndex m)" and "laneIdForIndex m \<notin> id_text ` set ls"
    and "\<And>j. j < m \<Longrightarrow> laneIdForIndex j \<in> id_text ` set ls"
proof -
  have "\<not> range laneIdForIndex \<subseteq> id_text ` set ls"
    using finite_imageD [OF _ laneIdForIndex_inj] finite_subset [of "range laneIdForIndex"] by auto
  then obtain k where k: "laneIdForIndex k \<notin> id_text ` set ls" by auto
  have "\<exists>m. laneIdForIndex m \<notin> id_text ` set ls \<and> (\<forall>j < m. \<not> laneIdForIndex j \<notin> id_text ` set ls)"
    using k exists_least_iff [of "\<lambda>k. laneIdForIndex k \<notin> id_text ` set ls"] by blast
  then obtain m where least: "laneIdForIndex m \<notin> id_text ` set ls" and below: "\<And>j. j < m \<Longrightarrow> laneIdForIndex j \<in> id_text ` set ls"
    by blast
  have "unused_index (map id_text ls) 0 = Some m"
    by (rule unused_index_finds) (use least below in auto)
  then show thesis by (intro that [OF _ least below]) (simp add: nextLaneId_def)
qed

section \<open>Properties\<close>

text \<open>
  C37. The canonical form of an explicit layout keeps which lanes may be travelled in which direction, and it is a
  valid layout exactly unless its records were dropped although an odd number of lanes goes both ways.
\<close>

theorem normalized_layout:
  assumes "road_lanes e = Some ls" and "ls \<noteq> []"
    and "lane_issues (length ls) 0 [] ls = []" and "direction_changes ls \<le> 1"
  shows "legalLaneIndices (normalizeRoadLanes e) d = legalLaneIndices e d
    \<and> (validateRoadLaneLayout (normalizeRoadLanes e) None = [] \<longleftrightarrow>
       \<not> (road_lanes (normalizeRoadLanes e) = None \<and> sense_forward ls \<and> sense_backward ls \<and> 1 < length ls \<and> odd (length ls)))"
  using normalized_legal_lanes [OF assms(1,2)] normalized_layout_iff [OF assms] by blast

definition lane_of :: "nat \<Rightarrow> real \<Rightarrow> real \<Rightarrow> road_lane" where
  "lane_of i d w = \<lparr>lane_id = Some (laneIdForIndex i), lane_direction = Num (Some d), lane_width = Num (Some w), markingLeft = None\<rparr>"

definition demo_road :: "road_lane list \<Rightarrow> road_edge" where
  "demo_road ls = \<lparr>edge_id = ''r'', startNodeId = ''a'', endNodeId = ''b'', edge_width = Num (Some (sumLaneWidths ls)),
    laneCount = Num (Some (real (length ls))), bidirectional = Some True, oneWay = None, edge_direction = DirNone,
    oneWayDirection = DirNone, road_lanes = Some ls\<rparr>"

text \<open>Two lanes forward and one back, the backward one wider.\<close>

lemma decimal_small [simp]: "decimal 0 = ''0''" "decimal (Suc 0) = ''1''" "decimal 2 = ''2''"
  by code_simp+

theorem normalized_layout_witness:
  "let e = demo_road [lane_of 0 1 3, lane_of 1 1 3, lane_of 2 (-1) 4] in
   legalLaneIndices (normalizeRoadLanes e) 1 = legalLaneIndices e 1
   \<and> (validateRoadLaneLayout (normalizeRoadLanes e) None = [] \<longleftrightarrow>
      \<not> (road_lanes (normalizeRoadLanes e) = None \<and> sense_forward [lane_of 0 1 3, lane_of 1 1 3, lane_of 2 (-1) 4]
        \<and> sense_backward [lane_of 0 1 3, lane_of 1 1 3, lane_of 2 (-1) 4] \<and> 1 < length [lane_of 0 1 3, lane_of 1 1 3, lane_of 2 (-1) 4]
        \<and> odd (length [lane_of 0 1 3, lane_of 1 1 3, lane_of 2 (-1) 4])))"
proof -
  let ?ls = "[lane_of 0 1 3, lane_of 1 1 3, lane_of 2 (-1) 4]"
  have one: "road_lanes (demo_road ?ls) = Some ?ls" by (simp add: demo_road_def)
  have fine: "lane_issues (length ?ls) 0 [] ?ls = []"
    by (simp add: one_lane_issues_def lane_of_def id_text_def laneIdForIndex_def direction_ok_def LANE_DIRECTIONS_def EPSILON_def)
  have changes: "direction_changes ?ls \<le> 1" by (simp add: lane_of_def)
  show ?thesis unfolding Let_def by (rule normalized_layout [OF one _ fine changes]) simp
qed

text \<open>
  C38. A road of two lanes forward and one back, all of one width and with the default ids, is a valid layout whose
  canonical form is rejected by the same validation.
\<close>

theorem odd_layout_normalizes_to_invalid:
  assumes "EPSILON < w"
  shows "let e = demo_road [lane_of 0 1 w, lane_of 1 1 w, lane_of 2 (-1) w]
    in validateRoadLaneLayout e None = [] \<and> validateRoadLaneLayout (normalizeRoadLanes e) None \<noteq> []"
proof -
  let ?ls = "[lane_of 0 1 w, lane_of 1 1 w, lane_of 2 (-1) w]"
  have one: "road_lanes (demo_road ?ls) = Some ?ls" by (simp add: demo_road_def)
  have fine: "lane_issues (length ?ls) 0 [] ?ls = []"
    using assms by (simp add: one_lane_issues_def lane_of_def id_text_def laneIdForIndex_def direction_ok_def LANE_DIRECTIONS_def)
  have pos: "0 < w" using assms by (simp add: EPSILON_def)
  have width: "sumLaneWidths ?ls = 3 * w" by (simp add: sumLaneWidths_sum lane_of_def)
  have senses: "sense_forward ?ls" "sense_backward ?ls" by (simp_all add: sense_forward_def sense_backward_def lane_of_def)
  have "roadWidth (demo_road ?ls) = sumLaneWidths ?ls" using pos width by (simp add: roadWidth_def demo_road_def)
  moreover have "roadIsBidirectional (demo_road ?ls)" by (simp add: roadIsBidirectional_def demo_road_def)
  moreover have "laneCount (demo_road ?ls) = Num (Some 3)" by (simp add: demo_road_def)
  moreover have "list_all direction_ok ?ls" by (simp add: direction_ok_def lane_of_def LANE_DIRECTIONS_def)
  moreover have changes: "direction_changes ?ls = 1" by (simp add: lane_of_def)
  ultimately have valid: "validateRoadLaneLayout (demo_road ?ls) None = []"
    using fine senses one
    by (simp add: validateRoadLaneLayout_def validateExplicitLanes_def Let_def WIDTH_SUM_TOLERANCE_def js_round_def del: lane_issues.simps)
  have clone: "cloneRoadLanes ?ls = ?ls" by (simp add: cloneRoadLanes_def cloneRoadLane_def lane_of_def id_text_def)
  have "lanesEqualDerived (explicit_form (demo_road ?ls) ?ls) ?ls"
  proof -
    let ?e = "explicit_form (demo_road ?ls) ?ls"
    have count: "legacyLaneCount ?e = 3" by (simp add: legacyLaneCount_def js_round_def)
    have wide: "roadWidth ?e = 3 * w" using pos width by (simp add: roadWidth_def)
    have dirs: "legacyLaneDirection ?e 0 3 = 1" "legacyLaneDirection ?e 1 3 = 1" "legacyLaneDirection ?e 2 3 = -1"
      using senses by (simp_all add: legacyLaneDirection_def)
    have three: "[0..<3] = [0, 1, 2 :: nat]" by (simp add: upt_rec)
    have "derivedRoadLanes ?e = ?ls"
      unfolding derivedRoadLanes_def count Let_def wide three list.map dirs by (simp add: lane_of_def)
    then show ?thesis by (simp add: lanesEqualDerived_def lane_of_def EPSILON_def)
  qed
  then have "road_lanes (normalizeRoadLanes (demo_road ?ls)) = None"
    using normalize_cases [OF one] clone by (simp add: Let_def)
  then show ?thesis
    using valid normalized_layout_iff [OF one _ fine] changes senses by (simp add: Let_def del: direction_changes.simps)
qed

theorem odd_layout_witness:
  "let e = demo_road [lane_of 0 1 3, lane_of 1 1 3, lane_of 2 (-1) 3]
    in validateRoadLaneLayout e None = [] \<and> validateRoadLaneLayout (normalizeRoadLanes e) None \<noteq> []"
  by (rule odd_layout_normalizes_to_invalid) (simp add: EPSILON_def)

end
