(* ===== verification/RoadGraph.thy ===== *)
theory RoadGraph
  imports RoadLanes JsText
begin

text \<open>
  \<open>app/scenarios/route/roadGraph.js\<close>, its graph and its search: the directed graph of a road network of geometry
  version 1 and the search for a legal way through it, whose states keep the edge a node was reached by. Costs and
  coordinates are exact reals.
\<close>

section \<open>The directed graph\<close>

definition js_less :: "string \<Rightarrow> string \<Rightarrow> bool" where
  "js_less a b \<longleftrightarrow> compareUtf8Bytes (map of_char a) (map of_char b) < 0"

definition compareText :: "string \<Rightarrow> string \<Rightarrow> int" where
  "compareText a b = (if js_less a b then -1 else if js_less b a then 1 else 0)"

definition distanceXZ :: "point3 \<Rightarrow> point3 \<Rightarrow> real" where
  "distanceXZ a b = sqrt ((px b - px a)\<^sup>2 + (pz b - pz a)\<^sup>2)"

record raw_rule =
  rr_node :: string
  rr_from :: string
  rr_to :: string
  rr_allowed :: "bool option"

record road_doc =
  d_nodes :: "(string \<times> point3 option) list"
  d_edges :: "road_edge list"
  d_turnRules :: "raw_rule list"

record transition =
  tr_edge :: string
  tr_from :: string
  tr_to :: string
  tr_direction :: int
  tr_cost :: real

datatype rule_error = NotBoolean | MissingReference | CannotArrive | CannotDepart | DuplicateMovement

record road_graph =
  g_nodes :: "(string, point3) js_map"
  g_edges :: "(string, road_edge \<times> real) js_map"
  g_adjacency :: "(string, transition list) js_map"
  g_degree :: "(string, nat) js_map"
  g_turnRules :: "turn_rule list"
  g_laneIssues :: "(string \<times> lane_issue list) list"
  g_turnRuleIssues :: "(nat \<times> string \<times> rule_error) list"
  g_infeasible :: "string list"

definition graph_nodes :: "(string \<times> point3 option) list \<Rightarrow> (string, point3) js_map" where
  "graph_nodes ns = fold (\<lambda>(i, p) m. if i = [] then m else case p of None \<Rightarrow> m | Some q \<Rightarrow> AList.update i q m) ns []"

definition degree_of :: "road_graph \<Rightarrow> string \<Rightarrow> nat" where
  "degree_of g v = (case map_of (g_degree g) v of None \<Rightarrow> 0 | Some d \<Rightarrow> d)"

definition transitions_of :: "road_graph \<Rightarrow> string \<Rightarrow> transition list" where
  "transitions_of g v = (case map_of (g_adjacency g) v of None \<Rightarrow> [] | Some ts \<Rightarrow> ts)"

definition count_end :: "string \<Rightarrow> road_graph \<Rightarrow> road_graph" where
  "count_end v g = g\<lparr>g_degree := AList.update v (degree_of g v + 1) (g_degree g)\<rparr>"

definition addTransition :: "road_edge \<Rightarrow> real \<Rightarrow> string \<Rightarrow> string \<Rightarrow> int \<Rightarrow> road_graph \<Rightarrow> road_graph" where
  "addTransition e len a b direction g =
    g\<lparr>g_adjacency := AList.update a
      (transitions_of g a @ [\<lparr>tr_edge = edge_id e, tr_from = a, tr_to = b, tr_direction = direction, tr_cost = len\<rparr>]) (g_adjacency g)\<rparr>"

definition addEdge :: "road_edge \<Rightarrow> road_graph \<Rightarrow> road_graph" where
  "addEdge e g =
    (if edge_id e = [] then g
     else case (map_of (g_nodes g) (startNodeId e), map_of (g_nodes g) (endNodeId e)) of
         (Some p, Some q) \<Rightarrow>
           if startNodeId e = endNodeId e then g
           else
             let len = distanceXZ p q; issues = validateRoadLaneLayout e None;
                 g1 = g\<lparr>g_edges := AList.update (edge_id e) (e, len) (g_edges g),
                   g_laneIssues := g_laneIssues g @ (if issues \<noteq> [] then [(edge_id e, issues)] else [])\<rparr>;
                 g2 = count_end (endNodeId e) (count_end (startNodeId e) g1);
                 g3 = (if legalLaneIndices e 1 \<noteq> [] then addTransition e len (startNodeId e) (endNodeId e) 1 g2 else g2)
             in if legalLaneIndices e (-1) \<noteq> [] then addTransition e len (endNodeId e) (startNodeId e) (-1) g3 else g3
       | _ \<Rightarrow> g)"

definition transition_order :: "transition \<Rightarrow> transition \<Rightarrow> int" where
  "transition_order l r = cmp_or (compareText (tr_edge l) (tr_edge r))
    (cmp_or (compareText (tr_to l) (tr_to r)) (tr_direction l - tr_direction r))"

definition rule_key :: "turn_rule \<Rightarrow> string" where
  "rule_key r = movementRuleKey (r_node r) (r_from r) (r_to r)"

definition rule_error_of :: "road_graph \<Rightarrow> string list \<Rightarrow> raw_rule \<Rightarrow> rule_error option" where
  "rule_error_of g seen r =
    (if rr_allowed r = None then Some NotBoolean
     else case (map_of (g_edges g) (rr_from r), map_of (g_edges g) (rr_to r)) of
         (Some (e, _), Some (f, _)) \<Rightarrow>
           if \<not> map_has (g_nodes g) (rr_node r) then Some MissingReference
           else if \<not> edgeAllowsArrivalAtNode e (rr_node r) then Some CannotArrive
           else if \<not> edgeAllowsDepartureFromNode f (rr_node r) then Some CannotDepart
           else if movementRuleKey (rr_node r) (rr_from r) (rr_to r) \<in> set seen then Some DuplicateMovement
           else None
       | _ \<Rightarrow> Some MissingReference)"

definition normal_rule :: "raw_rule \<Rightarrow> turn_rule" where
  "normal_rule r = \<lparr>r_node = rr_node r, r_from = rr_from r, r_to = rr_to r, r_allowed = (rr_allowed r = Some True)\<rparr>"

fun rule_issues :: "road_graph \<Rightarrow> nat \<Rightarrow> string list \<Rightarrow> raw_rule list \<Rightarrow> (nat \<times> string \<times> rule_error) list" where
  "rule_issues g i seen [] = []"
| "rule_issues g i seen (r # rs) =
    (let key = movementRuleKey (rr_node r) (rr_from r) (rr_to r) in
     (case rule_error_of g seen r of None \<Rightarrow> [] | Some e \<Rightarrow> [(i, key, e)]) @ rule_issues g (i + 1) (key # seen) rs)"

definition buildDirectedRoadGraph :: "road_doc \<Rightarrow> road_graph" where
  "buildDirectedRoadGraph doc =
    (let nodes = graph_nodes (d_nodes doc);
         g0 = \<lparr>g_nodes = nodes, g_edges = [], g_adjacency = map (\<lambda>(i, _). (i, [])) nodes, g_degree = map (\<lambda>(i, _). (i, 0)) nodes,
           g_turnRules = [], g_laneIssues = [], g_turnRuleIssues = [], g_infeasible = []\<rparr>;
         g1 = fold addEdge (d_edges doc) g0;
         g2 = g1\<lparr>g_adjacency := map (\<lambda>(i, ts). (i, sort_by transition_order ts)) (g_adjacency g1)\<rparr>
     in g2\<lparr>g_turnRules := sort_by (\<lambda>l r. compareText (rule_key l) (rule_key r)) (map normal_rule (d_turnRules doc)),
          g_turnRuleIssues := rule_issues g2 0 [] (d_turnRules doc)\<rparr>)"

definition text_of :: "string option \<Rightarrow> string" where
  "text_of v = (case v of None \<Rightarrow> ''null'' | Some s \<Rightarrow> s)"

definition graphMovementAllowed :: "road_graph \<Rightarrow> bool \<Rightarrow> string \<Rightarrow> string option \<Rightarrow> string option \<Rightarrow> bool" where
  "graphMovementAllowed g ignoreTurnRules v fromEdgeId toEdgeId =
    (if movementRuleKey v (text_of fromEdgeId) (text_of toEdgeId) \<in> set (g_infeasible g) then False
     else if ignoreTurnRules then True
     else movementAllowed v fromEdgeId toEdgeId (degree_of g v) (g_turnRules g))"

section \<open>The search\<close>

text \<open>
  A state is a node and the edge it was reached by. \<open>None\<close> for a score is \<open>Infinity\<close>.
\<close>

type_synonym route_state = "string \<times> string option"

record search_options =
  incomingEdgeId :: "string option"
  outgoingEdgeId :: "string option"
  goalIncomingEdgeId :: "string option option"
  ignoreTurnRules :: bool

record search =
  s_open :: "route_state list"
  s_closed :: "route_state list"
  gScore :: "(route_state, real) js_map"
  cameFrom :: "(route_state, route_state \<times> transition) js_map"

datatype search_error = NoSuchNode | NoPath

datatype search_result = SearchFailed search_error
  | Route "string list" "string list" "transition list" "real option"

definition truthy :: "string option \<Rightarrow> string option" where
  "truthy v = (if v = Some [] then None else v)"

definition stateKey :: "route_state \<Rightarrow> string" where
  "stateKey k = fst k @ [CHR 0x00] @ (case snd k of None \<Rightarrow> [] | Some e \<Rightarrow> e)"

definition heuristic :: "road_graph \<Rightarrow> string \<Rightarrow> string \<Rightarrow> real" where
  "heuristic g v goal =
    (case (map_of (g_nodes g) v, map_of (g_nodes g) goal) of (Some p, Some q) \<Rightarrow> distanceXZ p q | _ \<Rightarrow> 0)"

definition cmp_real :: "real \<Rightarrow> real \<Rightarrow> int" where
  "cmp_real a b = (if a < b then -1 else if b < a then 1 else 0)"

definition cmp_score :: "real option \<Rightarrow> real option \<Rightarrow> int" where
  "cmp_score a b =
    (case (a, b) of (Some x, Some y) \<Rightarrow> cmp_real x y | (Some _, None) \<Rightarrow> -1 | (None, Some _) \<Rightarrow> 1 | (None, None) \<Rightarrow> 0)"

definition score :: "road_graph \<Rightarrow> string \<Rightarrow> search \<Rightarrow> route_state \<Rightarrow> real option" where
  "score g goal s k = map_option (\<lambda>c. c + heuristic g (fst k) goal) (map_of (gScore s) k)"

definition open_order :: "road_graph \<Rightarrow> string \<Rightarrow> search \<Rightarrow> route_state \<Rightarrow> route_state \<Rightarrow> int" where
  "open_order g goal s l r = cmp_or (cmp_score (score g goal s l) (score g goal s r))
    (cmp_or (cmp_real (heuristic g (fst l) goal) (heuristic g (fst r) goal)) (compareText (stateKey l) (stateKey r)))"

definition signature_of :: "transition \<Rightarrow> string" where
  "signature_of t = tr_edge t @ '':'' @ tr_from t @ '':'' @ tr_to t"

definition arrive :: "transition \<Rightarrow> route_state" where
  "arrive t = (tr_to t, truthy (Some (tr_edge t)))"

definition is_better :: "real option \<Rightarrow> real option \<Rightarrow> transition \<Rightarrow> transition option \<Rightarrow> bool" where
  "is_better tentative previous t previousStep =
    (case tentative of None \<Rightarrow> False
     | Some x \<Rightarrow>
         (case previous of None \<Rightarrow> True
          | Some y \<Rightarrow> x < y - EPSILON \<or> (\<bar>x - y\<bar> \<le> EPSILON \<and>
              (case previousStep of None \<Rightarrow> True | Some u \<Rightarrow> js_less (signature_of t) (signature_of u)))))"

definition relax :: "road_graph \<Rightarrow> bool \<Rightarrow> route_state \<Rightarrow> transition \<Rightarrow> search \<Rightarrow> search" where
  "relax g ign current t s =
    (if \<not> graphMovementAllowed g ign (fst current) (snd current) (Some (tr_edge t)) then s
     else
       let next_key = arrive t; tentative = map_option (\<lambda>c. c + tr_cost t) (map_of (gScore s) current) in
       if \<not> is_better tentative (map_of (gScore s) next_key) t (map_option snd (map_of (cameFrom s) next_key)) then s
       else s\<lparr>cameFrom := AList.update next_key (current, t) (cameFrom s),
          gScore := AList.update next_key (the tentative) (gScore s),
          s_closed := filter (\<lambda>k. k \<noteq> next_key) (s_closed s),
          s_open := (if next_key \<in> set (s_open s) then s_open s else s_open s @ [next_key])\<rparr>)"

definition expand :: "road_graph \<Rightarrow> bool \<Rightarrow> route_state \<Rightarrow> search \<Rightarrow> search" where
  "expand g ign current s = fold (relax g ign current) (transitions_of g (fst current))
    (s\<lparr>s_open := filter (\<lambda>k. k \<noteq> current) (s_open s), s_closed := s_closed s @ [current]\<rparr>)"

definition accepts :: "road_graph \<Rightarrow> string \<Rightarrow> search_options \<Rightarrow> route_state \<Rightarrow> bool" where
  "accepts g goal opts k \<longleftrightarrow> fst k = goal
    \<and> (case goalIncomingEdgeId opts of None \<Rightarrow> True | Some e \<Rightarrow> snd k = e)
    \<and> graphMovementAllowed g (ignoreTurnRules opts) (fst k) (snd k) (truthy (outgoingEdgeId opts))"

partial_function (option) trace_back :: "(route_state, route_state \<times> transition) js_map \<Rightarrow> route_state \<Rightarrow> route_state
    \<Rightarrow> transition list \<Rightarrow> transition list option" where
  "trace_back m start cursor steps =
    (if cursor = start then Some steps
     else case map_of m cursor of None \<Rightarrow> Some steps | Some (p, t) \<Rightarrow> trace_back m start p (t # steps))"

definition route_of :: "string \<Rightarrow> transition list \<Rightarrow> real option \<Rightarrow> search_result" where
  "route_of start steps cost = Route (start # map tr_to steps) (map tr_edge steps) steps cost"

partial_function (option) search_loop :: "road_graph \<Rightarrow> string \<Rightarrow> search_options \<Rightarrow> route_state \<Rightarrow> search \<Rightarrow> search_result option" where
  "search_loop g goal opts start s =
    (if s_open s = [] then Some (SearchFailed NoPath)
     else
       let current = hd (sort_by (open_order g goal s) (s_open s)) in
       if accepts g goal opts current
       then map_option (\<lambda>steps. route_of (fst start) steps (map_of (gScore s) current)) (trace_back (cameFrom s) start current [])
       else search_loop g goal opts start (expand g (ignoreTurnRules opts) current s))"

definition deterministicDirectedAStar :: "road_graph \<Rightarrow> string \<Rightarrow> string \<Rightarrow> search_options \<Rightarrow> search_result option" where
  "deterministicDirectedAStar g start goal opts =
    (if \<not> map_has (g_nodes g) start \<or> \<not> map_has (g_nodes g) goal then Some (SearchFailed NoSuchNode)
     else let startKey = (start, truthy (incomingEdgeId opts)) in
       search_loop g goal opts startKey \<lparr>s_open = [startKey], s_closed = [], gScore = [(startKey, 0)], cameFrom = []\<rparr>)"

section \<open>Orders\<close>

lemma js_less_irrefl [simp]: "\<not> js_less a a"
  by (simp add: js_less_def compareUtf8Bytes_eq0 [THEN iffD2])

lemma compareText_sgn: "compareText a b = sgn (compareUtf8Bytes (map of_char a) (map of_char b))"
  by (simp add: compareText_def js_less_def sgn_if compareUtf8Bytes_flip [of "map of_char b :: nat list"])

interpretation text_order: comparator_laws compareText
proof
  have flip: "compareText y x = - compareText x y" for x y
    unfolding compareText_sgn using compareUtf8Bytes_flip [of "map of_char y" "map of_char x"] by (simp add: sgn_minus)
  show "compareText y x \<le> 0 \<longleftrightarrow> 0 \<le> compareText x y" for x y
    unfolding flip [of y x] by simp
  have sign: "sgn a \<le> 0 \<longleftrightarrow> a \<le> 0" for a :: int by (simp add: sgn_if)
  show "compareText x z \<le> 0" if "compareText x y \<le> 0" "compareText y z \<le> 0" for x y z
    using that compareUtf8Bytes_trans [of "map of_char x" "map of_char y" "map of_char z"]
    unfolding compareText_sgn sign by blast
qed

lemma cmp_real_laws: "comparator_laws (\<lambda>x y. cmp_real (f x) (f y))"
  by unfold_locales (auto simp: cmp_real_def split: if_splits)

lemma cmp_score_laws: "comparator_laws (\<lambda>x y. cmp_score (f x) (f y))"
  by unfold_locales (auto simp: cmp_score_def cmp_real_def split: if_splits option.splits)

interpretation open_states: comparator_laws "open_order g goal s" for g goal s
  unfolding open_order_def
  by (intro comparator_laws_or cmp_score_laws [of "score g goal s"] cmp_real_laws [of "\<lambda>x. heuristic g (fst x) goal"]
    comparator_laws_pull [OF text_order.comparator_laws_axioms, of stateKey])

text \<open>The state that is taken has the least score.\<close>

lemma first_is_least:
  assumes "s_open s \<noteq> []" and c_def: "c = hd (sort_by (open_order g goal s) (s_open s))"
  shows "c \<in> set (s_open s)"
    and "x \<in> set (s_open s) \<Longrightarrow> score g goal s x = Some a \<Longrightarrow> score g goal s c = Some b \<Longrightarrow> b \<le> a"
proof -
  let ?xs = "sort_by (open_order g goal s) (s_open s)"
  have ne: "?xs \<noteq> []" using assms(1) by (metis length_sort_by length_0_conv)
  then show "c \<in> set (s_open s)" unfolding c_def by (metis hd_in_set set_sort_by)
  show "b \<le> a" if "x \<in> set (s_open s)" "score g goal s x = Some a" "score g goal s c = Some b"
  proof -
    have "x = c \<or> open_order g goal s c x \<le> 0"
      using open_states.sorted_sort_by [of g goal s "s_open s"] ne that(1) unfolding c_def
      by (metis list.exhaust_sel set_ConsD set_sort_by sorted_wrt.simps(2))
    then show ?thesis using that(2,3)
      by (auto simp: open_order_def cmp_or_def cmp_score_def cmp_real_def split: if_splits)
  qed
qed

section \<open>Legal ways\<close>

definition step_allowed :: "road_graph \<Rightarrow> bool \<Rightarrow> route_state \<Rightarrow> transition \<Rightarrow> bool" where
  "step_allowed g ign k t \<longleftrightarrow> t \<in> set (transitions_of g (fst k)) \<and> graphMovementAllowed g ign (fst k) (snd k) (Some (tr_edge t))"

fun legal_way :: "road_graph \<Rightarrow> bool \<Rightarrow> route_state \<Rightarrow> transition list \<Rightarrow> bool" where
  "legal_way g ign k [] \<longleftrightarrow> True"
| "legal_way g ign k (t # ts) \<longleftrightarrow> step_allowed g ign k t \<and> legal_way g ign (arrive t) ts"

definition end_of :: "route_state \<Rightarrow> transition list \<Rightarrow> route_state" where
  "end_of k ts = (if ts = [] then k else arrive (last ts))"

definition way_cost :: "transition list \<Rightarrow> real" where
  "way_cost ts = sum_list (map tr_cost ts)"

lemma end_of_simps [simp]: "end_of k [] = k" "end_of k (t # ts) = end_of (arrive t) ts" "end_of k (ts @ [t]) = arrive t"
  by (simp_all add: end_of_def)

lemma way_cost_simps [simp]: "way_cost [] = 0" "way_cost (t # ts) = tr_cost t + way_cost ts"
  "way_cost (us @ vs) = way_cost us + way_cost vs"
  by (simp_all add: way_cost_def)

lemma legal_way_append: "legal_way g ign k (us @ vs) \<longleftrightarrow> legal_way g ign k us \<and> legal_way g ign (end_of k us) vs"
  by (induction us arbitrary: k) auto

text \<open>What the search relies on: costs that no straight line undercuts, and ends that an edge and an arrival determine.\<close>

definition routable :: "road_graph \<Rightarrow> bool" where
  "routable g \<longleftrightarrow>
    (\<forall>v t. t \<in> set (transitions_of g v) \<longrightarrow> tr_from t = v \<and> tr_to t \<noteq> v \<and> tr_edge t \<noteq> [] \<and> 0 \<le> tr_cost t
      \<and> (\<forall>goal. heuristic g v goal \<le> tr_cost t + heuristic g (tr_to t) goal))
    \<and> (\<forall>v w t u. t \<in> set (transitions_of g v) \<longrightarrow> u \<in> set (transitions_of g w) \<longrightarrow>
      tr_edge t = tr_edge u \<longrightarrow> tr_to t = tr_to u \<longrightarrow> tr_from t = tr_from u)"

lemma routableD:
  assumes "routable g" and "step_allowed g ign k t"
  shows "tr_from t = fst k" "tr_to t \<noteq> fst k" "tr_edge t \<noteq> []" "0 \<le> tr_cost t"
    "heuristic g (fst k) goal \<le> tr_cost t + heuristic g (fst (arrive t)) goal"
  using assms unfolding routable_def step_allowed_def arrive_def by auto

lemma routable_same:
  assumes "routable g" and "step_allowed g ign k t" and "step_allowed g ign l u" and "arrive t = arrive u"
  shows "signature_of t = signature_of u"
proof -
  have "tr_edge t = tr_edge u" "tr_to t = tr_to u"
    using assms(4) routableD(3) [OF assms(1,2)] routableD(3) [OF assms(1,3)] by (auto simp: arrive_def truthy_def split: if_splits)
  moreover from this have "tr_from t = tr_from u" using assms(1-3) unfolding routable_def step_allowed_def by blast
  ultimately show ?thesis by (simp add: signature_of_def)
qed

lemma heuristic_goal: "heuristic g v v = 0"
  by (simp add: heuristic_def distanceXZ_def split: option.splits)

lemma heuristic_below_way:
  "routable g \<Longrightarrow> legal_way g ign k ts \<Longrightarrow> heuristic g (fst k) goal \<le> way_cost ts + heuristic g (fst (end_of k ts)) goal"
proof (induction ts arbitrary: k)
  case (Cons t ts)
  then have "heuristic g (fst k) goal \<le> tr_cost t + heuristic g (fst (arrive t)) goal"
    and "heuristic g (fst (arrive t)) goal \<le> way_cost ts + heuristic g (fst (end_of (arrive t) ts)) goal"
    using routableD(5) [of g ign k t goal] by simp_all
  then show ?case by simp
qed simp

section \<open>The invariant of the search\<close>

text \<open>
  The way to a state that the remembered steps lead back along, with the states it passes.
\<close>

inductive traced :: "(route_state \<Rightarrow> (route_state \<times> transition) option) \<Rightarrow> route_state \<Rightarrow> route_state \<Rightarrow> route_state set
    \<Rightarrow> transition list \<Rightarrow> bool" for m start where
  traced_start: "traced m start start {start} []"
| traced_step: "m k = Some (p, t) \<Longrightarrow> k \<noteq> start \<Longrightarrow> traced m start p X ts \<Longrightarrow> traced m start k (insert k X) (ts @ [t])"

text \<open>The start counts as reached at no cost, whatever score it is given later.\<close>

definition reached_at :: "route_state \<Rightarrow> search \<Rightarrow> route_state \<Rightarrow> real" where
  "reached_at start s k = (if k = start then 0 else the (map_of (gScore s) k))"

definition all_states :: "road_graph \<Rightarrow> route_state \<Rightarrow> route_state set" where
  "all_states g start = insert start (arrive ` (\<Union>v \<in> set (map_keys (g_adjacency g)). set (transitions_of g v)))"

definition step_ok :: "road_graph \<Rightarrow> bool \<Rightarrow> route_state \<Rightarrow> search \<Rightarrow> route_state \<Rightarrow> route_state \<Rightarrow> transition \<Rightarrow> bool" where
  "step_ok g ign start s k p t \<longleftrightarrow> map_has (gScore s) p \<and> step_allowed g ign p t \<and> k = arrive t
    \<and> (k \<noteq> start \<longrightarrow> reached_at start s p + tr_cost t \<le> reached_at start s k)"

definition search_inv :: "road_graph \<Rightarrow> bool \<Rightarrow> route_state \<Rightarrow> search \<Rightarrow> bool" where
  "search_inv g ign start s \<longleftrightarrow>
    (\<exists>x. map_of (gScore s) start = Some x \<and> x \<le> EPSILON \<and> (map_of (cameFrom s) start = None \<longrightarrow> x = 0))
    \<and> (\<forall>k x. map_of (gScore s) k = Some x \<longrightarrow> 0 \<le> x \<and> k \<in> all_states g start)
    \<and> (\<forall>k \<in> set (s_open s). map_has (gScore s) k)
    \<and> (\<forall>k. k \<noteq> start \<longrightarrow> map_has (cameFrom s) k = map_has (gScore s) k)
    \<and> (\<forall>k p t. map_of (cameFrom s) k = Some (p, t) \<longrightarrow> step_ok g ign start s k p t)
    \<and> (\<forall>k. map_has (gScore s) k \<longrightarrow> (\<exists>X ts. traced (map_of (cameFrom s)) start k X ts))"

lemma search_invD:
  assumes "search_inv g ign start s"
  shows "\<exists>x. map_of (gScore s) start = Some x \<and> x \<le> EPSILON \<and> (map_of (cameFrom s) start = None \<longrightarrow> x = 0)"
    and "map_of (gScore s) k = Some x \<Longrightarrow> 0 \<le> x \<and> k \<in> all_states g start"
    and "k \<in> set (s_open s) \<Longrightarrow> map_has (gScore s) k"
    and "k \<noteq> start \<Longrightarrow> map_has (cameFrom s) k = map_has (gScore s) k"
    and "map_of (cameFrom s) k = Some (p, t) \<Longrightarrow> step_ok g ign start s k p t"
    and "map_has (gScore s) k \<Longrightarrow> \<exists>X ts. traced (map_of (cameFrom s)) start k X ts"
  using assms unfolding search_inv_def by blast+

text \<open>A state whose steps have been tried: no step leads on at more than the tolerance below what is recorded.\<close>

definition settled_step :: "search \<Rightarrow> route_state \<Rightarrow> transition \<Rightarrow> bool" where
  "settled_step s k t \<longleftrightarrow> (\<exists>x y. map_of (gScore s) k = Some x \<and> map_of (gScore s) (arrive t) = Some y \<and> y \<le> x + tr_cost t + EPSILON)"

definition settled :: "road_graph \<Rightarrow> bool \<Rightarrow> search \<Rightarrow> route_state set \<Rightarrow> bool" where
  "settled g ign s K \<longleftrightarrow> (\<forall>k t. map_has (gScore s) k \<longrightarrow> k \<notin> set (s_open s) \<longrightarrow> k \<in> K \<longrightarrow> step_allowed g ign k t \<longrightarrow> settled_step s k t)"

lemma settledD:
  "settled g ign s K \<Longrightarrow> map_has (gScore s) k \<Longrightarrow> k \<notin> set (s_open s) \<Longrightarrow> k \<in> K \<Longrightarrow> step_allowed g ign k t \<Longrightarrow> settled_step s k t"
  unfolding settled_def by blast

lemma all_states_arrive: "t \<in> set (transitions_of g v) \<Longrightarrow> arrive t \<in> all_states g start"
proof -
  assume t: "t \<in> set (transitions_of g v)"
  then have "map_of (g_adjacency g) v \<noteq> None" by (cases "map_of (g_adjacency g) v") (simp_all add: transitions_of_def)
  then have "v \<in> set (map_keys (g_adjacency g))" by (metis map_of_None_iff)
  with t show ?thesis unfolding all_states_def by blast
qed

lemma EPSILON_pos [simp]: "0 < EPSILON" "0 \<le> EPSILON"
  by (simp_all add: EPSILON_def)

lemma traced_cong: "traced m start k X ts \<Longrightarrow> (\<And>j. j \<in> X \<Longrightarrow> j \<noteq> start \<Longrightarrow> m' j = m j) \<Longrightarrow> traced m' start k X ts"
  by (induction rule: traced.induct) (auto intro: traced.intros)

lemma traced_self: "traced m start k X ts \<Longrightarrow> k \<in> X"
  by (induction rule: traced.induct) auto

text \<open>On a traced way nothing was reached at more than the end.\<close>

lemma traced_below:
  assumes inv: "search_inv g ign start s" and g: "routable g"
    and "traced (map_of (cameFrom s)) start k X ts" and "j \<in> X"
  shows "map_has (gScore s) j \<and> reached_at start s j \<le> reached_at start s k"
  using assms(3,4)
proof (induction rule: traced.induct)
  case traced_start
  then show ?case using search_invD(1) [OF inv] by auto
next
  case (traced_step k p t X ts)
  have ok: "step_ok g ign start s k p t" by (rule search_invD(5) [OF inv traced_step.hyps(1)])
  then have "0 \<le> tr_cost t" using routableD(4) [OF g, of ign p t] by (simp add: step_ok_def)
  moreover have "reached_at start s p + tr_cost t \<le> reached_at start s k" using ok traced_step.hyps(2) unfolding step_ok_def by blast
  ultimately have le: "reached_at start s p \<le> reached_at start s k" by linarith
  have "map_has (gScore s) k" using search_invD(4) [OF inv traced_step.hyps(2)] traced_step.hyps(1) by simp
  then show ?case using traced_step.IH traced_step.prems le by fastforce
qed

lemma traced_way:
  assumes inv: "search_inv g ign start s" and "traced (map_of (cameFrom s)) start k X ts"
  shows "legal_way g ign start ts \<and> end_of start ts = k \<and> way_cost ts \<le> reached_at start s k"
  using assms(2)
proof (induction rule: traced.induct)
  case traced_start
  then show ?case by (simp add: reached_at_def)
next
  case (traced_step k p t X ts)
  have ok: "step_ok g ign start s k p t" by (rule search_invD(5) [OF inv traced_step.hyps(1)])
  then show ?case using traced_step.IH traced_step.hyps(2) by (auto simp: step_ok_def legal_way_append)
qed

lemma trace_back_traced:
  "traced (map_of m) start k X ts \<Longrightarrow> trace_back m start k acc = Some (ts @ acc)"
proof (induction arbitrary: acc rule: traced.induct)
  case traced_start
  then show ?case by (subst trace_back.simps) simp
next
  case (traced_step k p t X ts)
  then show ?case by (subst trace_back.simps) simp
qed

section \<open>Trying a step\<close>

definition scored :: "search \<Rightarrow> route_state \<Rightarrow> route_state \<Rightarrow> transition \<Rightarrow> real \<Rightarrow> search" where
  "scored s n current t v = s\<lparr>cameFrom := AList.update n (current, t) (cameFrom s), gScore := AList.update n v (gScore s),
    s_closed := filter (\<lambda>k. k \<noteq> n) (s_closed s), s_open := (if n \<in> set (s_open s) then s_open s else s_open s @ [n])\<rparr>"

lemma scored_maps [simp]:
  "map_of (gScore (scored s n current t v)) = (map_of (gScore s))(n \<mapsto> v)"
  "map_of (cameFrom (scored s n current t v)) = (map_of (cameFrom s))(n \<mapsto> (current, t))"
  "set (s_open (scored s n current t v)) = insert n (set (s_open s))"
  by (auto simp: scored_def update_conv')

lemma relax_cases:
  assumes inv: "search_inv g ign start s" and g: "routable g"
    and t: "t \<in> set (transitions_of g (fst cur))" and c: "map_of (gScore s) cur = Some c"
  obtains (same) "relax g ign cur t s = s" and "step_allowed g ign cur t \<Longrightarrow> settled_step s cur t"
  | (better) "relax g ign cur t s = scored s (arrive t) cur t (c + tr_cost t)" and "step_allowed g ign cur t" and "arrive t \<noteq> cur"
      and "arrive t \<noteq> start \<Longrightarrow> map_of (gScore s) (arrive t) = None \<or>
        (\<exists>p. map_of (gScore s) (arrive t) = Some p \<and> c + tr_cost t < p - EPSILON)"
      and "arrive t = start \<Longrightarrow> map_of (cameFrom s) start = None \<and> c + tr_cost t \<le> EPSILON"
proof (cases "graphMovementAllowed g ign (fst cur) (snd cur) (Some (tr_edge t))")
  case False
  then show thesis by (intro same) (simp_all add: relax_def step_allowed_def)
next
  case True
  then have allowed: "step_allowed g ign cur t" using t by (simp add: step_allowed_def)
  let ?n = "arrive t" and ?v = "c + tr_cost t"
  let ?prev = "map_option snd (map_of (cameFrom s) ?n)"
  have relax: "relax g ign cur t s = (if \<not> is_better (Some ?v) (map_of (gScore s) ?n) t ?prev then s else scored s ?n cur t ?v)"
    using True c by (simp add: relax_def scored_def Let_def)
  have "0 \<le> c" using search_invD(2) [OF inv c] by simp
  then have pos: "0 \<le> ?v" using routableD(4) [OF g allowed] by simp
  show thesis
  proof (cases "is_better (Some ?v) (map_of (gScore s) ?n) t ?prev")
    case False
    then obtain p where p: "map_of (gScore s) ?n = Some p" and "p \<le> ?v + EPSILON"
      by (auto simp: is_better_def split: option.splits)
    then have "settled_step s cur t" using c by (auto simp: settled_step_def)
    with False relax show thesis by (intro same) simp_all
  next
    case better_step: True
    have tie: "\<not> js_less (signature_of t) (signature_of u)" if "map_of (cameFrom s) ?n = Some (q, u)" for q u
    proof -
      have "step_ok g ign start s ?n q u" by (rule search_invD(5) [OF inv that])
      then have "signature_of t = signature_of u" using routable_same [OF g allowed, of q u] by (simp add: step_ok_def)
      then show ?thesis by simp
    qed
    show thesis
    proof (rule better [OF _ allowed])
      show "relax g ign cur t s = scored s ?n cur t ?v" using relax better_step by simp
      show "?n \<noteq> cur" using routableD(2) [OF g allowed] by (auto simp: arrive_def)
      show "map_of (gScore s) ?n = None \<or> (\<exists>p. map_of (gScore s) ?n = Some p \<and> ?v < p - EPSILON)" if "?n \<noteq> start"
      proof (cases "map_of (gScore s) ?n")
        case (Some p)
        then obtain q u where "map_of (cameFrom s) ?n = Some (q, u)" using search_invD(4) [OF inv \<open>?n \<noteq> start\<close>] by fastforce
        with Some tie better_step show ?thesis by (auto simp: is_better_def)
      qed simp
      show "map_of (cameFrom s) start = None \<and> ?v \<le> EPSILON" if at_start: "?n = start"
      proof -
        from search_invD(1) [OF inv] obtain x where x: "map_of (gScore s) start = Some x" "x \<le> EPSILON"
          "map_of (cameFrom s) start = None \<longrightarrow> x = 0" by (elim exE conjE)
        have far: "\<not> ?v < x - EPSILON" using pos x(2) by linarith
        have none: "map_of (cameFrom s) start = None"
        proof (rule ccontr)
          assume "map_of (cameFrom s) start \<noteq> None"
          then obtain q u where qu: "map_of (cameFrom s) ?n = Some (q, u)" using at_start by (metis not_None_eq surj_pair)
          have "map_of (gScore s) ?n = Some x" using x(1) at_start by simp
          then show False using tie [OF qu] better_step far qu by (simp add: is_better_def)
        qed
        with x have "x = 0" by simp
        moreover have "map_of (gScore s) ?n = Some x" "map_of (cameFrom s) ?n = None" using x(1) none at_start by simp_all
        ultimately show ?thesis using none better_step pos far by (auto simp: is_better_def)
      qed
    qed
  qed
qed

text \<open>Every state stays traced when one is given a better score.\<close>

lemma retraced:
  assumes inv: "search_inv g ign start s" and g: "routable g"
    and less: "n \<noteq> start \<Longrightarrow> map_of (gScore s) n = None \<or> (\<exists>p. map_of (gScore s) n = Some p \<and> c + tr_cost t < p - EPSILON)"
    and c: "map_of (gScore s) cur = Some c" and "n \<noteq> cur" and pos: "0 \<le> tr_cost t"
    and k: "map_has (gScore s) k \<or> k = n"
  shows "\<exists>X ts. traced ((map_of (cameFrom s))(n \<mapsto> (cur, t))) start k X ts"
proof -
  let ?m = "map_of (cameFrom s)" and ?m' = "(map_of (cameFrom s))(n \<mapsto> (cur, t))"
  obtain X ts where cur: "traced ?m start cur X ts" using search_invD(6) [OF inv, of cur] c by auto
  have "n \<notin> X \<or> n = start"
  proof (rule ccontr)
    assume "\<not> (n \<notin> X \<or> n = start)"
    then have "map_has (gScore s) n \<and> reached_at start s n \<le> reached_at start s cur" "n \<noteq> start"
      using traced_below [OF inv g cur] by auto
    moreover have "reached_at start s cur \<le> c" using search_invD(2) [OF inv c] c by (simp add: reached_at_def)
    ultimately obtain p where "map_of (gScore s) n = Some p" "c + tr_cost t < p - EPSILON" "p \<le> c"
      using less by (auto simp: reached_at_def)
    then show False using pos EPSILON_pos(1) by linarith
  qed
  then have cur': "traced ?m' start cur X ts" by (intro traced_cong [OF cur]) auto
  have step: "\<exists>X ts. traced ?m' start k X ts" if "traced ?m start k Y us" for k Y us
    using that
  proof (induction rule: traced.induct)
    case traced_start
    then show ?case by (auto intro: traced.traced_start)
  next
    case (traced_step k p u Y us)
    show ?case
    proof (cases "k = n")
      case True
      then have "traced ?m' start k (insert k X) (ts @ [t])"
        by (intro traced.traced_step [OF _ traced_step.hyps(2) cur']) simp
      then show ?thesis by blast
    next
      case False
      then have same: "?m' k = Some (p, u)" using traced_step.hyps(1) by simp
      from traced_step.IH obtain Y' us' where "traced ?m' start p Y' us'" by blast
      from traced.traced_step [OF same traced_step.hyps(2) this] show ?thesis by blast
    qed
  qed
  show ?thesis
  proof (cases "k = n")
    case True
    have "traced ?m' start n (insert n X) (ts @ [t])" if "n \<noteq> start"
      by (rule traced.traced_step [OF _ that cur']) simp
    with True show ?thesis using traced.traced_start [of ?m' start] by (cases "n = start") blast+
  next
    case False
    with k have "map_has (gScore s) k" by simp
    then obtain Y us where "traced ?m start k Y us" using search_invD(6) [OF inv] by blast
    then show ?thesis by (rule step)
  qed
qed

lemma relax_inv:
  assumes inv: "search_inv g ign start s" and g: "routable g"
    and t: "t \<in> set (transitions_of g (fst cur))" and c: "map_of (gScore s) cur = Some c"
  shows "search_inv g ign start (relax g ign cur t s)"
  using inv g t c
proof (cases rule: relax_cases)
  case same
  with inv show ?thesis by simp
next
  case better
  let ?n = "arrive t" and ?v = "c + tr_cost t"
  let ?s = "scored s ?n cur t ?v"
  have pos: "0 \<le> c" "0 \<le> tr_cost t" using search_invD(2) [OF inv c] routableD(4) [OF g better(2)] by simp_all
  have cost: "reached_at start s cur \<le> c" using c pos by (simp add: reached_at_def)
  have le: "reached_at start ?s k \<le> reached_at start s k" if "map_has (gScore s) k" for k
  proof (cases "k = ?n \<and> k \<noteq> start")
    case True
    with that better(4) obtain p where "map_of (gScore s) k = Some p" "?v < p - EPSILON" by auto
    moreover from True have "?n \<noteq> start" "k = ?n" by auto
    ultimately have "reached_at start ?s k = ?v" "reached_at start s k = p" by (simp_all add: reached_at_def)
    moreover have "?v < p" using \<open>?v < p - EPSILON\<close> EPSILON_pos(1) by linarith
    ultimately show ?thesis by simp
  next
    case False
    then show ?thesis by (auto simp: reached_at_def)
  qed
  have inv1: "\<exists>x. map_of (gScore ?s) start = Some x \<and> x \<le> EPSILON \<and> (map_of (cameFrom ?s) start = None \<longrightarrow> x = 0)"
    using search_invD(1) [OF inv] better(5) by auto
  have inv2: "0 \<le> x \<and> k \<in> all_states g start" if "map_of (gScore ?s) k = Some x" for k x
    using that search_invD(2) [OF inv, of k x] pos all_states_arrive [OF t] by (auto split: if_splits)
  have inv3: "map_has (gScore ?s) k" if "k \<in> set (s_open ?s)" for k
    using that search_invD(3) [OF inv, of k] by auto
  have inv4: "map_has (cameFrom ?s) k = map_has (gScore ?s) k" if "k \<noteq> start" for k
    using search_invD(4) [OF inv that] by auto
  have inv5: "step_ok g ign start ?s k p u" if "map_of (cameFrom ?s) k = Some (p, u)" for k p u
  proof (cases "k = ?n")
    case True
    with that have pu: "p = cur" "u = t" by simp_all
    have "reached_at start ?s cur = reached_at start s cur" using better(3) by (simp add: reached_at_def)
    then have "k \<noteq> start \<longrightarrow> reached_at start ?s p + tr_cost u \<le> reached_at start ?s k"
      using True pu cost by (simp add: reached_at_def [of start ?s ?n])
    then show ?thesis using True pu better(2) c by (simp add: step_ok_def)
  next
    case False
    then have ok: "step_ok g ign start s k p u" using that search_invD(5) [OF inv] by simp
    then have "reached_at start ?s p \<le> reached_at start s p" by (intro le) (simp add: step_ok_def)
    moreover have "reached_at start ?s k = reached_at start s k" using False by (simp add: reached_at_def)
    ultimately show ?thesis using ok unfolding step_ok_def by auto
  qed
  have inv6: "\<exists>X ts. traced (map_of (cameFrom ?s)) start k X ts" if "map_has (gScore ?s) k" for k
  proof -
    have "map_has (gScore s) k \<or> k = ?n" using that by (auto split: if_splits)
    from retraced [OF inv g better(4) c better(3) pos(2) this] show ?thesis by simp
  qed
  show ?thesis unfolding better(1) search_inv_def using inv1 inv2 inv3 inv4 inv5 inv6 by blast
qed

section \<open>Taking a state\<close>

lemma settled_step_scored:
  assumes "settled_step s k u" and "k \<noteq> n" and "0 \<le> tr_cost u"
    and "\<And>x. map_of (gScore s) k = Some x \<Longrightarrow> 0 \<le> x"
    and "n \<noteq> start \<Longrightarrow> map_of (gScore s) n = None \<or> (\<exists>p. map_of (gScore s) n = Some p \<and> v < p - EPSILON)"
    and "n = start \<Longrightarrow> v \<le> EPSILON"
  shows "settled_step (scored s n cur t v) k u"
proof -
  from assms(1) obtain x y where xy: "map_of (gScore s) k = Some x" "map_of (gScore s) (arrive u) = Some y" "y \<le> x + tr_cost u + EPSILON"
    by (auto simp: settled_step_def)
  show ?thesis
  proof (cases "arrive u = n")
    case True
    have "v \<le> x + tr_cost u + EPSILON"
    proof (cases "n = start")
      case True
      with assms(3,4,6) xy(1) show ?thesis by fastforce
    next
      case False
      with assms(5) True xy have "v < y - EPSILON" by auto
      then show ?thesis using xy(3) EPSILON_pos(1) by linarith
    qed
    then show ?thesis using True xy(1) assms(2) by (auto simp: settled_step_def)
  next
    case False
    then show ?thesis using xy assms(2) by (auto simp: settled_step_def)
  qed
qed

lemma finite_all_states [simp]: "finite (all_states g start)"
  by (simp add: all_states_def)

definition unreached :: "road_graph \<Rightarrow> route_state \<Rightarrow> search \<Rightarrow> nat" where
  "unreached g start s = card {k \<in> all_states g start. map_of (cameFrom s) k = None}"

definition level :: "search \<Rightarrow> route_state \<Rightarrow> nat" where
  "level s k = (case map_of (gScore s) k of None \<Rightarrow> 0 | Some x \<Rightarrow> nat \<lfloor>x / EPSILON\<rfloor>)"

definition levels :: "road_graph \<Rightarrow> route_state \<Rightarrow> search \<Rightarrow> nat" where
  "levels g start s = (\<Sum>k \<in> all_states g start. level s k)"

lemma level_drops:
  assumes "0 \<le> v" and "v < p - EPSILON"
  shows "nat \<lfloor>v / EPSILON\<rfloor> < nat \<lfloor>p / EPSILON\<rfloor>"
proof -
  have "v / EPSILON < (p - EPSILON) / EPSILON" using assms(2) by (intro divide_strict_right_mono) simp_all
  then have "v / EPSILON + 1 < p / EPSILON" using EPSILON_pos(1) by (simp add: diff_divide_distrib split: if_splits)
  then have "\<lfloor>v / EPSILON\<rfloor> + 1 \<le> \<lfloor>p / EPSILON\<rfloor>" by linarith
  moreover have "0 \<le> \<lfloor>v / EPSILON\<rfloor>" using assms(1) by simp
  ultimately show ?thesis by linarith
qed

text \<open>A step that is taken up makes progress.\<close>

lemma relax_progress:
  assumes inv: "search_inv g ign start s" and g: "routable g"
    and t: "t \<in> set (transitions_of g (fst cur))" and c: "map_of (gScore s) cur = Some c"
  shows "relax g ign cur t s = s \<or> (relax g ign cur t s, s) \<in> measures [unreached g start, levels g start]"
  using inv g t c
proof (cases rule: relax_cases)
  case better
  let ?n = "arrive t" and ?v = "c + tr_cost t"
  let ?s = "scored s ?n cur t ?v"
  have mem: "?n \<in> all_states g start" by (rule all_states_arrive [OF t])
  have pos: "0 \<le> ?v" using search_invD(2) [OF inv c] routableD(4) [OF g better(2)] by simp
  have fewer: "{k \<in> all_states g start. map_of (cameFrom ?s) k = None} = {k \<in> all_states g start. map_of (cameFrom s) k = None} - {?n}"
    by auto
  show ?thesis
  proof (cases "map_of (cameFrom s) ?n")
    case None
    with mem have "unreached g start ?s < unreached g start s"
      unfolding unreached_def fewer by (intro card_Diff1_less) simp_all
    then show ?thesis using better(1) by simp
  next
    case (Some qu)
    then have far: "?n \<noteq> start" using better(5) by auto
    with Some have "map_has (gScore s) ?n" using search_invD(4) [OF inv far] by simp
    with better(4) [OF far] obtain p where p: "map_of (gScore s) ?n = Some p" "?v < p - EPSILON" by auto
    have "levels g start ?s < levels g start s"
      unfolding levels_def
    proof (rule sum_strict_mono_ex1)
      show "\<forall>k \<in> all_states g start. level ?s k \<le> level s k"
        using p pos level_drops [OF pos p(2)] by (auto simp: level_def)
      show "\<exists>k \<in> all_states g start. level ?s k < level s k"
        using mem p level_drops [OF pos p(2)] by (intro bexI [of _ ?n]) (auto simp: level_def)
    qed simp
    moreover have "unreached g start ?s = unreached g start s"
      unfolding unreached_def fewer using Some by (intro arg_cong [of _ _ card]) auto
    ultimately show ?thesis using better(1) by simp
  qed
qed simp

text \<open>What holds while the steps of a taken state are tried one after the other.\<close>

definition trying :: "road_graph \<Rightarrow> bool \<Rightarrow> route_state \<Rightarrow> route_state \<Rightarrow> real \<Rightarrow> transition set \<Rightarrow> search \<Rightarrow> bool" where
  "trying g ign start cur c U s \<longleftrightarrow> search_inv g ign start s \<and> settled g ign s (- {cur})
    \<and> map_of (gScore s) cur = Some c \<and> cur \<notin> set (s_open s) \<and> (\<forall>u \<in> U. step_allowed g ign cur u \<longrightarrow> settled_step s cur u)"

lemma relax_trying:
  assumes pre: "trying g ign start cur c U s" and g: "routable g" and t: "t \<in> set (transitions_of g (fst cur))"
  shows "trying g ign start cur c (insert t U) (relax g ign cur t s)"
    and "map_has (gScore (relax g ign cur t s)) k \<Longrightarrow> k \<notin> set (s_open (relax g ign cur t s)) \<Longrightarrow>
      map_has (gScore s) k \<and> k \<notin> set (s_open s)"
proof -
  have inv: "search_inv g ign start s" and c: "map_of (gScore s) cur = Some c" and notopen: "cur \<notin> set (s_open s)"
    and others: "settled g ign s (- {cur})" and done_steps: "\<forall>u \<in> U. step_allowed g ign cur u \<longrightarrow> settled_step s cur u"
    using pre by (auto simp: trying_def)
  have "trying g ign start cur c (insert t U) (relax g ign cur t s) \<and>
    (map_has (gScore (relax g ign cur t s)) k \<longrightarrow> k \<notin> set (s_open (relax g ign cur t s)) \<longrightarrow>
      map_has (gScore s) k \<and> k \<notin> set (s_open s))"
    using inv g t c
  proof (cases rule: relax_cases)
    case same
    then show ?thesis using pre unfolding trying_def by simp
  next
    case better
    let ?n = "arrive t" and ?v = "c + tr_cost t"
    let ?s = "scored s ?n cur t ?v"
    have keep: "settled_step ?s k u" if "settled_step s k u" "k \<noteq> ?n" "step_allowed g ign k u" for k u
      by (rule settled_step_scored [OF that(1,2) routableD(4) [OF g that(3)] _ better(4)])
        (use search_invD(2) [OF inv] better(5) in auto)
    have new: "settled_step ?s cur t" using better(3) c by (auto simp: settled_step_def)
    have inv': "search_inv g ign start ?s" using relax_inv [OF inv g t c] better(1) by simp
    have "settled g ign ?s (- {cur})"
      unfolding settled_def
    proof (intro allI impI)
      fix j u assume j: "map_has (gScore ?s) j" "j \<notin> set (s_open ?s)" "j \<in> - {cur}" "step_allowed g ign j u"
      then have "j \<noteq> ?n" by auto
      moreover have "settled_step s j u" by (rule settledD [OF others _ _ j(3,4)]) (use calculation j(1,2) in auto)
      ultimately show "settled_step ?s j u" using j(4) by (intro keep)
    qed
    moreover have "settled_step ?s cur u" if "u \<in> insert t U" "step_allowed g ign cur u" for u
      using that new done_steps keep better(3) by (cases "u = t") auto
    ultimately show ?thesis
      unfolding better(1) trying_def using inv' c better(3) notopen by auto
  qed
  then show "trying g ign start cur c (insert t U) (relax g ign cur t s)"
    and "map_has (gScore (relax g ign cur t s)) k \<Longrightarrow> k \<notin> set (s_open (relax g ign cur t s)) \<Longrightarrow>
      map_has (gScore s) k \<and> k \<notin> set (s_open s)" by blast+
qed

lemma fold_trying:
  assumes g: "routable g"
  shows "trying g ign start cur c U s \<Longrightarrow> set ts \<subseteq> set (transitions_of g (fst cur)) \<Longrightarrow>
    trying g ign start cur c (U \<union> set ts) (fold (relax g ign cur) ts s)
    \<and> (\<forall>k. map_has (gScore (fold (relax g ign cur) ts s)) k \<longrightarrow> k \<notin> set (s_open (fold (relax g ign cur) ts s)) \<longrightarrow>
        map_has (gScore s) k \<and> k \<notin> set (s_open s))
    \<and> (fold (relax g ign cur) ts s = s \<or> (fold (relax g ign cur) ts s, s) \<in> measures [unreached g start, levels g start])"
proof (induction ts arbitrary: s U)
  case (Cons t ts)
  have t: "t \<in> set (transitions_of g (fst cur))" using Cons.prems(2) by simp
  let ?s = "relax g ign cur t s"
  note step = relax_trying [OF Cons.prems(1) g t]
  have "search_inv g ign start s" "map_of (gScore s) cur = Some c" using Cons.prems(1) by (simp_all add: trying_def)
  note progress = relax_progress [OF this(1) g t this(2)]
  have "set ts \<subseteq> set (transitions_of g (fst cur))" using Cons.prems(2) by simp
  note IH = Cons.IH [OF step(1) this]
  have "fold (relax g ign cur) ts ?s = s \<or> (fold (relax g ign cur) ts ?s, s) \<in> measures [unreached g start, levels g start]"
    using IH progress by auto
  then show ?case using IH step(2) by (auto simp: insert_commute)
qed simp

text \<open>The state of the loop: everything that is not open is settled, and none of it is accepted.\<close>

definition loop_inv :: "road_graph \<Rightarrow> string \<Rightarrow> search_options \<Rightarrow> route_state \<Rightarrow> search \<Rightarrow> bool" where
  "loop_inv g goal opts start s \<longleftrightarrow> search_inv g (ignoreTurnRules opts) start s \<and> settled g (ignoreTurnRules opts) s UNIV
    \<and> (\<forall>k. map_has (gScore s) k \<longrightarrow> k \<notin> set (s_open s) \<longrightarrow> \<not> accepts g goal opts k)"

lemma expand_inv:
  assumes g: "routable g" and inv: "loop_inv g goal opts start s" and cur: "cur \<in> set (s_open s)" and not_accepted: "\<not> accepts g goal opts cur"
  shows "loop_inv g goal opts start (expand g (ignoreTurnRules opts) cur s)"
    and "(expand g (ignoreTurnRules opts) cur s, s) \<in> measures [unreached g start, levels g start, \<lambda>s. length (s_open s)]"
proof -
  let ?ign = "ignoreTurnRules opts" and ?ts = "transitions_of g (fst cur)"
  let ?s = "s\<lparr>s_open := filter (\<lambda>k. k \<noteq> cur) (s_open s), s_closed := s_closed s @ [cur]\<rparr>"
  have old: "search_inv g ?ign start s" "settled g ?ign s UNIV" using inv by (simp_all add: loop_inv_def)
  obtain c where c: "map_of (gScore s) cur = Some c" using search_invD(3) [OF old(1) cur] by auto
  have same: "step_ok g ?ign start ?s = step_ok g ?ign start s" by (simp add: step_ok_def reached_at_def fun_eq_iff)
  have "search_inv g ?ign start ?s" using old(1) by (simp add: search_inv_def same)
  moreover have "settled g ?ign ?s (- {cur})"
    unfolding settled_def
  proof (intro allI impI)
    fix k t assume k: "map_has (gScore ?s) k" "k \<notin> set (s_open ?s)" "k \<in> - {cur}" "step_allowed g ?ign k t"
    have "settled_step s k t" by (rule settledD [OF old(2) _ _ UNIV_I k(4)]) (use k(1-3) in auto)
    then show "settled_step ?s k t" by (simp add: settled_step_def)
  qed
  ultimately have "trying g ?ign start cur c {} ?s" using c by (simp add: trying_def)
  from fold_trying [OF g this order_refl] have new: "trying g ?ign start cur c (set ?ts) (expand g ?ign cur s)"
    and closed: "\<And>k. map_has (gScore (expand g ?ign cur s)) k \<Longrightarrow> k \<notin> set (s_open (expand g ?ign cur s)) \<Longrightarrow>
      map_has (gScore s) k \<and> (k \<notin> set (s_open s) \<or> k = cur)"
    and progress: "expand g ?ign cur s = ?s \<or> (expand g ?ign cur s, ?s) \<in> measures [unreached g start, levels g start]"
    by (auto simp: expand_def)
  have "settled g ?ign (expand g ?ign cur s) UNIV"
    using new unfolding trying_def settled_def step_allowed_def by (metis Compl_iff singletonD)
  then show "loop_inv g goal opts start (expand g ?ign cur s)"
    using new closed inv not_accepted unfolding loop_inv_def trying_def by blast
  have "length (filter (\<lambda>k. k \<noteq> cur) (s_open s)) < length (s_open s)" using cur by (simp add: length_filter_less)
  moreover have "unreached g start ?s = unreached g start s" "levels g start ?s = levels g start s"
    by (simp_all add: unreached_def levels_def level_def)
  ultimately show "(expand g ?ign cur s, s) \<in> measures [unreached g start, levels g start, \<lambda>s. length (s_open s)]"
    using progress by auto
qed

section \<open>What the search returns\<close>

text \<open>Every legal way to an accepted state leaves the settled states through an open one, close to its cost.\<close>

lemma frontier:
  "loop_inv g goal opts start s \<Longrightarrow> legal_way g (ignoreTurnRules opts) k ts \<Longrightarrow> accepts g goal opts (end_of k ts) \<Longrightarrow>
    map_of (gScore s) k = Some x \<Longrightarrow>
    \<exists>us vs y. ts = us @ vs \<and> end_of k us \<in> set (s_open s) \<and> map_of (gScore s) (end_of k us) = Some y
      \<and> y \<le> x + way_cost us + real (length us) * EPSILON"
proof (induction ts arbitrary: k x)
  case Nil
  have "map_has (gScore s) k" "accepts g goal opts k" using Nil(3,4) by simp_all
  then have "k \<in> set (s_open s)" using Nil(1) unfolding loop_inv_def by blast
  with Nil show ?case by (intro exI [of _ "[]"]) simp
next
  case (Cons t ts)
  show ?case
  proof (cases "k \<in> set (s_open s)")
    case True
    with Cons.prems(4) show ?thesis by (intro exI [of _ "[]"] exI [of _ "t # ts"] exI [of _ x]) simp
  next
    case False
    have "settled_step s k t"
      by (rule settledD [of g "ignoreTurnRules opts" s UNIV]) (use Cons.prems False in \<open>auto simp: loop_inv_def\<close>)
    then obtain z where z: "map_of (gScore s) (arrive t) = Some z" "z \<le> x + tr_cost t + EPSILON"
      using Cons.prems(4) by (auto simp: settled_step_def)
    have "legal_way g (ignoreTurnRules opts) (arrive t) ts" "accepts g goal opts (end_of (arrive t) ts)"
      using Cons.prems(2,3) by simp_all
    from Cons.IH [OF Cons.prems(1) this z(1)] obtain us vs y where
      found: "ts = us @ vs" "end_of (arrive t) us \<in> set (s_open s)" "map_of (gScore s) (end_of (arrive t) us) = Some y"
        "y \<le> z + way_cost us + real (length us) * EPSILON" by (elim exE conjE)
    then have "y \<le> x + way_cost (t # us) + real (length (t # us)) * EPSILON" using z(2) by (simp add: algebra_simps)
    with found show ?thesis by (intro exI [of _ "t # us"] exI [of _ vs] exI [of _ y]) simp
  qed
qed

definition legal_route :: "road_graph \<Rightarrow> string \<Rightarrow> search_options \<Rightarrow> route_state \<Rightarrow> transition list \<Rightarrow> bool" where
  "legal_route g goal opts start ts \<longleftrightarrow> legal_way g (ignoreTurnRules opts) start ts \<and> accepts g goal opts (end_of start ts)"

definition best_route :: "road_graph \<Rightarrow> string \<Rightarrow> search_options \<Rightarrow> route_state \<Rightarrow> search_result \<Rightarrow> bool" where
  "best_route g goal opts start r \<longleftrightarrow>
    (case r of
       SearchFailed e \<Rightarrow> e = NoPath \<and> (\<forall>ts. \<not> legal_route g goal opts start ts)
     | Route nodes edges steps cost \<Rightarrow>
         nodes = fst start # map tr_to steps \<and> edges = map tr_edge steps \<and> legal_route g goal opts start steps
         \<and> (\<exists>c. cost = Some c \<and> way_cost steps \<le> c
             \<and> (\<forall>ts. legal_route g goal opts start ts \<longrightarrow> c \<le> way_cost ts + (real (length ts) + 1) * EPSILON)))"

lemma start_scored:
  assumes "loop_inv g goal opts start s"
  obtains x where "map_of (gScore s) start = Some x" and "x \<le> EPSILON"
  using search_invD(1) [of g "ignoreTurnRules opts" start s] assms that by (auto simp: loop_inv_def)

lemma taken_is_best:
  assumes g: "routable g" and inv: "loop_inv g goal opts start s" and "s_open s \<noteq> []"
    and cur: "cur = hd (sort_by (open_order g goal s) (s_open s))" and acc: "accepts g goal opts cur"
    and c: "map_of (gScore s) cur = Some c" and way: "legal_route g goal opts start ts"
  shows "c \<le> way_cost ts + (real (length ts) + 1) * EPSILON"
proof -
  obtain x where x: "map_of (gScore s) start = Some x" "x \<le> EPSILON" by (rule start_scored [OF inv])
  from way have legal: "legal_way g (ignoreTurnRules opts) start ts" and accepted: "accepts g goal opts (end_of start ts)"
    by (simp_all add: legal_route_def)
  from frontier [OF inv legal accepted x(1)] obtain us vs y where
    us: "ts = us @ vs" "end_of start us \<in> set (s_open s)" "map_of (gScore s) (end_of start us) = Some y"
      "y \<le> x + way_cost us + real (length us) * EPSILON" by (elim exE conjE)
  let ?j = "end_of start us"
  have "legal_way g (ignoreTurnRules opts) ?j vs" using legal us(1) by (simp add: legal_way_append)
  moreover have "end_of ?j vs = end_of start ts" unfolding us(1) by (auto simp: end_of_def)
  moreover have "fst (end_of start ts) = goal" using accepted by (simp add: accepts_def)
  ultimately have h: "heuristic g (fst ?j) goal \<le> way_cost vs"
    using heuristic_below_way [OF g, of "ignoreTurnRules opts" ?j vs goal] by (simp add: heuristic_goal)
  have "score g goal s cur = Some c" using c acc by (simp add: score_def accepts_def heuristic_goal)
  moreover have "score g goal s ?j = Some (y + heuristic g (fst ?j) goal)" using us(3) by (simp add: score_def)
  ultimately have "c \<le> y + heuristic g (fst ?j) goal" using first_is_least(2) [OF assms(3) cur us(2)] by blast
  then have "c \<le> EPSILON + way_cost us + real (length us) * EPSILON + way_cost vs" using us(4) h x(2) by linarith
  moreover have "real (length us) * EPSILON \<le> real (length ts) * EPSILON" using us(1) by (intro mult_right_mono) simp_all
  moreover have "way_cost ts = way_cost us + way_cost vs" using us(1) by simp
  ultimately show ?thesis unfolding distrib_right mult_1_left by linarith
qed

lemma loop_returns:
  assumes g: "routable g" and "loop_inv g goal opts start s"
  shows "\<exists>r. search_loop g goal opts start s = Some r \<and> best_route g goal opts start r"
  using assms(2)
proof (induction s rule: wf_induct_rule [OF wf_measures, of "[unreached g start, levels g start, \<lambda>s. length (s_open s)]"])
  case (1 s)
  let ?cur = "hd (sort_by (open_order g goal s) (s_open s))"
  show ?case
  proof (cases "s_open s = []")
    case True
    obtain x where x: "map_of (gScore s) start = Some x" by (rule start_scored [OF 1(2)])
    have "\<not> legal_route g goal opts start ts" for ts
      using frontier [OF 1(2) _ _ x, of ts] True by (auto simp: legal_route_def)
    with True show ?thesis by (subst search_loop.simps) (simp add: best_route_def)
  next
    case False
    have inv: "search_inv g (ignoreTurnRules opts) start s" using 1(2) by (simp add: loop_inv_def)
    have mem: "?cur \<in> set (s_open s)" by (rule first_is_least(1) [OF False refl])
    show ?thesis
    proof (cases "accepts g goal opts ?cur")
      case True
      obtain c where c: "map_of (gScore s) ?cur = Some c" using search_invD(3) [OF inv mem] by auto
      then obtain X ts where trace: "traced (map_of (cameFrom s)) start ?cur X ts" using search_invD(6) [OF inv, of ?cur] by auto
      have way: "legal_way g (ignoreTurnRules opts) start ts" "end_of start ts = ?cur" "way_cost ts \<le> reached_at start s ?cur"
        using traced_way [OF inv trace] by auto
      have "reached_at start s ?cur \<le> c" using search_invD(2) [OF inv c] c by (simp add: reached_at_def)
      then have "best_route g goal opts start (route_of (fst start) ts (Some c))"
        using way True taken_is_best [OF g 1(2) False refl True c] by (simp add: best_route_def route_of_def legal_route_def)
      moreover have "search_loop g goal opts start s = Some (route_of (fst start) ts (Some c))"
        using False True trace_back_traced [OF trace, of "[]"] c by (subst search_loop.simps) (simp add: Let_def)
      ultimately show ?thesis by blast
    next
      case not_yet: False
      note stepped = expand_inv [OF g 1(2) mem not_yet]
      from 1(1) [OF stepped(2) stepped(1)] show ?thesis
        using False not_yet by (subst search_loop.simps) (simp add: Let_def)
    qed
  qed
qed

lemma search_starts:
  "loop_inv g goal opts start \<lparr>s_open = [start], s_closed = [], gScore = [(start, 0)], cameFrom = []\<rparr>"
proof -
  let ?s = "\<lparr>s_open = [start], s_closed = [], gScore = [(start, 0)], cameFrom = []\<rparr>"
  have "traced (map_of (cameFrom ?s)) start start {start} []" by (rule traced_start)
  then have "search_inv g (ignoreTurnRules opts) start ?s"
    by (auto simp: search_inv_def all_states_def)
  then show ?thesis by (auto simp: loop_inv_def settled_def)
qed

lemma search_returns_best:
  assumes "routable g" and "map_has (g_nodes g) start" and "map_has (g_nodes g) goal"
  shows "\<exists>r. deterministicDirectedAStar g start goal opts = Some r \<and> best_route g goal opts (start, truthy (incomingEdgeId opts)) r"
  using loop_returns [OF assms(1) search_starts] assms(2,3) by (simp add: deterministicDirectedAStar_def Let_def)

section \<open>Graphs of documents\<close>

lemma legal_lanes_sym: "distanceXZ p q = distanceXZ q p"
  by (simp add: distanceXZ_def power2_commute)

lemma distanceXZ_triangle: "distanceXZ p r \<le> distanceXZ p q + distanceXZ q r"
  unfolding distanceXZ_def
  using real_sqrt_sum_squares_triangle_ineq [of "px q - px p" "px r - px q" "pz q - pz p" "pz r - pz q"] by simp

text \<open>What every transition of a graph under construction satisfies.\<close>

definition from_edges :: "(string, point3) js_map \<Rightarrow> road_edge list \<Rightarrow> transition \<Rightarrow> bool" where
  "from_edges nodes es t \<longleftrightarrow> (\<exists>e \<in> set es. tr_edge t = edge_id e \<and> edge_id e \<noteq> [] \<and> startNodeId e \<noteq> endNodeId e
    \<and> ((tr_from t = startNodeId e \<and> tr_to t = endNodeId e) \<or> (tr_from t = endNodeId e \<and> tr_to t = startNodeId e))
    \<and> (\<exists>p q. map_of nodes (tr_from t) = Some p \<and> map_of nodes (tr_to t) = Some q \<and> tr_cost t = distanceXZ p q))"

definition graph_ok :: "(string, point3) js_map \<Rightarrow> road_edge list \<Rightarrow> road_graph \<Rightarrow> bool" where
  "graph_ok nodes es g \<longleftrightarrow> g_nodes g = nodes \<and> (\<forall>v. \<forall>t \<in> set (transitions_of g v). tr_from t = v \<and> from_edges nodes es t)"

lemma addTransition_ok:
  assumes "graph_ok nodes es g" and "from_edges nodes es \<lparr>tr_edge = edge_id e, tr_from = a, tr_to = b, tr_direction = d, tr_cost = len\<rparr>"
  shows "graph_ok nodes es (addTransition e len a b d g)"
  using assms by (auto simp: graph_ok_def addTransition_def transitions_of_def update_conv' split: option.splits if_splits)

lemma from_edges_mono: "from_edges nodes es t \<Longrightarrow> set es \<subseteq> set fs \<Longrightarrow> from_edges nodes fs t"
  unfolding from_edges_def by blast

lemma graph_ok_more: "graph_ok nodes es g \<Longrightarrow> set es \<subseteq> set fs \<Longrightarrow> graph_ok nodes fs g"
  unfolding graph_ok_def using from_edges_mono by blast

lemma addEdge_ok:
  assumes ok: "graph_ok nodes es g" and e: "e \<in> set es"
  shows "graph_ok nodes es (addEdge e g)"
proof (cases "edge_id e = [] \<or> map_of nodes (startNodeId e) = None \<or> map_of nodes (endNodeId e) = None \<or> startNodeId e = endNodeId e")
  case True
  with ok show ?thesis by (auto simp: addEdge_def graph_ok_def split: option.splits)
next
  case False
  then obtain p q where pq: "map_of nodes (startNodeId e) = Some p" "map_of nodes (endNodeId e) = Some q"
    and ne: "edge_id e \<noteq> []" "startNodeId e \<noteq> endNodeId e" by auto
  let ?t = "\<lambda>a b d. \<lparr>tr_edge = edge_id e, tr_from = a, tr_to = b, tr_direction = d, tr_cost = distanceXZ p q\<rparr>"
  have fwd: "from_edges nodes es (?t (startNodeId e) (endNodeId e) 1)" using e ne pq by (auto simp: from_edges_def)
  have bwd: "from_edges nodes es (?t (endNodeId e) (startNodeId e) (-1))"
    using e ne pq legal_lanes_sym [of p q] by (auto simp: from_edges_def)
  let ?issues = "validateRoadLaneLayout e None"
  let ?g2 = "count_end (endNodeId e) (count_end (startNodeId e) (g\<lparr>g_edges := AList.update (edge_id e) (e, distanceXZ p q) (g_edges g),
    g_laneIssues := g_laneIssues g @ (if ?issues \<noteq> [] then [(edge_id e, ?issues)] else [])\<rparr>))"
  let ?g3 = "if legalLaneIndices e 1 \<noteq> [] then addTransition e (distanceXZ p q) (startNodeId e) (endNodeId e) 1 ?g2 else ?g2"
  have nodes: "g_nodes g = nodes" using ok by (simp add: graph_ok_def)
  have "graph_ok nodes es ?g2" using ok by (simp add: graph_ok_def count_end_def transitions_of_def)
  then have three: "graph_ok nodes es ?g3" using addTransition_ok [OF _ fwd] by simp
  have "addEdge e g = (if legalLaneIndices e (-1) \<noteq> []
      then addTransition e (distanceXZ p q) (endNodeId e) (startNodeId e) (-1) ?g3 else ?g3)"
    using ne pq unfolding addEdge_def Let_def nodes by simp
  then show ?thesis using three addTransition_ok [OF three bwd] by simp
qed

lemma addEdges_ok: "graph_ok nodes es g \<Longrightarrow> set fs \<subseteq> set es \<Longrightarrow> graph_ok nodes es (fold addEdge fs g)"
  by (induction fs arbitrary: g) (auto intro: addEdge_ok)

lemma map_of_map_snd: "map_of (map (\<lambda>(i, x). (i, f x)) m) k = map_option f (map_of m k)"
  by (induction m) auto

lemma built_graph_ok: "graph_ok (graph_nodes (d_nodes doc)) (d_edges doc) (buildDirectedRoadGraph doc)"
proof -
  let ?nodes = "graph_nodes (d_nodes doc)"
  let ?g0 = "\<lparr>g_nodes = ?nodes, g_edges = [], g_adjacency = map (\<lambda>(i, _). (i, [])) ?nodes, g_degree = map (\<lambda>(i, _). (i, 0)) ?nodes,
    g_turnRules = [], g_laneIssues = [], g_turnRuleIssues = [], g_infeasible = []\<rparr>"
  have "graph_ok ?nodes (d_edges doc) ?g0"
    by (simp add: graph_ok_def transitions_of_def map_of_map_snd split: option.splits)
  then have "graph_ok ?nodes (d_edges doc) (fold addEdge (d_edges doc) ?g0)" by (rule addEdges_ok) simp
  then show ?thesis
    by (simp add: graph_ok_def buildDirectedRoadGraph_def Let_def transitions_of_def map_of_map_snd split: option.splits)
qed

lemma built_graph_routable:
  assumes "distinct (map edge_id (d_edges doc))"
  shows "routable (buildDirectedRoadGraph doc)"
proof -
  let ?g = "buildDirectedRoadGraph doc" and ?nodes = "graph_nodes (d_nodes doc)"
  have ok: "g_nodes ?g = ?nodes" "\<And>v t. t \<in> set (transitions_of ?g v) \<Longrightarrow> tr_from t = v \<and> from_edges ?nodes (d_edges doc) t"
    using built_graph_ok [of doc] by (auto simp: graph_ok_def)
  have straight: "heuristic ?g v goal \<le> tr_cost t + heuristic ?g (tr_to t) goal" if t: "t \<in> set (transitions_of ?g v)" for v t goal
  proof -
    from ok(2) [OF t] obtain p q where "map_of ?nodes v = Some p" "map_of ?nodes (tr_to t) = Some q" "tr_cost t = distanceXZ p q"
      by (auto simp: from_edges_def)
    then show ?thesis
      using distanceXZ_triangle [of p _ q] by (auto simp: heuristic_def ok(1) distanceXZ_def split: option.splits)
  qed
  have same: "tr_from t = tr_from u" if "t \<in> set (transitions_of ?g v)" "u \<in> set (transitions_of ?g w)"
      "tr_edge t = tr_edge u" "tr_to t = tr_to u" for t u v w
  proof -
    from ok(2) [OF that(1)] obtain e where e: "e \<in> set (d_edges doc)" "tr_edge t = edge_id e"
      "(tr_from t = startNodeId e \<and> tr_to t = endNodeId e) \<or> (tr_from t = endNodeId e \<and> tr_to t = startNodeId e)"
      by (auto simp: from_edges_def)
    from ok(2) [OF that(2)] obtain f where f: "f \<in> set (d_edges doc)" "tr_edge u = edge_id f" "startNodeId f \<noteq> endNodeId f"
      "(tr_from u = startNodeId f \<and> tr_to u = endNodeId f) \<or> (tr_from u = endNodeId f \<and> tr_to u = startNodeId f)"
      by (auto simp: from_edges_def)
    have "e = f" using assms e(1,2) f(1,2) that(3) by (metis distinct_map inj_onD)
    with e(3) f(3,4) that(4) show ?thesis by auto
  qed
  have "tr_from t = v \<and> tr_to t \<noteq> v \<and> tr_edge t \<noteq> [] \<and> 0 \<le> tr_cost t" if "t \<in> set (transitions_of ?g v)" for v t
    using ok(2) [OF that] by (auto simp: from_edges_def distanceXZ_def)
  then show ?thesis using straight same unfolding routable_def by blast
qed

section \<open>Properties\<close>

text \<open>
  C2. On the graph of a road network without repeated edge ids, the search between two of its nodes always returns. If
  it returns a route, that is a legal way that is accepted at the goal, and no legal way is cheaper by more than the
  tolerance for each of its steps and one more; if it fails, there is no legal way.
\<close>

theorem route_search_correct:
  assumes "distinct (map edge_id (d_edges doc))"
    and "map_has (g_nodes (buildDirectedRoadGraph doc)) start" and "map_has (g_nodes (buildDirectedRoadGraph doc)) goal"
  shows "\<exists>r. deterministicDirectedAStar (buildDirectedRoadGraph doc) start goal opts = Some r
    \<and> best_route (buildDirectedRoadGraph doc) goal opts (start, truthy (incomingEdgeId opts)) r"
  by (rule search_returns_best [OF built_graph_routable [OF assms(1)] assms(2,3)])

text \<open>Three nodes in a corner, two roads, and a rule that forbids the turn at the middle one.\<close>

definition plain_road :: "string \<Rightarrow> string \<Rightarrow> string \<Rightarrow> road_edge" where
  "plain_road i a b = \<lparr>edge_id = i, startNodeId = a, endNodeId = b, edge_width = Absent, laneCount = Absent, bidirectional = None,
    oneWay = None, edge_direction = DirNone, oneWayDirection = DirNone, road_lanes = None\<rparr>"

definition demo_doc :: road_doc where
  "demo_doc = \<lparr>d_nodes = [(''a'', Some \<lparr>px = 0, py = 0, pz = 0\<rparr>), (''b'', Some \<lparr>px = 3, py = 0, pz = 0\<rparr>),
      (''c'', Some \<lparr>px = 3, py = 0, pz = 4\<rparr>)],
    d_edges = [plain_road ''r'' ''a'' ''b'', plain_road ''s'' ''b'' ''c'', plain_road ''t'' ''a'' ''c''],
    d_turnRules = [\<lparr>rr_node = ''b'', rr_from = ''r'', rr_to = ''s'', rr_allowed = Some False\<rparr>]\<rparr>"

definition demo_options :: search_options where
  "demo_options = \<lparr>incomingEdgeId = None, outgoingEdgeId = None, goalIncomingEdgeId = None, ignoreTurnRules = False\<rparr>"

theorem route_search_witness:
  "\<exists>r. deterministicDirectedAStar (buildDirectedRoadGraph demo_doc) ''a'' ''c'' demo_options = Some r
    \<and> best_route (buildDirectedRoadGraph demo_doc) ''c'' demo_options (''a'', truthy (incomingEdgeId demo_options)) r"
proof -
  have nodes: "g_nodes (buildDirectedRoadGraph demo_doc) = graph_nodes (d_nodes demo_doc)"
    using built_graph_ok [of demo_doc] by (simp add: graph_ok_def)
  have ids: "distinct (map edge_id (d_edges demo_doc))" by (simp add: demo_doc_def plain_road_def)
  have ends: "map_has (g_nodes (buildDirectedRoadGraph demo_doc)) ''a''" "map_has (g_nodes (buildDirectedRoadGraph demo_doc)) ''c''"
    unfolding nodes by (simp_all add: demo_doc_def graph_nodes_def)
  show ?thesis by (rule route_search_correct [OF ids ends])
qed

end
