(* ===== verification/RoadPlaces.thy ===== *)
theory RoadPlaces
  imports RoadGraph
begin

text \<open>
  \<open>app/scenarios/route/roadGraph.js\<close>, where a point lies on the road network: the spatial index of a graph of
  geometry version 1, the candidates it gives for a point, and \<open>projectPointToRoadNetwork\<close>. Coordinates are exact
  reals. What the records of nodes and edges hold beyond the fields the search reads is a \<open>road_shape\<close>.
\<close>

section \<open>Shapes and distances\<close>

record road_shape =
  junction_node :: "string \<Rightarrow> bool"
  startArm :: "string \<Rightarrow> point3 option"
  endArm :: "string \<Rightarrow> point3 option"
  shoulderWidth :: "string \<Rightarrow> js_field"

datatype radius_option = RadiusUnset | RadiusNumber real | RadiusFunction "string \<Rightarrow> js_field"

record projection_options =
  po_tolerance :: js_field
  po_radius :: radius_option

definition DEFAULT_INTERSECTION_RADIUS :: real where "DEFAULT_INTERSECTION_RADIUS = 5"

definition CENTERLINE_EPSILON :: real where "CENTERLINE_EPSILON = 1 / 10 ^ 6"

definition ROAD_SPATIAL_CELL_METERS :: real where "ROAD_SPATIAL_CELL_METERS = 32"

definition clamp01 :: "real \<Rightarrow> real" where "clamp01 x = max 0 (min 1 x)"

definition projectPointToSegment :: "point3 \<Rightarrow> point3 \<Rightarrow> point3 \<Rightarrow> point3 \<times> real \<times> real" where
  "projectPointToSegment p a b =
    (let dx = px b - px a; dy = py b - py a; dz = pz b - pz a; lengthSquared = dx * dx + dz * dz;
         t = (if lengthSquared \<le> EPSILON then 0 else clamp01 (((px p - px a) * dx + (pz p - pz a) * dz) / lengthSquared));
         projected = \<lparr>px = px a + dx * t, py = py a + dy * t, pz = pz a + dz * t\<rparr>
     in (projected, t, distanceXZ p projected))"

definition is_junction :: "road_shape \<Rightarrow> road_graph \<Rightarrow> string \<Rightarrow> bool" where
  "is_junction sh g v \<longleftrightarrow> junction_node sh v \<or> degree_of g v > 1"

definition arm_of :: "road_shape \<Rightarrow> string \<Rightarrow> road_edge \<Rightarrow> point3 option" where
  "arm_of sh v e =
    (if endNodeId e = v then endArm sh (edge_id e) else if startNodeId e = v then startArm sh (edge_id e) else None)"

definition intersectionRadius :: "road_shape \<Rightarrow> road_graph \<Rightarrow> radius_option \<Rightarrow> string \<Rightarrow> real" where
  "intersectionRadius sh g opt v =
    (case opt of
       RadiusFunction f \<Rightarrow> max 0 (finite_field (f v) 0)
     | RadiusNumber r \<Rightarrow> max 0 r
     | RadiusUnset \<Rightarrow>
         (let radius = fold (\<lambda>(_, e, _) r. case (arm_of sh v e, map_of (g_nodes g) v) of
                (Some arm, Some p) \<Rightarrow> max r (distanceXZ p arm) | _ \<Rightarrow> r) (g_edges g) 0
          in if radius > EPSILON then radius else DEFAULT_INTERSECTION_RADIUS))"

definition halfWidth :: "road_shape \<Rightarrow> road_edge \<Rightarrow> real" where
  "halfWidth sh e = finite_field (edge_width e) DEFAULT_ROAD_WIDTH * (1 / 2) + finite_field (shoulderWidth sh (edge_id e)) 0"

section \<open>The spatial index\<close>

record bounds =
  min_x :: real
  max_x :: real
  min_z :: real
  max_z :: real

record spatial_cell =
  cell_edges :: "string list"
  cell_junctions :: "string list"

type_synonym spatial_index = "(int \<times> int, spatial_cell) js_map"

datatype cell_kind = EdgeCell | JunctionCell

definition cell_of :: "real \<Rightarrow> int" where
  "cell_of x = \<lfloor>x / ROAD_SPATIAL_CELL_METERS\<rfloor>"

text \<open>The two loops over the columns and rows of cells that a rectangle meets.\<close>

definition cells_of :: "bounds \<Rightarrow> (int \<times> int) list" where
  "cells_of b = List.product [cell_of (min_x b)..cell_of (max_x b)] [cell_of (min_z b)..cell_of (max_z b)]"

definition set_add :: "'a \<Rightarrow> 'a list \<Rightarrow> 'a list" where
  "set_add x xs = (if x \<in> set xs then xs else xs @ [x])"

definition cell_add :: "cell_kind \<Rightarrow> string \<Rightarrow> int \<times> int \<Rightarrow> spatial_index \<Rightarrow> spatial_index" where
  "cell_add kind i key cells =
    (let cell = (case map_of cells key of None \<Rightarrow> \<lparr>cell_edges = [], cell_junctions = []\<rparr> | Some c \<Rightarrow> c)
     in AList.update key (case kind of
          EdgeCell \<Rightarrow> cell\<lparr>cell_edges := set_add i (cell_edges cell)\<rparr>
        | JunctionCell \<Rightarrow> cell\<lparr>cell_junctions := set_add i (cell_junctions cell)\<rparr>) cells)"

definition addSpatialBounds :: "cell_kind \<Rightarrow> string \<Rightarrow> bounds \<Rightarrow> spatial_index \<Rightarrow> spatial_index" where
  "addSpatialBounds kind i b cells = fold (cell_add kind i) (cells_of b) cells"

definition pointsBounds :: "point3 list \<Rightarrow> real \<Rightarrow> bounds option" where
  "pointsBounds ps padding =
    (case ps of [] \<Rightarrow> None
     | p # qs \<Rightarrow> Some \<lparr>min_x = fold min (map px qs) (px p) - padding, max_x = fold max (map px qs) (px p) + padding,
         min_z = fold min (map pz qs) (pz p) - padding, max_z = fold max (map pz qs) (pz p) + padding\<rparr>)"

definition edge_bounds :: "road_shape \<Rightarrow> road_graph \<Rightarrow> road_edge \<Rightarrow> bounds option" where
  "edge_bounds sh g e =
    pointsBounds (List.map_filter (map_of (g_nodes g)) [startNodeId e, endNodeId e]) (halfWidth sh e)"

definition junction_bounds :: "road_shape \<Rightarrow> road_graph \<Rightarrow> string \<Rightarrow> point3 \<Rightarrow> bounds" where
  "junction_bounds sh g v p =
    (let radius = intersectionRadius sh g RadiusUnset v
     in \<lparr>min_x = px p - radius, max_x = px p + radius, min_z = pz p - radius, max_z = pz p + radius\<rparr>)"

definition index_edge :: "road_shape \<Rightarrow> road_graph \<Rightarrow> road_edge \<Rightarrow> spatial_index \<Rightarrow> spatial_index" where
  "index_edge sh g e cells =
    (case edge_bounds sh g e of None \<Rightarrow> cells | Some b \<Rightarrow> addSpatialBounds EdgeCell (edge_id e) b cells)"

definition index_node :: "road_shape \<Rightarrow> road_graph \<Rightarrow> string \<times> point3 \<Rightarrow> spatial_index \<Rightarrow> spatial_index" where
  "index_node sh g vp cells =
    (if is_junction sh g (fst vp) then addSpatialBounds JunctionCell (fst vp) (junction_bounds sh g (fst vp) (snd vp)) cells
     else cells)"

definition buildRoadSpatialIndex :: "road_shape \<Rightarrow> road_graph \<Rightarrow> spatial_index" where
  "buildRoadSpatialIndex sh g =
    fold (index_node sh g) (g_nodes g) (fold (index_edge sh g) (map (\<lambda>(_, e, _). e) (g_edges g)) [])"

record candidates =
  edgeIds :: "string list"
  junctionIds :: "string list"

definition around :: "point3 \<Rightarrow> real \<Rightarrow> bounds" where
  "around p tolerance = \<lparr>min_x = px p - tolerance, max_x = px p + tolerance, min_z = pz p - tolerance, max_z = pz p + tolerance\<rparr>"

definition spatialCandidates :: "spatial_index \<Rightarrow> point3 \<Rightarrow> real \<Rightarrow> candidates" where
  "spatialCandidates index p tolerance =
    (let cells = List.map_filter (map_of index) (cells_of (around p tolerance))
     in \<lparr>edgeIds = sort_by compareText (fold (\<lambda>c ids. fold set_add (cell_edges c) ids) cells []),
         junctionIds = sort_by compareText (fold (\<lambda>c ids. fold set_add (cell_junctions c) ids) cells [])\<rparr>)"

section \<open>Projecting a point\<close>

record node_place =
  np_node :: string
  np_point :: point3
  np_distance :: real
  np_radius :: real

record road_place =
  rp_edge :: string
  rp_t :: real
  rp_lane :: "nat option"
  rp_fixed :: bool
  rp_rightOffset :: real
  rp_centerline :: point3
  rp_point :: point3
  rp_distance :: real
  rp_halfWidth :: real

datatype projection = AtNode node_place | OnRoad road_place

definition node_order :: "node_place \<Rightarrow> node_place \<Rightarrow> int" where
  "node_order l r = cmp_or (cmp_real (np_distance l) (np_distance r)) (compareText (np_node l) (np_node r))"

definition place_order :: "road_place \<Rightarrow> road_place \<Rightarrow> int" where
  "place_order l r = cmp_or (cmp_real (rp_distance l) (rp_distance r))
    (cmp_or (compareText (rp_edge l) (rp_edge r)) (cmp_real (rp_t l) (rp_t r)))"

definition node_hit :: "road_shape \<Rightarrow> road_graph \<Rightarrow> radius_option \<Rightarrow> real \<Rightarrow> point3 \<Rightarrow> string \<times> point3 \<Rightarrow> node_place option" where
  "node_hit sh g opt tolerance p vq =
    (let v = fst vq; q = snd vq; distance = distanceXZ p q; radius = intersectionRadius sh g opt v
     in if is_junction sh g v \<and> distance \<le> radius + tolerance + EPSILON
        then Some \<lparr>np_node = v, np_point = q, np_distance = distance, np_radius = radius\<rparr> else None)"

definition road_hit :: "road_shape \<Rightarrow> road_graph \<Rightarrow> real \<Rightarrow> point3 \<Rightarrow> string \<Rightarrow> road_place option" where
  "road_hit sh g tolerance p i =
    (case map_of (g_edges g) i of
       None \<Rightarrow> None
     | Some (e, _) \<Rightarrow>
         (case (map_of (g_nodes g) (startNodeId e), map_of (g_nodes g) (endNodeId e)) of
            (Some a, Some b) \<Rightarrow>
              (case projectPointToSegment p a b of (centerline, t, distance) \<Rightarrow>
                 if distance \<le> halfWidth sh e + tolerance + EPSILON
                 then
                   let offset = signedRightOffset p a b; lane = nearestLaneIndexForOffset e (Num (Some offset)) None;
                       fixed = (roadLaneCount e = 1 \<or> \<bar>offset\<bar> > CENTERLINE_EPSILON)
                   in Some \<lparr>rp_edge = edge_id e, rp_t = t, rp_lane = lane, rp_fixed = fixed, rp_rightOffset = offset,
                        rp_centerline = centerline,
                        rp_point = (if fixed then laneCenterPoint centerline a b e (case lane of None \<Rightarrow> 0 | Some l \<Rightarrow> int l) else centerline),
                        rp_distance = distance, rp_halfWidth = halfWidth sh e\<rparr>
                 else None)
          | _ \<Rightarrow> None))"

definition projectPointToRoadNetwork ::
  "road_shape \<Rightarrow> road_graph \<Rightarrow> spatial_index option \<Rightarrow> projection_options \<Rightarrow> point3 \<Rightarrow> projection option" where
  "projectPointToRoadNetwork sh g index opts p =
    (let tolerance = max 0 (finite_field (po_tolerance opts) 0);
         candidates = map_option (\<lambda>i. spatialCandidates i p tolerance) index;
         nodes = (case candidates of
             Some c \<Rightarrow> if po_radius opts = RadiusUnset then filter (\<lambda>(v, _). v \<in> set (junctionIds c)) (g_nodes g) else g_nodes g
           | None \<Rightarrow> g_nodes g);
         intersections = List.map_filter (node_hit sh g (po_radius opts) tolerance p) nodes;
         roads = List.map_filter (road_hit sh g tolerance p)
           (case candidates of Some c \<Rightarrow> edgeIds c | None \<Rightarrow> map_keys (g_edges g))
     in if intersections \<noteq> [] then Some (AtNode (hd (sort_by node_order intersections)))
        else if roads \<noteq> [] then Some (OnRoad (hd (sort_by place_order roads)))
        else None)"

definition arePointsOnRoadNetwork :: "road_shape \<Rightarrow> road_graph \<Rightarrow> spatial_index option \<Rightarrow> projection_options \<Rightarrow> point3 list \<Rightarrow> bool" where
  "arePointsOnRoadNetwork sh g index opts ps \<longleftrightarrow>
    ps \<noteq> [] \<and> list_all (\<lambda>p. projectPointToRoadNetwork sh g index opts p \<noteq> None) ps"

section \<open>What the index lists\<close>

definition listed :: "cell_kind \<Rightarrow> string \<Rightarrow> int \<times> int \<Rightarrow> spatial_index \<Rightarrow> bool" where
  "listed kind i key cells \<longleftrightarrow>
    (case map_of cells key of None \<Rightarrow> False
     | Some c \<Rightarrow> i \<in> set (case kind of EdgeCell \<Rightarrow> cell_edges c | JunctionCell \<Rightarrow> cell_junctions c))"

lemma set_set_add [simp]: "set (set_add x xs) = insert x (set xs)"
  by (auto simp: set_add_def)

lemma listed_cell_add [simp]:
  "listed k j key' (cell_add kind i key cells) \<longleftrightarrow> (k = kind \<and> j = i \<and> key' = key) \<or> listed k j key' cells"
  by (auto simp: listed_def cell_add_def Let_def update_conv' split: option.splits cell_kind.splits)

lemma listed_addSpatialBounds [simp]:
  "listed k j key (addSpatialBounds kind i b cells) \<longleftrightarrow> (k = kind \<and> j = i \<and> key \<in> set (cells_of b)) \<or> listed k j key cells"
proof -
  have "listed k j key (fold (cell_add kind i) cs cells) \<longleftrightarrow> (k = kind \<and> j = i \<and> key \<in> set cs) \<or> listed k j key cells" for cs
    by (induction cs arbitrary: cells) auto
  then show ?thesis by (simp add: addSpatialBounds_def)
qed

lemma listed_index_edges:
  "listed k j key (fold (index_edge sh g) es cells) \<longleftrightarrow>
    (k = EdgeCell \<and> (\<exists>e \<in> set es. \<exists>b. edge_id e = j \<and> edge_bounds sh g e = Some b \<and> key \<in> set (cells_of b))) \<or> listed k j key cells"
  by (induction es arbitrary: cells) (auto simp: index_edge_def split: option.splits)

lemma listed_index_nodes:
  "listed k j key (fold (index_node sh g) vs cells) \<longleftrightarrow>
    (k = JunctionCell \<and> (\<exists>q. (j, q) \<in> set vs \<and> is_junction sh g j \<and> key \<in> set (cells_of (junction_bounds sh g j q)))) \<or> listed k j key cells"
  by (induction vs arbitrary: cells) (auto simp: index_node_def)

lemma listed_index:
  "listed EdgeCell j key (buildRoadSpatialIndex sh g) \<longleftrightarrow>
    (\<exists>i e len b. (i, e, len) \<in> set (g_edges g) \<and> edge_id e = j \<and> edge_bounds sh g e = Some b \<and> key \<in> set (cells_of b))"
  "listed JunctionCell j key (buildRoadSpatialIndex sh g) \<longleftrightarrow>
    (\<exists>q. (j, q) \<in> set (g_nodes g) \<and> is_junction sh g j \<and> key \<in> set (cells_of (junction_bounds sh g j q)))"
  by (auto simp: buildRoadSpatialIndex_def listed_index_nodes listed_index_edges listed_def [of _ _ _ "[]"] image_iff Bex_def)

lemma distinct_set_add: "distinct xs \<Longrightarrow> distinct (set_add x xs)"
  by (auto simp: set_add_def)

lemma gathered:
  "set (fold (\<lambda>c ids. fold set_add (f c) ids) cells ids) = set ids \<union> (\<Union>c \<in> set cells. set (f c))"
  "distinct ids \<Longrightarrow> distinct (fold (\<lambda>c ids. fold set_add (f c) ids) cells ids)"
proof -
  have one: "set (fold set_add xs ids) = set ids \<union> set xs" "distinct ids \<Longrightarrow> distinct (fold set_add xs ids)" for xs ids
    by (induction xs arbitrary: ids) (auto simp: distinct_set_add)
  show "set (fold (\<lambda>c ids. fold set_add (f c) ids) cells ids) = set ids \<union> (\<Union>c \<in> set cells. set (f c))"
    by (induction cells arbitrary: ids) (auto simp: one)
  show "distinct ids \<Longrightarrow> distinct (fold (\<lambda>c ids. fold set_add (f c) ids) cells ids)"
    by (induction cells arbitrary: ids) (auto simp: one)
qed

lemma mem_map_filter [simp]: "y \<in> set (List.map_filter f xs) \<longleftrightarrow> (\<exists>x \<in> set xs. f x = Some y)"
  by (induction xs) (auto simp: map_filter_simps split: option.splits)

lemma candidates_listed:
  "i \<in> set (edgeIds (spatialCandidates index p tolerance)) \<longleftrightarrow> (\<exists>key \<in> set (cells_of (around p tolerance)). listed EdgeCell i key index)"
  "i \<in> set (junctionIds (spatialCandidates index p tolerance)) \<longleftrightarrow> (\<exists>key \<in> set (cells_of (around p tolerance)). listed JunctionCell i key index)"
  "distinct (edgeIds (spatialCandidates index p tolerance))" "distinct (junctionIds (spatialCandidates index p tolerance))"
proof -
  have some: "listed EdgeCell i key index \<longleftrightarrow> (\<exists>c. map_of index key = Some c \<and> i \<in> set (cell_edges c))"
      "listed JunctionCell i key index \<longleftrightarrow> (\<exists>c. map_of index key = Some c \<and> i \<in> set (cell_junctions c))" for key
    by (simp_all add: listed_def split: option.splits)
  have found: "(\<exists>c \<in> set (List.map_filter f xs). P c) \<longleftrightarrow> (\<exists>x \<in> set xs. \<exists>c. f x = Some c \<and> P c)"
    for f :: "int \<times> int \<Rightarrow> spatial_cell option" and xs P
    unfolding Bex_def mem_map_filter by blast
  show "i \<in> set (edgeIds (spatialCandidates index p tolerance)) \<longleftrightarrow> (\<exists>key \<in> set (cells_of (around p tolerance)). listed EdgeCell i key index)"
    "i \<in> set (junctionIds (spatialCandidates index p tolerance)) \<longleftrightarrow> (\<exists>key \<in> set (cells_of (around p tolerance)). listed JunctionCell i key index)"
    by (simp_all add: spatialCandidates_def Let_def gathered some found del: mem_map_filter)
  show "distinct (edgeIds (spatialCandidates index p tolerance))" "distinct (junctionIds (spatialCandidates index p tolerance))"
    by (simp_all add: spatialCandidates_def Let_def gathered)
qed

section \<open>Rectangles that meet share a cell\<close>

lemma cell_of_mono: "x \<le> y \<Longrightarrow> cell_of x \<le> cell_of y"
  by (simp add: cell_of_def ROAD_SPATIAL_CELL_METERS_def floor_mono divide_right_mono)

lemma cells_meet:
  assumes "min_x b \<le> max_x b" "min_x c \<le> max_x c" "min_x b \<le> max_x c" "min_x c \<le> max_x b"
    and "min_z b \<le> max_z b" "min_z c \<le> max_z c" "min_z b \<le> max_z c" "min_z c \<le> max_z b"
  shows "\<exists>key. key \<in> set (cells_of b) \<and> key \<in> set (cells_of c)"
  by (rule exI [of _ "(max (cell_of (min_x b)) (cell_of (min_x c)), max (cell_of (min_z b)) (cell_of (min_z c)))"])
    (use assms in \<open>auto simp: cells_of_def intro: cell_of_mono\<close>)

lemma axis_below_distance: "\<bar>px p - px q\<bar> \<le> distanceXZ p q" "\<bar>pz p - pz q\<bar> \<le> distanceXZ p q"
proof -
  have "(px q - px p)\<^sup>2 \<le> (px q - px p)\<^sup>2 + (pz q - pz p)\<^sup>2" "(pz q - pz p)\<^sup>2 \<le> (px q - px p)\<^sup>2 + (pz q - pz p)\<^sup>2" by simp_all
  then have "sqrt ((px q - px p)\<^sup>2) \<le> distanceXZ p q" "sqrt ((pz q - pz p)\<^sup>2) \<le> distanceXZ p q"
    unfolding distanceXZ_def by (simp_all only: real_sqrt_le_iff)
  then show "\<bar>px p - px q\<bar> \<le> distanceXZ p q" "\<bar>pz p - pz q\<bar> \<le> distanceXZ p q" by (simp_all add: abs_minus_commute)
qed

lemma between_ends:
  assumes "0 \<le> t" "t \<le> 1"
  shows "min a b \<le> a + (b - a) * t" "a + (b - a) * t \<le> max a (b :: real)"
proof -
  have "a + (b - a) * t = (1 - t) * a + t * b" by (simp add: algebra_simps)
  moreover have "(1 - t) * min a b + t * min a b \<le> (1 - t) * a + t * b" "(1 - t) * a + t * b \<le> (1 - t) * max a b + t * max a b"
    using assms by (intro add_mono mult_left_mono; simp)+
  moreover have "(1 - t) * c + t * c = c" for c by (simp add: algebra_simps)
  ultimately show "min a b \<le> a + (b - a) * t" "a + (b - a) * t \<le> max a b" by simp_all
qed

lemma projected_between:
  assumes "projectPointToSegment p a b = (q, t, d)"
  shows "min (px a) (px b) \<le> px q" "px q \<le> max (px a) (px b)" "min (pz a) (pz b) \<le> pz q" "pz q \<le> max (pz a) (pz b)"
    and "d = distanceXZ p q" and "0 \<le> t" and "t \<le> 1"
proof -
  show t: "0 \<le> t" "t \<le> 1" using assms by (auto simp: projectPointToSegment_def clamp01_def Let_def)
  show "d = distanceXZ p q" using assms by (auto simp: projectPointToSegment_def Let_def)
  have "px q = px a + (px b - px a) * t" "pz q = pz a + (pz b - pz a) * t"
    using assms by (auto simp: projectPointToSegment_def Let_def)
  then show "min (px a) (px b) \<le> px q" "px q \<le> max (px a) (px b)" "min (pz a) (pz b) \<le> pz q" "pz q \<le> max (pz a) (pz b)"
    using between_ends [OF t] by simp_all
qed

section \<open>The tables of a built graph\<close>

definition tables_ok :: "road_doc \<Rightarrow> road_graph \<Rightarrow> bool" where
  "tables_ok doc g \<longleftrightarrow> map_ok (g_edges g) \<and> g_nodes g = graph_nodes (d_nodes doc)
    \<and> (\<forall>i e len. map_of (g_edges g) i = Some (e, len) \<longrightarrow> i = edge_id e \<and> e \<in> set (d_edges doc) \<and> startNodeId e \<noteq> endNodeId e
      \<and> (\<exists>a b. map_of (g_nodes g) (startNodeId e) = Some a \<and> map_of (g_nodes g) (endNodeId e) = Some b \<and> len = distanceXZ a b))"

lemma tables_okD:
  assumes "tables_ok doc g" and "map_of (g_edges g) i = Some (e, len)"
  obtains a b where "i = edge_id e" "e \<in> set (d_edges doc)" "startNodeId e \<noteq> endNodeId e"
    "map_of (g_nodes g) (startNodeId e) = Some a" "map_of (g_nodes g) (endNodeId e) = Some b" "len = distanceXZ a b"
  using assms unfolding tables_ok_def by blast

lemma tables_cong: "g_edges g = g_edges h \<Longrightarrow> g_nodes g = g_nodes h \<Longrightarrow> tables_ok doc g = tables_ok doc h"
  by (simp only: tables_ok_def)

lemma building_keeps [simp]:
  "g_edges (count_end v g) = g_edges g" "g_nodes (count_end v g) = g_nodes g"
  "g_edges (addTransition e len a b d g) = g_edges g" "g_nodes (addTransition e len a b d g) = g_nodes g"
  by (simp_all add: count_end_def addTransition_def)

lemma addEdge_cases:
  obtains (kept) "g_edges (addEdge e g) = g_edges g" "g_nodes (addEdge e g) = g_nodes g"
  | (added) a b where "map_of (g_nodes g) (startNodeId e) = Some a" "map_of (g_nodes g) (endNodeId e) = Some b"
      "startNodeId e \<noteq> endNodeId e" "g_nodes (addEdge e g) = g_nodes g"
      "g_edges (addEdge e g) = AList.update (edge_id e) (e, distanceXZ a b) (g_edges g)"
proof (cases "edge_id e = [] \<or> map_of (g_nodes g) (startNodeId e) = None \<or> map_of (g_nodes g) (endNodeId e) = None \<or> startNodeId e = endNodeId e")
  case True
  then show thesis by (intro kept) (auto simp: addEdge_def split: option.splits)
next
  case False
  then obtain a b where "map_of (g_nodes g) (startNodeId e) = Some a" "map_of (g_nodes g) (endNodeId e) = Some b" by auto
  with False show thesis by (intro added [of a b]) (simp_all add: addEdge_def Let_def)
qed

lemma addEdge_tables:
  assumes ok: "tables_ok doc g" and e: "e \<in> set (d_edges doc)"
  shows "tables_ok doc (addEdge e g)"
proof (cases rule: addEdge_cases [of e g])
  case kept
  with ok show ?thesis using tables_cong by blast
next
  case (added a b)
  have "map_ok (g_edges (addEdge e g))" using ok unfolding added(5) tables_ok_def by (simp add: distinct_update)
  moreover have "g_nodes (addEdge e g) = graph_nodes (d_nodes doc)" using ok added(4) by (simp add: tables_ok_def)
  moreover have "i = edge_id f \<and> f \<in> set (d_edges doc) \<and> startNodeId f \<noteq> endNodeId f \<and> (\<exists>a b. map_of (g_nodes g) (startNodeId f) = Some a
      \<and> map_of (g_nodes g) (endNodeId f) = Some b \<and> len = distanceXZ a b)" if "map_of (g_edges (addEdge e g)) i = Some (f, len)" for i f len
  proof (cases "i = edge_id e")
    case True
    with that have "f = e" "len = distanceXZ a b" unfolding added(5) by (simp_all add: js_map_simps)
    with True e added(1-3) show ?thesis by blast
  next
    case False
    with that have "map_of (g_edges g) i = Some (f, len)" unfolding added(5) by (simp add: js_map_simps)
    then show ?thesis using ok unfolding tables_ok_def by blast
  qed
  ultimately show ?thesis unfolding tables_ok_def added(4) by blast
qed

lemma built_tables: "tables_ok doc (buildDirectedRoadGraph doc)"
proof -
  have run: "tables_ok doc (fold addEdge es g)" if "tables_ok doc g" "set es \<subseteq> set (d_edges doc)" for es g
    using that by (induction es arbitrary: g) (auto intro: addEdge_tables)
  have "tables_ok doc \<lparr>g_nodes = graph_nodes (d_nodes doc), g_edges = [], g_adjacency = map (\<lambda>(i, _). (i, [])) (graph_nodes (d_nodes doc)),
      g_degree = map (\<lambda>(i, _). (i, 0)) (graph_nodes (d_nodes doc)), g_turnRules = [], g_laneIssues = [], g_turnRuleIssues = [], g_infeasible = []\<rparr>"
    by (simp add: tables_ok_def)
  from run [OF this subset_refl] show ?thesis by (subst tables_cong) (simp_all add: buildDirectedRoadGraph_def Let_def)
qed

lemma built_nodes_ok: "map_ok (g_nodes (buildDirectedRoadGraph doc))"
proof -
  have "map_ok m \<Longrightarrow> map_ok (fold (\<lambda>(i, p) m. if i = [] then m else case p of None \<Rightarrow> m | Some q \<Rightarrow> AList.update i q m) ns m)"
    for ns :: "(string \<times> point3 option) list" and m
    by (induction ns arbitrary: m) (auto simp: distinct_update split: option.splits)
  then show ?thesis using built_tables [of doc] by (simp add: tables_ok_def graph_nodes_def)
qed

section \<open>What a lookup promises\<close>

text \<open>
  A lookup narrows the keys that a scan has to look at: it gives only keys, each once, and every key that is near.
\<close>

locale spatial_lookup =
  fixes found :: "point3 \<Rightarrow> real \<Rightarrow> string list"
    and keys :: "string list"
    and near :: "string \<Rightarrow> point3 \<Rightarrow> real \<Rightarrow> bool"
  assumes found_keys: "set (found p t) \<subseteq> set keys"
    and found_distinct: "distinct (found p t)"
    and keys_distinct: "distinct keys"
    and found_near: "i \<in> set keys \<Longrightarrow> near i p t \<Longrightarrow> i \<in> set (found p t)"
begin

lemma same_hits:
  assumes "\<And>i b. i \<in> set keys \<Longrightarrow> hit i = Some b \<Longrightarrow> near i p t"
  shows "mset (List.map_filter hit (found p t)) = mset (List.map_filter hit keys)"
proof -
  have "set (filter (\<lambda>i. hit i \<noteq> None) (found p t)) = set (filter (\<lambda>i. hit i \<noteq> None) keys)"
    using assms found_keys found_near by fastforce
  then have "mset (filter (\<lambda>i. hit i \<noteq> None) (found p t)) = mset (filter (\<lambda>i. hit i \<noteq> None) keys)"
    using set_eq_iff_mset_eq_distinct [of "filter (\<lambda>i. hit i \<noteq> None) (found p t)" "filter (\<lambda>i. hit i \<noteq> None) keys"]
      found_distinct keys_distinct by simp
  then show ?thesis unfolding map_filter_def by (metis mset_map)
qed

lemma same_filter:
  assumes "\<And>x b. x \<in> set xs \<Longrightarrow> hit x = Some b \<Longrightarrow> f x \<in> set keys \<and> near (f x) p t"
  shows "List.map_filter hit (filter (\<lambda>x. f x \<in> set (found p t)) xs) = List.map_filter hit xs"
  using assms by (induction xs) (auto simp: map_filter_simps split: option.splits intro: found_near)

end

definition near_edge :: "road_shape \<Rightarrow> road_graph \<Rightarrow> string \<Rightarrow> point3 \<Rightarrow> real \<Rightarrow> bool" where
  "near_edge sh g i p t \<longleftrightarrow> 0 \<le> t \<and> (\<exists>e len a b. map_of (g_edges g) i = Some (e, len) \<and> map_of (g_nodes g) (startNodeId e) = Some a
    \<and> map_of (g_nodes g) (endNodeId e) = Some b \<and> 0 \<le> halfWidth sh e \<and> snd (snd (projectPointToSegment p a b)) \<le> halfWidth sh e + t)"

definition near_junction :: "road_shape \<Rightarrow> road_graph \<Rightarrow> string \<Rightarrow> point3 \<Rightarrow> real \<Rightarrow> bool" where
  "near_junction sh g v p t \<longleftrightarrow> 0 \<le> t \<and> is_junction sh g v
    \<and> (\<exists>q. map_of (g_nodes g) v = Some q \<and> distanceXZ p q \<le> intersectionRadius sh g RadiusUnset v + t)"

lemma radius_nonneg: "0 \<le> intersectionRadius sh g RadiusUnset v"
  by (auto simp: intersectionRadius_def Let_def DEFAULT_INTERSECTION_RADIUS_def intro: order_less_imp_le order_less_trans [OF EPSILON_pos(1)])

lemma edge_listed_near:
  assumes "map_of (g_nodes g) (startNodeId e) = Some a" "map_of (g_nodes g) (endNodeId e) = Some b"
    and w: "0 \<le> halfWidth sh e" "0 \<le> t" and d: "snd (snd (projectPointToSegment p a b)) \<le> halfWidth sh e + t"
  shows "\<exists>c key. edge_bounds sh g e = Some c \<and> key \<in> set (cells_of (around p t)) \<and> key \<in> set (cells_of c)"
proof -
  let ?w = "halfWidth sh e"
  let ?c = "\<lparr>min_x = min (px b) (px a) - ?w, max_x = max (px b) (px a) + ?w, min_z = min (pz b) (pz a) - ?w, max_z = max (pz b) (pz a) + ?w\<rparr>"
  have c: "edge_bounds sh g e = Some ?c" using assms(1,2) by (simp add: edge_bounds_def pointsBounds_def map_filter_simps)
  obtain q s d' where proj: "projectPointToSegment p a b = (q, s, d')" by (metis surj_pair)
  note between = projected_between [OF proj]
  have "distanceXZ p q \<le> ?w + t" using d proj between(5) by simp
  then have near: "\<bar>px p - px q\<bar> \<le> ?w + t" "\<bar>pz p - pz q\<bar> \<le> ?w + t" using axis_below_distance [of p q] by linarith+
  have "min_x (around p t) \<le> max_x ?c" "min_x ?c \<le> max_x (around p t)" "min_z (around p t) \<le> max_z ?c" "min_z ?c \<le> max_z (around p t)"
    using near between(1-4) by (simp_all add: around_def)
  then have "\<exists>key. key \<in> set (cells_of (around p t)) \<and> key \<in> set (cells_of ?c)"
    by (intro cells_meet) (use w in \<open>simp_all add: around_def\<close>)
  with c show ?thesis by blast
qed

lemma junction_listed_near:
  assumes "0 \<le> t" "distanceXZ p q \<le> intersectionRadius sh g RadiusUnset v + t"
  shows "\<exists>key. key \<in> set (cells_of (around p t)) \<and> key \<in> set (cells_of (junction_bounds sh g v q))"
proof -
  have "\<bar>px p - px q\<bar> \<le> intersectionRadius sh g RadiusUnset v + t" "\<bar>pz p - pz q\<bar> \<le> intersectionRadius sh g RadiusUnset v + t"
    using assms axis_below_distance [of p q] by linarith+
  then show ?thesis
    by (intro cells_meet) (use assms(1) radius_nonneg [of sh g v] in \<open>auto simp: around_def junction_bounds_def Let_def\<close>)
qed

interpretation indexed_edges: spatial_lookup
  "\<lambda>p t. edgeIds (spatialCandidates (buildRoadSpatialIndex sh (buildDirectedRoadGraph doc)) p t)"
  "map_keys (g_edges (buildDirectedRoadGraph doc))" "near_edge sh (buildDirectedRoadGraph doc)" for sh doc
proof
  let ?g = "buildDirectedRoadGraph doc"
  have ok: "map_ok (g_edges ?g)" using built_tables [of doc] by (simp add: tables_ok_def)
  show "distinct (map_keys (g_edges ?g))" by (rule ok)
  fix i p t
  let ?found = "edgeIds (spatialCandidates (buildRoadSpatialIndex sh ?g) p t)"
  show "distinct ?found" by (rule candidates_listed(3))
  show "set ?found \<subseteq> set (map_keys (g_edges ?g))"
  proof
    fix j assume "j \<in> set ?found"
    then obtain k e len where "(k, e, len) \<in> set (g_edges ?g)" "edge_id e = j"
      unfolding candidates_listed(1) listed_index by blast
    moreover from this have "map_of (g_edges ?g) k = Some (e, len)" using ok by (simp add: map_of_is_SomeI)
    ultimately show "j \<in> set (map_keys (g_edges ?g))" using tables_okD [OF built_tables] by (metis image_eqI list.set_map fst_conv)
  qed
  assume "near_edge sh ?g i p t"
  then obtain e len a b where e: "map_of (g_edges ?g) i = Some (e, len)" and ends: "map_of (g_nodes ?g) (startNodeId e) = Some a"
      "map_of (g_nodes ?g) (endNodeId e) = Some b" "0 \<le> halfWidth sh e" "0 \<le> t" "snd (snd (projectPointToSegment p a b)) \<le> halfWidth sh e + t"
    unfolding near_edge_def by blast
  obtain c key where "edge_bounds sh ?g e = Some c" "key \<in> set (cells_of (around p t))" "key \<in> set (cells_of c)"
    using edge_listed_near [OF ends] by blast
  moreover have "edge_id e = i" using tables_okD [OF built_tables e] by blast
  ultimately show "i \<in> set ?found" unfolding candidates_listed(1) listed_index using map_of_SomeD [OF e] by blast
qed

interpretation indexed_junctions: spatial_lookup
  "\<lambda>p t. junctionIds (spatialCandidates (buildRoadSpatialIndex sh (buildDirectedRoadGraph doc)) p t)"
  "map_keys (g_nodes (buildDirectedRoadGraph doc))" "near_junction sh (buildDirectedRoadGraph doc)" for sh doc
proof
  let ?g = "buildDirectedRoadGraph doc"
  show "distinct (map_keys (g_nodes ?g))" by (rule built_nodes_ok)
  fix v p t
  let ?found = "junctionIds (spatialCandidates (buildRoadSpatialIndex sh ?g) p t)"
  show "distinct ?found" by (rule candidates_listed(4))
  show "set ?found \<subseteq> set (map_keys (g_nodes ?g))" unfolding subset_iff candidates_listed(2) listed_index by force
  assume "near_junction sh ?g v p t"
  then obtain q where "0 \<le> t" "is_junction sh ?g v" "map_of (g_nodes ?g) v = Some q" "distanceXZ p q \<le> intersectionRadius sh ?g RadiusUnset v + t"
    unfolding near_junction_def by blast
  then show "v \<in> set ?found"
    unfolding candidates_listed(2) listed_index using junction_listed_near [of t p q sh ?g v] map_of_SomeD by metis
qed

section \<open>The order of hits\<close>

interpretation places: comparator_laws place_order
  unfolding place_order_def
  by (intro comparator_laws_or cmp_real_laws [of rp_distance] cmp_real_laws [of rp_t]
    comparator_laws_pull [OF text_order.comparator_laws_axioms, of rp_edge])

lemma compareText_eq0: "compareText a b = 0 \<longleftrightarrow> a = b"
  by (simp add: compareText_sgn sgn_eq_0_iff compareUtf8Bytes_eq0 inj_map_eq_map [OF inj_of_char])

lemma road_hit_key:
  assumes "tables_ok doc g" and "road_hit sh g tolerance p i = Some r"
  shows "rp_edge r = i"
  using assms(2) tables_okD [OF assms(1), of i] unfolding road_hit_def
  by (auto simp: Let_def split: option.splits prod.splits if_splits) metis+

lemma nearest_hit_unique:
  assumes ok: "tables_ok doc g"
    and eq: "mset (List.map_filter (road_hit sh g tolerance p) xs) = mset (List.map_filter (road_hit sh g tolerance p) ys)"
  shows "sort_by place_order (List.map_filter (road_hit sh g tolerance p) xs)
    = sort_by place_order (List.map_filter (road_hit sh g tolerance p) ys)"
proof (rule places.sort_by_unique [OF _ eq])
  fix x y
  assume "x \<in> set (List.map_filter (road_hit sh g tolerance p) xs)" "y \<in> set (List.map_filter (road_hit sh g tolerance p) xs)"
  then obtain i j where ij: "road_hit sh g tolerance p i = Some x" "road_hit sh g tolerance p j = Some y" by auto
  assume "place_order x y = 0"
  then have "rp_edge x = rp_edge y" by (auto simp: place_order_def cmp_or_def compareText_eq0 split: if_splits)
  with ij show "x = y" using road_hit_key [OF ok ij(1)] road_hit_key [OF ok ij(2)] by simp
qed

section \<open>Properties\<close>

text \<open>The scan grants a tolerance that the index does not; on that rim, a nanometre wide, they may differ.\<close>

definition on_rim :: "real \<Rightarrow> real \<Rightarrow> bool" where
  "on_rim limit distance \<longleftrightarrow> limit < distance \<and> distance \<le> limit + EPSILON"

definition rim_point :: "road_shape \<Rightarrow> road_graph \<Rightarrow> real \<Rightarrow> point3 \<Rightarrow> bool" where
  "rim_point sh g tolerance p \<longleftrightarrow>
    (\<exists>v q. map_of (g_nodes g) v = Some q \<and> is_junction sh g v
      \<and> on_rim (intersectionRadius sh g RadiusUnset v + tolerance) (distanceXZ p q))
    \<or> (\<exists>i e len a b. map_of (g_edges g) i = Some (e, len) \<and> map_of (g_nodes g) (startNodeId e) = Some a
      \<and> map_of (g_nodes g) (endNodeId e) = Some b
      \<and> on_rim (halfWidth sh e + tolerance) (snd (snd (projectPointToSegment p a b))))"

lemma road_hit_near:
  assumes "road_hit sh g tolerance p i = Some r" and "\<not> rim_point sh g tolerance p" and "0 \<le> tolerance"
    and "\<forall>i e len. map_of (g_edges g) i = Some (e, len) \<longrightarrow> 0 \<le> halfWidth sh e"
  shows "near_edge sh g i p tolerance"
proof -
  from assms(1) obtain e len a b where e: "map_of (g_edges g) i = Some (e, len)" "map_of (g_nodes g) (startNodeId e) = Some a"
      "map_of (g_nodes g) (endNodeId e) = Some b" and d: "snd (snd (projectPointToSegment p a b)) \<le> halfWidth sh e + tolerance + EPSILON"
    unfolding road_hit_def by (auto split: option.splits prod.splits if_splits)
  have "\<not> on_rim (halfWidth sh e + tolerance) (snd (snd (projectPointToSegment p a b)))"
    using assms(2) e unfolding rim_point_def by blast
  then have "snd (snd (projectPointToSegment p a b)) \<le> halfWidth sh e + tolerance" using d by (simp add: on_rim_def)
  moreover have "0 \<le> halfWidth sh e" using assms(4) e(1) by blast
  ultimately show ?thesis using e assms(3) unfolding near_edge_def by blast
qed

lemma node_hit_near:
  assumes "node_hit sh g RadiusUnset tolerance p (v, q) = Some r" and "map_of (g_nodes g) v = Some q"
    and "\<not> rim_point sh g tolerance p" and "0 \<le> tolerance"
  shows "near_junction sh g v p tolerance"
proof -
  have hit: "is_junction sh g v" "distanceXZ p q \<le> intersectionRadius sh g RadiusUnset v + tolerance + EPSILON"
    using assms(1) by (auto simp: node_hit_def Let_def split: if_splits)
  then have "\<not> on_rim (intersectionRadius sh g RadiusUnset v + tolerance) (distanceXZ p q)"
    using assms(2,3) unfolding rim_point_def by blast
  with hit assms(2,4) show ?thesis by (auto simp: near_junction_def on_rim_def)
qed

text \<open>
  C11. Projecting a point through the spatial index of a built graph finds the same junction or the same place on the
  same road as scanning all of them, in the order the code breaks ties, for points that are not on a rim.
\<close>

theorem index_keeps_projection:
  assumes wide: "\<forall>e \<in> set (d_edges doc). 0 \<le> halfWidth sh e"
    and rim: "\<not> rim_point sh (buildDirectedRoadGraph doc) (max 0 (finite_field (po_tolerance opts) 0)) p"
  shows "projectPointToRoadNetwork sh (buildDirectedRoadGraph doc) (Some (buildRoadSpatialIndex sh (buildDirectedRoadGraph doc))) opts p
    = projectPointToRoadNetwork sh (buildDirectedRoadGraph doc) None opts p"
proof -
  let ?g = "buildDirectedRoadGraph doc" and ?t = "max 0 (finite_field (po_tolerance opts) 0)"
  let ?found = "spatialCandidates (buildRoadSpatialIndex sh ?g) p ?t"
  have wide': "\<forall>i e len. map_of (g_edges ?g) i = Some (e, len) \<longrightarrow> 0 \<le> halfWidth sh e"
    using wide tables_okD [OF built_tables] by metis
  have nodes: "List.map_filter (node_hit sh ?g RadiusUnset ?t p) (filter (\<lambda>x. fst x \<in> set (junctionIds ?found)) (g_nodes ?g))
      = List.map_filter (node_hit sh ?g RadiusUnset ?t p) (g_nodes ?g)"
  proof (rule indexed_junctions.same_filter)
    fix x r assume x: "x \<in> set (g_nodes ?g)" "node_hit sh ?g RadiusUnset ?t p x = Some r"
    then have "map_of (g_nodes ?g) (fst x) = Some (snd x)" using built_nodes_ok by simp
    then show "fst x \<in> set (map_keys (g_nodes ?g)) \<and> near_junction sh ?g (fst x) p ?t"
      using x node_hit_near [of sh ?g ?t p "fst x" "snd x" r] rim by simp
  qed
  have roads: "mset (List.map_filter (road_hit sh ?g ?t p) (edgeIds ?found)) = mset (List.map_filter (road_hit sh ?g ?t p) (map_keys (g_edges ?g)))"
    by (rule indexed_edges.same_hits) (rule road_hit_near [OF _ rim _ wide'], simp_all)
  have some: "List.map_filter (road_hit sh ?g ?t p) (edgeIds ?found) = [] \<longleftrightarrow> List.map_filter (road_hit sh ?g ?t p) (map_keys (g_edges ?g)) = []"
    using roads by (metis mset_zero_iff)
  have first: "sort_by place_order (List.map_filter (road_hit sh ?g ?t p) (edgeIds ?found))
      = sort_by place_order (List.map_filter (road_hit sh ?g ?t p) (map_keys (g_edges ?g)))"
    by (rule nearest_hit_unique [OF built_tables roads])
  show ?thesis
    using nodes some first unfolding projectPointToRoadNetwork_def Let_def by (simp add: case_prod_unfold)
qed

text \<open>A single road of a hundred metres, and a point in its middle, a metre beside the line.\<close>

definition straight_doc :: road_doc where
  "straight_doc = \<lparr>d_nodes = [(''a'', Some \<lparr>px = 0, py = 0, pz = 0\<rparr>), (''b'', Some \<lparr>px = 100, py = 0, pz = 0\<rparr>)],
    d_edges = [plain_road ''r'' ''a'' ''b''], d_turnRules = []\<rparr>"

definition plain_shape :: road_shape where
  "plain_shape = \<lparr>junction_node = \<lambda>_. False, startArm = \<lambda>_. None, endArm = \<lambda>_. None, shoulderWidth = \<lambda>_. Absent\<rparr>"

definition beside :: point3 where "beside = \<lparr>px = 50, py = 0, pz = 1\<rparr>"

lemma straight_tables:
  "g_nodes (buildDirectedRoadGraph straight_doc) = [(''a'', \<lparr>px = 0, py = 0, pz = 0\<rparr>), (''b'', \<lparr>px = 100, py = 0, pz = 0\<rparr>)]"
  "g_degree (buildDirectedRoadGraph straight_doc) = [(''a'', 1), (''b'', 1)]"
  "g_edges (buildDirectedRoadGraph straight_doc) = [(''r'', plain_road ''r'' ''a'' ''b'', 100)]"
  by (simp_all add: buildDirectedRoadGraph_def straight_doc_def graph_nodes_def addEdge_def plain_road_def Let_def count_end_def
    degree_of_def addTransition_def distanceXZ_def)

lemma plain_ends: "startNodeId (plain_road i a b) = a" "endNodeId (plain_road i a b) = b"
  by (simp_all add: plain_road_def)

lemma straight_projection:
  "projectPointToSegment beside \<lparr>px = 0, py = 0, pz = 0\<rparr> \<lparr>px = 100, py = 0, pz = 0\<rparr> = (\<lparr>px = 50, py = 0, pz = 0\<rparr>, 1 / 2, 1)"
  by (simp add: projectPointToSegment_def beside_def Let_def EPSILON_def clamp01_def distanceXZ_def)

theorem index_keeps_projection_witness:
  "projectPointToRoadNetwork plain_shape (buildDirectedRoadGraph straight_doc)
      (Some (buildRoadSpatialIndex plain_shape (buildDirectedRoadGraph straight_doc))) \<lparr>po_tolerance = Absent, po_radius = RadiusUnset\<rparr> beside
    = projectPointToRoadNetwork plain_shape (buildDirectedRoadGraph straight_doc) None \<lparr>po_tolerance = Absent, po_radius = RadiusUnset\<rparr> beside
  \<and> (\<exists>r. projectPointToRoadNetwork plain_shape (buildDirectedRoadGraph straight_doc) None \<lparr>po_tolerance = Absent, po_radius = RadiusUnset\<rparr> beside
      = Some (OnRoad r) \<and> rp_t r = 1 / 2)"
proof
  let ?g = "buildDirectedRoadGraph straight_doc" and ?opts = "\<lparr>po_tolerance = Absent, po_radius = RadiusUnset\<rparr>"
  have width: "halfWidth plain_shape (plain_road ''r'' ''a'' ''b'') = 7 / 2"
    by (simp add: halfWidth_def plain_shape_def plain_road_def finite_field_def number_of_def DEFAULT_ROAD_WIDTH_def)
  have tolerance: "max 0 (finite_field (po_tolerance ?opts) 0) = 0" by (simp add: finite_field_def number_of_def)
  have alone: "\<not> is_junction plain_shape ?g v" for v
    by (simp add: is_junction_def plain_shape_def degree_of_def straight_tables)
  have rim: "\<not> rim_point plain_shape ?g (max 0 (finite_field (po_tolerance ?opts) 0)) beside"
    unfolding rim_point_def tolerance using alone width straight_projection
    by (auto simp: straight_tables on_rim_def plain_ends split: if_splits)
  have wide: "\<forall>e \<in> set (d_edges straight_doc). 0 \<le> halfWidth plain_shape e" using width by (simp add: straight_doc_def)
  show "projectPointToRoadNetwork plain_shape ?g (Some (buildRoadSpatialIndex plain_shape ?g)) ?opts beside
      = projectPointToRoadNetwork plain_shape ?g None ?opts beside" by (rule index_keeps_projection [OF wide rim])
  have "List.map_filter (node_hit plain_shape ?g RadiusUnset 0 beside) (g_nodes ?g) = []"
    by (simp add: straight_tables map_filter_simps node_hit_def alone)
  moreover have "1 \<le> 7 / 2 + EPSILON" using EPSILON_pos by linarith
  then have "\<exists>r. road_hit plain_shape ?g 0 beside ''r'' = Some r \<and> rp_t r = 1 / 2"
    by (simp add: road_hit_def straight_tables plain_ends width straight_projection Let_def)
  then obtain r where "road_hit plain_shape ?g 0 beside ''r'' = Some r" "rp_t r = 1 / 2" by blast
  ultimately show "\<exists>r. projectPointToRoadNetwork plain_shape ?g None ?opts beside = Some (OnRoad r) \<and> rp_t r = 1 / 2"
    unfolding projectPointToRoadNetwork_def Let_def tolerance by (simp add: straight_tables map_filter_simps)
qed

end
