(* ===== verification/RoadRoutes.thy ===== *)
theory RoadRoutes
  imports RoadPlaces
begin

text \<open>
  \<open>app/scenarios/route/roadGraph.js\<close>, routes between projected points: the candidates for one section with their lanes,
  the best of them for every state a section can be left in, the classification of failures, and the staged itinerary
  through all points. The text of a number is the parameter \<open>num\<close>; a search that does not return is \<open>None\<close>, which is
  shown not to happen. Offset polylines and the texts of errors are left out.
\<close>

section \<open>Lanes and steps\<close>

record subnode =
  sn_edge :: string
  sn_fraction :: real
  sn_lane :: "nat option"
  sn_position :: point3

record route_step =
  st_move :: transition
  st_from :: "real option"
  st_to :: "real option"
  st_partial :: bool
  st_fromLane :: "nat option"
  st_toLane :: "nat option"
  st_fromNode :: "subnode option"
  st_toNode :: "subnode option"

record route_options =
  ro_edge :: "string option"
  ro_direction :: "int option"
  ro_lane :: "nat option"
  ro_ignore :: bool

definition pj_node :: "projection \<Rightarrow> string option" where
  "pj_node pr = (case pr of AtNode n \<Rightarrow> truthy (Some (np_node n)) | OnRoad _ \<Rightarrow> None)"

definition pj_edge :: "projection \<Rightarrow> string option" where
  "pj_edge pr = (case pr of AtNode _ \<Rightarrow> None | OnRoad r \<Rightarrow> Some (rp_edge r))"

definition pj_t :: "projection \<Rightarrow> real" where
  "pj_t pr = (case pr of AtNode _ \<Rightarrow> 0 | OnRoad r \<Rightarrow> rp_t r)"

definition or_empty :: "string option \<Rightarrow> string" where
  "or_empty v = (case v of None \<Rightarrow> [] | Some s \<Rightarrow> s)"

definition lane_number :: "nat option \<Rightarrow> int" where
  "lane_number l = (case l of None \<Rightarrow> 0 | Some i \<Rightarrow> int i)"

definition fixedLaneIndex :: "projection \<Rightarrow> road_edge \<Rightarrow> nat option" where
  "fixedLaneIndex pr e =
    (case pr of AtNode _ \<Rightarrow> None
     | OnRoad r \<Rightarrow> if \<not> rp_fixed r then None
         else case rp_lane r of None \<Rightarrow> None | Some l \<Rightarrow> if l \<ge> roadLaneCount e then None else Some l)"

definition projectionAllowsDirection :: "projection \<Rightarrow> road_edge \<Rightarrow> int \<Rightarrow> bool" where
  "projectionAllowsDirection pr e direction \<longleftrightarrow>
    (case fixedLaneIndex pr e of None \<Rightarrow> True | Some l \<Rightarrow> direction \<in> set (laneDirections e (int l)))"

definition projectionLaneForDirection :: "projection \<Rightarrow> road_edge \<Rightarrow> int \<Rightarrow> nat option \<Rightarrow> nat option" where
  "projectionLaneForDirection pr e direction fallback =
    (case fixedLaneIndex pr e of
       Some l \<Rightarrow> Some l
     | None \<Rightarrow>
         (case fallback of
            Some l \<Rightarrow> if l \<in> set (legalLaneIndices e direction) then Some l else rightmostLegalLaneIndex e direction
          | None \<Rightarrow> rightmostLegalLaneIndex e direction))"

definition stepDirection :: "route_step \<Rightarrow> road_edge \<Rightarrow> int" where
  "stepDirection st e =
    (let d = tr_direction (st_move st) in
     if d = 1 \<or> d = -1 then d
     else if tr_from (st_move st) = startNodeId e then 1
     else if tr_from (st_move st) = endNodeId e then -1
     else case (st_from st, st_to st) of (Some a, Some b) \<Rightarrow> if b \<ge> a - EPSILON then 1 else -1 | _ \<Rightarrow> 1)"

section \<open>Places along an edge\<close>

definition pointOnEdgeCenterline :: "road_graph \<Rightarrow> road_edge \<Rightarrow> real \<Rightarrow> point3 option" where
  "pointOnEdgeCenterline g e t =
    (case (map_of (g_nodes g) (startNodeId e), map_of (g_nodes g) (endNodeId e)) of
       (Some a, Some b) \<Rightarrow>
         (let fraction = max 0 (min 1 t)
          in Some \<lparr>px = px a + (px b - px a) * fraction, py = py a + (py b - py a) * fraction, pz = pz a + (pz b - pz a) * fraction\<rparr>)
     | _ \<Rightarrow> None)"

definition offsetEdgeSample :: "road_graph \<Rightarrow> road_edge \<Rightarrow> real \<Rightarrow> nat option \<Rightarrow> point3 option" where
  "offsetEdgeSample g e t lane =
    (case (pointOnEdgeCenterline g e t, map_of (g_nodes g) (startNodeId e), map_of (g_nodes g) (endNodeId e)) of
       (Some center, Some a, Some b) \<Rightarrow> Some (offsetRoadPoint center a b (laneCenterRightOffset e (lane_number lane)))
     | _ \<Rightarrow> None)"

definition boundary_fraction :: "road_shape \<Rightarrow> road_graph \<Rightarrow> real \<Rightarrow> string \<Rightarrow> point3 \<Rightarrow> point3 option \<Rightarrow> real option" where
  "boundary_fraction sh g len v q arm =
    (if \<not> is_junction sh g v then None
     else
       let inset = (case arm of Some a \<Rightarrow> distanceXZ q a | None \<Rightarrow> min DEFAULT_INTERSECTION_RADIUS (len * (1 / 2)))
       in Some (max 0 (min (1 / 2) (inset / len))))"

definition edgeBoundaryFractions :: "road_shape \<Rightarrow> road_graph \<Rightarrow> road_edge \<Rightarrow> real \<Rightarrow> real \<times> real" where
  "edgeBoundaryFractions sh g e len =
    (case (map_of (g_nodes g) (startNodeId e), map_of (g_nodes g) (endNodeId e)) of
       (Some a, Some b) \<Rightarrow>
         if \<not> len > EPSILON then (0, 1)
         else
           (case boundary_fraction sh g len (startNodeId e) a (startArm sh (edge_id e)) of None \<Rightarrow> 0 | Some f \<Rightarrow> f,
            case boundary_fraction sh g len (endNodeId e) b (endArm sh (edge_id e)) of None \<Rightarrow> 1 | Some f \<Rightarrow> 1 - f)
     | _ \<Rightarrow> (0, 1))"

definition geometryFraction :: "road_shape \<Rightarrow> road_graph \<Rightarrow> road_edge \<Rightarrow> real \<Rightarrow> real \<Rightarrow> real" where
  "geometryFraction sh g e len t =
    (let fraction = max 0 (min 1 t); ends = edgeBoundaryFractions sh g e len in
     if fraction \<le> EPSILON then fst ends else if fraction \<ge> 1 - EPSILON then snd ends else fraction)"

definition traversalSubnode :: "road_graph \<Rightarrow> road_edge \<Rightarrow> real \<Rightarrow> nat option \<Rightarrow> subnode option" where
  "traversalSubnode g e fraction lane =
    map_option (\<lambda>p. \<lparr>sn_edge = edge_id e, sn_fraction = fraction, sn_lane = lane, sn_position = p\<rparr>) (offsetEdgeSample g e fraction lane)"

text \<open>The edge, direction and lane a section is entered with count for its first edge only.\<close>

definition incoming_lane :: "route_options \<Rightarrow> road_edge \<Rightarrow> int \<Rightarrow> nat option \<Rightarrow> nat option" where
  "incoming_lane opts e direction otherwise =
    (if ro_edge opts = Some (edge_id e) \<and> ro_direction opts = Some direction then ro_lane opts else otherwise)"

definition assign_step ::
  "road_shape \<Rightarrow> road_graph \<Rightarrow> projection \<Rightarrow> projection \<Rightarrow> route_options \<Rightarrow> bool \<Rightarrow> bool \<Rightarrow> route_step \<Rightarrow> route_step" where
  "assign_step sh g start goal opts isFirst isLast st =
    (case map_of (g_edges g) (tr_edge (st_move st)) of
       None \<Rightarrow> st
     | Some (e, len) \<Rightarrow>
         (let d = stepDirection st e;
              from0 = (case st_fromLane st of Some l \<Rightarrow> Some l | None \<Rightarrow> rightmostLegalLaneIndex e d);
              to0 = (case st_toLane st of Some l \<Rightarrow> Some l | None \<Rightarrow> from0);
              fromLane = (if isFirst \<and> pj_edge start = Some (edge_id e)
                then projectionLaneForDirection start e d (incoming_lane opts e d from0) else from0);
              toLane = (if isLast \<and> pj_edge goal = Some (edge_id e) then projectionLaneForDirection goal e d fromLane else to0);
              fromT = (case st_from st of Some t \<Rightarrow> t | None \<Rightarrow> if d = 1 then 0 else 1);
              toT = (case st_to st of Some t \<Rightarrow> t | None \<Rightarrow> if d = 1 then 1 else 0)
          in st\<lparr>st_fromLane := fromLane, st_toLane := toLane,
               st_fromNode := traversalSubnode g e (geometryFraction sh g e len fromT) fromLane,
               st_toNode := traversalSubnode g e (geometryFraction sh g e len toT) toLane\<rparr>))"

fun assign_steps :: "road_shape \<Rightarrow> road_graph \<Rightarrow> projection \<Rightarrow> projection \<Rightarrow> route_options \<Rightarrow> bool \<Rightarrow> route_step list \<Rightarrow> route_step list" where
  "assign_steps sh g start goal opts isFirst [] = []"
| "assign_steps sh g start goal opts isFirst (st # sts) =
    assign_step sh g start goal opts isFirst (sts = []) st # assign_steps sh g start goal opts False sts"

definition assignTraversalLanes :: "road_shape \<Rightarrow> road_graph \<Rightarrow> projection \<Rightarrow> projection \<Rightarrow> route_options \<Rightarrow> route_step list \<Rightarrow> route_step list" where
  "assignTraversalLanes sh g start goal opts sts = assign_steps sh g start goal opts True sts"

section \<open>Candidates for one section\<close>

record end_candidate =
  ec_node :: string
  ec_cost :: real
  ec_lane :: "nat option"
  ec_step :: "route_step option"

record arrival =
  ar_edge :: "string option"
  ar_direction :: "int option"
  ar_lane :: "nat option"

record route_candidate =
  rc_cost :: real
  rc_steps :: "route_step list"
  rc_nodeIds :: "string list"
  rc_signature :: string

definition plain_step :: "transition \<Rightarrow> route_step" where
  "plain_step t = \<lparr>st_move = t, st_from = None, st_to = None, st_partial = False, st_fromLane = None, st_toLane = None,
    st_fromNode = None, st_toNode = None\<rparr>"

definition edgeTransitions :: "road_graph \<Rightarrow> string \<Rightarrow> transition list" where
  "edgeTransitions g i = sort_by (\<lambda>l r. cmp_int (tr_direction l) (tr_direction r))
    (filter (\<lambda>t. tr_edge t = i) (concat (map snd (g_adjacency g))))"

text \<open>Leaving a point along one of the moves of its road, and coming to one.\<close>

definition start_at :: "projection \<Rightarrow> route_options \<Rightarrow> road_edge \<Rightarrow> real \<Rightarrow> transition \<Rightarrow> end_candidate" where
  "start_at pr opts e len t =
    (let forward = (tr_from t = startNodeId e); fraction = (if forward then 1 - pj_t pr else pj_t pr);
         lane = projectionLaneForDirection pr e (tr_direction t) (incoming_lane opts e (tr_direction t) None)
     in \<lparr>ec_node = tr_to t, ec_cost = fraction * len, ec_lane = lane,
          ec_step = (if fraction \<le> EPSILON then None
            else Some ((plain_step t)\<lparr>st_from := Some (pj_t pr), st_to := Some (if forward then 1 else 0), st_partial := True,
              st_fromLane := lane\<rparr>))\<rparr>)"

definition goal_at :: "projection \<Rightarrow> road_edge \<Rightarrow> real \<Rightarrow> transition \<Rightarrow> end_candidate" where
  "goal_at pr e len t =
    (let forward = (tr_from t = startNodeId e); fraction = (if forward then pj_t pr else 1 - pj_t pr);
         lane = projectionLaneForDirection pr e (tr_direction t) None
     in \<lparr>ec_node = tr_from t, ec_cost = fraction * len, ec_lane = lane,
          ec_step = (if fraction \<le> EPSILON then None
            else Some ((plain_step t)\<lparr>st_from := Some (if forward then 0 else 1), st_to := Some (pj_t pr), st_partial := True,
              st_toLane := lane\<rparr>))\<rparr>)"

definition startCandidates :: "projection \<Rightarrow> road_graph \<Rightarrow> route_options \<Rightarrow> end_candidate list" where
  "startCandidates pr g opts =
    (case pj_node pr of
       Some v \<Rightarrow> [\<lparr>ec_node = v, ec_cost = 0, ec_lane = None, ec_step = None\<rparr>]
     | None \<Rightarrow>
         (case Option.bind (pj_edge pr) (map_of (g_edges g)) of
            None \<Rightarrow> []
          | Some (e, len) \<Rightarrow>
              map (start_at pr opts e len)
                (filter (\<lambda>t. projectionAllowsDirection pr e (tr_direction t)) (edgeTransitions g (edge_id e)))))"

definition goalCandidates :: "projection \<Rightarrow> road_graph \<Rightarrow> end_candidate list" where
  "goalCandidates pr g =
    (case pj_node pr of
       Some v \<Rightarrow> [\<lparr>ec_node = v, ec_cost = 0, ec_lane = None, ec_step = None\<rparr>]
     | None \<Rightarrow>
         (case Option.bind (pj_edge pr) (map_of (g_edges g)) of
            None \<Rightarrow> []
          | Some (e, len) \<Rightarrow>
              map (goal_at pr e len)
                (filter (\<lambda>t. projectionAllowsDirection pr e (tr_direction t)) (edgeTransitions g (edge_id e)))))"

definition int_text :: "int \<Rightarrow> string" where
  "int_text n = (if n < 0 then ''-'' @ decimal (nat (- n)) else decimal (nat n))"

definition lane_text :: "nat option \<Rightarrow> string" where
  "lane_text l = (case l of None \<Rightarrow> ''null'' | Some i \<Rightarrow> decimal i)"

definition candidate_order :: "route_candidate \<Rightarrow> route_candidate \<Rightarrow> int" where
  "candidate_order l r = cmp_or (cmp_real (rc_cost l) (rc_cost r)) (compareText (rc_signature l) (rc_signature r))"

definition turns_back :: "route_options \<Rightarrow> string \<Rightarrow> int \<Rightarrow> bool" where
  "turns_back opts i direction \<longleftrightarrow> ro_edge opts = Some i \<and> ro_direction opts \<in> {Some 1, Some (-1)} \<and> ro_direction opts \<noteq> Some direction"

definition direct_with :: "projection \<Rightarrow> projection \<Rightarrow> route_options \<Rightarrow> road_edge \<Rightarrow> real \<Rightarrow> transition \<Rightarrow> route_candidate option" where
  "direct_with start goal opts e len t =
    (let forward = (tr_from t = startNodeId e) in
     if \<not> projectionAllowsDirection start e (tr_direction t) \<or> \<not> projectionAllowsDirection goal e (tr_direction t) then None
     else if turns_back opts (edge_id e) (tr_direction t) then None
     else if \<not> (if forward then pj_t goal \<ge> pj_t start - EPSILON else pj_t goal \<le> pj_t start + EPSILON) then None
     else
       let cost = \<bar>pj_t goal - pj_t start\<bar> * len;
           fromLane = projectionLaneForDirection start e (tr_direction t) (incoming_lane opts e (tr_direction t) None);
           toLane = projectionLaneForDirection goal e (tr_direction t) fromLane
       in Some \<lparr>rc_cost = cost,
            rc_steps = (if cost \<le> EPSILON then [] else [(plain_step t)\<lparr>st_from := Some (pj_t start), st_to := Some (pj_t goal),
              st_partial := (pj_t start \<noteq> 0 \<or> pj_t goal \<noteq> 1), st_fromLane := fromLane, st_toLane := toLane\<rparr>]),
            rc_nodeIds = [], rc_signature = ''direct:'' @ edge_id e @ '':'' @ int_text (tr_direction t)\<rparr>)"

definition directCandidate :: "projection \<Rightarrow> projection \<Rightarrow> road_graph \<Rightarrow> route_options \<Rightarrow> route_candidate option" where
  "directCandidate start goal g opts =
    (if truthy (pj_edge start) = None \<or> pj_edge start \<noteq> pj_edge goal then None
     else case map_of (g_edges g) (the (pj_edge start)) of
         None \<Rightarrow> None
       | Some (e, len) \<Rightarrow>
           (case sort_by candidate_order (List.map_filter (direct_with start goal opts e len) (edgeTransitions g (edge_id e))) of
              [] \<Rightarrow> None | c # _ \<Rightarrow> Some c))"

text \<open>\<open>None\<close> leaves the arrival open, \<open>Some None\<close> asks for arriving by no edge.\<close>

definition goalArrivalEdgeIds :: "projection \<Rightarrow> road_graph \<Rightarrow> string option option list" where
  "goalArrivalEdgeIds goal g =
    (case pj_node goal of
       None \<Rightarrow> [None]
     | Some v \<Rightarrow> map Some (sort_by (\<lambda>l r. compareText (or_empty l) (or_empty r))
         (fold set_add (map (\<lambda>t. Some (tr_edge t)) (filter (\<lambda>t. tr_to t = v) (concat (map snd (g_adjacency g))))) [None])))"

definition resultingIncomingState :: "route_step list \<Rightarrow> route_options \<Rightarrow> arrival" where
  "resultingIncomingState sts opts =
    (if sts = [] then \<lparr>ar_edge = ro_edge opts, ar_direction = ro_direction opts, ar_lane = ro_lane opts\<rparr>
     else let st = last sts in
       \<lparr>ar_edge = Some (tr_edge (st_move st)), ar_direction = Some (tr_direction (st_move st)),
        ar_lane = (case st_toLane st of Some l \<Rightarrow> Some l
          | None \<Rightarrow> (case st_fromLane st of Some l \<Rightarrow> Some l | None \<Rightarrow> ro_lane opts))\<rparr>)"

definition incomingStateKey :: "arrival \<Rightarrow> string" where
  "incomingStateKey a = or_empty (ar_edge a) @ [CHR 0x00] @ (case ar_direction a of None \<Rightarrow> [] | Some d \<Rightarrow> int_text d)
    @ [CHR 0x00] @ (case ar_lane a of None \<Rightarrow> [] | Some l \<Rightarrow> decimal l)"

definition join_text :: "string \<Rightarrow> string list \<Rightarrow> string" where
  "join_text sep xs = (case xs of [] \<Rightarrow> [] | y # ys \<Rightarrow> y @ concat (map (\<lambda>t. sep @ t) ys))"

definition step_signature :: "(real \<Rightarrow> string) \<Rightarrow> route_step \<Rightarrow> string" where
  "step_signature num st = join_text '':'' [tr_edge (st_move st), int_text (tr_direction (st_move st)),
    (case st_from st of None \<Rightarrow> ''f'' | Some t \<Rightarrow> num t), (case st_to st of None \<Rightarrow> ''f'' | Some t \<Rightarrow> num t),
    lane_text (st_fromLane st), lane_text (st_toLane st)]"

definition lateral_cost :: "road_graph \<Rightarrow> route_step \<Rightarrow> real" where
  "lateral_cost g st =
    (case (st_fromLane st, st_toLane st, map_of (g_edges g) (tr_edge (st_move st))) of
       (Some a, Some b, Some (e, _)) \<Rightarrow> \<bar>laneCenterRightOffset e (int b) - laneCenterRightOffset e (int a)\<bar>
     | _ \<Rightarrow> 0)"

text \<open>The step a section may begin with: not back along the edge it comes from, and in the lane it comes in.\<close>

definition may_begin :: "route_options \<Rightarrow> end_candidate \<Rightarrow> bool" where
  "may_begin opts c \<longleftrightarrow>
    (case ec_step c of
       None \<Rightarrow> True
     | Some st \<Rightarrow> ro_edge opts \<noteq> Some (tr_edge (st_move st)) \<or> ro_direction opts \<notin> {Some 1, Some (-1)}
         \<or> ro_direction opts = Some (tr_direction (st_move st)) \<and> (ro_lane opts = None \<or> ec_lane c = ro_lane opts))"

text \<open>
  One search, from an end of the start to an end of the goal. A route that is found has a cost (see
  \<open>route_search_correct\<close>); the value that stands for none is never met.
\<close>

definition routed_candidate ::
  "road_shape \<Rightarrow> (real \<Rightarrow> string) \<Rightarrow> road_graph \<Rightarrow> projection \<Rightarrow> projection \<Rightarrow> route_options
    \<Rightarrow> end_candidate \<times> end_candidate \<times> string option option \<Rightarrow> route_candidate option option" where
  "routed_candidate sh num g start goal opts fta =
    (case fta of (frm, to, arr) \<Rightarrow>
     map_option (\<lambda>r. case r of
         Route nodes es ts (Some cost) \<Rightarrow>
           let sts = assignTraversalLanes sh g start goal opts
                 (List.map_filter (\<lambda>x. x) ([ec_step frm] @ map (\<lambda>t. Some (plain_step t)) ts @ [ec_step to]))
           in Some \<lparr>rc_cost = ec_cost frm + cost + ec_cost to + sum_list (map (lateral_cost g) sts), rc_steps = sts,
                rc_nodeIds = nodes, rc_signature = join_text ''|'' (map (step_signature num) sts)\<rparr>
       | _ \<Rightarrow> None)
       (deterministicDirectedAStar g (ec_node frm) (ec_node to)
         \<lparr>incomingEdgeId = (case ec_step frm of Some st \<Rightarrow> Some (tr_edge (st_move st)) | None \<Rightarrow> ro_edge opts),
          outgoingEdgeId = map_option (\<lambda>st. tr_edge (st_move st)) (ec_step to),
          goalIncomingEdgeId = arr, ignoreTurnRules = ro_ignore opts\<rparr>))"

definition stay_candidate :: "road_graph \<Rightarrow> route_options \<Rightarrow> projection \<Rightarrow> projection \<Rightarrow> route_candidate list" where
  "stay_candidate g opts start goal =
    (case pj_node start of
       Some v \<Rightarrow> if pj_node goal = Some v \<and> movementAllowed v (ro_edge opts) None (degree_of g v) (g_turnRules g) then [\<lparr>rc_cost = 0, rc_steps = [], rc_nodeIds = [v], rc_signature = ''node:'' @ v\<rparr>] else []
     | None \<Rightarrow> [])"

definition replaces :: "real \<Rightarrow> string \<Rightarrow> real \<Rightarrow> string \<Rightarrow> bool" where
  "replaces cost signature previousCost previousSignature \<longleftrightarrow>
    cost < previousCost - EPSILON \<or> (\<bar>cost - previousCost\<bar> \<le> EPSILON \<and> compareText signature previousSignature < 0)"

definition keep_best ::
  "route_options \<Rightarrow> route_candidate \<Rightarrow> (string, route_candidate \<times> arrival) js_map \<Rightarrow> (string, route_candidate \<times> arrival) js_map" where
  "keep_best opts c m =
    (let a = resultingIncomingState (rc_steps c) opts; key = incomingStateKey a in
     case map_of m key of
       None \<Rightarrow> AList.update key (c, a) m
     | Some (p, _) \<Rightarrow> if replaces (rc_cost c) (rc_signature c) (rc_cost p) (rc_signature p) then AList.update key (c, a) m else m)"

definition arrival_order :: "route_candidate \<times> arrival \<Rightarrow> route_candidate \<times> arrival \<Rightarrow> int" where
  "arrival_order l r = cmp_or (candidate_order (fst l) (fst r))
    (cmp_or (compareText (or_empty (ar_edge (snd l))) (or_empty (ar_edge (snd r))))
      (cmp_or (cmp_int (case ar_direction (snd l) of None \<Rightarrow> 0 | Some d \<Rightarrow> d) (case ar_direction (snd r) of None \<Rightarrow> 0 | Some d \<Rightarrow> d))
        (cmp_int (lane_number (ar_lane (snd l))) (lane_number (ar_lane (snd r))))))"

definition routeCandidatesBetweenProjections ::
  "road_shape \<Rightarrow> (real \<Rightarrow> string) \<Rightarrow> projection \<Rightarrow> projection \<Rightarrow> road_graph \<Rightarrow> route_options \<Rightarrow> (route_candidate \<times> arrival) list option" where
  "routeCandidatesBetweenProjections sh num start goal g opts =
    (let direct = (case directCandidate start goal g opts of None \<Rightarrow> [] | Some c \<Rightarrow> [c]);
         froms = filter (may_begin opts) (startCandidates start g opts);
         ways = List.product froms (List.product (goalCandidates goal g) (goalArrivalEdgeIds goal g))
     in map_option (\<lambda>found. sort_by arrival_order (map snd
          (fold (keep_best opts) (direct @ List.map_filter (\<lambda>x. x) found @ stay_candidate g opts start goal) [])))
        (those (map (routed_candidate sh num g start goal opts) ways)))"

section \<open>Routes and failures\<close>

datatype route_failure = LaneLayoutInvalid | TurnRulesInvalid | LaneUnreachable | TurnRestricted | IllegalDirection | Disconnected

definition failure_priority :: "route_failure \<Rightarrow> int" where
  "failure_priority f = (case f of LaneLayoutInvalid \<Rightarrow> 0 | TurnRulesInvalid \<Rightarrow> 1 | LaneUnreachable \<Rightarrow> 2 | TurnRestricted \<Rightarrow> 3
    | IllegalDirection \<Rightarrow> 4 | Disconnected \<Rightarrow> 5)"

record section_path =
  sp_cost :: real
  sp_nodeIds :: "string list"
  sp_steps :: "route_step list"
  sp_arrival :: arrival
  sp_signature :: string

definition no_options :: route_options where
  "no_options = \<lparr>ro_edge = None, ro_direction = None, ro_lane = None, ro_ignore = False\<rparr>"

definition nullish_or :: "'a option \<Rightarrow> 'a option \<Rightarrow> 'a option" where
  "nullish_or a b = (case a of None \<Rightarrow> b | Some _ \<Rightarrow> a)"

definition finalizeRouteCandidate ::
  "road_shape \<Rightarrow> road_graph \<Rightarrow> projection \<Rightarrow> projection \<Rightarrow> route_options \<Rightarrow> route_candidate \<times> arrival \<Rightarrow> section_path" where
  "finalizeRouteCandidate sh g start goal opts ca =
    (let c = fst ca; a = snd ca; sts = assignTraversalLanes sh g start goal opts (rc_steps c);
         final = resultingIncomingState sts no_options
     in \<lparr>sp_cost = rc_cost c, sp_nodeIds = rc_nodeIds c, sp_steps = sts,
          sp_arrival = \<lparr>ar_edge = nullish_or (ar_edge a) (ar_edge final), ar_direction = nullish_or (ar_direction a) (ar_direction final),
            ar_lane = nullish_or (ar_lane a) (ar_lane final)\<rparr>,
          sp_signature = rc_signature c\<rparr>)"

text \<open>The roads as if all of them were two-way, without turn rules.\<close>

definition buildBidirectionalShadowGraph :: "road_graph \<Rightarrow> road_graph" where
  "buildBidirectionalShadowGraph g =
    buildDirectedRoadGraph \<lparr>d_nodes = map (\<lambda>(v, p). (v, Some p)) (g_nodes g),
      d_edges = map (\<lambda>(_, e, _). e\<lparr>bidirectional := Some True, oneWay := Some False, edge_direction := DirNumber 1,
        oneWayDirection := DirNumber 1\<rparr>) (g_edges g),
      d_turnRules = []\<rparr>"

definition routeBetweenProjectionsExists ::
  "road_shape \<Rightarrow> (real \<Rightarrow> string) \<Rightarrow> projection \<Rightarrow> projection \<Rightarrow> road_graph \<Rightarrow> route_options \<Rightarrow> bool option" where
  "routeBetweenProjectionsExists sh num start goal g opts =
    map_option (\<lambda>cs. cs \<noteq> []) (routeCandidatesBetweenProjections sh num start goal g opts)"

definition lane_fixed :: "projection \<Rightarrow> bool" where
  "lane_fixed pr \<longleftrightarrow> (case pr of AtNode _ \<Rightarrow> False | OnRoad r \<Rightarrow> rp_fixed r)"

definition any_lane :: "projection \<Rightarrow> projection" where
  "any_lane pr = (case pr of AtNode n \<Rightarrow> AtNode n | OnRoad r \<Rightarrow> OnRoad (r\<lparr>rp_fixed := False\<rparr>))"

definition classifyRouteFailure ::
  "road_shape \<Rightarrow> (real \<Rightarrow> string) \<Rightarrow> projection \<Rightarrow> projection \<Rightarrow> road_graph \<Rightarrow> route_options \<Rightarrow> route_failure option" where
  "classifyRouteFailure sh num start goal g opts =
    (let unrestricted = (\<lambda>_. Option.bind (routeBetweenProjectionsExists sh num start goal g (opts\<lparr>ro_ignore := True\<rparr>)) (\<lambda>ok.
           if ok then Some TurnRestricted
           else Option.bind (routeBetweenProjectionsExists sh num start goal (buildBidirectionalShadowGraph g) (no_options\<lparr>ro_ignore := True\<rparr>)) (\<lambda>ok.
             if ok then Some IllegalDirection else Some Disconnected)))
     in if lane_fixed start \<or> lane_fixed goal
        then Option.bind (routeBetweenProjectionsExists sh num (any_lane start) (any_lane goal) g opts) (\<lambda>ok.
          if ok then Some LaneUnreachable else unrestricted ())
        else unrestricted ())"

definition routeBetweenProjections ::
  "road_shape \<Rightarrow> (real \<Rightarrow> string) \<Rightarrow> projection option \<Rightarrow> projection option \<Rightarrow> road_graph \<Rightarrow> route_options
    \<Rightarrow> (route_failure, section_path) result option" where
  "routeBetweenProjections sh num start goal g opts =
    (case (start, goal) of
       (Some s, Some t) \<Rightarrow>
         if g_laneIssues g \<noteq> [] then Some (Inl LaneLayoutInvalid)
         else if g_turnRuleIssues g \<noteq> [] then Some (Inl TurnRulesInvalid)
         else Option.bind (routeCandidatesBetweenProjections sh num s t g opts) (\<lambda>cs.
           case cs of
             [] \<Rightarrow> map_option Inl (classifyRouteFailure sh num s t g opts)
           | c # _ \<Rightarrow> Some (Inr (finalizeRouteCandidate sh g s t no_options c)))
     | _ \<Rightarrow> Some (Inl Disconnected))"

section \<open>Itineraries\<close>

record itinerary =
  it_arrival :: arrival
  it_cost :: real
  it_paths :: "section_path list"
  it_signature :: string

definition options_at :: "arrival \<Rightarrow> route_options" where
  "options_at a = \<lparr>ro_edge = ar_edge a, ro_direction = ar_direction a, ro_lane = ar_lane a, ro_ignore = False\<rparr>"

definition extend_itinerary ::
  "road_shape \<Rightarrow> road_graph \<Rightarrow> projection \<Rightarrow> projection \<Rightarrow> itinerary \<times> route_candidate \<times> arrival \<Rightarrow> itinerary" where
  "extend_itinerary sh g start goal sca =
    (case sca of (s, c, a) \<Rightarrow>
      let b = it_arrival s in
      \<lparr>it_arrival = \<lparr>ar_edge = nullish_or (ar_edge a) (ar_edge b), ar_direction = nullish_or (ar_direction a) (ar_direction b),
         ar_lane = nullish_or (ar_lane a) (ar_lane b)\<rparr>,
       it_cost = it_cost s + rc_cost c, it_paths = it_paths s @ [finalizeRouteCandidate sh g start goal (options_at b) (c, a)],
       it_signature = it_signature s @ [CHR 0x01] @ rc_signature c\<rparr>)"

definition keep_itinerary :: "itinerary \<Rightarrow> (string, itinerary) js_map \<Rightarrow> (string, itinerary) js_map" where
  "keep_itinerary s m =
    (let key = incomingStateKey (it_arrival s) in
     case map_of m key of
       None \<Rightarrow> AList.update key s m
     | Some p \<Rightarrow> if replaces (it_cost s) (it_signature s) (it_cost p) (it_signature p) then AList.update key s m else m)"

definition routeItineraryFailures ::
  "road_shape \<Rightarrow> (real \<Rightarrow> string) \<Rightarrow> projection \<Rightarrow> projection \<Rightarrow> road_graph \<Rightarrow> arrival list \<Rightarrow> route_failure list option" where
  "routeItineraryFailures sh num start goal g incomings =
    map_option (\<lambda>rs. sort_by (\<lambda>l r. cmp_int (failure_priority l) (failure_priority r))
        (List.map_filter (\<lambda>r. case r of Inl f \<Rightarrow> Some f | Inr _ \<Rightarrow> None) rs))
      (those (map (\<lambda>a. routeBetweenProjections sh num (Some start) (Some goal) g (options_at a)) incomings))"

text \<open>All ways to extend the itineraries so far by one section, in the order the two loops meet them.\<close>

definition section_extensions ::
  "road_shape \<Rightarrow> (real \<Rightarrow> string) \<Rightarrow> road_graph \<Rightarrow> projection \<Rightarrow> projection \<Rightarrow> itinerary list \<Rightarrow> itinerary list option" where
  "section_extensions sh num g start goal states =
    map_option concat (those (map (\<lambda>s. map_option (map (\<lambda>ca. extend_itinerary sh g start goal (s, ca)))
      (routeCandidatesBetweenProjections sh num start goal g (options_at (it_arrival s)))) states))"

fun route_sections ::
  "road_shape \<Rightarrow> (real \<Rightarrow> string) \<Rightarrow> road_graph \<Rightarrow> nat \<Rightarrow> projection list \<Rightarrow> itinerary list
    \<Rightarrow> (route_failure \<times> nat option, itinerary list) result option" where
  "route_sections sh num g i (start # goal # rest) states =
    Option.bind (section_extensions sh num g start goal states) (\<lambda>found.
      let next = map snd (fold keep_itinerary found []) in
      if next = []
      then Option.bind (routeItineraryFailures sh num start goal g (map it_arrival states)) (\<lambda>fs.
        case fs of f # _ \<Rightarrow> Some (Inl (f, Some i))
        | [] \<Rightarrow> map_option (\<lambda>f. Inl (f, Some i)) (classifyRouteFailure sh num start goal g no_options))
      else route_sections sh num g (i + 1) (goal # rest) next)"
| "route_sections sh num g i _ states = Some (Inr states)"

definition no_itinerary :: itinerary where
  "no_itinerary = \<lparr>it_arrival = \<lparr>ar_edge = None, ar_direction = None, ar_lane = None\<rparr>, it_cost = 0, it_paths = [], it_signature = []\<rparr>"

definition itinerary_order :: "itinerary \<Rightarrow> itinerary \<Rightarrow> int" where
  "itinerary_order l r = cmp_or (cmp_real (it_cost l) (it_cost r)) (compareText (it_signature l) (it_signature r))"

definition routeOrderedProjections ::
  "road_shape \<Rightarrow> (real \<Rightarrow> string) \<Rightarrow> road_graph \<Rightarrow> projection list \<Rightarrow> (route_failure \<times> nat option, real \<times> section_path list) result option" where
  "routeOrderedProjections sh num g points =
    (if length points < 2 then Some (Inl (Disconnected, Some 0))
     else if g_laneIssues g \<noteq> [] \<or> g_turnRuleIssues g \<noteq> []
     then Option.bind (routeBetweenProjections sh num (Some (points ! 0)) (Some (points ! 1)) g no_options) (\<lambda>r.
       case r of Inl f \<Rightarrow> Some (Inl (f, None)) | Inr path \<Rightarrow> Some (Inr (sp_cost path, [path])))
     else map_option (\<lambda>r. case r of
         Inl f \<Rightarrow> Inl f
       | Inr states \<Rightarrow> (let best = hd (sort_by itinerary_order states) in Inr (it_cost best, it_paths best)))
       (route_sections sh num g 0 points [no_itinerary]))"

section \<open>Graphs that routes can rely on\<close>

definition move_of :: "road_edge \<Rightarrow> transition \<Rightarrow> bool" where
  "move_of e t \<longleftrightarrow> edge_id e = tr_edge t \<and> startNodeId e \<noteq> endNodeId e \<and> legalLaneIndices e (tr_direction t) \<noteq> []
    \<and> (tr_direction t = 1 \<and> tr_from t = startNodeId e \<and> tr_to t = endNodeId e
      \<or> tr_direction t = -1 \<and> tr_from t = endNodeId e \<and> tr_to t = startNodeId e)"

definition moves_ok :: "road_edge list \<Rightarrow> road_graph \<Rightarrow> bool" where
  "moves_ok es g \<longleftrightarrow> map_ok (g_adjacency g)
    \<and> (\<forall>v. \<forall>t \<in> set (transitions_of g v). map_has (g_edges g) (tr_edge t) \<and> (\<exists>e \<in> set es. move_of e t))"

lemma mem_addTransition:
  "t \<in> set (transitions_of (addTransition e len a b d g) v) \<longleftrightarrow> t \<in> set (transitions_of g v)
    \<or> v = a \<and> t = \<lparr>tr_edge = edge_id e, tr_from = a, tr_to = b, tr_direction = d, tr_cost = len\<rparr>"
  by (auto simp: addTransition_def transitions_of_def js_map_simps split: option.splits)

lemma count_end_moves [simp]: "g_adjacency (count_end v g) = g_adjacency g"
  by (simp add: count_end_def)

lemma adjacency_addTransition: "map_ok (g_adjacency g) \<Longrightarrow> map_ok (g_adjacency (addTransition e len a b d g))"
  by (simp add: addTransition_def distinct_update)

lemma moves_ok_addTransition:
  assumes "moves_ok es g" and "e \<in> set es" and "map_has (g_edges g) (edge_id e)"
    and "move_of e \<lparr>tr_edge = edge_id e, tr_from = a, tr_to = b, tr_direction = d, tr_cost = len\<rparr>"
  shows "moves_ok es (addTransition e len a b d g)"
  using assms unfolding moves_ok_def by (auto simp: mem_addTransition adjacency_addTransition)

lemma addEdge_moves:
  assumes ok: "moves_ok es g" and e: "e \<in> set es"
  shows "moves_ok es (addEdge e g)"
proof (cases "edge_id e = [] \<or> map_of (g_nodes g) (startNodeId e) = None \<or> map_of (g_nodes g) (endNodeId e) = None \<or> startNodeId e = endNodeId e")
  case True
  with ok show ?thesis by (auto simp: addEdge_def split: option.splits)
next
  case False
  then obtain p q where pq: "map_of (g_nodes g) (startNodeId e) = Some p" "map_of (g_nodes g) (endNodeId e) = Some q"
    and ne: "edge_id e \<noteq> []" "startNodeId e \<noteq> endNodeId e" by auto
  let ?issues = "validateRoadLaneLayout e None" and ?len = "distanceXZ p q"
  let ?g1 = "g\<lparr>g_edges := AList.update (edge_id e) (e, ?len) (g_edges g),
    g_laneIssues := g_laneIssues g @ (if ?issues \<noteq> [] then [(edge_id e, ?issues)] else [])\<rparr>"
  let ?g2 = "count_end (endNodeId e) (count_end (startNodeId e) ?g1)"
  let ?g3 = "if legalLaneIndices e 1 \<noteq> [] then addTransition e ?len (startNodeId e) (endNodeId e) 1 ?g2 else ?g2"
  have same: "transitions_of ?g2 = transitions_of g" by (simp add: transitions_of_def fun_eq_iff)
  have two: "moves_ok es ?g2" using ok unfolding moves_ok_def same by (auto simp: js_map_simps)
  have has2: "map_has (g_edges ?g2) (edge_id e)" by (simp add: js_map_simps)
  have "moves_ok es (addTransition e ?len (startNodeId e) (endNodeId e) 1 ?g2)" if "legalLaneIndices e 1 \<noteq> []"
    by (rule moves_ok_addTransition [OF two e has2]) (use ne that in \<open>simp add: move_of_def\<close>)
  with two have three: "moves_ok es ?g3" by (intro if_split [of "moves_ok es", THEN iffD2]) blast
  have has3: "map_has (g_edges ?g3) (edge_id e)" using has2 by simp
  have four: "moves_ok es (addTransition e ?len (endNodeId e) (startNodeId e) (-1) ?g3)" if "legalLaneIndices e (-1) \<noteq> []"
    by (rule moves_ok_addTransition [OF three e has3]) (use ne that in \<open>simp add: move_of_def\<close>)
  have eq: "addEdge e g = (if legalLaneIndices e (-1) \<noteq> [] then addTransition e ?len (endNodeId e) (startNodeId e) (-1) ?g3 else ?g3)"
    using ne pq unfolding addEdge_def Let_def by simp
  show ?thesis unfolding eq by (intro if_split [of "moves_ok es", THEN iffD2]) (use three four in blast)
qed

lemma built_moves: "moves_ok (d_edges doc) (buildDirectedRoadGraph doc)"
proof -
  let ?nodes = "graph_nodes (d_nodes doc)"
  let ?g0 = "\<lparr>g_nodes = ?nodes, g_edges = [], g_adjacency = map (\<lambda>(i, _). (i, [])) ?nodes, g_degree = map (\<lambda>(i, _). (i, 0)) ?nodes,
    g_turnRules = [], g_laneIssues = [], g_turnRuleIssues = [], g_infeasible = []\<rparr>"
  have keys: "map (fst \<circ> (\<lambda>(i, x). (i, f x))) m = map fst m" for f :: "'b \<Rightarrow> 'c" and m :: "(string \<times> 'b) list" by (induction m) auto
  have nodes: "map_ok ?nodes" using built_nodes_ok [of doc] built_tables [of doc] by (simp add: tables_ok_def)
  have run: "moves_ok (d_edges doc) (fold addEdge es g)" if "moves_ok (d_edges doc) g" "set es \<subseteq> set (d_edges doc)" for es g
    using that by (induction es arbitrary: g) (auto intro: addEdge_moves)
  have "moves_ok (d_edges doc) ?g0" using nodes
    by (auto simp: moves_ok_def transitions_of_def map_of_map_snd keys split: option.splits)
  from run [OF this subset_refl] show ?thesis
    by (auto simp: moves_ok_def buildDirectedRoadGraph_def Let_def transitions_of_def map_of_map_snd keys split: option.splits)
qed

definition sound_graph :: "road_graph \<Rightarrow> bool" where
  "sound_graph g \<longleftrightarrow> routable g \<and> map_ok (g_adjacency g) \<and> map_ok (g_edges g) \<and> (\<forall>i e len. map_of (g_edges g) i = Some (e, len) \<longrightarrow> edge_id e = i)
    \<and> (\<forall>v t. t \<in> set (transitions_of g v) \<longrightarrow> (\<exists>e len. map_of (g_edges g) (tr_edge t) = Some (e, len) \<and> move_of e t))"

lemma built_sound:
  assumes "distinct (map edge_id (d_edges doc))"
  shows "sound_graph (buildDirectedRoadGraph doc)"
proof -
  let ?g = "buildDirectedRoadGraph doc"
  have "\<exists>e len. map_of (g_edges ?g) (tr_edge t) = Some (e, len) \<and> move_of e t" if "t \<in> set (transitions_of ?g v)" for v t
  proof -
    from built_moves [of doc] that obtain e where has: "map_has (g_edges ?g) (tr_edge t)" and e: "e \<in> set (d_edges doc)" "move_of e t"
      unfolding moves_ok_def by blast
    then obtain f len where f: "map_of (g_edges ?g) (tr_edge t) = Some (f, len)" by auto
    then have "tr_edge t = edge_id f" "f \<in> set (d_edges doc)" using tables_okD [OF built_tables f] by blast+
    then have "f = e" using e assms by (metis distinct_map inj_onD move_of_def)
    with f e(2) show ?thesis by blast
  qed
  moreover have "edge_id e = i" if "map_of (g_edges ?g) i = Some (e, len)" for i e len
    using tables_okD [OF built_tables that] by metis
  ultimately show ?thesis
    using built_graph_routable [OF assms] built_moves [of doc] built_tables [of doc]
    unfolding sound_graph_def moves_ok_def tables_ok_def by blast
qed

end
