(* ===== verification/Itineraries.thy ===== *)
theory Itineraries
  imports RoadRoutes
begin

text \<open>
  What the itineraries of \<open>app/scenarios/route/roadGraph.js\<close> promise: they can be driven. Every step is a move of the
  graph in lanes that allow its direction, each step follows the one before through a turn that is allowed or on along
  the same edge, also from one section to the next, and every section goes from its first point to its second.
\<close>

section \<open>Drivable steps\<close>

definition full_start :: "road_graph \<Rightarrow> route_step \<Rightarrow> bool" where
  "full_start g st \<longleftrightarrow> st_from st = None \<or> (\<exists>e len. map_of (g_edges g) (tr_edge (st_move st)) = Some (e, len)
    \<and> st_from st = Some (if tr_from (st_move st) = startNodeId e then 0 else 1))"

definition full_end :: "road_graph \<Rightarrow> route_step \<Rightarrow> bool" where
  "full_end g st \<longleftrightarrow> st_to st = None \<or> (\<exists>e len. map_of (g_edges g) (tr_edge (st_move st)) = Some (e, len)
    \<and> st_to st = Some (if tr_from (st_move st) = startNodeId e then 1 else 0))"

definition turn_ok :: "road_graph \<Rightarrow> transition \<Rightarrow> transition \<Rightarrow> bool" where
  "turn_ok g t u \<longleftrightarrow> tr_to t = tr_from u \<and> graphMovementAllowed g False (tr_to t) (Some (tr_edge t)) (Some (tr_edge u))"

definition through_node :: "road_graph \<Rightarrow> route_step \<Rightarrow> route_step \<Rightarrow> bool" where
  "through_node g st su \<longleftrightarrow> turn_ok g (st_move st) (st_move su) \<and> full_end g st \<and> full_start g su"

definition goes_on :: "route_step \<Rightarrow> route_step \<Rightarrow> bool" where
  "goes_on st su \<longleftrightarrow> tr_edge (st_move st) = tr_edge (st_move su) \<and> tr_direction (st_move st) = tr_direction (st_move su)
    \<and> st_to st \<noteq> None \<and> st_from su \<noteq> None"

definition follows :: "road_graph \<Rightarrow> route_step \<Rightarrow> route_step \<Rightarrow> bool" where
  "follows g st su \<longleftrightarrow> through_node g st su \<or> goes_on st su"

definition legal_lane :: "road_graph \<Rightarrow> transition \<Rightarrow> nat \<Rightarrow> bool" where
  "legal_lane g t l \<longleftrightarrow> (\<exists>e len. map_of (g_edges g) (tr_edge t) = Some (e, len) \<and> l \<in> set (legalLaneIndices e (tr_direction t)))"

definition move_in :: "road_graph \<Rightarrow> transition \<Rightarrow> bool" where
  "move_in g t \<longleftrightarrow> t \<in> set (transitions_of g (tr_from t))"

definition valid_step :: "road_graph \<Rightarrow> route_step \<Rightarrow> bool" where
  "valid_step g st \<longleftrightarrow> move_in g (st_move st) \<and> (\<exists>l. st_fromLane st = Some l \<and> legal_lane g (st_move st) l)
    \<and> (\<exists>l. st_toLane st = Some l \<and> legal_lane g (st_move st) l)"

definition begins_at :: "road_graph \<Rightarrow> projection \<Rightarrow> route_step \<Rightarrow> bool" where
  "begins_at g pr st \<longleftrightarrow>
    (case pr of AtNode n \<Rightarrow> tr_from (st_move st) = np_node n \<and> full_start g st
     | OnRoad r \<Rightarrow> tr_edge (st_move st) = rp_edge r \<and> st_from st = Some (rp_t r))"

definition ends_at :: "road_graph \<Rightarrow> projection \<Rightarrow> route_step \<Rightarrow> bool" where
  "ends_at g pr st \<longleftrightarrow>
    (case pr of AtNode n \<Rightarrow> tr_to (st_move st) = np_node n \<and> full_end g st
     | OnRoad r \<Rightarrow> tr_edge (st_move st) = rp_edge r \<and> st_to st = Some (rp_t r))"

text \<open>Points that are not within the tolerance of the end of a road.\<close>

definition proper_point :: "projection \<Rightarrow> bool" where
  "proper_point pr \<longleftrightarrow>
    (case pr of AtNode n \<Rightarrow> np_node n \<noteq> [] | OnRoad r \<Rightarrow> rp_edge r \<noteq> [] \<and> EPSILON < rp_t r \<and> rp_t r < 1 - EPSILON)"

definition section_ok :: "road_graph \<Rightarrow> projection \<Rightarrow> projection \<Rightarrow> route_step list \<Rightarrow> bool" where
  "section_ok g start goal sts \<longleftrightarrow>
    (if sts = [] then pj_node start = pj_node goal \<and> pj_edge start = pj_edge goal
     else begins_at g start (hd sts) \<and> ends_at g goal (last sts))"

definition drivable :: "road_graph \<Rightarrow> projection list \<Rightarrow> section_path list \<Rightarrow> bool" where
  "drivable g points paths \<longleftrightarrow> length points = length paths + 1
    \<and> (\<forall>i < length paths. section_ok g (points ! i) (points ! (i + 1)) (sp_steps (paths ! i)))
    \<and> successively (follows g) (concat (map sp_steps paths)) \<and> (\<forall>st \<in> set (concat (map sp_steps paths)). valid_step g st)"

section \<open>Moves of a sound graph\<close>

lemma sound_move:
  assumes "sound_graph g" and "t \<in> set (transitions_of g v)"
  obtains e len where "tr_from t = v" "move_in g t" "tr_edge t \<noteq> []" "map_of (g_edges g) (tr_edge t) = Some (e, len)" "move_of e t"
proof -
  have "routable g" using assms(1) by (simp add: sound_graph_def)
  then have "tr_from t = v" "tr_edge t \<noteq> []" using assms(2) by (auto simp: routable_def)
  moreover obtain e len where "map_of (g_edges g) (tr_edge t) = Some (e, len)" "move_of e t"
    using assms unfolding sound_graph_def by blast
  ultimately show thesis using assms(2) that by (simp add: move_in_def)
qed

lemma move_direction: "move_of e t \<Longrightarrow> tr_direction t = 1 \<or> tr_direction t = -1"
  by (auto simp: move_of_def)

lemma edgeTransitions_moves:
  assumes "sound_graph g"
  shows "t \<in> set (edgeTransitions g i) \<longleftrightarrow> tr_edge t = i \<and> move_in g t"
proof -
  have ok: "map_ok (g_adjacency g)" using assms by (simp add: sound_graph_def)
  have "t \<in> set (edgeTransitions g i) \<longleftrightarrow> tr_edge t = i \<and> (\<exists>v ts. (v, ts) \<in> set (g_adjacency g) \<and> t \<in> set ts)"
    unfolding edgeTransitions_def by (auto, blast, metis snd_conv)
  also have "\<dots> \<longleftrightarrow> tr_edge t = i \<and> (\<exists>v. t \<in> set (transitions_of g v))"
    using ok by (auto simp: transitions_of_def map_of_eq_Some_iff split: option.splits)
  also have "(\<exists>v. t \<in> set (transitions_of g v)) \<longleftrightarrow> move_in g t"
    using sound_move [OF assms] by (metis move_in_def)
  finally show ?thesis .
qed

lemma rightmost_legal:
  assumes "legalLaneIndices e d \<noteq> []"
  shows "\<exists>l. rightmostLegalLaneIndex e d = Some l \<and> l \<in> set (legalLaneIndices e d)"
  using assms by (auto simp: rightmostLegalLaneIndex_def Let_def)

lemma projection_lane_legal:
  assumes "legalLaneIndices e d \<noteq> []" and "d = 1 \<or> d = -1" and "projectionAllowsDirection pr e d"
  shows "\<exists>l. projectionLaneForDirection pr e d fallback = Some l \<and> l \<in> set (legalLaneIndices e d)"
proof (cases "fixedLaneIndex pr e")
  case None
  then show ?thesis using rightmost_legal [OF assms(1)] by (auto simp: projectionLaneForDirection_def split: option.splits)
next
  case (Some l)
  then have "l < roadLaneCount e" by (auto simp: fixedLaneIndex_def split: projection.splits option.splits if_splits)
  then have "l \<in> set (legalLaneIndices e d)" using Some assms(2,3) by (auto simp: legalLaneIndices_def projectionAllowsDirection_def)
  with Some show ?thesis by (simp add: projectionLaneForDirection_def)
qed

section \<open>Assigning lanes\<close>

definition fitting_step :: "road_graph \<Rightarrow> route_step \<Rightarrow> bool" where
  "fitting_step g st \<longleftrightarrow> move_in g (st_move st) \<and> (\<forall>l. st_fromLane st = Some l \<longrightarrow> legal_lane g (st_move st) l)
    \<and> (\<forall>l. st_toLane st = Some l \<longrightarrow> legal_lane g (st_move st) l)"

definition allows :: "road_graph \<Rightarrow> projection \<Rightarrow> transition \<Rightarrow> bool" where
  "allows g pr t \<longleftrightarrow> pj_edge pr = Some (tr_edge t) \<longrightarrow>
    (\<forall>e len. map_of (g_edges g) (tr_edge t) = Some (e, len) \<longrightarrow> projectionAllowsDirection pr e (tr_direction t))"

definition core :: "route_step \<Rightarrow> transition \<times> real option \<times> real option" where
  "core st = (st_move st, st_from st, st_to st)"

lemma assign_step_core [simp]: "core (assign_step sh g start goal opts isFirst isLast st) = core st"
  by (auto simp: assign_step_def core_def Let_def split: option.splits)

lemma assign_steps_core: "map core (assign_steps sh g start goal opts isFirst sts) = map core sts"
  by (induction sts arbitrary: isFirst) auto

lemma valid_fits: "valid_step g st \<Longrightarrow> fitting_step g st"
  by (auto simp: valid_step_def fitting_step_def)

lemma assign_step_valid:
  assumes g: "sound_graph g" and st: "fitting_step g st"
    and start: "isFirst \<Longrightarrow> allows g start (st_move st)" and goal: "isLast \<Longrightarrow> allows g goal (st_move st)"
  shows "valid_step g (assign_step sh g start goal opts isFirst isLast st)"
proof -
  let ?t = "st_move st"
  have "?t \<in> set (transitions_of g (tr_from ?t))" using st by (simp add: fitting_step_def move_in_def)
  from sound_move [OF g this] obtain e len where e: "map_of (g_edges g) (tr_edge ?t) = Some (e, len)" and mv: "move_of e ?t" by metis
  let ?d = "tr_direction ?t"
  have d: "stepDirection st e = ?d" using move_direction [OF mv] by (auto simp: stepDirection_def Let_def)
  have id: "edge_id e = tr_edge ?t" using mv by (simp add: move_of_def)
  have legal: "legal_lane g ?t l \<longleftrightarrow> l \<in> set (legalLaneIndices e ?d)" for l by (simp add: legal_lane_def e)
  have some: "legalLaneIndices e ?d \<noteq> []" using mv by (simp add: move_of_def)
  note lane = projection_lane_legal [OF some move_direction [OF mv]]
  let ?from0 = "case st_fromLane st of Some l \<Rightarrow> Some l | None \<Rightarrow> rightmostLegalLaneIndex e ?d"
  have from0: "\<exists>l. ?from0 = Some l \<and> l \<in> set (legalLaneIndices e ?d)"
    using st rightmost_legal [OF some] by (auto simp: fitting_step_def legal split: option.splits)
  have to0: "\<exists>l. (case st_toLane st of Some l \<Rightarrow> Some l | None \<Rightarrow> ?from0) = Some l \<and> l \<in> set (legalLaneIndices e ?d)"
    using st from0 by (cases "st_toLane st") (auto simp: fitting_step_def legal)
  have one: "\<exists>l. (if isFirst \<and> pj_edge start = Some (edge_id e) then projectionLaneForDirection start e ?d x else ?from0) = Some l
      \<and> l \<in> set (legalLaneIndices e ?d)" for x
    using from0 lane [of start x] start e by (auto simp: allows_def id)
  have two: "\<exists>l. (if isLast \<and> pj_edge goal = Some (edge_id e) then projectionLaneForDirection goal e ?d x
      else case st_toLane st of Some l \<Rightarrow> Some l | None \<Rightarrow> ?from0) = Some l \<and> l \<in> set (legalLaneIndices e ?d)" for x
    using to0 lane [of goal x] goal e by (auto simp: allows_def id)
  have moved: "st_move (assign_step sh g start goal opts isFirst isLast st) = ?t"
    using assign_step_core [of sh g start goal opts isFirst isLast st] by (simp add: core_def)
  have "\<exists>l. st_fromLane (assign_step sh g start goal opts isFirst isLast st) = Some l \<and> l \<in> set (legalLaneIndices e ?d)"
    "\<exists>l. st_toLane (assign_step sh g start goal opts isFirst isLast st) = Some l \<and> l \<in> set (legalLaneIndices e ?d)"
    using one two unfolding assign_step_def e Let_def option.case prod.case d by simp_all
  then show ?thesis using st unfolding valid_step_def moved legal by (simp add: fitting_step_def)
qed

lemma assign_steps_valid:
  assumes "sound_graph g" and "\<forall>st \<in> set sts. fitting_step g st"
    and "isFirst \<Longrightarrow> sts \<noteq> [] \<Longrightarrow> allows g start (st_move (hd sts))" and "sts \<noteq> [] \<Longrightarrow> allows g goal (st_move (last sts))"
  shows "\<forall>st \<in> set (assign_steps sh g start goal opts isFirst sts). valid_step g st"
  using assms(2-4)
proof (induction sts arbitrary: isFirst)
  case (Cons st sts)
  have "valid_step g (assign_step sh g start goal opts isFirst (sts = []) st)"
    by (rule assign_step_valid [OF assms(1)]) (use Cons.prems in auto)
  moreover have "\<forall>st \<in> set (assign_steps sh g start goal opts False sts). valid_step g st"
    by (rule Cons.IH) (use Cons.prems in \<open>auto split: if_splits\<close>)
  ultimately show ?case by simp
qed simp

section \<open>Sections\<close>

definition enters :: "road_graph \<Rightarrow> projection \<Rightarrow> arrival \<Rightarrow> route_step \<Rightarrow> bool" where
  "enters g start a st \<longleftrightarrow>
    (case start of
       AtNode n \<Rightarrow> graphMovementAllowed g False (np_node n) (truthy (ar_edge a)) (Some (tr_edge (st_move st)))
     | OnRoad r \<Rightarrow> ar_edge a = Some (tr_edge (st_move st)) \<longrightarrow> ar_direction a \<in> {Some 1, Some (-1)}
         \<longrightarrow> ar_direction a = Some (tr_direction (st_move st)))"

definition section_core :: "road_graph \<Rightarrow> projection \<Rightarrow> projection \<Rightarrow> arrival \<Rightarrow> route_step list \<Rightarrow> bool" where
  "section_core g start goal a sts \<longleftrightarrow> successively (through_node g) sts \<and> section_ok g start goal sts
    \<and> (sts \<noteq> [] \<longrightarrow> enters g start a (hd sts) \<and> allows g start (st_move (hd sts)) \<and> allows g goal (st_move (last sts)))"

definition uncore :: "transition \<times> real option \<times> real option \<Rightarrow> route_step" where
  "uncore c = (plain_step (fst c))\<lparr>st_from := fst (snd c), st_to := snd (snd c)\<rparr>"

lemma core_parts:
  "st_move (uncore (core st)) = st_move st" "st_from (uncore (core st)) = st_from st" "st_to (uncore (core st)) = st_to st"
  by (simp_all add: uncore_def core_def plain_step_def)

lemma section_core_cong:
  assumes "map core sts = map core sus" and "section_core g start goal a sts"
  shows "section_core g start goal a sus"
proof -
  have "through_node g st su = through_node g (uncore (core st)) (uncore (core su))" for st su
    by (simp only: through_node_def full_start_def full_end_def core_parts)
  then have chain: "successively (through_node g) xs = successively (\<lambda>c d. through_node g (uncore c) (uncore d)) (map core xs)" for xs
    unfolding successively_map by presburger
  have "core (hd sus) = core (hd sts)" "core (last sus) = core (last sts)" if "sts \<noteq> []"
    using assms(1) that by (metis hd_map last_map list.map_disc_iff)+
  then have ends: "st_move (hd sus) = st_move (hd sts)" "st_from (hd sus) = st_from (hd sts)" "st_to (hd sus) = st_to (hd sts)"
      "st_move (last sus) = st_move (last sts)" "st_from (last sus) = st_from (last sts)" "st_to (last sus) = st_to (last sts)" if "sts \<noteq> []"
    using that by (simp_all add: core_def)
  have "sus = [] \<longleftrightarrow> sts = []" using assms(1) by (metis list.map_disc_iff)
  with ends assms show ?thesis
    unfolding section_core_def section_ok_def begins_at_def ends_at_def enters_def full_start_def full_end_def chain
    by (cases "sts = []") (simp_all cong: projection.case_cong)
qed

lemma truthy_edge [simp]: "x \<noteq> [] \<Longrightarrow> truthy (Some x) = Some x"
  by (simp add: truthy_def)

lemma legal_turns:
  assumes "sound_graph g" and "legal_way g False (arrive t) ts" and "tr_edge t \<noteq> []"
  shows "successively (turn_ok g) (t # ts)"
  using assms(2,3)
proof (induction ts arbitrary: t)
  case (Cons u us)
  have u: "u \<in> set (transitions_of g (tr_to t))" "graphMovementAllowed g False (tr_to t) (Some (tr_edge t)) (Some (tr_edge u))"
    using Cons.prems by (simp_all add: step_allowed_def arrive_def)
  obtain e len where "tr_from u = tr_to t" "tr_edge u \<noteq> []" by (rule sound_move [OF assms(1) u(1)])
  with u Cons show ?case by (auto simp: turn_ok_def)
qed simp

lemma legal_turns':
  assumes "sound_graph g" and "legal_way g False k ts"
  shows "successively (turn_ok g) ts"
proof (cases ts)
  case (Cons u us)
  then have "u \<in> set (transitions_of g (fst k))" using assms(2) by (simp add: step_allowed_def)
  then obtain e len where "tr_edge u \<noteq> []" by (rule sound_move [OF assms(1)])
  with Cons assms show ?thesis using legal_turns [OF assms(1), of u us] by simp
qed simp

lemma turns_to_steps:
  assumes "successively (\<lambda>x y. turn_ok g (st_move x) (st_move y)) xs"
    and "\<forall>x \<in> set (butlast xs). full_end g x" and "\<forall>y \<in> set (tl xs). full_start g y"
  shows "successively (through_node g) xs"
  using assms
proof (induction xs rule: induct_list012)
  case (3 x y zs)
  then show ?case by (cases zs) (auto simp: through_node_def)
qed simp_all

lemma plain_full [simp]: "full_start g (plain_step t)" "full_end g (plain_step t)" "st_move (plain_step t) = t" "st_fromLane (plain_step t) = None"
  "st_toLane (plain_step t) = None"
  by (simp_all add: full_start_def full_end_def plain_step_def)

lemma node_projection [simp]: "pj_node (OnRoad r) = None" "pj_edge (OnRoad r) = Some (rp_edge r)" "pj_edge (AtNode n) = None" "pj_t (OnRoad r) = rp_t r"
  "np_node n \<noteq> [] \<Longrightarrow> pj_node (AtNode n) = Some (np_node n)"
  by (simp_all add: pj_node_def pj_edge_def pj_t_def)

lemma lane_in_legal:
  assumes "map_of (g_edges g) (tr_edge t) = Some (e, len)" and "move_of e t" and "projectionAllowsDirection pr e (tr_direction t)"
    and "projectionLaneForDirection pr e (tr_direction t) fallback = Some l"
  shows "legal_lane g t l"
  using projection_lane_legal [of e "tr_direction t" pr fallback] move_direction [OF assms(2)] assms by (auto simp: legal_lane_def move_of_def)

text \<open>The ends of a section: either nothing, at a node, or a part of the road the point lies on.\<close>

definition begin_part :: "road_graph \<Rightarrow> projection \<Rightarrow> arrival \<Rightarrow> end_candidate \<Rightarrow> bool" where
  "begin_part g start a c \<longleftrightarrow>
    (case start of
       AtNode n \<Rightarrow> ec_node c = np_node n \<and> ec_step c = None
     | OnRoad r \<Rightarrow> (\<exists>st. ec_step c = Some st \<and> ec_node c = tr_to (st_move st) \<and> begins_at g start st \<and> full_end g st
         \<and> fitting_step g st \<and> allows g start (st_move st) \<and> enters g start a st))"

definition end_part :: "road_graph \<Rightarrow> projection \<Rightarrow> end_candidate \<Rightarrow> bool" where
  "end_part g goal c \<longleftrightarrow>
    (case goal of
       AtNode n \<Rightarrow> ec_node c = np_node n \<and> ec_step c = None
     | OnRoad r \<Rightarrow> (\<exists>st. ec_step c = Some st \<and> ec_node c = tr_from (st_move st) \<and> ends_at g goal st \<and> full_start g st
         \<and> fitting_step g st \<and> allows g goal (st_move st)))"

lemma start_at_step:
  assumes "EPSILON < rp_t r" "rp_t r < 1 - EPSILON"
  obtains st where "ec_step (start_at (OnRoad r) opts e len t) = Some st" "st_move st = t" "st_from st = Some (rp_t r)"
    "st_to st = Some (if tr_from t = startNodeId e then 1 else 0)" "st_toLane st = None"
    "st_fromLane st = ec_lane (start_at (OnRoad r) opts e len t)" "ec_node (start_at (OnRoad r) opts e len t) = tr_to t"
    "ec_lane (start_at (OnRoad r) opts e len t)
      = projectionLaneForDirection (OnRoad r) e (tr_direction t) (incoming_lane opts e (tr_direction t) None)"
  using assms by (cases "tr_from t = startNodeId e") (auto simp: start_at_def Let_def plain_step_def)

lemma goal_at_step:
  assumes "EPSILON < rp_t r" "rp_t r < 1 - EPSILON"
  obtains st where "ec_step (goal_at (OnRoad r) e len t) = Some st" "st_move st = t" "st_to st = Some (rp_t r)"
    "st_from st = Some (if tr_from t = startNodeId e then 0 else 1)" "st_fromLane st = None"
    "st_toLane st = projectionLaneForDirection (OnRoad r) e (tr_direction t) None" "ec_node (goal_at (OnRoad r) e len t) = tr_from t"
  using assms by (cases "tr_from t = startNodeId e") (auto simp: goal_at_def Let_def plain_step_def)

lemma startCandidates_part:
  assumes g: "sound_graph g" and p: "proper_point start" and c: "c \<in> set (startCandidates start g (options_at a))"
    and begins: "may_begin (options_at a) c"
  shows "begin_part g start a c"
proof (cases start)
  case (AtNode n)
  then show ?thesis using p c by (simp add: begin_part_def startCandidates_def proper_point_def)
next
  case (OnRoad r)
  obtain e len t where e: "map_of (g_edges g) (rp_edge r) = Some (e, len)" and t: "t \<in> set (edgeTransitions g (edge_id e))"
      "projectionAllowsDirection start e (tr_direction t)"
    and c': "c = start_at start (options_at a) e len t"
    using c OnRoad by (cases "map_of (g_edges g) (rp_edge r)") (auto simp: startCandidates_def)
  have id: "edge_id e = rp_edge r" using g e unfolding sound_graph_def by blast
  have mv: "tr_edge t = rp_edge r" "move_in g t" using t(1) edgeTransitions_moves [OF g] id by auto
  have "move_of e t" using sound_move [OF g mv(2) [unfolded move_in_def]] e mv(1) by (metis option.inject prod.inject)
  obtain st where st: "ec_step c = Some st" "st_move st = t" "st_from st = Some (rp_t r)"
      "st_to st = Some (if tr_from t = startNodeId e then 1 else 0)" "st_toLane st = None" "st_fromLane st = ec_lane c" "ec_node c = tr_to t"
      "ec_lane c = projectionLaneForDirection start e (tr_direction t) (incoming_lane (options_at a) e (tr_direction t) None)"
    unfolding c' OnRoad by (rule start_at_step [of r "options_at a" e len t]) (use p OnRoad in \<open>simp_all add: proper_point_def\<close>)
  have "fitting_step g st"
    using st mv lane_in_legal [of g t e len start] e \<open>move_of e t\<close> t(2) by (auto simp: fitting_step_def)
  moreover have "enters g start a st" using begins st OnRoad by (auto simp: enters_def may_begin_def options_at_def)
  ultimately show ?thesis
    unfolding begin_part_def OnRoad projection.case
    by (intro exI [of _ st]) (use st e mv t(2) OnRoad in \<open>auto simp: begins_at_def full_end_def allows_def\<close>)
qed

lemma goalCandidates_part:
  assumes g: "sound_graph g" and p: "proper_point goal" and c: "c \<in> set (goalCandidates goal g)"
  shows "end_part g goal c"
proof (cases goal)
  case (AtNode n)
  then show ?thesis using p c by (simp add: end_part_def goalCandidates_def proper_point_def)
next
  case (OnRoad r)
  obtain e len t where e: "map_of (g_edges g) (rp_edge r) = Some (e, len)" and t: "t \<in> set (edgeTransitions g (edge_id e))"
      "projectionAllowsDirection goal e (tr_direction t)"
    and c': "c = goal_at goal e len t"
    using c OnRoad by (cases "map_of (g_edges g) (rp_edge r)") (auto simp: goalCandidates_def)
  have id: "edge_id e = rp_edge r" using g e unfolding sound_graph_def by blast
  have mv: "tr_edge t = rp_edge r" "move_in g t" using t(1) edgeTransitions_moves [OF g] id by auto
  have "move_of e t" using sound_move [OF g mv(2) [unfolded move_in_def]] e mv(1) by (metis option.inject prod.inject)
  obtain st where st: "ec_step c = Some st" "st_move st = t" "st_to st = Some (rp_t r)"
      "st_from st = Some (if tr_from t = startNodeId e then 0 else 1)" "st_fromLane st = None"
      "st_toLane st = projectionLaneForDirection goal e (tr_direction t) None" "ec_node c = tr_from t"
    unfolding c' OnRoad by (rule goal_at_step [of r e len t]) (use p OnRoad in \<open>simp_all add: proper_point_def\<close>)
  have "fitting_step g st"
    using st mv lane_in_legal [of g t e len goal] e \<open>move_of e t\<close> t(2) by (auto simp: fitting_step_def)
  then show ?thesis
    unfolding end_part_def OnRoad projection.case
    by (intro exI [of _ st]) (use st e mv t(2) OnRoad in \<open>auto simp: ends_at_def full_start_def allows_def\<close>)
qed

section \<open>Candidates are drivable\<close>

lemma search_returns:
  assumes "sound_graph g"
  shows "\<exists>r. deterministicDirectedAStar g v w opts = Some r
    \<and> (\<forall>ns es ts c. r = Route ns es ts c \<longrightarrow> legal_route g w opts (v, truthy (incomingEdgeId opts)) ts)"
proof (cases "map_has (g_nodes g) v \<and> map_has (g_nodes g) w")
  case True
  then obtain r where "deterministicDirectedAStar g v w opts = Some r" "best_route g w opts (v, truthy (incomingEdgeId opts)) r"
    using search_returns_best [of g v w opts] assms by (auto simp: sound_graph_def)
  then show ?thesis by (auto simp: best_route_def)
next
  case False
  then show ?thesis by (auto simp: deterministicDirectedAStar_def)
qed

definition opt_list :: "'a option \<Rightarrow> 'a list" where
  "opt_list x = (case x of None \<Rightarrow> [] | Some y \<Rightarrow> [y])"

lemma opt_list_simps [simp]: "opt_list None = []" "opt_list (Some y) = [y]"
  by (simp_all add: opt_list_def)

lemma map_filter_parts:
  "List.map_filter (\<lambda>x. x) ([a] @ map (\<lambda>t. Some (f t)) ts @ [b]) = opt_list a @ map f ts @ opt_list b"
proof -
  have "List.map_filter (\<lambda>x. x) (map (\<lambda>t. Some (f t)) ts @ [b]) = map f ts @ opt_list b"
    by (induction ts) (auto simp: map_filter_simps split: option.splits)
  then show ?thesis by (auto simp: map_filter_simps split: option.splits)
qed

text \<open>The way of a candidate: what the search found, and the move into the goal.\<close>

lemma candidate_way:
  assumes g: "sound_graph g" and to: "end_part g goal to"
    and route: "legal_route g (ec_node to) \<lparr>incomingEdgeId = i, outgoingEdgeId = map_option (\<lambda>st. tr_edge (st_move st)) (ec_step to),
      goalIncomingEdgeId = arr, ignoreTurnRules = False\<rparr> k ts"
  shows "legal_way g False k (ts @ map st_move (opt_list (ec_step to)))"
    and "case goal of AtNode n \<Rightarrow> fst (end_of k ts) = np_node n | OnRoad _ \<Rightarrow> True"
proof -
  have way: "legal_way g False k ts" "fst (end_of k ts) = ec_node to"
    "graphMovementAllowed g False (fst (end_of k ts)) (snd (end_of k ts)) (truthy (map_option (\<lambda>st. tr_edge (st_move st)) (ec_step to)))"
    using route by (auto simp: legal_route_def accepts_def)
  show "legal_way g False k (ts @ map st_move (opt_list (ec_step to)))"
  proof (cases goal)
    case (AtNode n)
    then show ?thesis using to way by (simp add: end_part_def)
  next
    case (OnRoad r)
    then obtain st where st: "ec_step to = Some st" "ec_node to = tr_from (st_move st)" "move_in g (st_move st)"
      using to by (auto simp: end_part_def fitting_step_def)
    obtain e len where "tr_edge (st_move st) \<noteq> []" by (rule sound_move [OF g st(3) [unfolded move_in_def]])
    then show ?thesis using way st by (simp add: legal_way_append step_allowed_def move_in_def)
  qed
  show "case goal of AtNode n \<Rightarrow> fst (end_of k ts) = np_node n | OnRoad _ \<Rightarrow> True"
    using way(2) to by (auto simp: end_part_def split: projection.splits)
qed

lemma legal_way_moves: "sound_graph g \<Longrightarrow> legal_way g False k ts \<Longrightarrow> \<forall>t \<in> set ts. move_in g t"
proof (induction ts arbitrary: k)
  case (Cons t ts)
  then have "t \<in> set (transitions_of g (fst k))" by (simp add: step_allowed_def)
  then have "move_in g t" by (rule sound_move [OF Cons.prems(1)])
  with Cons.IH [OF Cons.prems(1), of "arrive t"] Cons.prems show ?case by simp
qed simp

definition fitting_section :: "road_graph \<Rightarrow> projection \<Rightarrow> projection \<Rightarrow> arrival \<Rightarrow> route_step list \<Rightarrow> bool" where
  "fitting_section g start goal a sts \<longleftrightarrow> section_core g start goal a sts \<and> (\<forall>st \<in> set sts. fitting_step g st)"

lemma routed_section:
  assumes g: "sound_graph g" and frm: "begin_part g start a frm" and to: "end_part g goal to"
    and proper: "proper_point start" "proper_point goal"
    and route: "legal_route g (ec_node to)
      \<lparr>incomingEdgeId = (case ec_step frm of Some st \<Rightarrow> Some (tr_edge (st_move st)) | None \<Rightarrow> ar_edge a),
       outgoingEdgeId = map_option (\<lambda>st. tr_edge (st_move st)) (ec_step to), goalIncomingEdgeId = arr, ignoreTurnRules = False\<rparr>
      (ec_node frm, truthy (case ec_step frm of Some st \<Rightarrow> Some (tr_edge (st_move st)) | None \<Rightarrow> ar_edge a)) ts"
  shows "fitting_section g start goal a (opt_list (ec_step frm) @ map plain_step ts @ opt_list (ec_step to))"
proof -
  let ?k = "(ec_node frm, truthy (case ec_step frm of Some st \<Rightarrow> Some (tr_edge (st_move st)) | None \<Rightarrow> ar_edge a))"
  let ?w = "map plain_step ts @ opt_list (ec_step to)" and ?post = "opt_list (ec_step to)"
  let ?l = "opt_list (ec_step frm) @ ?w"
  note way = candidate_way [OF g to route]
  have moves: "map st_move ?w = ts @ map st_move ?post" by (simp add: comp_def)
  have post: "\<forall>st \<in> set ?post. fitting_step g st \<and> full_start g st \<and> allows g goal (st_move st) \<and> ends_at g goal st"
    using to by (auto simp: end_part_def split: projection.splits)
  have pre: "\<forall>st \<in> set (opt_list (ec_step frm)). fitting_step g st \<and> full_end g st \<and> allows g start (st_move st) \<and> begins_at g start st
      \<and> enters g start a st" using frm by (auto simp: begin_part_def split: projection.splits)
  have plain: "fitting_step g (plain_step t)" if "t \<in> set ts" for t
    using legal_way_moves [OF g way(1)] that by (simp add: fitting_step_def)
  have fit: "\<forall>st \<in> set ?l. fitting_step g st" using pre post plain by auto
  have turns: "successively (\<lambda>x y. turn_ok g (st_move x) (st_move y)) ?l"
  proof -
    have "successively (turn_ok g) (map st_move ?l)"
    proof (cases "ec_step frm")
      case None
      then show ?thesis using legal_turns' [OF g way(1)] moves by simp
    next
      case (Some st)
      then have st: "ec_node frm = tr_to (st_move st)" "move_in g (st_move st)"
        using frm by (auto simp: begin_part_def fitting_step_def split: projection.splits)
      obtain e len where "tr_edge (st_move st) \<noteq> []" by (rule sound_move [OF g st(2) [unfolded move_in_def]])
      moreover have "?k = arrive (st_move st)" using Some st(1) by (simp add: arrive_def)
      ultimately show ?thesis using legal_turns [OF g] way(1) moves Some by simp
    qed
    then show ?thesis by (simp only: successively_map)
  qed
  have "set (butlast ?l) \<subseteq> set (opt_list (ec_step frm) @ map plain_step ts)"
  proof (cases "ec_step to")
    case None
    then show ?thesis by (auto dest: in_set_butlastD simp del: butlast_append set_append)
  next
    case (Some st)
    have "butlast (xs @ ys @ [st]) = xs @ ys" for xs ys :: "route_step list" unfolding append_assoc [symmetric] butlast_snoc ..
    with Some show ?thesis by simp
  qed
  then have "\<forall>x \<in> set (butlast ?l). full_end g x" using pre by fastforce
  moreover have "\<forall>y \<in> set (tl ?l). full_start g y"
  proof (cases "ec_step frm")
    case None
    have "\<forall>y \<in> set ?w. full_start g y" using post by auto
    with None show ?thesis by (cases ?w) auto
  next
    case (Some st)
    then show ?thesis using post by auto
  qed
  ultimately have chain: "successively (through_node g) ?l" by (rule turns_to_steps [OF turns])
  have first: "begins_at g start (hd ?l) \<and> enters g start a (hd ?l) \<and> allows g start (st_move (hd ?l))" if some: "?l \<noteq> []"
  proof (cases start)
    case (OnRoad r)
    with frm pre show ?thesis by (auto simp: begin_part_def)
  next
    case (AtNode n)
    then have none: "ec_step frm = None" "ec_node frm = np_node n" using frm by (simp_all add: begin_part_def)
    then obtain st sts where w: "?w = st # sts" using some by (cases ?w) auto
    have "step_allowed g False ?k (st_move st)" using way(1) moves w by (metis legal_way.simps(2) list.simps(9))
    then have st: "st_move st \<in> set (transitions_of g (np_node n))"
        "graphMovementAllowed g False (np_node n) (truthy (ar_edge a)) (Some (tr_edge (st_move st)))"
      using none by (simp_all add: step_allowed_def)
    moreover have "tr_from (st_move st) = np_node n" by (rule sound_move [OF g st(1)])
    moreover have "full_start g st" using post w by (cases ts) auto
    ultimately show ?thesis using AtNode none w by (simp add: begins_at_def enters_def allows_def)
  qed
  have last: "ends_at g goal (last ?l) \<and> allows g goal (st_move (last ?l))" if some: "?l \<noteq> []"
  proof (cases goal)
    case (OnRoad r)
    with to post show ?thesis by (auto simp: end_part_def)
  next
    case (AtNode m)
    then have none: "ec_step to = None" "fst (end_of ?k ts) = np_node m" using to way(2) by (simp_all add: end_part_def)
    show ?thesis
    proof (cases ts rule: rev_cases)
      case Nil
      with some none obtain st where "ec_step frm = Some st" by (cases "ec_step frm") auto
      with Nil none AtNode frm pre show ?thesis by (auto simp: ends_at_def allows_def begin_part_def split: projection.splits)
    next
      case (snoc us u)
      with none AtNode show ?thesis by (simp add: ends_at_def allows_def arrive_def)
    qed
  qed
  have "pj_node start = pj_node goal \<and> pj_edge start = pj_edge goal" if "?l = []"
    using that frm to proper way(2) by (auto simp: begin_part_def end_part_def proper_point_def split: projection.splits)
  with chain first last fit show ?thesis unfolding fitting_section_def section_core_def section_ok_def by metis
qed

lemma assign_section:
  assumes "sound_graph g" and "fitting_section g start goal a sts"
  shows "section_core g start goal a (assignTraversalLanes sh g start goal opts sts)"
    and "\<forall>st \<in> set (assignTraversalLanes sh g start goal opts sts). valid_step g st"
    and "map core (assignTraversalLanes sh g start goal opts sts) = map core sts"
proof -
  show core: "map core (assignTraversalLanes sh g start goal opts sts) = map core sts"
    by (simp add: assignTraversalLanes_def assign_steps_core)
  show "section_core g start goal a (assignTraversalLanes sh g start goal opts sts)"
    using section_core_cong [OF core [symmetric]] assms(2) by (simp add: fitting_section_def)
  show "\<forall>st \<in> set (assignTraversalLanes sh g start goal opts sts). valid_step g st"
    unfolding assignTraversalLanes_def
    by (rule assign_steps_valid [OF assms(1)]) (use assms(2) in \<open>auto simp: fitting_section_def section_core_def\<close>)
qed

lemma options_at_fields [simp]:
  "ro_edge (options_at a) = ar_edge a" "ro_direction (options_at a) = ar_direction a" "ro_lane (options_at a) = ar_lane a"
  "ro_ignore (options_at a) = False"
  by (simp_all add: options_at_def)

lemma routed_candidate_ok:
  assumes g: "sound_graph g" and "begin_part g start a frm" "end_part g goal to" "proper_point start" "proper_point goal"
    and c: "routed_candidate sh num g start goal (options_at a) (frm, to, arr) = Some (Some c)"
  shows "fitting_section g start goal a (rc_steps c)"
proof -
  let ?i = "case ec_step frm of Some st \<Rightarrow> Some (tr_edge (st_move st)) | None \<Rightarrow> ro_edge (options_at a)"
  let ?o = "\<lparr>incomingEdgeId = ?i, outgoingEdgeId = map_option (\<lambda>st. tr_edge (st_move st)) (ec_step to), goalIncomingEdgeId = arr,
    ignoreTurnRules = ro_ignore (options_at a)\<rparr>"
  let ?sts = "\<lambda>ts. assignTraversalLanes sh g start goal (options_at a) (opt_list (ec_step frm) @ map plain_step ts @ opt_list (ec_step to))"
  obtain r where r: "deterministicDirectedAStar g (ec_node frm) (ec_node to) ?o = Some r"
      "\<forall>ns es ts c. r = Route ns es ts c \<longrightarrow> legal_route g (ec_node to) ?o (ec_node frm, truthy (incomingEdgeId ?o)) ts"
    using search_returns [OF g] by blast
  have "\<exists>ns es ts cost. r = Route ns es ts (Some cost) \<and> rc_steps c = ?sts ts"
  proof (cases r)
    case (SearchFailed f)
    then show ?thesis using c r(1) by (simp add: routed_candidate_def)
  next
    case (Route ns es ts cost)
    then show ?thesis
      using c unfolding routed_candidate_def prod.case r(1) map_filter_parts by (cases cost) (auto simp: Let_def)
  qed
  then obtain ns es ts cost where route: "r = Route ns es ts (Some cost)" and steps: "rc_steps c = ?sts ts" by blast
  have "fitting_section g start goal a (opt_list (ec_step frm) @ map plain_step ts @ opt_list (ec_step to))"
    by (rule routed_section [OF g assms(2-5), where arr = arr]) (use r(2) route in \<open>unfold options_at_fields, simp\<close>)
  from assign_section(1,2) [OF g this] show ?thesis unfolding fitting_section_def steps using valid_fits by blast
qed

lemma direct_candidate_ok:
  assumes g: "sound_graph g" and c: "directCandidate start goal g (options_at a) = Some c"
  shows "fitting_section g start goal a (rc_steps c)"
proof -
  obtain i e len where i: "pj_edge start = Some i" "pj_edge goal = Some i" and e: "map_of (g_edges g) i = Some (e, len)"
    and mem: "c \<in> set (List.map_filter (direct_with start goal (options_at a) e len) (edgeTransitions g (edge_id e)))"
  proof -
    from c obtain i where i: "pj_edge start = Some i" "pj_edge goal = Some i"
      by (cases "pj_edge start") (auto simp: directCandidate_def truthy_def split: if_splits)
    then obtain e len where e: "map_of (g_edges g) i = Some (e, len)"
      using c by (cases "map_of (g_edges g) i") (auto simp: directCandidate_def split: if_splits)
    obtain rest where "sort_by candidate_order (List.map_filter (direct_with start goal (options_at a) e len) (edgeTransitions g (edge_id e))) = c # rest"
      using c i e by (auto simp: directCandidate_def split: if_splits list.splits)
    then show thesis using that [OF i e] by (metis list.set_intros(1) set_sort_by)
  qed
  then obtain t where t: "t \<in> set (edgeTransitions g (edge_id e))" "direct_with start goal (options_at a) e len t = Some c" by auto
  have id: "edge_id e = i" using g e unfolding sound_graph_def by blast
  have mv: "tr_edge t = i" "move_in g t" using t(1) edgeTransitions_moves [OF g] id by auto
  have "move_of e t" using sound_move [OF g mv(2) [unfolded move_in_def]] e mv(1) by (metis option.inject prod.inject)
  obtain r q where rq: "start = OnRoad r" "goal = OnRoad q" "rp_edge r = i" "rp_edge q = i"
    using i by (cases start; cases goal) auto
  have free: "projectionAllowsDirection start e (tr_direction t)" "projectionAllowsDirection goal e (tr_direction t)"
      "\<not> turns_back (options_at a) i (tr_direction t)"
    using t(2) id by (auto simp: direct_with_def Let_def split: if_splits)
  let ?l = "projectionLaneForDirection start e (tr_direction t) (incoming_lane (options_at a) e (tr_direction t) None)"
  let ?m = "projectionLaneForDirection goal e (tr_direction t) ?l"
  let ?st = "(plain_step t)\<lparr>st_from := Some (rp_t r), st_to := Some (rp_t q), st_partial := (rp_t r \<noteq> 0 \<or> rp_t q \<noteq> 1),
    st_fromLane := ?l, st_toLane := ?m\<rparr>"
  have steps: "rc_steps c = [] \<or> rc_steps c = [?st]"
    using t(2) rq(1,2) by (auto simp: direct_with_def Let_def split: if_splits)
  have "fitting_step g ?st"
    using lane_in_legal [OF _ \<open>move_of e t\<close>] e mv free(1,2) by (auto simp: fitting_step_def plain_step_def)
  have "ar_edge a = Some i \<longrightarrow> ar_direction a \<in> {Some 1, Some (-1)} \<longrightarrow> ar_direction a = Some (tr_direction t)"
    using free(3) by (auto simp: turns_back_def options_at_def)
  with steps \<open>fitting_step g ?st\<close> show ?thesis
    using rq mv(1) free(1,2) e
    by (elim disjE) (auto simp: fitting_section_def section_core_def section_ok_def begins_at_def ends_at_def enters_def allows_def plain_step_def)
qed

lemma stay_candidate_ok:
  assumes "proper_point start" "proper_point goal" and "c \<in> set (stay_candidate g opts start goal)"
  shows "fitting_section g start goal a (rc_steps c)"
  using assms by (cases start; cases goal)
    (auto simp: stay_candidate_def fitting_section_def section_core_def section_ok_def proper_point_def split: if_splits)

lemma those_map:
  "(\<And>x. x \<in> set xs \<Longrightarrow> f x \<noteq> None) \<Longrightarrow> those (map f xs) = Some (map (the \<circ> f) xs)"
proof (induction xs)
  case (Cons x xs)
  then obtain y where "f x = Some y" by (metis list.set_intros(1) not_None_eq)
  with Cons show ?case by simp
qed simp

lemma mem_update: "p \<in> set (AList.update k v m) \<Longrightarrow> p = (k, v) \<or> p \<in> set m"
  by (induction m) (auto split: if_splits)

lemma keep_best_mem:
  "(key, c, b) \<in> set (fold (keep_best opts) cs m) \<Longrightarrow> (key, c, b) \<in> set m \<or> c \<in> set cs \<and> b = resultingIncomingState (rc_steps c) opts"
proof (induction cs arbitrary: m)
  case (Cons d ds)
  have "(key, c, b) \<in> set (keep_best opts d m) \<Longrightarrow> (key, c, b) \<in> set m \<or> c = d \<and> b = resultingIncomingState (rc_steps d) opts"
    by (auto simp: keep_best_def Let_def dest: mem_update split: option.splits if_splits)
  with Cons show ?case by fastforce
qed simp

lemma routed_candidate_total:
  assumes "sound_graph g"
  shows "routed_candidate sh num g start goal opts fta \<noteq> None"
proof -
  have "deterministicDirectedAStar g v w o' \<noteq> None" for v w o' using search_returns [OF assms, of v w o'] by auto
  then show ?thesis by (cases fta) (simp add: routed_candidate_def)
qed

lemma candidates_total:
  assumes "sound_graph g"
  shows "\<exists>cs. routeCandidatesBetweenProjections sh num start goal g opts = Some cs"
  by (simp add: routeCandidatesBetweenProjections_def Let_def those_map [OF routed_candidate_total [OF assms]])

lemma candidates_ok:
  assumes g: "sound_graph g" and proper: "proper_point start" "proper_point goal"
    and cs: "routeCandidatesBetweenProjections sh num start goal g (options_at a) = Some cs" and c: "(c, b) \<in> set cs"
  shows "fitting_section g start goal a (rc_steps c) \<and> b = resultingIncomingState (rc_steps c) (options_at a)"
proof -
  let ?ways = "List.product (filter (may_begin (options_at a)) (startCandidates start g (options_at a)))
    (List.product (goalCandidates goal g) (goalArrivalEdgeIds goal g))"
  let ?found = "map (the \<circ> routed_candidate sh num g start goal (options_at a)) ?ways"
  let ?all = "(case directCandidate start goal g (options_at a) of None \<Rightarrow> [] | Some c \<Rightarrow> [c]) @ List.map_filter (\<lambda>x. x) ?found
    @ stay_candidate g (options_at a) start goal"
  have "cs = sort_by arrival_order (map snd (fold (keep_best (options_at a)) ?all []))"
    using cs by (simp add: routeCandidatesBetweenProjections_def Let_def those_map [OF routed_candidate_total [OF g]])
  then obtain key where "(key, c, b) \<in> set (fold (keep_best (options_at a)) ?all [])" using c by auto
  from keep_best_mem [OF this] have mem: "c \<in> set ?all" and b: "b = resultingIncomingState (rc_steps c) (options_at a)" by auto
  consider "directCandidate start goal g (options_at a) = Some c" | frm to arr where "(frm, to, arr) \<in> set ?ways"
      "routed_candidate sh num g start goal (options_at a) (frm, to, arr) = Some (Some c)" | "c \<in> set (stay_candidate g (options_at a) start goal)"
  proof -
    have "c \<in> set (List.map_filter (\<lambda>x. x) ?found) \<Longrightarrow> \<exists>w \<in> set ?ways. routed_candidate sh num g start goal (options_at a) w = Some (Some c)"
      using routed_candidate_total [OF g] by fastforce
    with mem that show thesis by (auto split: option.splits)
  qed
  then have "fitting_section g start goal a (rc_steps c)"
  proof cases
    case 1
    then show ?thesis by (rule direct_candidate_ok [OF g])
  next
    case (2 frm to arr)
    then have "begin_part g start a frm" "end_part g goal to"
      using startCandidates_part [OF g proper(1)] goalCandidates_part [OF g proper(2)] by auto
    then show ?thesis by (rule routed_candidate_ok [OF g _ _ proper 2(2)])
  next
    case 3
    then show ?thesis by (rule stay_candidate_ok [OF proper])
  qed
  with b show ?thesis by simp
qed

section \<open>Failures return\<close>

lemma shadow_sound:
  assumes "sound_graph g"
  shows "sound_graph (buildBidirectionalShadowGraph g)"
proof -
  have ids: "\<forall>x \<in> set (g_edges g). edge_id (fst (snd x)) = fst x"
    using assms unfolding sound_graph_def by (metis map_of_is_SomeI prod.collapse)
  have eq: "map edge_id (map (\<lambda>(_, e, _). e\<lparr>bidirectional := Some True, oneWay := Some False, edge_direction := DirNumber 1,
      oneWayDirection := DirNumber 1\<rparr>) (g_edges g)) = map_keys (g_edges g)"
    using ids by (induction "g_edges g") auto
  have "map_ok (g_edges g)" using assms by (simp add: sound_graph_def)
  then show ?thesis unfolding buildBidirectionalShadowGraph_def by (intro built_sound) (simp only: road_doc.select_convs eq)
qed

lemma exists_total: "sound_graph g \<Longrightarrow> \<exists>ok. routeBetweenProjectionsExists sh num start goal g opts = Some ok"
  using candidates_total [of g sh num start goal opts] by (auto simp: routeBetweenProjectionsExists_def)

lemma classify_total:
  assumes "sound_graph g"
  shows "\<exists>f. classifyRouteFailure sh num start goal g opts = Some f"
proof -
  note total = exists_total [OF assms, of sh num]
  obtain x where x: "routeBetweenProjectionsExists sh num start goal g (opts\<lparr>ro_ignore := True\<rparr>) = Some x" using total by blast
  obtain y where y: "routeBetweenProjectionsExists sh num (any_lane start) (any_lane goal) g opts = Some y" using total by blast
  obtain z where z: "routeBetweenProjectionsExists sh num start goal (buildBidirectionalShadowGraph g) (no_options\<lparr>ro_ignore := True\<rparr>) = Some z"
    using exists_total [OF shadow_sound [OF assms]] by blast
  show ?thesis by (simp add: classifyRouteFailure_def Let_def x y z)
qed

lemma between_total:
  assumes "sound_graph g"
  shows "\<exists>r. routeBetweenProjections sh num start goal g opts = Some r"
proof (cases "\<exists>s t. start = Some s \<and> goal = Some t")
  case True
  then obtain s t where st: "start = Some s" "goal = Some t" by blast
  obtain cs where "routeCandidatesBetweenProjections sh num s t g opts = Some cs" using candidates_total [OF assms] by blast
  moreover obtain f where "classifyRouteFailure sh num s t g opts = Some f" using classify_total [OF assms] by blast
  ultimately show ?thesis by (cases cs) (simp_all add: routeBetweenProjections_def st)
qed (auto simp: routeBetweenProjections_def split: option.splits)

lemma failures_total:
  assumes "sound_graph g"
  shows "\<exists>fs. routeItineraryFailures sh num start goal g as = Some fs"
proof -
  have "routeBetweenProjections sh num (Some start) (Some goal) g (options_at a) \<noteq> None" for a
    using between_total [OF assms, of sh num "Some start" "Some goal" "options_at a"] by auto
  then show ?thesis by (simp add: routeItineraryFailures_def those_map)
qed

section \<open>Itineraries are drivable\<close>

text \<open>What the arrival says of the last step, and where that step has brought us.\<close>

definition link_ok :: "road_graph \<Rightarrow> projection \<Rightarrow> route_step list \<Rightarrow> arrival \<Rightarrow> bool" where
  "link_ok g pr sts a \<longleftrightarrow> sts \<noteq> [] \<longrightarrow>
    ar_edge a = Some (tr_edge (st_move (last sts))) \<and> ar_direction a = Some (tr_direction (st_move (last sts)))
    \<and> (case pr of AtNode n \<Rightarrow> tr_to (st_move (last sts)) = np_node n \<and> full_end g (last sts)
       | OnRoad r \<Rightarrow> tr_edge (st_move (last sts)) = rp_edge r \<and> st_to (last sts) \<noteq> None)"

definition steps_of :: "section_path list \<Rightarrow> route_step list" where
  "steps_of paths = concat (map sp_steps paths)"

definition reached_ok :: "road_graph \<Rightarrow> projection list \<Rightarrow> itinerary \<Rightarrow> bool" where
  "reached_ok g pre s \<longleftrightarrow> drivable g pre (it_paths s) \<and> link_ok g (last pre) (steps_of (it_paths s)) (it_arrival s)
    \<and> it_cost s = sum_list (map sp_cost (it_paths s))"

lemma sections_follow:
  assumes g: "sound_graph g" and valid: "valid_step g (last sts)" and link: "link_ok g start sts a" and core: "section_core g start goal a ts"
    and "sts \<noteq> []" "ts \<noteq> []"
  shows "follows g (last sts) (hd ts)"
proof -
  let ?s = "last sts" and ?t = "hd ts"
  have "st_move ?s \<in> set (transitions_of g (tr_from (st_move ?s)))" using valid by (simp add: valid_step_def move_in_def)
  from sound_move [OF g this] obtain e len where ne: "tr_edge (st_move ?s) \<noteq> []" and mv: "move_of e (st_move ?s)" by metis
  have begins: "begins_at g start ?t" "enters g start a ?t" using core \<open>ts \<noteq> []\<close> by (simp_all add: section_core_def section_ok_def)
  have last: "ar_edge a = Some (tr_edge (st_move ?s))" "ar_direction a = Some (tr_direction (st_move ?s))"
    using link \<open>sts \<noteq> []\<close> by (simp_all add: link_ok_def)
  show ?thesis
  proof (cases start)
    case (AtNode n)
    then show ?thesis using begins last ne link \<open>sts \<noteq> []\<close>
      by (simp add: follows_def through_node_def turn_ok_def begins_at_def enters_def link_ok_def)
  next
    case (OnRoad r)
    then show ?thesis using begins last link \<open>sts \<noteq> []\<close> move_direction [OF mv]
      by (auto simp: follows_def goes_on_def begins_at_def enters_def link_ok_def)
  qed
qed

lemma link_extends:
  assumes proper: "proper_point start" "proper_point goal" and link: "link_ok g start sts (it_arrival s)"
    and core: "section_core g start goal (it_arrival s) ts" and same: "map core ts = map core (rc_steps c)"
    and b: "b = resultingIncomingState (rc_steps c) (options_at (it_arrival s))"
  shows "link_ok g goal (sts @ ts) (it_arrival (extend_itinerary sh g start goal (s, c, b)))"
proof (cases "ts = []")
  case True
  then have "rc_steps c = []" using same by simp
  then have "b = it_arrival s" unfolding b by (simp add: resultingIncomingState_def)
  then have "it_arrival (extend_itinerary sh g start goal (s, c, b)) = it_arrival s"
    by (simp add: extend_itinerary_def Let_def nullish_or_def split: option.splits)
  moreover have "pj_node start = pj_node goal" "pj_edge start = pj_edge goal" using core True by (simp_all add: section_core_def section_ok_def)
  ultimately show ?thesis using True link proper
    by (cases start; cases goal) (auto simp: link_ok_def proper_point_def)
next
  case False
  have "core (last ts) = core (last (rc_steps c))" "rc_steps c \<noteq> []" using same False by (metis last_map list.map_disc_iff)+
  then have "ar_edge b = Some (tr_edge (st_move (last ts)))" "ar_direction b = Some (tr_direction (st_move (last ts)))"
    unfolding b by (simp_all add: resultingIncomingState_def core_def Let_def)
  moreover have "ends_at g goal (last ts)" using core False by (simp add: section_core_def section_ok_def)
  ultimately show ?thesis using False
    by (cases goal) (simp_all add: link_ok_def ends_at_def extend_itinerary_def Let_def nullish_or_def)
qed

lemma extended_ok:
  assumes g: "sound_graph g" and proper: "proper_point start" "proper_point goal" and s: "reached_ok g pre s" "pre \<noteq> []" "last pre = start"
    and c: "fitting_section g start goal (it_arrival s) (rc_steps c)"
    and b: "b = resultingIncomingState (rc_steps c) (options_at (it_arrival s))"
  shows "reached_ok g (pre @ [goal]) (extend_itinerary sh g start goal (s, c, b))"
proof -
  let ?a = "it_arrival s" and ?sts = "steps_of (it_paths s)" and ?e = "extend_itinerary sh g start goal (s, c, b)"
  let ?path = "finalizeRouteCandidate sh g start goal (options_at ?a) (c, b)" and ?ts = "assignTraversalLanes sh g start goal (options_at ?a) (rc_steps c)"
  have paths: "it_paths ?e = it_paths s @ [?path]" "it_cost ?e = it_cost s + sp_cost ?path" "sp_steps ?path = ?ts"
    by (simp_all add: extend_itinerary_def finalizeRouteCandidate_def Let_def)
  note new = assign_section [OF g c, of sh "options_at ?a"]
  have old: "length pre = length (it_paths s) + 1" "\<forall>i < length (it_paths s). section_ok g (pre ! i) (pre ! (i + 1)) (sp_steps (it_paths s ! i))"
      "successively (follows g) ?sts" "\<forall>st \<in> set ?sts. valid_step g st" "link_ok g start ?sts ?a"
    using s by (simp_all add: reached_ok_def drivable_def steps_of_def)
  have follow: "follows g (last ?sts) (hd ?ts)" if "?sts \<noteq> []" "?ts \<noteq> []"
    by (rule sections_follow [OF g _ old(5) new(1) that]) (use old(4) that in simp)
  have "successively (follows g) ?ts"
    using new(1) successively_mono [of "through_node g" ?ts "follows g"] by (simp add: section_core_def follows_def)
  then have "successively (follows g) (?sts @ ?ts)" using old(3) follow by (auto simp: successively_append_iff)
  moreover have "section_ok g ((pre @ [goal]) ! i) ((pre @ [goal]) ! (i + 1)) (sp_steps ((it_paths s @ [?path]) ! i))"
    if "i < length (it_paths s @ [?path])" for i
  proof (cases "i < length (it_paths s)")
    case True
    then show ?thesis using old(1,2) by (simp add: nth_append)
  next
    case False
    with that have "i = length (it_paths s)" by simp
    moreover have "pre ! length (it_paths s) = start" using old(1) s(2,3) by (simp add: last_conv_nth)
    ultimately show ?thesis using old(1) new(1) paths(3) by (simp add: nth_append section_core_def)
  qed
  ultimately have "drivable g (pre @ [goal]) (it_paths ?e)"
    using old(1,4) new(2) paths by (auto simp: drivable_def steps_of_def)
  moreover have "link_ok g goal (?sts @ ?ts) (it_arrival ?e)" by (rule link_extends [OF proper old(5) new(1,3) b])
  ultimately show ?thesis using s(1) paths by (simp add: reached_ok_def steps_of_def)
qed

lemma keep_itinerary_mem:
  "x \<in> set (map snd (fold keep_itinerary found m)) \<Longrightarrow> x \<in> set (map snd m) \<or> x \<in> set found"
proof (induction found arbitrary: m)
  case (Cons s ss)
  have "y \<in> set (map snd (keep_itinerary s m)) \<Longrightarrow> y \<in> set (map snd m) \<or> y = s" for y
    by (auto simp: keep_itinerary_def Let_def dest: mem_update split: option.splits if_splits)
  with Cons show ?case by fastforce
qed simp

lemma extensions_ok:
  assumes g: "sound_graph g" and proper: "proper_point start" "proper_point goal" and pre: "pre \<noteq> []" "last pre = start"
    and states: "\<forall>s \<in> set states. reached_ok g pre s"
  shows "\<exists>found. section_extensions sh num g start goal states = Some found \<and> (\<forall>s \<in> set found. reached_ok g (pre @ [goal]) s)"
proof -
  let ?f = "\<lambda>s. map_option (map (\<lambda>ca. extend_itinerary sh g start goal (s, ca)))
    (routeCandidatesBetweenProjections sh num start goal g (options_at (it_arrival s)))"
  have some: "?f s \<noteq> None" for s using candidates_total [OF g, of sh num start goal "options_at (it_arrival s)"] by auto
  have "reached_ok g (pre @ [goal]) x" if s: "s \<in> set states" and x: "x \<in> set (the (?f s))" for s x
  proof -
    obtain cs where cs: "routeCandidatesBetweenProjections sh num start goal g (options_at (it_arrival s)) = Some cs"
      using candidates_total [OF g] by blast
    with x obtain c b where x': "x = extend_itinerary sh g start goal (s, c, b)" "(c, b) \<in> set cs" by auto
    have "fitting_section g start goal (it_arrival s) (rc_steps c)" "b = resultingIncomingState (rc_steps c) (options_at (it_arrival s))"
      using candidates_ok [OF g proper cs x'(2)] by simp_all
    moreover have "reached_ok g pre s" using states s by blast
    ultimately show ?thesis unfolding x'(1) using extended_ok [OF g proper _ pre] by blast
  qed
  then show ?thesis unfolding section_extensions_def using those_map [of states ?f, OF some] by auto
qed

lemma sections_ok:
  assumes "sound_graph g" and "\<forall>p \<in> set points. proper_point p" and "points \<noteq> []" and "pre \<noteq> []" "last pre = hd points"
    and "\<forall>s \<in> set states. reached_ok g pre s" and "states \<noteq> []"
  shows "\<exists>r. route_sections sh num g i points states = Some r
    \<and> (\<forall>ss. r = Inr ss \<longrightarrow> ss \<noteq> [] \<and> (\<forall>s \<in> set ss. reached_ok g (pre @ tl points) s))"
  using assms(2-)
proof (induction points arbitrary: i pre states rule: induct_list012)
  case (3 start goal rest)
  let ?next = "\<lambda>found. map snd (fold keep_itinerary found [])"
  obtain found where found: "section_extensions sh num g start goal states = Some found" "\<forall>s \<in> set found. reached_ok g (pre @ [goal]) s"
    using extensions_ok [OF assms(1), of start goal pre states sh num] 3 by auto
  show ?case
  proof (cases "?next found = []")
    case True
    obtain fs where "routeItineraryFailures sh num start goal g (map it_arrival states) = Some fs" using failures_total [OF assms(1)] by blast
    moreover obtain f where "classifyRouteFailure sh num start goal g no_options = Some f" using classify_total [OF assms(1)] by blast
    ultimately show ?thesis using found(1) True by (cases fs) (simp_all add: Let_def)
  next
    case False
    have "\<forall>s \<in> set (?next found). reached_ok g (pre @ [goal]) s" using found(2) keep_itinerary_mem [of _ found "[]"] by fastforce
    then obtain r where "route_sections sh num g (i + 1) (goal # rest) (?next found) = Some r"
        "\<forall>ss. r = Inr ss \<longrightarrow> ss \<noteq> [] \<and> (\<forall>s \<in> set ss. reached_ok g ((pre @ [goal]) @ rest) s)"
      using "3.IH"(2) [of "pre @ [goal]" "?next found" "i + 1"] "3.prems"(1) False by auto
    then show ?thesis using found(1) False by (simp add: Let_def)
  qed
qed auto

interpretation itineraries: comparator_laws itinerary_order
  unfolding itinerary_order_def
  by (intro comparator_laws_or cmp_real_laws [of it_cost] comparator_laws_pull [OF text_order.comparator_laws_axioms, of it_signature])

section \<open>Properties\<close>

text \<open>
  C1. On the graph of a road network without repeated edge ids, the staged itinerary through points that are not within
  the tolerance of the end of a road always returns. When it gives paths, they can be driven: one section between any
  two points, from the one to the other, every step a move of the graph in lanes that allow its direction, and every
  step following the one before through an allowed turn or on along the same edge, across the waypoints too. The cost
  is the sum of the costs of the sections.
\<close>

theorem itineraries_drivable:
  assumes "distinct (map edge_id (d_edges doc))" and "\<forall>p \<in> set points. proper_point p"
  shows "\<exists>r. routeOrderedProjections sh num (buildDirectedRoadGraph doc) points = Some r
    \<and> (\<forall>cost paths. r = Inr (cost, paths) \<longrightarrow> drivable (buildDirectedRoadGraph doc) points paths \<and> cost = sum_list (map sp_cost paths))"
proof -
  let ?g = "buildDirectedRoadGraph doc"
  note g = built_sound [OF assms(1)]
  consider "length points < 2" | "\<not> length points < 2" "g_laneIssues ?g \<noteq> [] \<or> g_turnRuleIssues ?g \<noteq> []"
    | "\<not> length points < 2" "\<not> (g_laneIssues ?g \<noteq> [] \<or> g_turnRuleIssues ?g \<noteq> [])" by blast
  then show ?thesis
  proof cases
    case 1
    then show ?thesis by (simp add: routeOrderedProjections_def)
  next
    case 2
    then show ?thesis by (auto simp: routeOrderedProjections_def routeBetweenProjections_def)
  next
    case 3
    then have points: "points \<noteq> []" by auto
    have "reached_ok ?g [hd points] no_itinerary"
      by (simp add: reached_ok_def no_itinerary_def drivable_def link_ok_def steps_of_def)
    then obtain r where r: "route_sections sh num ?g 0 points [no_itinerary] = Some r"
        "\<forall>ss. r = Inr ss \<longrightarrow> ss \<noteq> [] \<and> (\<forall>s \<in> set ss. reached_ok ?g points s)"
      using sections_ok [OF g assms(2) points, of "[hd points]" "[no_itinerary]" sh num 0] points by auto
    show ?thesis
    proof (cases r)
      case (Inl f)
      then show ?thesis using r(1) 3 by (simp add: routeOrderedProjections_def)
    next
      case (Inr ss)
      let ?best = "hd (sort_by itinerary_order ss)"
      have "?best \<in> set ss" using r(2) Inr by (metis hd_in_set length_0_conv length_sort_by set_sort_by)
      then have "reached_ok ?g points ?best" using r(2) Inr by blast
      then show ?thesis using r(1) 3 Inr by (simp add: routeOrderedProjections_def Let_def reached_ok_def)
    qed
  qed
qed

text \<open>Two points on a single road, the second further on.\<close>

definition on_road :: "real \<Rightarrow> projection" where
  "on_road t = OnRoad \<lparr>rp_edge = ''r'', rp_t = t, rp_lane = Some 0, rp_fixed = False, rp_rightOffset = 0,
    rp_centerline = \<lparr>px = 100 * t, py = 0, pz = 0\<rparr>, rp_point = \<lparr>px = 100 * t, py = 0, pz = 0\<rparr>, rp_distance = 0, rp_halfWidth = 7 / 2\<rparr>"

lemma update_nonempty [simp]: "AList.update k v m \<noteq> []"
  by (cases m) auto

lemma keep_nonempty [simp]: "keep_best opts c m \<noteq> []" "keep_itinerary s k \<noteq> []"
  by (auto simp: keep_best_def keep_itinerary_def Let_def split: option.splits if_splits)

lemma keep_all_nonempty [simp]:
  "m \<noteq> [] \<Longrightarrow> fold (keep_best opts) cs m \<noteq> []" "k \<noteq> [] \<Longrightarrow> fold keep_itinerary ss k \<noteq> []"
proof -
  show "m \<noteq> [] \<Longrightarrow> fold (keep_best opts) cs m \<noteq> []" by (induction cs arbitrary: m) auto
  show "k \<noteq> [] \<Longrightarrow> fold keep_itinerary ss k \<noteq> []" by (induction ss arbitrary: k) auto
qed

lemma sort_by_nonempty [simp]: "sort_by cmp xs = [] \<longleftrightarrow> xs = []"
  by (metis length_0_conv length_sort_by)

lemma direct_routes:
  assumes "sound_graph g" and "g_laneIssues g = []" "g_turnRuleIssues g = []" and "directCandidate start goal g (options_at (it_arrival no_itinerary)) \<noteq> None"
  shows "\<exists>x. routeOrderedProjections sh num g [start, goal] = Some (Inr x)"
proof -
  obtain cs where cs: "routeCandidatesBetweenProjections sh num start goal g (options_at (it_arrival no_itinerary)) = Some cs"
    using candidates_total [OF assms(1)] by blast
  moreover have "cs \<noteq> []"
    using cs assms(4) by (auto simp: routeCandidatesBetweenProjections_def Let_def)
  ultimately obtain found where "section_extensions sh num g start goal [no_itinerary] = Some found" "found \<noteq> []"
    by (auto simp: section_extensions_def)
  then show ?thesis using assms(2,3) by (cases found) (auto simp: routeOrderedProjections_def Let_def)
qed

lemma plain_lanes: "legalLaneIndices (plain_road i a b) 1 = [0]" "legalLaneIndices (plain_road i a b) (-1) = [1]"
  by (simp_all add: legalLaneIndices_def laneDirections_def plain_road_def roadLaneCount_def legacyLaneCount_def finite_field_def number_of_def
    DEFAULT_LANE_COUNT_def js_round_def roadIsBidirectional_def clamp_index_def upt_rec numeral_eq_Suc)

lemma straight_moves:
  "transitions_of (buildDirectedRoadGraph straight_doc) ''a''
    = [\<lparr>tr_edge = ''r'', tr_from = ''a'', tr_to = ''b'', tr_direction = 1, tr_cost = 100\<rparr>]"
  "g_laneIssues (buildDirectedRoadGraph straight_doc) = []" "g_turnRuleIssues (buildDirectedRoadGraph straight_doc) = []"
proof -
  let ?e = "plain_road ''r'' ''a'' ''b''" and ?a = "\<lparr>px = 0, py = 0, pz = 0\<rparr>" and ?b = "\<lparr>px = 100, py = 0, pz = 0\<rparr>"
  have nodes: "graph_nodes (d_nodes straight_doc) = [(''a'', ?a), (''b'', ?b)]" by (simp add: straight_doc_def graph_nodes_def)
  have valid: "validateRoadLaneLayout ?e None = []"
    by (simp add: validateRoadLaneLayout_def plain_road_def number_of_def Let_def is_integer_def roadIsBidirectional_def finite_field_def
      DEFAULT_LANE_COUNT_def roadWidth_def DEFAULT_ROAD_WIDTH_def EPSILON_def)
  have len: "distanceXZ ?a ?b = 100" by (simp add: distanceXZ_def)
  have id: "edge_id ?e = ''r''" by (simp add: plain_road_def)
  show "transitions_of (buildDirectedRoadGraph straight_doc) ''a''
      = [\<lparr>tr_edge = ''r'', tr_from = ''a'', tr_to = ''b'', tr_direction = 1, tr_cost = 100\<rparr>]"
    "g_laneIssues (buildDirectedRoadGraph straight_doc) = []" "g_turnRuleIssues (buildDirectedRoadGraph straight_doc) = []"
    unfolding buildDirectedRoadGraph_def Let_def nodes
    by (simp_all add: straight_doc_def addEdge_def id plain_ends plain_lanes valid len count_end_def addTransition_def transitions_of_def degree_of_def Let_def)
qed

theorem itineraries_drivable_witness:
  "\<exists>cost paths. routeOrderedProjections plain_shape (\<lambda>_. []) (buildDirectedRoadGraph straight_doc) [on_road (1 / 4), on_road (3 / 4)]
      = Some (Inr (cost, paths))
    \<and> drivable (buildDirectedRoadGraph straight_doc) [on_road (1 / 4), on_road (3 / 4)] paths"
proof -
  let ?g = "buildDirectedRoadGraph straight_doc" and ?points = "[on_road (1 / 4), on_road (3 / 4)]"
  have ids: "distinct (map edge_id (d_edges straight_doc))" by (simp add: straight_doc_def)
  have proper: "\<forall>p \<in> set ?points. proper_point p" by (simp add: proper_point_def on_road_def EPSILON_def)
  let ?t = "\<lparr>tr_edge = ''r'', tr_from = ''a'', tr_to = ''b'', tr_direction = 1, tr_cost = 100\<rparr>"
  have "?t \<in> set (edgeTransitions ?g ''r'')"
    using edgeTransitions_moves [OF built_sound [OF ids], of ?t "''r''"] by (simp add: move_in_def straight_moves)
  moreover have "direct_with (on_road (1 / 4)) (on_road (3 / 4)) (options_at (it_arrival no_itinerary)) (plain_road ''r'' ''a'' ''b'') 100 ?t \<noteq> None"
    by (simp add: direct_with_def on_road_def projectionAllowsDirection_def fixedLaneIndex_def turns_back_def no_itinerary_def plain_ends EPSILON_def
      Let_def)
  ultimately have mem: "\<exists>c. c \<in> set (List.map_filter (direct_with (on_road (1 / 4)) (on_road (3 / 4)) (options_at (it_arrival no_itinerary))
      (plain_road ''r'' ''a'' ''b'') 100) (edgeTransitions ?g ''r''))"
    unfolding mem_map_filter by blast
  then have "List.map_filter (direct_with (on_road (1 / 4)) (on_road (3 / 4)) (options_at (it_arrival no_itinerary)) (plain_road ''r'' ''a'' ''b'') 100)
      (edgeTransitions ?g ''r'') \<noteq> []" by (metis empty_iff empty_set)
  then have "directCandidate (on_road (1 / 4)) (on_road (3 / 4)) ?g (options_at (it_arrival no_itinerary)) \<noteq> None"
    by (simp add: directCandidate_def on_road_def straight_tables plain_road_def split: list.splits)
  from direct_routes [OF built_sound [OF ids] straight_moves(2,3) this, of plain_shape "\<lambda>_. []"] obtain x where
    "routeOrderedProjections plain_shape (\<lambda>_. []) ?g ?points = Some (Inr x)" by blast
  then show ?thesis using itineraries_drivable [OF ids proper, of plain_shape "\<lambda>_. []"] by (cases x) auto
qed

end
