(* ===== verification/RouteFailures.thy ===== *)
theory RouteFailures
  imports Itineraries
begin

text \<open>
  How \<open>classifyRouteFailure\<close> of \<open>app/scenarios/route/roadGraph.js\<close> names a failure. A route against the traffic is told
  from one between places that are not connected by a second search, on the graph with every road both ways
  (\<open>buildBidirectionalShadowGraph\<close>). That graph keeps the lane records of a road, so a road that is one-way by them stays so.
\<close>

section \<open>Going back along a road with one move\<close>

lemma no_way_back:
  assumes g: "sound_graph g" and e: "map_of (g_edges g) i = Some (e, len)" and t: "edgeTransitions g i = [t]" "tr_from t = startNodeId e"
    and dead: "transitions_of g (tr_to t) = []"
    and start: "start = OnRoad r" "rp_edge r = i" and goal: "goal = OnRoad q" "rp_edge q = i" and behind: "rp_t q < rp_t r - EPSILON"
  shows "routeCandidatesBetweenProjections sh num start goal g opts = Some []"
proof -
  have id: "edge_id e = i" using g e unfolding sound_graph_def by blast
  have mv: "move_in g t" "tr_edge t = i" using edgeTransitions_moves [OF g, of t i] t(1) by auto
  have "tr_to t \<noteq> tr_from t" using mv g unfolding move_in_def sound_graph_def routable_def by blast
  have direct: "directCandidate start goal g opts = None"
    using behind t by (auto simp: directCandidate_def start goal e id direct_with_def Let_def map_filter_simps)
  have frm: "ec_node c = tr_to t" if "c \<in> set (startCandidates start g opts)" for c
    using that t by (auto simp: startCandidates_def start e id start_at_def Let_def split: if_splits)
  have to: "ec_node c = tr_from t" if "c \<in> set (goalCandidates goal g)" for c
    using that t by (auto simp: goalCandidates_def goal e id goal_at_def Let_def split: if_splits)
  have none: "routed_candidate sh num g start goal opts (c, d, arr) = Some None"
    if "ec_node c = tr_to t" "ec_node d = tr_from t" for c d arr
  proof -
    let ?o = "\<lparr>incomingEdgeId = (case ec_step c of Some st \<Rightarrow> Some (tr_edge (st_move st)) | None \<Rightarrow> ro_edge opts),
      outgoingEdgeId = map_option (\<lambda>st. tr_edge (st_move st)) (ec_step d), goalIncomingEdgeId = arr, ignoreTurnRules = ro_ignore opts\<rparr>"
    obtain r where r: "deterministicDirectedAStar g (tr_to t) (tr_from t) ?o = Some r"
      "\<forall>ns es ts c. r = Route ns es ts c \<longrightarrow> legal_route g (tr_from t) ?o (tr_to t, truthy (incomingEdgeId ?o)) ts"
      using search_returns [OF g] by blast
    have "\<not> legal_route g (tr_from t) ?o (tr_to t, truthy (incomingEdgeId ?o)) ts" for ts
      using dead \<open>tr_to t \<noteq> tr_from t\<close> by (cases ts) (auto simp: legal_route_def accepts_def step_allowed_def)
    then show ?thesis using r that by (cases r) (auto simp: routed_candidate_def)
  qed
  let ?ways = "List.product (filter (may_begin opts) (startCandidates start g opts)) (List.product (goalCandidates goal g) (goalArrivalEdgeIds goal g))"
  have "routed_candidate sh num g start goal opts w = Some None" if "w \<in> set ?ways" for w
  proof -
    obtain c d arr where "w = (c, d, arr)" by (cases w)
    with that show ?thesis using none frm to by auto
  qed
  then have "map (the \<circ> routed_candidate sh num g start goal opts) ?ways = map (\<lambda>_. None) ?ways" by auto
  moreover have "List.map_filter (\<lambda>x. x) (map (\<lambda>_. None) ws) = ([] :: route_candidate list)" for ws :: "'c list"
    by (induction ws) (auto simp: map_filter_simps)
  ultimately have "List.map_filter (\<lambda>x. x) (map (the \<circ> routed_candidate sh num g start goal opts) ?ways) = []" by metis
  moreover have "stay_candidate g opts start goal = []" by (simp add: stay_candidate_def start)
  ultimately show ?thesis
    unfolding routeCandidatesBetweenProjections_def Let_def those_map [OF routed_candidate_total [OF g]] direct by simp
qed

section \<open>A road that is one-way by its lanes\<close>

definition forward_lane :: "string \<Rightarrow> real \<Rightarrow> road_lane" where
  "forward_lane i w = \<lparr>lane_id = Some i, lane_direction = Num (Some 1), lane_width = Num (Some w), markingLeft = None\<rparr>"

definition one_way_road :: "road_lane list option \<Rightarrow> road_edge" where
  "one_way_road ls = \<lparr>edge_id = ''r'', startNodeId = ''a'', endNodeId = ''b'', edge_width = Num (Some 7), laneCount = Num (Some 2),
    bidirectional = Some False, oneWay = Some True, edge_direction = DirNumber 1, oneWayDirection = DirNone, road_lanes = ls\<rparr>"

definition uneven_lanes :: "road_lane list option" where
  "uneven_lanes = Some [forward_lane ''lane-0'' 3, forward_lane ''lane-1'' 4]"

lemma one_way_lanes:
  "validateRoadLaneLayout (one_way_road uneven_lanes) None = []" "validateRoadLaneLayout (one_way_road None) None = []"
  by (simp_all add: validateRoadLaneLayout_def validateExplicitLanes_def one_way_road_def uneven_lanes_def forward_lane_def one_lane_issues_def
    direction_ok_def LANE_DIRECTIONS_def EPSILON_def id_text_def Let_def cloneRoadLanes_def cloneRoadLane_def sense_forward_def sense_backward_def
    roadIsBidirectional_def roadIsReversed_def roadWidth_def sumLaneWidths_def WIDTH_SUM_TOLERANCE_def is_integer_def js_round_def)

text \<open>The graph of a single road between two places.\<close>

definition one_road :: "road_edge \<Rightarrow> road_doc" where
  "one_road e = \<lparr>d_nodes = [(''a'', Some \<lparr>px = 0, py = 0, pz = 0\<rparr>), (''b'', Some \<lparr>px = 100, py = 0, pz = 0\<rparr>)], d_edges = [e], d_turnRules = []\<rparr>"

definition along :: transition where
  "along = \<lparr>tr_edge = ''r'', tr_from = ''a'', tr_to = ''b'', tr_direction = 1, tr_cost = 100\<rparr>"

definition against :: transition where
  "against = \<lparr>tr_edge = ''r'', tr_from = ''b'', tr_to = ''a'', tr_direction = -1, tr_cost = 100\<rparr>"

lemma one_road_graph:
  assumes "edge_id e = ''r''" "startNodeId e = ''a''" "endNodeId e = ''b''"
  defines "g \<equiv> buildDirectedRoadGraph (one_road e)"
  shows "g_nodes g = [(''a'', \<lparr>px = 0, py = 0, pz = 0\<rparr>), (''b'', \<lparr>px = 100, py = 0, pz = 0\<rparr>)]" "g_edges g = [(''r'', e, 100)]"
    "g_laneIssues g = (if validateRoadLaneLayout e None = [] then [] else [(''r'', validateRoadLaneLayout e None)])" "g_turnRuleIssues g = []"
    "sound_graph g"
    "g_adjacency g = [(''a'', if legalLaneIndices e 1 \<noteq> [] then [along] else []), (''b'', if legalLaneIndices e (-1) \<noteq> [] then [against] else [])]"
proof -
  have len: "distanceXZ \<lparr>px = 0, py = 0, pz = 0\<rparr> \<lparr>px = 100, py = 0, pz = 0\<rparr> = 100" by (simp add: distanceXZ_def)
  have nodes: "graph_nodes (d_nodes (one_road e)) = [(''a'', \<lparr>px = 0, py = 0, pz = 0\<rparr>), (''b'', \<lparr>px = 100, py = 0, pz = 0\<rparr>)]"
    by (simp add: one_road_def graph_nodes_def)
  note build = buildDirectedRoadGraph_def Let_def nodes
  note run = one_road_def addEdge_def assms(1-3) len count_end_def addTransition_def transitions_of_def degree_of_def Let_def
  show "g_nodes g = [(''a'', \<lparr>px = 0, py = 0, pz = 0\<rparr>), (''b'', \<lparr>px = 100, py = 0, pz = 0\<rparr>)]" "g_edges g = [(''r'', e, 100)]"
    "g_laneIssues g = (if validateRoadLaneLayout e None = [] then [] else [(''r'', validateRoadLaneLayout e None)])" "g_turnRuleIssues g = []"
    "g_adjacency g = [(''a'', if legalLaneIndices e 1 \<noteq> [] then [along] else []), (''b'', if legalLaneIndices e (-1) \<noteq> [] then [against] else [])]"
    unfolding g_def build by (simp_all add: run along_def against_def)
  show "sound_graph g" unfolding g_def by (rule built_sound) (simp add: one_road_def)
qed

text \<open>The road as the shadow graph has it.\<close>

definition shadow_road :: "road_edge \<Rightarrow> road_edge" where
  "shadow_road e = e\<lparr>bidirectional := Some True, oneWay := Some False, edge_direction := DirNumber 1, oneWayDirection := DirNumber 1\<rparr>"

lemma shadow_of_one_road:
  assumes "edge_id e = ''r''" "startNodeId e = ''a''" "endNodeId e = ''b''"
  shows "buildBidirectionalShadowGraph (buildDirectedRoadGraph (one_road e)) = buildDirectedRoadGraph (one_road (shadow_road e))"
  unfolding buildBidirectionalShadowGraph_def one_road_graph [OF assms] by (simp add: one_road_def shadow_road_def)

lemma one_way_ends [simp]:
  "edge_id (one_way_road ls) = ''r''" "startNodeId (one_way_road ls) = ''a''" "endNodeId (one_way_road ls) = ''b''"
  "edge_id (shadow_road e) = edge_id e" "startNodeId (shadow_road e) = startNodeId e" "endNodeId (shadow_road e) = endNodeId e"
  by (simp_all add: one_way_road_def shadow_road_def)

lemma implicit_legal:
  "legalLaneIndices (one_way_road None) (-1) = []" "legalLaneIndices (one_way_road None) 1 = [0, 1]"
  "legalLaneIndices (shadow_road (one_way_road None)) (-1) = [1]"
  by (simp_all add: legalLaneIndices_def laneDirections_def one_way_road_def shadow_road_def roadLaneCount_def legacyLaneCount_def finite_field_def
    number_of_def js_round_def roadIsBidirectional_def roadIsReversed_def clamp_index_def upt_rec numeral_eq_Suc)

lemma explicit_count: "roadLaneCount (one_way_road uneven_lanes) = 2" "roadLaneCount (shadow_road (one_way_road uneven_lanes)) = 2"
  by (simp_all add: roadLaneCount_def one_way_road_def uneven_lanes_def shadow_road_def)

lemma explicit_directions:
  "laneDirections (one_way_road uneven_lanes) i = [1]" "laneDirections (shadow_road (one_way_road uneven_lanes)) i = [1]"
  unfolding laneDirections_def explicit_count
  by (auto simp: one_way_road_def uneven_lanes_def shadow_road_def forward_lane_def number_of_def Let_def nth_Cons')

lemma explicit_legal:
  "legalLaneIndices (one_way_road uneven_lanes) (-1) = []" "legalLaneIndices (one_way_road uneven_lanes) 1 \<noteq> []"
  "legalLaneIndices (shadow_road (one_way_road uneven_lanes)) (-1) = []" "legalLaneIndices (shadow_road (one_way_road uneven_lanes)) 1 \<noteq> []"
  by (simp_all add: legalLaneIndices_def explicit_directions explicit_count upt_rec)

lemma one_road_moves:
  assumes "edge_id e = ''r''" "startNodeId e = ''a''" "endNodeId e = ''b''" and "legalLaneIndices e (-1) = []" "legalLaneIndices e 1 \<noteq> []"
  shows "edgeTransitions (buildDirectedRoadGraph (one_road e)) ''r'' = [along]" "transitions_of (buildDirectedRoadGraph (one_road e)) ''b'' = []"
  using assms(4,5) by (simp_all add: edgeTransitions_def transitions_of_def one_road_graph(6) [OF assms(1-3)] along_def)

lemma on_road_parts: "on_road t = OnRoad (case on_road t of OnRoad r \<Rightarrow> r)" "rp_edge (case on_road t of OnRoad r \<Rightarrow> r) = ''r''"
  "rp_t (case on_road t of OnRoad r \<Rightarrow> r) = t" "\<not> lane_fixed (on_road t)"
  by (simp_all add: on_road_def lane_fixed_def)

lemma one_way_none:
  assumes "edge_id e = ''r''" "startNodeId e = ''a''" "endNodeId e = ''b''" and "legalLaneIndices e (-1) = []" "legalLaneIndices e 1 \<noteq> []"
  shows "routeCandidatesBetweenProjections sh num (on_road (3 / 4)) (on_road (1 / 4)) (buildDirectedRoadGraph (one_road e)) opts = Some []"
proof (rule no_way_back [where i = "''r''" and e = e and len = 100 and t = along])
  show "sound_graph (buildDirectedRoadGraph (one_road e))" "map_of (g_edges (buildDirectedRoadGraph (one_road e))) ''r'' = Some (e, 100)"
    by (simp_all add: one_road_graph(2,5) [OF assms(1-3)])
  show "edgeTransitions (buildDirectedRoadGraph (one_road e)) ''r'' = [along]" "transitions_of (buildDirectedRoadGraph (one_road e)) (tr_to along) = []"
    using one_road_moves [OF assms] by (simp_all add: along_def)
  show "tr_from along = startNodeId e" by (simp add: along_def assms)
  show "rp_t (case on_road (1 / 4) of OnRoad r \<Rightarrow> r) < rp_t (case on_road (3 / 4) of OnRoad r \<Rightarrow> r) - EPSILON"
    by (simp add: on_road_def EPSILON_def)
qed (use on_road_parts in blast)+

lemma direct_candidates:
  assumes "sound_graph g" and "directCandidate start goal g opts \<noteq> None"
  shows "routeBetweenProjectionsExists sh num start goal g opts = Some True"
proof -
  obtain cs where cs: "routeCandidatesBetweenProjections sh num start goal g opts = Some cs" using candidates_total [OF assms(1)] by blast
  moreover have "cs \<noteq> []" using cs assms(2) by (auto simp: routeCandidatesBetweenProjections_def Let_def)
  ultimately show ?thesis by (simp add: routeBetweenProjectionsExists_def)
qed

lemma implicit_shadow_direct:
  "directCandidate (on_road (3 / 4)) (on_road (1 / 4)) (buildDirectedRoadGraph (one_road (shadow_road (one_way_road None)))) (no_options\<lparr>ro_ignore := True\<rparr>)
    \<noteq> None"
proof -
  let ?e = "shadow_road (one_way_road None)" and ?opts = "no_options\<lparr>ro_ignore := True\<rparr>"
  let ?g = "buildDirectedRoadGraph (one_road ?e)" and ?d = "direct_with (on_road (3 / 4)) (on_road (1 / 4)) ?opts ?e 100"
  have "against \<in> set (edgeTransitions ?g ''r'')"
    by (simp add: edgeTransitions_def one_road_graph(6) implicit_legal) (simp add: against_def)
  moreover have "?d against \<noteq> None"
    by (simp add: direct_with_def on_road_def against_def projectionAllowsDirection_def fixedLaneIndex_def turns_back_def no_options_def EPSILON_def Let_def)
  ultimately have "\<exists>c. c \<in> set (List.map_filter ?d (edgeTransitions ?g ''r''))" unfolding mem_map_filter by blast
  then have "List.map_filter ?d (edgeTransitions ?g ''r'') \<noteq> []" by (metis empty_iff empty_set)
  then show ?thesis
    unfolding directCandidate_def by (simp add: on_road_parts(1) [symmetric] one_road_graph(2) split: list.splits) (simp add: on_road_def)
qed


end
