(* ===== verification/SignalStore.thy ===== *)
theory SignalStore
  imports TopicQueue
begin

text \<open>
  \<open>app/scripting/runtime/SignalStore.js\<close>: the signals that scripts and the simulation read and write, with their
  descriptors, revisions, bounded histories, telemetry events and nested transactions. Clocks are arguments: the
  monotonic time and the text of the present moment. The conversion of texts and structures to numbers is the parameter
  \<open>num\<close>. Listeners, copies of values and the metadata of descriptors are left out.
\<close>

section \<open>Entries and descriptors\<close>

record signal_entry =
  en_value :: js_value
  en_type :: string
  en_updatedAt :: string
  en_source :: string
  en_timeUs :: "int option"
  en_cycle :: "int option"
  en_staleAfter :: "rat option"

record descriptor =
  sd_path :: string
  sd_type :: string
  sd_unit :: "string option"
  sd_source :: string
  sd_category :: string
  sd_replayRole :: string
  sd_logClass :: string
  sd_retention :: string
  sd_description :: "string option"

record signal_options =
  o_type :: "string option"
  o_unit :: "string option"
  o_source :: "string option"
  o_category :: "string option"
  o_replayRole :: "string option"
  o_logClass :: "string option"
  o_retention :: "string option"
  o_description :: "string option"
  o_historyOff :: bool
  o_timeUs :: "rat option"
  o_cycle :: "rat option"
  o_staleAfter :: "rat option"
  o_maxSamples :: "nat option"
  o_updatedAt :: "string option"

record ring =
  ring_items :: "signal_entry list"
  ring_head :: nat

record telemetry_event =
  ev_number :: nat
  ev_timeUs :: int
  ev_category :: string
  ev_name :: string
  ev_severity :: string
  ev_payload :: js_value

record signal_store =
  historyDurationUs :: int
  historySampleLimit :: nat
  eventLimit :: nat
  committed :: "(string, signal_entry) js_map"
  previous :: "(string, signal_entry) js_map"
  layers :: "(string, signal_entry) js_map list"
  rings :: "(string, ring) js_map"
  revisions :: "(string, nat) js_map"
  descriptors :: "(string, descriptor) js_map"
  events :: "telemetry_event list"
  eventIndexOffset :: nat
  st_sequence :: nat

datatype store_error = NotTopTransaction | PathRequired

definition is_space :: "char \<Rightarrow> bool" where
  "is_space c \<longleftrightarrow> of_char c \<in> {9, 10, 11, 12, 13, 32, 160 :: nat}"

definition normalizeSignalPath :: "string \<Rightarrow> string" where
  "normalizeSignalPath p = rev (dropWhile is_space (rev (dropWhile is_space p)))"

definition or_else :: "'a option \<Rightarrow> 'a option \<Rightarrow> 'a option" where
  "or_else a b = (case a of None \<Rightarrow> b | Some _ \<Rightarrow> a)"

text \<open>\<open>a || b\<close> on text: the empty text counts as missing.\<close>

definition or_text :: "string option \<Rightarrow> string \<Rightarrow> string" where
  "or_text a b = (case a of None \<Rightarrow> b | Some s \<Rightarrow> if s = [] then b else s)"

definition inferSignalType :: "js_value \<Rightarrow> string" where
  "inferSignalType v =
    (case v of
       JNumber x \<Rightarrow> if of_int \<lfloor>x\<rfloor> = x then ''int32'' else ''float64''
     | JNaN \<Rightarrow> ''float64''
     | JBool _ \<Rightarrow> ''boolean''
     | JString _ \<Rightarrow> ''string''
     | JArray _ \<Rightarrow> ''array[json]''
     | _ \<Rightarrow> ''json'')"

definition js_round_rat :: "rat \<Rightarrow> int" where
  "js_round_rat x = \<lfloor>x + 1 / 2\<rfloor>"

definition clip_round :: "rat option \<Rightarrow> int option" where
  "clip_round v = map_option (\<lambda>x. max 0 (js_round_rat x)) v"

definition normalizeStaleAfter :: "rat option \<Rightarrow> rat option" where
  "normalizeStaleAfter v = (case v of None \<Rightarrow> None | Some x \<Rightarrow> if x \<ge> 0 then Some x else None)"

definition to_number :: "(js_value \<Rightarrow> rat option) \<Rightarrow> js_value \<Rightarrow> rat option" where
  "to_number num v =
    (case v of JNumber x \<Rightarrow> Some x | JBool b \<Rightarrow> Some (if b then 1 else 0) | JNull \<Rightarrow> None | JUndefined \<Rightarrow> None | JNaN \<Rightarrow> None
     | JString s \<Rightarrow> if s = [] then None else num v | _ \<Rightarrow> num v)"

text \<open>\<open>Number(v)\<close>, where null and the empty text are zero.\<close>

definition js_Number :: "(js_value \<Rightarrow> rat option) \<Rightarrow> js_value \<Rightarrow> rat option" where
  "js_Number num v = (if v = JNull \<or> v = JString [] then Some 0 else to_number num v)"

definition heavy_value :: "(js_value \<Rightarrow> rat option) \<Rightarrow> js_value \<Rightarrow> bool" where
  "heavy_value num v = isHeavyValue (\<lambda>x. num x \<noteq> None) v"

text \<open>A path whose last segment is \<open>health\<close>, \<open>summary\<close> or \<open>status\<close>, in any case.\<close>

definition lower :: "char \<Rightarrow> char" where
  "lower c = (let n = of_char c :: nat in if 65 \<le> n \<and> n \<le> 90 then char_of (n + 32) else c)"

definition status_path :: "string \<Rightarrow> bool" where
  "status_path p \<longleftrightarrow> map lower (rev (takeWhile (\<lambda>c. c \<noteq> CHR ''.'') (rev p))) \<in> {''health'', ''summary'', ''status''}"

definition RETENTION_POLICIES :: "string list" where
  "RETENTION_POLICIES = [''none'', ''latest'', ''window'']"

text \<open>The descriptor part is what is known of it: retention, log class, category and path.\<close>

definition resolveRetentionPolicy ::
  "string option \<Rightarrow> string option \<Rightarrow> string option \<Rightarrow> string \<Rightarrow> string option \<Rightarrow> bool \<Rightarrow> string option \<Rightarrow> string" where
  "resolveRetentionPolicy d_retention d_logClass d_category d_path retention historyOff logClass =
    (case or_else retention d_retention of
       Some r \<Rightarrow> if r \<in> set RETENTION_POLICIES then r
         else if historyOff then ''none''
         else if d_logClass = Some ''heavy'' \<or> logClass = Some ''heavy'' then ''latest''
         else if d_category = Some ''diagnostics'' \<or> d_category = Some ''health'' \<or> status_path d_path then ''none''
         else ''window''
     | None \<Rightarrow>
         if historyOff then ''none''
         else if d_logClass = Some ''heavy'' \<or> logClass = Some ''heavy'' then ''latest''
         else if d_category = Some ''diagnostics'' \<or> d_category = Some ''health'' \<or> status_path d_path then ''none''
         else ''window'')"

definition policy_of :: "descriptor option \<Rightarrow> string option \<Rightarrow> bool \<Rightarrow> string option \<Rightarrow> string" where
  "policy_of d retention historyOff logClass =
    (case d of
       None \<Rightarrow> resolveRetentionPolicy None None None [] retention historyOff logClass
     | Some x \<Rightarrow> resolveRetentionPolicy (Some (sd_retention x)) (Some (sd_logClass x)) (Some (sd_category x)) (sd_path x)
         retention historyOff logClass)"

section \<open>Clocks and events\<close>

definition getSimulationTimeUs :: "(js_value \<Rightarrow> rat option) \<Rightarrow> signal_store \<Rightarrow> int option" where
  "getSimulationTimeUs num s =
    (let field = \<lambda>p. Option.bind (map_of (committed s) p) (\<lambda>e. to_number num (en_value e)) in
     case field ''simulation.timeNs'' of
       Some ns \<Rightarrow> Some (max 0 (js_round_rat (ns / 1000)))
     | None \<Rightarrow> map_option (\<lambda>sec. max 0 (js_round_rat (sec * 10 ^ 6))) (field ''simulation.time''))"

definition getTimeUs :: "(js_value \<Rightarrow> rat option) \<Rightarrow> int \<Rightarrow> signal_store \<Rightarrow> int" where
  "getTimeUs num now s = (case getSimulationTimeUs num s of Some t \<Rightarrow> t | None \<Rightarrow> max 0 now)"

definition notify :: "signal_store \<Rightarrow> signal_store" where
  "notify s = s\<lparr>st_sequence := st_sequence s + 1\<rparr>"

definition emitTelemetryEvent ::
  "(js_value \<Rightarrow> rat option) \<Rightarrow> int \<Rightarrow> rat option \<Rightarrow> string \<Rightarrow> string \<Rightarrow> string \<Rightarrow> js_value \<Rightarrow> signal_store \<Rightarrow> signal_store" where
  "emitTelemetryEvent num now timeUs category name severity payload s =
    (let e = \<lparr>ev_number = st_sequence s + 1,
           ev_timeUs = (case clip_round timeUs of Some t \<Rightarrow> t | None \<Rightarrow> getTimeUs num now s),
           ev_category = or_text (Some category) ''system'', ev_name = or_text (Some name) ''event'',
           ev_severity = or_text (Some severity) ''info'', ev_payload = payload\<rparr>;
         es = events s @ [e]; dropCount = length es - eventLimit s
     in notify (s\<lparr>events := drop dropCount es, eventIndexOffset := eventIndexOffset s + dropCount\<rparr>))"

definition eventsFromIndex :: "nat \<Rightarrow> signal_store \<Rightarrow> telemetry_event list \<times> nat" where
  "eventsFromIndex startIndex s =
    (drop (startIndex - eventIndexOffset s) (events s), eventIndexOffset s + length (events s))"

section \<open>The catalog\<close>

text \<open>The end of \<open>define\<close>: the descriptor is stored, a history that is not kept any more goes, a change of type is told.\<close>

definition recordDescriptor :: "(js_value \<Rightarrow> rat option) \<Rightarrow> int \<Rightarrow> descriptor option \<Rightarrow> descriptor \<Rightarrow> signal_store \<Rightarrow> signal_store" where
  "recordDescriptor num now current normalized s =
    (let path = sd_path normalized; retention = sd_retention normalized;
         typeChanged = (case current of None \<Rightarrow> False | Some c \<Rightarrow> sd_type c \<noteq> sd_type normalized);
         s1 = s\<lparr>descriptors := AList.update path normalized (descriptors s),
           rings := (if retention = ''none'' \<or> retention = ''latest'' then AList.delete path (rings s) else rings s)\<rparr>;
         s2 = (if typeChanged
           then emitTelemetryEvent num now None ''schema'' ''signal-type-changed'' ''warning''
             (JObject [(''path'', JString path), (''previousType'', JString (sd_type (the current))), (''nextType'', JString (sd_type normalized))]) s1
           else s1)
     in notify s2)"

definition defineSignal :: "(js_value \<Rightarrow> rat option) \<Rightarrow> int \<Rightarrow> string \<Rightarrow> signal_options \<Rightarrow> signal_store \<Rightarrow> (store_error, signal_store) result" where
  "defineSignal num now rawPath d s =
    (let path = normalizeSignalPath rawPath in
     if path = [] then Inl PathRequired
     else
       let current = map_of (descriptors s) path;
           nextLogClass = or_text (o_logClass d) (or_text (map_option sd_logClass current) ''standard'');
           logClass = (if map_option sd_logClass current = Some ''heavy'' \<or> nextLogClass = ''heavy'' then ''heavy'' else nextLogClass);
           category = or_text (o_category d) (or_text (map_option sd_category current) []);
           retention = resolveRetentionPolicy (map_option sd_retention current) (Some logClass)
             (if category = [] then None else Some category) path (o_retention d) (o_historyOff d) (Some logClass);
           normalized = \<lparr>sd_path = path, sd_type = or_text (o_type d) (or_text (map_option sd_type current) ''json''),
             sd_unit = or_else (o_unit d) (Option.bind current sd_unit),
             sd_source = or_text (o_source d) (or_text (map_option sd_source current) ''local''),
             sd_category = (if category = [] then or_text (Some (takeWhile (\<lambda>c. c \<noteq> CHR ''.'') path)) ''signals'' else category),
             sd_replayRole = or_text (o_replayRole d) (or_text (map_option sd_replayRole current) ''derived''),
             sd_logClass = logClass, sd_retention = retention,
             sd_description = or_else (o_description d) (Option.bind current sd_description)\<rparr>
       in Inr (recordDescriptor num now current normalized s))"

definition removeSignal :: "string \<Rightarrow> signal_store \<Rightarrow> bool \<times> signal_store" where
  "removeSignal rawPath s =
    (let path = normalizeSignalPath rawPath in
     if path = [] then (False, s)
     else if \<not> map_has (descriptors s) path \<and> \<not> map_has (committed s) path then (False, s)
     else (True, notify (s\<lparr>descriptors := AList.delete path (descriptors s), committed := AList.delete path (committed s),
       previous := AList.delete path (previous s), rings := AList.delete path (rings s), revisions := AList.delete path (revisions s)\<rparr>)))"

section \<open>Histories\<close>

definition sample_time :: "int \<Rightarrow> signal_entry \<Rightarrow> int" where
  "sample_time newest e = (case en_timeUs e of None \<Rightarrow> newest | Some t \<Rightarrow> t)"

text \<open>The loop that moves the head past samples that are too many or too old.\<close>

fun advance :: "nat \<Rightarrow> int \<Rightarrow> int \<Rightarrow> signal_entry list \<Rightarrow> nat" where
  "advance limit newest oldest [] = 0"
| "advance limit newest oldest (e # es) =
    (if length (e # es) \<le> limit \<and> sample_time newest e \<ge> oldest then 0 else Suc (advance limit newest oldest es))"

definition push_sample :: "nat \<Rightarrow> int \<Rightarrow> int \<Rightarrow> signal_entry \<Rightarrow> ring \<Rightarrow> ring" where
  "push_sample limit duration now e r =
    (let items = ring_items r @ [e];
         newest = sample_time now e;
         oldest = max 0 (newest - duration);
         head = ring_head r + advance limit newest oldest (drop (ring_head r) items)
     in if head > 0 \<and> (head > 16 \<or> head * 2 \<ge> length items) then \<lparr>ring_items = drop head items, ring_head = 0\<rparr>
        else \<lparr>ring_items = items, ring_head = head\<rparr>)"

definition appendHistory ::
  "(js_value \<Rightarrow> rat option) \<Rightarrow> int \<Rightarrow> string \<Rightarrow> signal_entry \<Rightarrow> nat option \<Rightarrow> bool \<Rightarrow> string option \<Rightarrow> signal_store \<Rightarrow> signal_store" where
  "appendHistory num now rawPath e maxSamples skip retention s =
    (let path = normalizeSignalPath rawPath in
     if path = [] \<or> skip then s
     else
       let d = map_of (descriptors s) path;
           policy = (case retention of Some r \<Rightarrow> r
             | None \<Rightarrow> policy_of d None False (if heavy_value num (en_value e) then Some ''heavy'' else map_option sd_logClass d))
       in if policy = ''none'' \<or> policy = ''latest'' then s\<lparr>rings := AList.delete path (rings s)\<rparr>
          else
            let heavy = (map_option sd_logClass d = Some ''heavy'' \<or> heavy_value num (en_value e));
                limit = (case maxSamples of Some n \<Rightarrow> max 1 n | None \<Rightarrow> if heavy then 1 else historySampleLimit s);
                r = (case map_of (rings s) path of None \<Rightarrow> \<lparr>ring_items = [], ring_head = 0\<rparr> | Some r \<Rightarrow> r)
            in if heavy \<or> limit = 1 then s\<lparr>rings := AList.update path \<lparr>ring_items = [e], ring_head = 0\<rparr> (rings s)\<rparr>
               else s\<lparr>rings := AList.update path (push_sample limit (historyDurationUs s) (getTimeUs num now s) e r) (rings s)\<rparr>)"

definition history :: "string \<Rightarrow> signal_store \<Rightarrow> signal_entry list" where
  "history rawPath s =
    (let path = normalizeSignalPath rawPath; retention = policy_of (map_of (descriptors s) path) None False None in
     if retention = ''none'' then []
     else if retention = ''latest'' then (case map_of (committed s) path of None \<Rightarrow> [] | Some e \<Rightarrow> [e])
     else case map_of (rings s) path of None \<Rightarrow> [] | Some r \<Rightarrow> drop (ring_head r) (ring_items r))"

definition series :: "string \<Rightarrow> int \<Rightarrow> int \<Rightarrow> signal_store \<Rightarrow> signal_entry list" where
  "series rawPath fromUs toUs s =
    filter (\<lambda>e. let t = (case en_timeUs e of None \<Rightarrow> 0 | Some t \<Rightarrow> t) in t \<ge> fromUs \<and> t \<le> toUs) (history rawPath s)"

section \<open>Writing\<close>

definition bumpRevision :: "string \<Rightarrow> signal_store \<Rightarrow> signal_store" where
  "bumpRevision rawPath s =
    (let path = normalizeSignalPath rawPath in
     if path = [] then s
     else s\<lparr>revisions := AList.update path ((case map_of (revisions s) path of None \<Rightarrow> 0 | Some n \<Rightarrow> n) + 1) (revisions s)\<rparr>)"

definition revision :: "string \<Rightarrow> signal_store \<Rightarrow> nat" where
  "revision rawPath s =
    (let path = normalizeSignalPath rawPath in
     if path = [] then 0 else case map_of (revisions s) path of None \<Rightarrow> 0 | Some n \<Rightarrow> n)"

definition createSignalEntry :: "js_value \<Rightarrow> string \<Rightarrow> string \<Rightarrow> int option \<Rightarrow> signal_options \<Rightarrow> signal_entry" where
  "createSignalEntry v type nowText timeUs d =
    \<lparr>en_value = v, en_type = type, en_updatedAt = (case o_updatedAt d of None \<Rightarrow> nowText | Some u \<Rightarrow> u),
      en_source = or_text (o_source d) ''local'', en_timeUs = timeUs, en_cycle = clip_round (o_cycle d),
      en_staleAfter = normalizeStaleAfter (o_staleAfter d)\<rparr>"

text \<open>
  A value that is itself an entry is unwrapped: its fields stand in for options that are not given. \<open>dates\<close> is the
  reading of a date.
\<close>

definition normalizeSignalEntry ::
  "(js_value \<Rightarrow> rat option) \<Rightarrow> (js_value \<Rightarrow> string option) \<Rightarrow> js_value \<Rightarrow> string \<Rightarrow> string \<Rightarrow> int option \<Rightarrow> signal_options \<Rightarrow> signal_entry" where
  "normalizeSignalEntry num dates v type nowText timeUs d =
    (case v of
       JObject fs \<Rightarrow>
         (case map_of fs ''value'' of
            None \<Rightarrow> createSignalEntry v type nowText timeUs d
          | Some w \<Rightarrow> createSignalEntry w type nowText timeUs
              (d\<lparr>o_source := or_else (o_source d) (case map_of fs ''source'' of Some (JString t) \<Rightarrow> Some t | _ \<Rightarrow> None),
                 o_cycle := or_else (o_cycle d) (Option.bind (map_of fs ''cycle'') (js_Number num)),
                 o_staleAfter := or_else (o_staleAfter d) (Option.bind (map_of fs ''staleAfter'') (to_number num)),
                 o_updatedAt := or_else (o_updatedAt d) (Option.bind (map_of fs ''updatedAt'') dates)\<rparr>))
     | _ \<Rightarrow> createSignalEntry v type nowText timeUs d)"

definition with_descriptor :: "signal_options \<Rightarrow> string \<Rightarrow> string option \<Rightarrow> string option \<Rightarrow> signal_options" where
  "with_descriptor d type logClass retention =
    d\<lparr>o_type := Some type, o_logClass := logClass, o_retention := retention, o_historyOff := False\<rparr>"

definition set_signal :: "(js_value \<Rightarrow> rat option) \<Rightarrow> (js_value \<Rightarrow> string option) \<Rightarrow> int \<Rightarrow> string \<Rightarrow> string \<Rightarrow> js_value \<Rightarrow> signal_options \<Rightarrow> signal_store \<Rightarrow> signal_store" where
  "set_signal num dates now nowText rawPath v d s =
    (let path = normalizeSignalPath rawPath in
     if path = [] then s
     else
       let current = map_of (descriptors s) path;
           type = or_text (o_type d) (or_text (map_option sd_type current) (inferSignalType v));
           inferredHeavy = (o_logClass d = Some ''heavy'' \<or> heavy_value num v);
           logClass = (if inferredHeavy then Some ''heavy''
             else if or_text (o_logClass d) [] \<noteq> [] then o_logClass d else map_option sd_logClass current);
           retention = resolveRetentionPolicy (map_option sd_retention current) logClass (map_option sd_category current) path
             (o_retention d) (o_historyOff d) (if inferredHeavy then Some ''heavy'' else o_logClass d);
           s1 = (case current of
               Some c \<Rightarrow> if sd_type c \<noteq> type \<or> (inferredHeavy \<and> sd_logClass c \<noteq> ''heavy'') \<or> sd_retention c \<noteq> retention
                 then (case defineSignal num now path (with_descriptor d type (if inferredHeavy then Some ''heavy'' else o_logClass d) (Some retention)) s of
                     Inl _ \<Rightarrow> s | Inr s' \<Rightarrow> s')
                 else s
             | None \<Rightarrow>
                 (case defineSignal num now path (with_descriptor d type (if inferredHeavy then Some ''heavy'' else o_logClass d) (Some retention)) s of
                     Inl _ \<Rightarrow> s | Inr s' \<Rightarrow> s'));
           heavy = (map_option sd_logClass (map_of (descriptors s1) path) = Some ''heavy'' \<or> inferredHeavy);
           timeUs = (case clip_round (o_timeUs d) of Some t \<Rightarrow> t | None \<Rightarrow> getTimeUs num now s1);
           e = (if heavy then createSignalEntry v type nowText (Some timeUs) d
             else normalizeSignalEntry num dates v type nowText (Some timeUs) d);
           old = map_of (committed s1) path;
           trackPrevious = (retention \<noteq> ''none'' \<and> \<not> o_historyOff d);
           s2 = (case old of
               Some p \<Rightarrow> if \<not> heavy \<and> trackPrevious then s1\<lparr>previous := AList.update path p (previous s1)\<rparr>
                 else if heavy then s1\<lparr>previous := AList.delete path (previous s1)\<rparr> else s1
             | None \<Rightarrow> if heavy then s1\<lparr>previous := AList.delete path (previous s1)\<rparr> else s1);
           s3 = bumpRevision path (s2\<lparr>committed := AList.update path e (committed s2)\<rparr>)
       in notify (appendHistory num now path e (o_maxSamples d) (o_historyOff d \<or> retention = ''none'') (Some retention) s3))"

section \<open>Transactions\<close>

definition beginTransaction :: "signal_store \<Rightarrow> nat \<times> signal_store" where
  "beginTransaction s = (length (layers s), s\<lparr>layers := layers s @ [[]]\<rparr>)"

text \<open>A write goes to the innermost transaction, but the catalog learns of it at once.\<close>

definition write_signal ::
  "(js_value \<Rightarrow> rat option) \<Rightarrow> (js_value \<Rightarrow> string option) \<Rightarrow> int \<Rightarrow> string \<Rightarrow> string \<Rightarrow> js_value \<Rightarrow> signal_options \<Rightarrow> signal_store \<Rightarrow> signal_store" where
  "write_signal num dates now nowText rawPath v d s =
    (let path = normalizeSignalPath rawPath in
     if path = [] then s
     else
       let s1 = (if layers s = [] then snd (beginTransaction s) else s);
           current = map_of (descriptors s1) path;
           type = or_text (o_type d) (or_text (map_option sd_type current) (inferSignalType v));
           s2 = (if map_option sd_type current = Some type then s1
             else (case defineSignal num now path (with_descriptor d type (o_logClass d) None) s1 of Inl _ \<Rightarrow> s1 | Inr s' \<Rightarrow> s'));
           timeUs = (case clip_round (o_timeUs d) of Some t \<Rightarrow> t | None \<Rightarrow> getTimeUs num now s2);
           e = normalizeSignalEntry num dates v type nowText (Some timeUs) d
       in s2\<lparr>layers := butlast (layers s2) @ [AList.update path e (last (layers s2))]\<rparr>)"

definition commit_entry :: "(js_value \<Rightarrow> rat option) \<Rightarrow> int \<Rightarrow> string \<times> signal_entry \<Rightarrow> signal_store \<Rightarrow> signal_store" where
  "commit_entry num now pe s =
    (let path = fst pe; e = snd pe; old = map_of (committed s) path;
         heavy = (map_option sd_logClass (map_of (descriptors s) path) = Some ''heavy'' \<or> heavy_value num (en_value e));
         s1 = (case old of
             Some p \<Rightarrow> if \<not> heavy then s\<lparr>previous := AList.update path p (previous s)\<rparr>
               else s\<lparr>previous := AList.delete path (previous s)\<rparr>
           | None \<Rightarrow> if heavy then s\<lparr>previous := AList.delete path (previous s)\<rparr> else s)
     in notify (appendHistory num now path e None False None (bumpRevision path (s1\<lparr>committed := AList.update path e (committed s1)\<rparr>))))"

definition commitEntries :: "(js_value \<Rightarrow> rat option) \<Rightarrow> int \<Rightarrow> (string, signal_entry) js_map \<Rightarrow> signal_store \<Rightarrow> signal_store" where
  "commitEntries num now es s = fold (commit_entry num now) es s"

definition commitTransaction :: "(js_value \<Rightarrow> rat option) \<Rightarrow> int \<Rightarrow> nat \<Rightarrow> signal_store \<Rightarrow> (store_error, signal_store) result" where
  "commitTransaction num now token s =
    (if layers s = [] \<or> token \<noteq> length (layers s) - 1 then Inl NotTopTransaction
     else
       let layer = last (layers s); rest = butlast (layers s) in
       if rest \<noteq> []
       then Inr (s\<lparr>layers := butlast rest @ [fold (\<lambda>(p, e). AList.update p e) layer (last rest)]\<rparr>)
       else Inr (commitEntries num now layer (s\<lparr>layers := []\<rparr>)))"

definition rollbackTransaction :: "nat \<Rightarrow> signal_store \<Rightarrow> (store_error, signal_store) result" where
  "rollbackTransaction token s =
    (if layers s = [] \<or> token \<noteq> length (layers s) - 1 then Inl NotTopTransaction
     else Inr (s\<lparr>layers := butlast (layers s)\<rparr>))"

function commit_all :: "(js_value \<Rightarrow> rat option) \<Rightarrow> int \<Rightarrow> signal_store \<Rightarrow> signal_store" where
  "commit_all num now s =
    (if length (layers s) > 1
     then (case commitTransaction num now (length (layers s) - 1) s of Inl _ \<Rightarrow> s | Inr s' \<Rightarrow> commit_all num now s')
     else if length (layers s) = 1
     then (case commitTransaction num now 0 s of Inl _ \<Rightarrow> s | Inr s' \<Rightarrow> s')
     else s)"
  by pat_completeness auto
termination
  by (relation "measure (\<lambda>(num, now, s). length (layers s))")
    (auto simp: commitTransaction_def Let_def dest: arg_cong [of "butlast _" _ length] split: if_splits)

declare commit_all.simps [simp del]

definition rollback_all :: "signal_store \<Rightarrow> signal_store" where
  "rollback_all s = s\<lparr>layers := []\<rparr>"

definition pendingSnapshot :: "signal_store \<Rightarrow> (string, signal_entry) js_map" where
  "pendingSnapshot s = fold (\<lambda>layer m. fold (\<lambda>(p, e). AList.update p e) layer m) (layers s) []"

section \<open>Reading, recording and resetting\<close>

record read_result =
  rd_path :: string
  rd_entry :: "signal_entry option"
  rd_staleAfter :: "rat option"
  rd_age :: "rat option"
  rd_stale :: bool

text \<open>\<open>age\<close> is the age in seconds of a date text, if it can be told.\<close>

definition read_signal :: "(string \<Rightarrow> rat option) \<Rightarrow> string \<Rightarrow> rat option \<Rightarrow> signal_store \<Rightarrow> read_result" where
  "read_signal age rawPath staleOption s =
    (let path = normalizeSignalPath rawPath in
     case (if path = [] then None else map_of (committed s) path) of
       None \<Rightarrow> \<lparr>rd_path = path, rd_entry = None, rd_staleAfter = None, rd_age = None, rd_stale = True\<rparr>
     | Some e \<Rightarrow>
         let staleAfter = normalizeStaleAfter (or_else staleOption (en_staleAfter e)); a = age (en_updatedAt e) in
         \<lparr>rd_path = path, rd_entry = Some e, rd_staleAfter = staleAfter, rd_age = a,
          rd_stale = (case (staleAfter, a) of (Some limit, Some x) \<Rightarrow> x > limit | _ \<Rightarrow> False)\<rparr>)"

definition has_signal :: "string \<Rightarrow> signal_store \<Rightarrow> bool" where
  "has_signal rawPath s = (rd_entry (read_signal (\<lambda>_. None) rawPath None s) \<noteq> None)"

text \<open>\<open>same\<close> is the comparison of values by identity or by their JSON text.\<close>

definition signal_changed :: "(js_value \<Rightarrow> rat option) \<Rightarrow> (js_value \<Rightarrow> js_value \<Rightarrow> bool) \<Rightarrow> string \<Rightarrow> signal_store \<Rightarrow> bool" where
  "signal_changed num same rawPath s =
    (let path = normalizeSignalPath rawPath in
     if path = [] then False
     else case map_of (committed s) path of
         None \<Rightarrow> False
       | Some e \<Rightarrow>
           if map_option sd_logClass (map_of (descriptors s) path) = Some ''heavy'' \<or> heavy_value num (en_value e)
           then revision path s > 0
           else (case map_of (previous s) path of None \<Rightarrow> False | Some p \<Rightarrow> \<not> same (en_value e) (en_value p)))"

definition record_sample :: "(js_value \<Rightarrow> rat option) \<Rightarrow> int \<Rightarrow> string \<Rightarrow> string \<Rightarrow> js_value \<Rightarrow> signal_options \<Rightarrow> signal_store \<Rightarrow> signal_entry list \<times> signal_store" where
  "record_sample num now nowText rawPath v d s =
    (let path = normalizeSignalPath rawPath in
     if path = [] then ([], s)
     else
       let timeUs = (case clip_round (o_timeUs d) of Some t \<Rightarrow> t | None \<Rightarrow> getTimeUs num now s);
           e = createSignalEntry v (or_text (o_type d) (inferSignalType v)) nowText (Some timeUs)
             (d\<lparr>o_source := Some (or_text (o_source d) ''record'')\<rparr>);
           s' = appendHistory num now path e (o_maxSamples d) (o_historyOff d)
             (Some (policy_of (map_of (descriptors s) path) (o_retention d) (o_historyOff d) (o_logClass d))) s
       in (history path s', s'))"

definition entries_of :: "(string \<times> signal_entry) list \<Rightarrow> (string, signal_entry) js_map \<Rightarrow> (string, signal_entry) js_map" where
  "entries_of vs m = fold (\<lambda>(p, e) m. if normalizeSignalPath p = [] then m else AList.update (normalizeSignalPath p) e m) vs m"

text \<open>Hydrating takes entries that are normalized already.\<close>

definition hydrate :: "(string \<times> signal_entry) list \<Rightarrow> signal_store \<Rightarrow> signal_store" where
  "hydrate vs s = s\<lparr>committed := entries_of vs [], previous := [], layers := []\<rparr>"

definition resetRunState :: "(string \<times> signal_entry) list \<Rightarrow> string list \<Rightarrow> signal_store \<Rightarrow> signal_store" where
  "resetRunState vs preservePaths s =
    (let preserved = fold (\<lambda>raw m. let p = normalizeSignalPath raw in
           if p = [] then m else case map_of (committed s) p of None \<Rightarrow> m | Some e \<Rightarrow> AList.update p e m) preservePaths []
     in notify (s\<lparr>committed := entries_of vs preserved, previous := [], layers := [], rings := [], revisions := [],
       events := [], eventIndexOffset := 0, st_sequence := 0\<rparr>))"

definition new_SignalStore :: "int \<Rightarrow> nat \<Rightarrow> nat \<Rightarrow> (string \<times> signal_entry) list \<Rightarrow> signal_store" where
  "new_SignalStore durationUs sampleLimit eventMax vs =
    hydrate vs \<lparr>historyDurationUs = durationUs, historySampleLimit = sampleLimit, eventLimit = eventMax, committed = [], previous = [],
      layers = [], rings = [], revisions = [], descriptors = [], events = [], eventIndexOffset = 0, st_sequence = 0\<rparr>"

section \<open>Histories are windows\<close>

text \<open>The abstract history: the longest end of the samples that fits the limit and starts late enough.\<close>

fun shrink :: "('a list \<Rightarrow> bool) \<Rightarrow> 'a list \<Rightarrow> 'a list" where
  "shrink fits [] = []"
| "shrink fits (x # xs) = (if fits (x # xs) then x # xs else shrink fits xs)"

definition entry_time :: "signal_entry \<Rightarrow> int" where
  "entry_time e = (case en_timeUs e of None \<Rightarrow> 0 | Some t \<Rightarrow> t)"

definition window_step :: "nat \<Rightarrow> int \<Rightarrow> signal_entry list \<Rightarrow> signal_entry \<Rightarrow> signal_entry list" where
  "window_step limit duration xs e =
    shrink (\<lambda>ys. length ys \<le> limit \<and> entry_time (hd ys) \<ge> max 0 (entry_time e - duration)) (xs @ [e])"

definition active :: "ring \<Rightarrow> signal_entry list" where
  "active r = drop (ring_head r) (ring_items r)"

definition ring_ok :: "ring \<Rightarrow> bool" where
  "ring_ok r \<longleftrightarrow> ring_head r = 0 \<or> ring_head r \<le> 16 \<and> ring_head r * 2 < length (ring_items r)"

lemma shrink_suffix: "\<exists>ys. xs = ys @ shrink fits xs"
proof (induction xs)
  case (Cons x xs)
  then obtain ys where "xs = ys @ shrink fits xs" by blast
  then show ?case by (cases "fits (x # xs)") (auto intro: exI [of _ "x # ys"])
qed simp

lemma shrink_fits: "shrink fits xs \<noteq> [] \<Longrightarrow> fits (shrink fits xs)"
  by (induction xs) auto

lemma advance_shrink:
  assumes "\<forall>e \<in> set xs. en_timeUs e \<noteq> None"
  shows "drop (advance limit newest oldest xs) xs = shrink (\<lambda>ys. length ys \<le> limit \<and> entry_time (hd ys) \<ge> oldest) xs"
  using assms by (induction xs) (auto simp: sample_time_def entry_time_def split: option.splits)

lemma advance_le: "advance limit newest oldest xs \<le> length xs"
  by (induction xs) auto

lemma push_sample_window:
  assumes ok: "ring_ok r" and times: "\<forall>x \<in> set (active r). en_timeUs x \<noteq> None" and e: "en_timeUs e \<noteq> None"
  shows "active (push_sample limit duration now e r) = window_step limit duration (active r) e"
    and "ring_ok (push_sample limit duration now e r)"
proof -
  let ?items = "ring_items r @ [e]"
  have head: "ring_head r \<le> length (ring_items r)" using ok by (auto simp: ring_ok_def)
  then have active: "drop (ring_head r) ?items = active r @ [e]" by (simp add: active_def)
  obtain t where t: "en_timeUs e = Some t" using e by auto
  let ?n = "advance limit t (max 0 (t - duration)) (active r @ [e])"
  have shrunk: "drop ?n (active r @ [e]) = window_step limit duration (active r) e"
    using advance_shrink [of "active r @ [e]"] times e t by (simp add: window_step_def entry_time_def)
  have "drop (ring_head r + ?n) ?items = drop ?n (drop (ring_head r) ?items)"
    unfolding drop_drop by (simp only: add.commute)
  then have "drop (ring_head r + ?n) ?items = window_step limit duration (active r) e" unfolding active shrunk .
  then show "active (push_sample limit duration now e r) = window_step limit duration (active r) e"
    using active t by (simp add: push_sample_def active_def Let_def sample_time_def)
  show "ring_ok (push_sample limit duration now e r)"
    unfolding push_sample_def Let_def by (auto simp: ring_ok_def simp del: drop_append)
qed

lemma set_shrink: "set (shrink fits xs) \<subseteq> set xs"
  by (induction xs) auto

lemma window_step_times: "\<forall>x \<in> set xs. P x \<Longrightarrow> P e \<Longrightarrow> \<forall>x \<in> set (window_step limit duration xs e). P x"
  unfolding window_step_def using set_shrink by fastforce

lemma window_bounds:
  assumes "xs = foldl (window_step limit duration) [] (es @ [e])"
  shows "\<exists>older. es @ [e] = older @ xs" and "length xs \<le> limit" and "xs \<noteq> [] \<Longrightarrow> max 0 (entry_time e - duration) \<le> entry_time (hd xs)"
proof -
  have suffix: "\<exists>older. es = older @ foldl (window_step limit duration) [] es" for es
  proof (induction es rule: rev_induct)
    case (snoc e es)
    then obtain older where "es = older @ foldl (window_step limit duration) [] es" by blast
    moreover obtain ys where "foldl (window_step limit duration) [] es @ [e] = ys @ foldl (window_step limit duration) [] (es @ [e])"
      using shrink_suffix by (auto simp: window_step_def)
    ultimately have "es @ [e] = (older @ ys) @ foldl (window_step limit duration) [] (es @ [e])" by (metis append_assoc)
    then show ?case by blast
  qed simp
  show "\<exists>older. es @ [e] = older @ xs" unfolding assms by (rule suffix)
  have "xs = [] \<or> length xs \<le> limit \<and> max 0 (entry_time e - duration) \<le> entry_time (hd xs)"
    using assms shrink_fits [of "\<lambda>ys. length ys \<le> limit \<and> entry_time (hd ys) \<ge> max 0 (entry_time e - duration)"]
    by (auto simp: window_step_def)
  then show "length xs \<le> limit" "xs \<noteq> [] \<Longrightarrow> max 0 (entry_time e - duration) \<le> entry_time (hd xs)" by auto
qed

text \<open>A signal whose samples go to a window.\<close>

definition windowed :: "string \<Rightarrow> signal_store \<Rightarrow> bool" where
  "windowed p s \<longleftrightarrow> normalizeSignalPath p = p \<and> p \<noteq> [] \<and> 1 < historySampleLimit s
    \<and> policy_of (map_of (descriptors s) p) None False None = ''window''
    \<and> map_option sd_logClass (map_of (descriptors s) p) \<noteq> Some ''heavy''"

definition ring_of :: "string \<Rightarrow> signal_store \<Rightarrow> ring" where
  "ring_of p s = (case map_of (rings s) p of None \<Rightarrow> \<lparr>ring_items = [], ring_head = 0\<rparr> | Some r \<Rightarrow> r)"

lemma append_windowed:
  assumes w: "windowed p s" and light: "\<not> heavy_value num (en_value e)"
  shows "ring_of p (appendHistory num now p e None False (Some ''window'') s)
      = push_sample (historySampleLimit s) (historyDurationUs s) (getTimeUs num now s) e (ring_of p s)"
    and "windowed p (appendHistory num now p e None False (Some ''window'') s)"
    and "historySampleLimit (appendHistory num now p e None False (Some ''window'') s) = historySampleLimit s"
    and "historyDurationUs (appendHistory num now p e None False (Some ''window'') s) = historyDurationUs s"
  using assms by (auto simp: windowed_def appendHistory_def ring_of_def Let_def update_conv' split: option.splits)

lemma history_windowed: "windowed p s \<Longrightarrow> history p s = active (ring_of p s)"
  by (auto simp: windowed_def history_def ring_of_def active_def Let_def split: option.splits)

definition add_sample :: "(js_value \<Rightarrow> rat option) \<Rightarrow> string \<Rightarrow> signal_store \<Rightarrow> int \<times> signal_entry \<Rightarrow> signal_store" where
  "add_sample num p s c = appendHistory num (fst c) p (snd c) None False (Some ''window'') s"

lemma samples_window:
  assumes "windowed p s" and "map_of (rings s) p = None"
    and "\<forall>c \<in> set cs. \<not> heavy_value num (en_value (snd c)) \<and> en_timeUs (snd c) \<noteq> None"
  defines "t \<equiv> foldl (add_sample num p) s cs"
  shows "windowed p t \<and> historySampleLimit t = historySampleLimit s \<and> historyDurationUs t = historyDurationUs s \<and> ring_ok (ring_of p t)
    \<and> active (ring_of p t) = foldl (window_step (historySampleLimit s) (historyDurationUs s)) [] (map snd cs)
    \<and> (\<forall>x \<in> set (active (ring_of p t)). en_timeUs x \<noteq> None)"
  using assms(3) unfolding t_def
proof (induction cs rule: rev_induct)
  case Nil
  then show ?case using assms(1,2) by (simp add: ring_of_def active_def ring_ok_def)
next
  case (snoc c cs)
  let ?t = "foldl (add_sample num p) s cs"
  have IH: "windowed p ?t" "historySampleLimit ?t = historySampleLimit s" "historyDurationUs ?t = historyDurationUs s" "ring_ok (ring_of p ?t)"
      "active (ring_of p ?t) = foldl (window_step (historySampleLimit s) (historyDurationUs s)) [] (map snd cs)"
      "\<forall>x \<in> set (active (ring_of p ?t)). en_timeUs x \<noteq> None"
    using snoc by simp_all
  have c: "\<not> heavy_value num (en_value (snd c))" "en_timeUs (snd c) \<noteq> None" using snoc.prems by simp_all
  note step = append_windowed [OF IH(1) c(1), of "fst c"] and push = push_sample_window [OF IH(4) IH(6) c(2)]
  have active: "active (ring_of p (add_sample num p ?t c)) = window_step (historySampleLimit s) (historyDurationUs s) (active (ring_of p ?t)) (snd c)"
    unfolding add_sample_def [of num p ?t c] step(1) push(1) IH(2,3) ..
  have "\<forall>x \<in> set (active (ring_of p (add_sample num p ?t c))). en_timeUs x \<noteq> None"
    unfolding active by (rule window_step_times [OF IH(6) c(2)])
  moreover have "ring_ok (ring_of p (add_sample num p ?t c))" unfolding add_sample_def [of num p ?t c] step(1) by (rule push(2))
  moreover have "windowed p (add_sample num p ?t c)" "historySampleLimit (add_sample num p ?t c) = historySampleLimit s"
      "historyDurationUs (add_sample num p ?t c) = historyDurationUs s"
    using step(2-4) IH(2,3) unfolding add_sample_def [of num p ?t c] by simp_all
  ultimately show ?case using active IH(5) by simp
qed

lemma ring_items_bound: "ring_ok r \<Longrightarrow> length (ring_items r) \<le> length (active r) + 16"
  by (auto simp: ring_ok_def active_def)

section \<open>Transactions\<close>

text \<open>What is open: layers with one entry for a path, under its normalized form.\<close>

definition layer_ok :: "(string, signal_entry) js_map \<Rightarrow> bool" where
  "layer_ok m \<longleftrightarrow> map_ok m \<and> (\<forall>p \<in> set (map_keys m). normalizeSignalPath p = p \<and> p \<noteq> [])"

definition layers_ok :: "signal_store \<Rightarrow> bool" where
  "layers_ok s \<longleftrightarrow> (\<forall>m \<in> set (layers s). layer_ok m)"

datatype tx_op = Begin | Write string js_value signal_options | Commit nat | Rollback nat

fun tx_exec :: "(js_value \<Rightarrow> rat option) \<Rightarrow> (js_value \<Rightarrow> string option) \<Rightarrow> int \<Rightarrow> string \<Rightarrow> signal_store \<Rightarrow> tx_op \<Rightarrow> signal_store" where
  "tx_exec num dates now nowText s Begin = snd (beginTransaction s)"
| "tx_exec num dates now nowText s (Write p v d) = write_signal num dates now nowText p v d s"
| "tx_exec num dates now nowText s (Commit token) = (case commitTransaction num now token s of Inl _ \<Rightarrow> s | Inr s' \<Rightarrow> s')"
| "tx_exec num dates now nowText s (Rollback token) = (case rollbackTransaction token s of Inl _ \<Rightarrow> s | Inr s' \<Rightarrow> s')"

lemma normalize_idem [simp]: "normalizeSignalPath (normalizeSignalPath p) = normalizeSignalPath p"
proof -
  let ?q = "dropWhile is_space p"
  let ?r = "rev (dropWhile is_space (rev ?q))"
  have "rev ?q = takeWhile is_space (rev ?q) @ dropWhile is_space (rev ?q)" by simp
  then have split: "?q = ?r @ rev (takeWhile is_space (rev ?q))" by (metis rev_append rev_rev_ident)
  have "dropWhile is_space ?r = ?r"
  proof (cases ?r)
    case (Cons c cs)
    then have "hd ?q = c" "?q \<noteq> []" using split by (metis append_Cons list.sel(1), metis append_Cons list.distinct(1))
    then have "\<not> is_space c" using hd_dropWhile by blast
    then show ?thesis unfolding Cons by simp
  next
    case Nil
    show ?thesis unfolding Nil by simp
  qed
  then show ?thesis by (simp add: normalizeSignalPath_def)
qed

text \<open>The catalog does not touch what transactions are about.\<close>

lemma emit_keeps [simp]:
  "committed (emitTelemetryEvent num now t c n v x s) = committed s" "previous (emitTelemetryEvent num now t c n v x s) = previous s"
  "layers (emitTelemetryEvent num now t c n v x s) = layers s" "revisions (emitTelemetryEvent num now t c n v x s) = revisions s"
  by (simp_all add: emitTelemetryEvent_def notify_def Let_def)

lemma notify_keeps [simp]:
  "committed (notify s) = committed s" "previous (notify s) = previous s" "layers (notify s) = layers s" "revisions (notify s) = revisions s"
  "descriptors (notify s) = descriptors s"
  by (simp_all add: notify_def)

lemma recordDescriptor_keeps [simp]:
  "committed (recordDescriptor num now c d s) = committed s" "previous (recordDescriptor num now c d s) = previous s"
  "layers (recordDescriptor num now c d s) = layers s" "revisions (recordDescriptor num now c d s) = revisions s"
  by (simp_all add: recordDescriptor_def Let_def)

lemma define_keeps:
  assumes "defineSignal num now p d s = Inr s'"
  shows "committed s' = committed s \<and> previous s' = previous s \<and> layers s' = layers s \<and> revisions s' = revisions s"
proof -
  from assms have "\<exists>current normalized. s' = recordDescriptor num now current normalized s"
    unfolding defineSignal_def Let_def by (cases "normalizeSignalPath p = []") (simp, simp only: if_False sum.inject, blast)
  then show ?thesis by auto
qed

definition open_layers :: "signal_store \<Rightarrow> (string, signal_entry) js_map list" where
  "open_layers s = (if layers s = [] then [[]] else layers s)"

lemma write_cases:
  obtains (ignored) "normalizeSignalPath p = []" and "write_signal num dates now nowText p v d s = s"
  | (written) e s2 where "normalizeSignalPath p \<noteq> []"
      and "committed s2 = committed s" "previous s2 = previous s" "revisions s2 = revisions s" "layers s2 = open_layers s"
      and "write_signal num dates now nowText p v d s
        = s2\<lparr>layers := butlast (open_layers s) @ [AList.update (normalizeSignalPath p) e (last (open_layers s))]\<rparr>"
proof (cases "normalizeSignalPath p = []")
  case True
  then show thesis by (intro ignored) (simp_all add: write_signal_def)
next
  case False
  let ?path = "normalizeSignalPath p"
  let ?s1 = "if layers s = [] then snd (beginTransaction s) else s"
  let ?current = "map_of (descriptors ?s1) ?path"
  let ?type = "or_text (o_type d) (or_text (map_option sd_type ?current) (inferSignalType v))"
  let ?s2 = "if map_option sd_type ?current = Some ?type then ?s1
    else (case defineSignal num now ?path (with_descriptor d ?type (o_logClass d) None) ?s1 of Inl _ \<Rightarrow> ?s1 | Inr s' \<Rightarrow> s')"
  have one: "committed ?s1 = committed s \<and> previous ?s1 = previous s \<and> revisions ?s1 = revisions s \<and> layers ?s1 = open_layers s"
    by (simp add: beginTransaction_def open_layers_def)
  have two: "committed ?s2 = committed s \<and> previous ?s2 = previous s \<and> revisions ?s2 = revisions s \<and> layers ?s2 = open_layers s"
  proof (cases "defineSignal num now ?path (with_descriptor d ?type (o_logClass d) None) ?s1")
    case (Inr s')
    then show ?thesis using define_keeps [OF Inr] one by auto
  qed (use one in auto)
  let ?e = "normalizeSignalEntry num dates v ?type nowText
    (Some (case clip_round (o_timeUs d) of Some t \<Rightarrow> t | None \<Rightarrow> getTimeUs num now ?s2)) d"
  have "write_signal num dates now nowText p v d s
      = ?s2\<lparr>layers := butlast (layers ?s2) @ [AList.update ?path ?e (last (layers ?s2))]\<rparr>"
    using False unfolding write_signal_def Let_def by simp
  with two show thesis by (intro written [of ?s2 ?e]) (use False in auto)
qed

lemma append_keeps [simp]:
  "committed (appendHistory num now p e m k r s) = committed s" "previous (appendHistory num now p e m k r s) = previous s"
  "layers (appendHistory num now p e m k r s) = layers s" "revisions (appendHistory num now p e m k r s) = revisions s"
  by (simp_all add: appendHistory_def Let_def)

definition revision_count :: "signal_store \<Rightarrow> string \<Rightarrow> nat" where
  "revision_count s p = (case map_of (revisions s) p of None \<Rightarrow> 0 | Some n \<Rightarrow> n)"

lemma fold_commit_layers [simp]: "layers (fold (commit_entry num now) es s) = layers s"
  by (induction es arbitrary: s) (auto simp: commit_entry_def Let_def bumpRevision_def split: option.splits)

lemma commit_entry_effect:
  assumes "normalizeSignalPath p = p" and "p \<noteq> []"
  shows "map_of (committed (commit_entry num now (p, e) s)) = (map_of (committed s))(p \<mapsto> e)"
    and "revision_count (commit_entry num now (p, e) s) q = revision_count s q + (if q = p then 1 else 0)"
    and "layers (commit_entry num now (p, e) s) = layers s"
  using assms by (auto simp: commit_entry_def Let_def bumpRevision_def revision_count_def update_conv' split: option.splits)

lemma commitEntries_effect:
  assumes "layer_ok m"
  shows "map_of (committed (commitEntries num now m s)) q = (case map_of m q of Some e \<Rightarrow> Some e | None \<Rightarrow> map_of (committed s) q)
    \<and> revision_count (commitEntries num now m s) q = revision_count s q + (if map_has m q then 1 else 0)
    \<and> layers (commitEntries num now m s) = layers s"
  using assms unfolding commitEntries_def
proof (induction m arbitrary: s)
  case (Cons pe m)
  obtain p e where pe: "pe = (p, e)" by fastforce
  have ok: "normalizeSignalPath p = p" "p \<noteq> []" "layer_ok m" "p \<notin> set (map_keys m)"
    using Cons.prems by (auto simp: layer_ok_def pe)
  have absent: "map_of m p = None" using ok(4) by (simp add: map_of_eq_None_iff)
  show ?case
    using Cons.IH [OF ok(3), of "commit_entry num now (p, e) s"] absent commit_entry_effect [OF ok(1,2), of num now e s]
    by (auto simp: pe split: option.splits)
qed simp

text \<open>What reading a pile of layers from the innermost outwards gives.\<close>

definition pending :: "(string, signal_entry) js_map list \<Rightarrow> string \<Rightarrow> signal_entry option" where
  "pending ls q = fold (\<lambda>m acc. case map_of m q of None \<Rightarrow> acc | Some e \<Rightarrow> Some e) ls None"

definition merge_layer :: "(string, signal_entry) js_map \<Rightarrow> (string, signal_entry) js_map \<Rightarrow> (string, signal_entry) js_map" where
  "merge_layer layer parent = fold (\<lambda>(p, e). AList.update p e) layer parent"

lemma merge_layer_lookup:
  assumes "map_ok m"
  shows "map_of (merge_layer m parent) q = (case map_of m q of None \<Rightarrow> map_of parent q | Some e \<Rightarrow> Some e)"
proof -
  have "map_of (rev m) q = map_of m q"
  proof (cases "map_of m q")
    case None
    then have "map_of (rev m) q = None" by (metis map_of_eq_None_iff set_rev)
    with None show ?thesis by simp
  next
    case (Some e)
    then have "map_of (rev m) q = Some e"
      using map_of_is_SomeI [of "rev m" q e] map_of_SomeD [OF Some] assms by (simp add: rev_map [symmetric])
    with Some show ?thesis by simp
  qed
  then show ?thesis unfolding merge_layer_def by (simp add: js_map.lookup_fold_put)
qed

lemma merge_layer_ok:
  assumes "layer_ok m" and "layer_ok parent"
  shows "layer_ok (merge_layer m parent)"
  using assms unfolding merge_layer_def
proof (induction m arbitrary: parent)
  case (Cons pe m)
  have "layer_ok (AList.update (fst pe) (snd pe) parent)"
    using Cons.prems set_keys_update [of "fst pe" "snd pe" parent] by (auto simp: layer_ok_def distinct_update)
  moreover have "layer_ok m" using Cons.prems by (auto simp: layer_ok_def)
  ultimately show ?case using Cons.IH by (simp add: split_beta)
qed simp

lemma pending_last: "pending (ls @ [m]) q = (case map_of m q of None \<Rightarrow> pending ls q | Some e \<Rightarrow> Some e)"
  unfolding pending_def by simp

lemma pending_merge: "map_ok m \<Longrightarrow> pending (ls @ [merge_layer m k]) q = pending (ls @ [k, m]) q"
  using pending_last [of "ls @ [k]" m q] by (simp add: pending_last merge_layer_lookup split: option.splits)

lemma commitTransaction_cases:
  assumes "commitTransaction num now token s = Inr s'"
  obtains (inner) ls k m where "layers s = ls @ [k, m]" and "s' = s\<lparr>layers := ls @ [merge_layer m k]\<rparr>"
  | (outer) m where "layers s = [m]" and "s' = commitEntries num now m (s\<lparr>layers := []\<rparr>)"
proof (cases "butlast (layers s) = []")
  case True
  then obtain m where "layers s = [m]"
    using assms by (cases "layers s") (auto simp: commitTransaction_def split: if_splits)
  with assms show thesis by (intro outer) (auto simp: commitTransaction_def Let_def split: if_splits)
next
  case False
  then have "layers s = butlast (butlast (layers s)) @ [last (butlast (layers s)), last (layers s)]"
    by (metis append.assoc append_Cons append_Nil append_butlast_last_id butlast.simps(1))
  with assms False show thesis
    by (intro inner) (auto simp: commitTransaction_def Let_def merge_layer_def split: if_splits)
qed

lemma write_layer_ok:
  assumes "layer_ok m" and "normalizeSignalPath p \<noteq> []"
  shows "layer_ok (AList.update (normalizeSignalPath p) e m)"
  using assms set_keys_update [of "normalizeSignalPath p" e m] by (auto simp: layer_ok_def distinct_update)

lemma tx_layers_ok:
  assumes ok: "layers_ok s"
  shows "layers_ok (tx_exec num dates now nowText s x)"
proof (cases x)
  case Begin
  with ok show ?thesis by (auto simp: beginTransaction_def layers_ok_def layer_ok_def)
next
  case (Write p v d)
  have base: "\<forall>m \<in> set (open_layers s). layer_ok m" using ok by (auto simp: open_layers_def layers_ok_def layer_ok_def)
  have ne: "open_layers s \<noteq> []" by (simp add: open_layers_def)
  show ?thesis
  proof (cases rule: write_cases [of p num dates now nowText v d s])
    case ignored
    with ok Write show ?thesis by simp
  next
    case (written e s2)
    then have "layer_ok (AList.update (normalizeSignalPath p) e (last (open_layers s)))"
      using base ne by (intro write_layer_ok) auto
    with written base Write show ?thesis by (auto simp: layers_ok_def dest: in_set_butlastD)
  qed
next
  case (Commit token)
  show ?thesis
  proof (cases "commitTransaction num now token s")
    case (Inr s')
    then show ?thesis
    proof (cases rule: commitTransaction_cases)
      case (inner ls k m)
      with ok Commit Inr show ?thesis by (auto simp: layers_ok_def intro: merge_layer_ok)
    next
      case (outer m)
      with ok commitEntries_effect [of m num now "s\<lparr>layers := []\<rparr>"] Commit Inr show ?thesis by (auto simp: layers_ok_def)
    qed
  qed (use ok Commit in simp)
next
  case (Rollback token)
  with ok show ?thesis by (auto simp: rollbackTransaction_def layers_ok_def dest: in_set_butlastD split: sum.splits if_splits)
qed

interpretation signals: driven "tx_exec num dates now nowText" layers_ok for num dates now nowText
  by unfold_locales (rule tx_layers_ok)

lemma commit_all_effect:
  assumes "layers_ok s"
  shows "map_of (committed (commit_all num now s)) q = (case pending (layers s) q of Some e \<Rightarrow> Some e | None \<Rightarrow> map_of (committed s) q)
    \<and> revision_count (commit_all num now s) q = revision_count s q + (if pending (layers s) q = None then 0 else 1)
    \<and> layers (commit_all num now s) = []"
  using assms
proof (induction num now s rule: commit_all.induct)
  case (1 num now s)
  consider "layers s = []" | m where "layers s = [m]" | ls k m where "layers s = ls @ [k, m]"
    by (metis append.assoc append_Cons append_Nil rev_exhaust)
  then show ?case
  proof cases
    case 1
    then show ?thesis by (simp add: commit_all.simps [of num now s] pending_def)
  next
    case (2 m)
    with "1.prems" have "layer_ok m" by (simp add: layers_ok_def)
    from commitEntries_effect [OF this, of num now "s\<lparr>layers := []\<rparr>" q] 2 show ?thesis
      by (cases "map_of m q") (simp_all add: commit_all.simps [of num now s] commitTransaction_def pending_def revision_count_def)
  next
    case (3 ls k m)
    let ?s = "s\<lparr>layers := ls @ [merge_layer m k]\<rparr>"
    have step: "commitTransaction num now (length (layers s) - 1) s = Inr ?s"
      by (simp add: commitTransaction_def 3 merge_layer_def butlast_append)
    have "layers_ok ?s" using "1.prems" 3 by (auto simp: layers_ok_def intro: merge_layer_ok)
    moreover have "map_ok m" using "1.prems" 3 by (simp add: layers_ok_def layer_ok_def)
    moreover have "commit_all num now s = commit_all num now ?s"
      using step 3 by (simp add: commit_all.simps [of num now s])
    ultimately show ?thesis
      using "1.IH" [OF _ step] 3 pending_merge [of m ls k q]
      by (cases "pending (ls @ [k, m]) q") (simp_all add: revision_count_def)
  qed
qed

lemma fold_merge_lookup:
  "\<forall>m \<in> set ls. map_ok m \<Longrightarrow> map_of (fold merge_layer ls start) q
    = fold (\<lambda>m acc. case map_of m q of None \<Rightarrow> acc | Some e \<Rightarrow> Some e) ls (map_of start q)"
  by (induction ls arbitrary: start) (simp_all add: merge_layer_lookup)

lemma pending_snapshot: "layers_ok s \<Longrightarrow> map_of (pendingSnapshot s) q = pending (layers s) q"
  using fold_merge_lookup [of "layers s" "[]" q]
  by (simp add: pendingSnapshot_def pending_def merge_layer_def [abs_def] layers_ok_def layer_ok_def)

text \<open>What a transaction leaves alone while it stays open.\<close>

definition outside :: "nat \<Rightarrow> signal_store \<Rightarrow> (string, signal_entry) js_map \<times> (string, signal_entry) js_map
    \<times> (string, nat) js_map \<times> (string, signal_entry) js_map list" where
  "outside n s = (committed s, previous s, revisions s, take n (layers s))"

lemma tx_outside:
  assumes "n < length (layers s)" and "n < length (layers (tx_exec num dates now nowText s x))"
  shows "outside n (tx_exec num dates now nowText s x) = outside n s"
proof (cases x)
  case Begin
  with assms show ?thesis by (simp add: beginTransaction_def outside_def)
next
  case (Write p v d)
  have "open_layers s = layers s" using assms(1) by (auto simp: open_layers_def)
  then show ?thesis
    using assms Write by (cases rule: write_cases [of p num dates now nowText v d s]) (auto simp: outside_def butlast_conv_take)
next
  case (Commit token)
  show ?thesis
  proof (cases "commitTransaction num now token s")
    case (Inr s')
    then show ?thesis
    proof (cases rule: commitTransaction_cases)
      case (inner ls k m)
      with assms Commit Inr show ?thesis by (simp add: outside_def)
    next
      case (outer m)
      then have "layers s' = []" by (simp add: commitEntries_def fold_commit_layers)
      with assms Commit Inr show ?thesis by simp
    qed
  qed (use Commit in simp)
next
  case (Rollback token)
  with assms show ?thesis by (auto simp: rollbackTransaction_def outside_def butlast_conv_take split: sum.splits if_splits)
qed

lemma tx_run_outside:
  assumes "n < length (layers s)"
    and "\<And>k. k \<le> length xs \<Longrightarrow> n < length (layers (foldl (tx_exec num dates now nowText) s (take k xs)))"
  shows "outside n (foldl (tx_exec num dates now nowText) s xs) = outside n s"
  using assms
proof (induction xs arbitrary: s)
  case (Cons x xs)
  let ?s = "tx_exec num dates now nowText s x"
  have "n < length (layers ?s)" using Cons.prems(2) [of 1] by simp
  moreover have "n < length (layers (foldl (tx_exec num dates now nowText) ?s (take k xs)))" if "k \<le> length xs" for k
    using Cons.prems(2) [of "Suc k"] that by simp
  ultimately show ?case using Cons.IH [of ?s] tx_outside [OF Cons.prems(1)] by simp
qed simp

text \<open>
  The part of a write that a rollback does not take back: the catalog learns the path, or its new type, at once. It
  reads and writes nothing of the open layers.
\<close>

definition learn ::
  "(js_value \<Rightarrow> rat option) \<Rightarrow> int \<Rightarrow> string \<Rightarrow> js_value \<Rightarrow> signal_options \<Rightarrow> signal_store \<Rightarrow> signal_store" where
  "learn num now rawPath v d s =
    (let path = normalizeSignalPath rawPath in
     if path = [] then s
     else
       let current = map_of (descriptors s) path;
           type = or_text (o_type d) (or_text (map_option sd_type current) (inferSignalType v))
       in if map_option sd_type current = Some type then s
          else (case defineSignal num now path (with_descriptor d type (o_logClass d) None) s of Inl _ \<Rightarrow> s | Inr s' \<Rightarrow> s'))"

fun learn_op :: "(js_value \<Rightarrow> rat option) \<Rightarrow> int \<Rightarrow> signal_store \<Rightarrow> tx_op \<Rightarrow> signal_store" where
  "learn_op num now s (Write p v d) = learn num now p v d s"
| "learn_op num now s _ = s"

text \<open>The catalog has the path of the write already, under the type that it is written with.\<close>

fun declared :: "signal_store \<Rightarrow> tx_op \<Rightarrow> bool" where
  "declared s (Write p v d) \<longleftrightarrow> normalizeSignalPath p = []
    \<or> (case map_of (descriptors s) (normalizeSignalPath p) of None \<Rightarrow> False
       | Some c \<Rightarrow> or_text (o_type d) (or_text (Some (sd_type c)) (inferSignalType v)) = sd_type c)"
| "declared s _ \<longleftrightarrow> True"

lemma catalog_layers:
  "emitTelemetryEvent num now t c n v x (s\<lparr>layers := L\<rparr>) = (emitTelemetryEvent num now t c n v x s)\<lparr>layers := L\<rparr>"
  "notify (s\<lparr>layers := L\<rparr>) = (notify s)\<lparr>layers := L\<rparr>"
proof -
  have "getTimeUs num now (s\<lparr>layers := L\<rparr>) = getTimeUs num now s" by (simp add: getTimeUs_def getSimulationTimeUs_def)
  then show "emitTelemetryEvent num now t c n v x (s\<lparr>layers := L\<rparr>) = (emitTelemetryEvent num now t c n v x s)\<lparr>layers := L\<rparr>"
    by (cases "clip_round t") (simp_all add: emitTelemetryEvent_def notify_def Let_def)
qed (simp add: notify_def)

lemma recordDescriptor_layers: "recordDescriptor num now c d (s\<lparr>layers := L\<rparr>) = (recordDescriptor num now c d s)\<lparr>layers := L\<rparr>"
proof -
  have flip: "s\<lparr>layers := L, descriptors := D, rings := R\<rparr> = s\<lparr>descriptors := D, rings := R\<rparr>\<lparr>layers := L\<rparr>" for D R by simp
  show ?thesis
    unfolding recordDescriptor_def Let_def signal_store.simps flip
    by (simp only: catalog_layers if_distrib [of "\<lambda>u. u\<lparr>layers := L\<rparr>", symmetric] split: if_split) simp
qed

lemma define_layers:
  "defineSignal num now p d (s\<lparr>layers := L\<rparr>)
    = (case defineSignal num now p d s of Inl e \<Rightarrow> Inl e | Inr s' \<Rightarrow> Inr (s'\<lparr>layers := L\<rparr>))"
  by (cases "normalizeSignalPath p = []") (simp_all add: defineSignal_def Let_def recordDescriptor_layers)

lemma learn_layers: "learn num now p v d (s\<lparr>layers := L\<rparr>) = (learn num now p v d s)\<lparr>layers := L\<rparr>"
  by (cases "map_of (descriptors s) (normalizeSignalPath p)") (auto simp: learn_def Let_def define_layers split: sum.split)

lemma learn_run_layers:
  "foldl (learn_op num now) (s\<lparr>layers := L\<rparr>) xs = (foldl (learn_op num now) s xs)\<lparr>layers := L\<rparr>"
proof (induction xs arbitrary: s)
  case (Cons x xs)
  then show ?case by (cases x) (simp_all add: learn_layers)
qed simp

lemma learn_keeps:
  "committed (learn num now p v d s) = committed s" "previous (learn num now p v d s) = previous s"
  "layers (learn num now p v d s) = layers s" "revisions (learn num now p v d s) = revisions s"
  using define_keeps [of num now _ _ s] by (auto simp: learn_def Let_def split: sum.split)

lemma learn_run_keeps:
  "committed (foldl (learn_op num now) s xs) = committed s \<and> previous (foldl (learn_op num now) s xs) = previous s
    \<and> layers (foldl (learn_op num now) s xs) = layers s \<and> revisions (foldl (learn_op num now) s xs) = revisions s"
proof (induction xs arbitrary: s)
  case (Cons x xs)
  then show ?case by (cases x) (simp_all add: learn_keeps)
qed simp

lemma write_learns:
  assumes "layers s \<noteq> []"
  shows "write_signal num dates now nowText p v d s
    = (learn num now p v d s)\<lparr>layers := layers (write_signal num dates now nowText p v d s)\<rparr>"
  using assms by (simp add: write_signal_def learn_def Let_def)

lemma tx_learns:
  assumes "n < length (layers s)" and "n < length (layers (tx_exec num dates now nowText s x))"
  shows "tx_exec num dates now nowText s x = (learn_op num now s x)\<lparr>layers := layers (tx_exec num dates now nowText s x)\<rparr>"
proof (cases x)
  case (Write p v d)
  with assms(1) show ?thesis using write_learns [of s num dates now nowText p v d] by fastforce
next
  case (Commit token)
  show ?thesis
  proof (cases "commitTransaction num now token s")
    case (Inr s')
    then show ?thesis
    proof (cases rule: commitTransaction_cases)
      case (outer m)
      then have "layers s' = []" by (simp add: commitEntries_def fold_commit_layers)
      with assms Commit Inr show ?thesis by simp
    qed (simp add: Commit Inr)
  qed (use Commit in simp)
qed (auto simp: beginTransaction_def rollbackTransaction_def split: sum.splits)

lemma tx_run_learns:
  assumes "n < length (layers s)"
    and "\<And>k. k \<le> length xs \<Longrightarrow> n < length (layers (foldl (tx_exec num dates now nowText) s (take k xs)))"
  shows "\<exists>L. foldl (tx_exec num dates now nowText) s xs = (foldl (learn_op num now) s xs)\<lparr>layers := L\<rparr>"
  using assms
proof (induction xs arbitrary: s)
  case (Cons x xs)
  let ?s = "tx_exec num dates now nowText s x"
  have deep: "n < length (layers ?s)" using Cons.prems(2) [of 1] by simp
  moreover have "n < length (layers (foldl (tx_exec num dates now nowText) ?s (take k xs)))" if "k \<le> length xs" for k
    using Cons.prems(2) [of "Suc k"] that by simp
  ultimately obtain L where "foldl (tx_exec num dates now nowText) ?s xs = (foldl (learn_op num now) ?s xs)\<lparr>layers := L\<rparr>"
    using Cons.IH [of ?s] by blast
  moreover obtain M where "?s = (learn_op num now s x)\<lparr>layers := M\<rparr>" using tx_learns [OF Cons.prems(1) deep] by blast
  ultimately show ?case by (auto simp: learn_run_layers)
next
  case Nil
  have "s = s\<lparr>layers := layers s\<rparr>" by simp
  then show ?case by (metis foldl_Nil)
qed

lemma learn_declared: "declared s x \<Longrightarrow> learn_op num now s x = s"
  by (cases x) (auto simp: learn_def Let_def split: option.splits)

lemma learn_run_declared: "list_all (declared s) xs \<Longrightarrow> foldl (learn_op num now) s xs = s"
  by (induction xs) (simp_all add: learn_declared)

lemma record_descriptors: "descriptors (recordDescriptor num now c d s) = AList.update (sd_path d) d (descriptors s)"
  by (simp add: recordDescriptor_def emitTelemetryEvent_def Let_def)

lemma define_descriptors:
  assumes "defineSignal num now p d s = Inr s'"
  obtains n where "sd_path n = normalizeSignalPath p" and "descriptors s' = AList.update (normalizeSignalPath p) n (descriptors s)"
proof -
  from assms have "\<exists>current n. s' = recordDescriptor num now current n s \<and> sd_path n = normalizeSignalPath p"
    unfolding defineSignal_def Let_def by (cases "normalizeSignalPath p = []") (simp, simp only: if_False sum.inject, force)
  then show thesis using that by (auto simp: record_descriptors)
qed

lemma learn_descriptors:
  "map_has (descriptors s) q \<Longrightarrow> map_has (descriptors (learn num now p v d s)) q"
  "normalizeSignalPath p \<noteq> [] \<Longrightarrow> map_has (descriptors (learn num now p v d s)) (normalizeSignalPath p)"
proof -
  let ?path = "normalizeSignalPath p"
  obtain T where T: "T = or_text (o_type d) (or_text (map_option sd_type (map_of (descriptors s) ?path)) (inferSignalType v))" by blast
  have unfold: "learn num now p v d s = (if ?path = [] \<or> map_option sd_type (map_of (descriptors s) ?path) = Some T then s
      else (case defineSignal num now ?path (with_descriptor d T (o_logClass d) None) s of Inl _ \<Rightarrow> s | Inr s' \<Rightarrow> s'))"
    unfolding learn_def Let_def T by (cases "?path = []") (simp_all only: if_True if_False simp_thms)
  consider (same) "learn num now p v d s = s" "?path = [] \<or> map_has (descriptors s) ?path"
    | (defined) n where "descriptors (learn num now p v d s) = AList.update ?path n (descriptors s)"
  proof (cases "?path = [] \<or> map_option sd_type (map_of (descriptors s) ?path) = Some T")
    case True
    then show thesis by (intro same) (auto simp: unfold)
  next
    case False
    obtain s' where s': "defineSignal num now ?path (with_descriptor d T (o_logClass d) None) s = Inr s'"
      using False unfolding defineSignal_def Let_def by simp
    have "learn num now p v d s = s'" using False by (auto simp: unfold s')
    with s' show thesis by (elim define_descriptors) (simp add: defined)
  qed
  note outcome = this
  show "map_has (descriptors s) q \<Longrightarrow> map_has (descriptors (learn num now p v d s)) q"
  proof (rule outcome)
    fix n
    assume "map_has (descriptors s) q" and eq: "descriptors (learn num now p v d s) = AList.update ?path n (descriptors s)"
    then show ?thesis unfolding eq update_conv by (simp only: fun_upd_apply split: if_split) blast
  qed simp
  show "?path \<noteq> [] \<Longrightarrow> map_has (descriptors (learn num now p v d s)) ?path"
  proof (rule outcome)
    fix n
    assume eq: "descriptors (learn num now p v d s) = AList.update ?path n (descriptors s)"
    show ?thesis unfolding eq update_conv by simp
  next
    assume "?path \<noteq> []" and "learn num now p v d s = s" "?path = [] \<or> map_has (descriptors s) ?path"
    then show ?thesis by (simp only: simp_thms)
  qed
qed

lemma learn_run_descriptors:
  "(map_has (descriptors s) q \<longrightarrow> map_has (descriptors (foldl (learn_op num now) s xs)) q)
    \<and> (Write p v d \<in> set xs \<longrightarrow> normalizeSignalPath p \<noteq> []
        \<longrightarrow> map_has (descriptors (foldl (learn_op num now) s xs)) (normalizeSignalPath p))"
proof (induction xs arbitrary: s q)
  case (Cons x xs)
  have "map_has (descriptors (learn_op num now s x)) q" if "map_has (descriptors s) q" for q
    using that learn_descriptors(1) by (cases x) simp_all
  then show ?case using Cons learn_descriptors(2) [of p num now v d s] by auto
qed simp

section \<open>Properties\<close>

text \<open>
  C14. Committing everything that is open publishes, for every path, exactly what the pending snapshot shows for it (the
  innermost write wins), whatever the nesting of transactions was: other signals keep their entries, each written
  signal's revision rises by one however often it was written, and nothing stays open.
\<close>

theorem commit_publishes_pending:
  assumes "layers s0 = []" and "s = foldl (tx_exec num dates now nowText) s0 xs"
  shows "map_of (committed (commit_all num now s)) q =
      (case map_of (pendingSnapshot s) q of Some e \<Rightarrow> Some e | None \<Rightarrow> map_of (committed s) q)
    \<and> revision_count (commit_all num now s) q = revision_count s q + (if map_has (pendingSnapshot s) q then 1 else 0)
    \<and> layers (commit_all num now s) = []"
proof -
  have "layers_ok s0" using assms(1) by (simp add: layers_ok_def)
  then have "layers_ok s" unfolding assms(2) by (rule signals.run_inv)
  then show ?thesis using commit_all_effect [of s num now q] by (simp add: pending_snapshot)
qed

definition plain_options :: signal_options where
  "plain_options = \<lparr>o_type = None, o_unit = None, o_source = None, o_category = None, o_replayRole = None, o_logClass = None,
    o_retention = None, o_description = None, o_historyOff = False, o_timeUs = None, o_cycle = None, o_staleAfter = None,
    o_maxSamples = None, o_updatedAt = None\<rparr>"

definition sample_store :: signal_store where
  "sample_store = new_SignalStore 1000 2 4 []"

definition sample_exec :: "signal_store \<Rightarrow> tx_op list \<Rightarrow> signal_store" where
  "sample_exec s xs = foldl (tx_exec (\<lambda>_. None) (\<lambda>_. None) 7 ''now'') s xs"

definition nested_writes :: "tx_op list" where
  "nested_writes = [Write ''a'' (JString ''one'') plain_options, Begin, Write '' a '' (JString ''two'') plain_options,
    Write ''b'' (JBool True) plain_options, Commit 1]"

theorem commit_publishes_pending_witness:
  "map_option en_value (map_of (committed (commit_all (\<lambda>_. None) 7 (sample_exec sample_store nested_writes))) ''a'') = Some (JString ''two'')
    \<and> revision_count (commit_all (\<lambda>_. None) 7 (sample_exec sample_store nested_writes)) ''a'' = 1"
proof -
  have "layers sample_store = []" by code_simp
  note published = commit_publishes_pending [OF this, where ?num = "\<lambda>_. None" and ?xs = nested_writes and q = "''a''", OF sample_exec_def]
  have "map_option en_value (map_of (pendingSnapshot (sample_exec sample_store nested_writes)) ''a'') = Some (JString ''two'')"
      "map_has (pendingSnapshot (sample_exec sample_store nested_writes)) ''a''"
      "revision_count (sample_exec sample_store nested_writes) ''a'' = 0" by code_simp+
  with published show ?thesis by (auto split: option.splits)
qed


definition typed_options :: signal_options where
  "typed_options = plain_options\<lparr>o_type := Some ''string''\<rparr>"

definition discarded_writes :: "tx_op list" where
  "discarded_writes = [Write ''a'' (JString ''three'') typed_options, Begin, Write ''c'' (JBool False) plain_options, Commit 2]"

definition one_open :: signal_store where
  "one_open = sample_exec sample_store [Write ''a'' (JBool True) plain_options]"


text \<open>
  C15. The ring that keeps a signal's history refines a window: after any samples the history is what the abstract
  window makes of them, an end of the samples no longer than the limit that starts no earlier than the duration before
  the newest, and the ring holds at most sixteen samples more.
\<close>

theorem history_refines_window:
  assumes "windowed p s" and "map_of (rings s) p = None"
    and "\<forall>c \<in> set cs. \<not> heavy_value num (en_value (snd c)) \<and> en_timeUs (snd c) \<noteq> None"
    and "cs \<noteq> []" and "t = foldl (add_sample num p) s cs"
  shows "history p t = foldl (window_step (historySampleLimit s) (historyDurationUs s)) [] (map snd cs)
    \<and> (\<exists>older. map snd cs = older @ history p t) \<and> length (history p t) \<le> historySampleLimit s
    \<and> (history p t = [] \<or> max 0 (entry_time (snd (last cs)) - historyDurationUs s) \<le> entry_time (hd (history p t)))
    \<and> length (ring_items (ring_of p t)) \<le> historySampleLimit s + 16"
proof -
  note ring = samples_window [OF assms(1-3), folded assms(5)]
  have hist: "history p t = active (ring_of p t)" using ring by (intro history_windowed) simp
  have "map snd cs = map snd (butlast cs) @ [snd (last cs)]" using assms(4) by (metis append_butlast_last_id list.simps(9) map_append map_is_Nil_conv)
  then have eq: "history p t = foldl (window_step (historySampleLimit s) (historyDurationUs s)) [] (map snd (butlast cs) @ [snd (last cs)])"
    using ring hist by simp
  note bounds = window_bounds [OF eq]
  show ?thesis
    using ring hist bounds ring_items_bound [of "ring_of p t"] \<open>map snd cs = _\<close> by auto
qed

definition sample_at :: "int \<Rightarrow> signal_entry" where
  "sample_at t = createSignalEntry (JBool True) ''boolean'' ''now'' (Some t) plain_options"

theorem history_refines_window_witness:
  "history ''a'' (foldl (add_sample (\<lambda>_. None) ''a'') sample_store [(0, sample_at 5), (0, sample_at 2000), (0, sample_at 2900), (0, sample_at 3500)])
    = [sample_at 2900, sample_at 3500]"
proof -
  let ?cs = "[(0, sample_at 5), (0, sample_at 2000), (0, sample_at 2900), (0, sample_at 3500)]"
  have hyps: "windowed ''a'' sample_store" "map_of (rings sample_store) ''a'' = None"
      "\<forall>c \<in> set ?cs. \<not> heavy_value (\<lambda>_. None) (en_value (snd c)) \<and> en_timeUs (snd c) \<noteq> None" "?cs \<noteq> []"
    by code_simp+
  have "foldl (window_step (historySampleLimit sample_store) (historyDurationUs sample_store)) [] (map snd ?cs)
      = [sample_at 2900, sample_at 3500]" by code_simp
  with history_refines_window [OF hyps refl] show ?thesis by simp
qed

end
