(* ===== verification/Spec2Isabelle.thy ===== *)
theory Spec2Isabelle
  imports SeededRandom Ledgers Permits CacheRuns TopicQueue PacketHub CommandBus ScriptRunner TensorArena RouteFailures SignalStore
begin

text \<open>
  A verification library for the core of the simulator: its scripting language, its road network and routes, the
  environment editor's document and history, the signals and topics a run exchanges, the capture of sensor packets, the
  memory that is shared with other processes, and the budgets of the visual layer. Each theory models one module (or a
  few that belong together) of \<open>src/\<close> and proves what its callers rely on.

  \<^bold>\<open>Conventions.\<close> A class is a record of its fields and each method a function from the state to the new state; a method
  that can throw returns \<open>Inl error\<close> or \<open>Inr value\<close> (type \<open>result\<close> of \<open>Prelude\<close>). A \<open>Map\<close>, or an object used as one, is
  an association list in insertion order (\<open>js_map\<close>), because the code iterates in that order. \<open>Array.prototype.sort\<close> is
  the stable \<open>sort_by\<close> of \<open>JsSort\<close>, whose laws come from the locale \<open>comparator_laws\<close> that every comparator of the
  code interprets. An asynchronous method is cut at its awaits; the steps may then be interleaved with others. What lies
  outside the code (clocks, the file system, hashes, the classes of script blocks, number to text conversion) is an
  argument. Components that are driven by a sequence of operations interpret the locale \<open>driven\<close>.

  \<^bold>\<open>Numbers.\<close> 32-bit arithmetic uses \<open>32 word\<close>. Integer-valued JavaScript numbers are naturals; where they can pass
  \<open>2 ^ 53\<close> (the state of the random streams) they are rounded by \<open>round53\<close>, elsewhere the limits of the components keep
  them below. Lengths, costs and coordinates of roads are exact reals and numbers in signals exact rationals: rounding
  of fractions is not modelled, and tolerances such as \<open>EPSILON\<close> are kept where the code has them.

  \<^bold>\<open>Loops.\<close> Structural loops are \<open>fun\<close>. Loops that need an argument to end are \<open>partial_function (option)\<close> and shown
  to return: the root search of the union-find (\<open>UnionFind\<close>, on every map the operations build), the worklist of a loop
  region (\<open>LoopFrames\<close>), the search of a route (\<open>RoadGraph\<close>, by the states not yet reached and the sum of scores in
  steps of the tolerance, and with it every route and itinerary) and of an unused lane id. The compiler's search is given fuel, one more than there are blocks,
  which is enough because the path of blocks under visit has no repetition (\<open>CompilerReach\<close>).

  \<^bold>\<open>Scripts.\<close> \<open>ScriptTypes\<close> (\<open>app/scripting/types/PortTypes.js\<close>, \<open>TypeScheme.js\<close>) has ports and type variables;
  \<open>UnionFind\<close> and \<open>TypeUnify\<close> (\<open>unifyGraph.js\<close>) infer the types of generic blocks; \<open>ScriptGraph\<close> and \<open>ScriptEdits\<close>
  (\<open>ScriptManager.js\<close>) edit a script; \<open>LoopFrames\<close>, \<open>ScriptCompiler\<close>, \<open>CompilerReach\<close> and \<open>CompiledScripts\<close>
  (\<open>runtime/LoopFrames.js\<close>, \<open>runtime/Compiler.js\<close>) compile it; \<open>ScriptRunner\<close> (\<open>runtime/Runner.js\<close>) runs it. Shown:
  inference finds a most general typing exactly when there is one; a script stays well typed and its connections are
  kept alike at both ends by every edit; the compiler takes exactly the blocks the outputs pull and explains every
  error; an evaluation on demand returns what the program means, whatever was remembered before.

  \<^bold>\<open>Roads.\<close> \<open>RoadLanes\<close> (\<open>app/roads/RoadLaneModel.js\<close>) has lanes, \<open>RoadGraph\<close> (\<open>app/scenarios/route/roadGraph.js\<close>)
  the directed graph and the search for a legal route, \<open>RoadPlaces\<close> (same file) the spatial index and the projection of
  points, \<open>RoadRoutes\<close> (same file) the candidates of a section, their lanes, the failures and the staged itinerary,
  \<open>Itineraries\<close> and \<open>RouteFailures\<close> what they promise. Shown: normalizing a layout keeps its lanes and is idempotent
  where valid; the search always returns, a legal route that is cheapest up to the tolerance, or none when there is
  none; the index changes no projection; an itinerary always returns, and what it returns can be driven, in legal lanes
  and through allowed turns, waypoints included; how a failure is named when a road is one-way by its lanes.

  \<^bold>\<open>Editor.\<close> \<open>ChangeSets\<close> (\<open>app/3d/editor/document/\<close>) records, inverts and applies changes of the environment
  document; \<open>CommandBus\<close> (\<open>app/3d/editor/commands/\<close>) is its only mutation path, with history and gestures. Shown:
  applying a change set forward and back, and undo and redo after any session, restore the document; what a failing
  command leaves behind.

  \<^bold>\<open>Signals and topics.\<close> \<open>SignalStore\<close> (\<open>app/scripting/runtime/SignalStore.js\<close>) holds the signals with their histories
  and transactions, \<open>TopicQueue\<close> (\<open>app/simulation/TopicInputQueue.js\<close>) the messages waiting for a step. Both judge a
  payload by the same \<open>isHeavyValue\<close>. Shown: what nested transactions publish or discard, that a history is a window in
  bounded memory, and the bounds and order of the queue.

  \<^bold>\<open>Packets and tensors.\<close> \<open>PcapEncoder\<close> and \<open>PacketHub\<close> (\<open>server/sensor-transports/\<close>) encode and write captures;
  \<open>TensorArena\<close> (\<open>server/headless/SharedTensorArena.js\<close>) hands tensors to another process. Shown: frames, records and
  tensors read back; files and their digests agree; a stale release takes a newer tensor away.

  \<^bold>\<open>Budgets and determinism.\<close> \<open>Ledgers\<close> and \<open>Permits\<close> (\<open>app/3d/environment/\<close>, \<open>server/storage/visual-assets/\<close>)
  bound bytes and concurrency, \<open>ResourceCache\<close> and \<open>CacheRuns\<close> (\<open>visual/VisualResourceCache.js\<close>) evict leased
  resources under a ledger, \<open>SeededRandom\<close> (\<open>app/util/SeededRNG.js\<close>, \<open>app/plugin/PluginRandom.js\<close>) and \<open>JsText\<close>
  (\<open>app/math/compareUtf8.js\<close>) are what runs draw and order by. Shown: ceilings and limits hold under every
  interleaving, waiters make progress, restored streams continue.

  \<^bold>\<open>Not modelled.\<close> Rendering, user interface, storage, servers and the marketplace: their code is calls into libraries,
  the file system, the network and the GPU, or documents that only other code reads. Simulation kernels, sensors and
  physics: floating-point arithmetic whose rounding is the point. Road geometry of version 2: curves and surfaces in
  floating point. Inside the modelled modules the header of each theory names what is left out.
\<close>

end
